(* ===== verification/Prelude.thy ===== *)
theory Prelude
  imports Main "HOL-Library.Word"
begin

text \<open>
  What the components share: the collections of simplification rules, the names of the
  basic types, and the lemmas on arrays and integers that the component proofs rest on.

  A JavaScript typed array is a list whose length never changes. Writing an element beyond
  its end is ignored, which is exactly what \<open>xs[i := v]\<close> does; reading beyond the end
  gives \<open>undefined\<close>, so the models read an element only behind the guards of the code.
  The bitwise operators of JavaScript convert their operands to 32 bits, which is the
  ring homomorphism \<open>of_nat\<close> into 32-bit words.
\<close>

unbundle bit_operations_syntax

named_theorems array_simps "reading and writing the elements of arrays"
named_theorems fold_laws "how a fold of a code point appends to a buffer"
named_theorems span_simps "the spans that a pattern or a plan matches in a value"

type_synonym code_point = nat
type_synonym u32 = "32 word"
type_synonym js_string = "nat list"

section \<open>Arrays\<close>

lemma nth_update_other [array_simps]: "i \<noteq> j \<Longrightarrow> xs[i := v] ! j = xs ! j"
  by simp

lemma nth_update_same [array_simps]: "i < length xs \<Longrightarrow> xs[i := v] ! i = v"
  by simp

lemma update_beyond [array_simps]: "length xs \<le> i \<Longrightarrow> xs[i := v] = xs"
  by (rule list_update_beyond)

section \<open>Indices of 32-bit arrays of bits\<close>

text \<open>\<open>n >>> 5\<close> and \<open>n & 31\<close> on a JavaScript number: both read the number modulo \<open>2^32\<close>.\<close>

definition shift5 :: "nat \<Rightarrow> nat" where
  "shift5 n = unat (drop_bit 5 (of_nat n :: u32))"

definition low5 :: "nat \<Rightarrow> nat" where
  "low5 n = unat ((of_nat n :: u32) AND 31)"

lemma shift5_div: "n < 2 ^ 32 \<Longrightarrow> shift5 n = n div 32"
  by (simp only: shift5_def unat_drop_bit_eq drop_bit_eq_div [where 'a = nat])
    (simp add: unat_of_nat)

lemma low5_mod: "low5 n = n mod 32"
proof -
  have "(31 :: u32) = mask 5"
    by (simp add: mask_eq_exp_minus_1)
  then have "(of_nat n :: u32) AND 31 = take_bit 5 (of_nat n)"
    by (simp add: take_bit_eq_mask)
  then have "low5 n = take_bit 5 (unat (of_nat n :: u32))"
    by (simp add: low5_def unsigned_take_bit_eq)
  also have "\<dots> = (n mod 2 ^ 32) mod 32"
    by (simp add: take_bit_eq_mod unat_of_nat)
  also have "\<dots> = n mod 32"
    by (rule mod_mod_cancel) simp
  finally show ?thesis .
qed

lemma less_by_words:
  "(i :: nat) < c \<longleftrightarrow> i div 32 < c div 32 \<or> i div 32 = c div 32 \<and> i mod 32 < c mod 32"
proof -
  have "i = 32 * (i div 32) + i mod 32" "c = 32 * (c div 32) + c mod 32"
    "i mod 32 < 32" "c mod 32 < 32"
    by simp_all
  then show ?thesis
    by (cases "i div 32" "c div 32" rule: linorder_cases) linarith+
qed

lemma low5_less [simp]: "low5 n < 32"
  by (simp add: low5_mod)

lemma shift5_low5_inj:
  "i < 2 ^ 32 \<Longrightarrow> j < 2 ^ 32 \<Longrightarrow> shift5 i = shift5 j \<Longrightarrow> low5 i = low5 j \<Longrightarrow> i = j"
  by (metis div_mult_mod_eq low5_mod shift5_div)

section \<open>Folds\<close>

lemma foldl_invariant:
  "I s \<Longrightarrow> (\<And>s x. x \<in> set xs \<Longrightarrow> I s \<Longrightarrow> I (f s x)) \<Longrightarrow> I (foldl f s xs)"
  by (induction xs arbitrary: s) simp_all

end
