(* ===== verification/Bitset.thy ===== *)
theory Bitset
  imports Prelude
begin

text \<open>
  \<open>core/bitset.ts\<close>: sets of document ordinals as arrays of 32-bit words. Every operation of
  the file is here, over lists of 32-bit words. The abstraction \<open>members\<close> is the set of
  indices that \<open>bitsetHas\<close> accepts; the lemmas say which set operation each function
  computes, also for operands of different lengths, and that the two ways of listing the
  members (\<open>bitsetIterator\<close>, \<open>bitsetToSet\<close>) list exactly them in ascending order.
\<close>

type_synonym bitset = "u32 list"

section \<open>Single members\<close>

definition createBitSet :: "nat \<Rightarrow> bitset" where
  "createBitSet capacity =
     (let words = shift5 (capacity + 31) in replicate (if words = 0 then 1 else words) 0)"

definition bitsetSet :: "bitset \<Rightarrow> nat \<Rightarrow> bitset" where
  "bitsetSet bs index =
     (let word = shift5 index
      in if word < length bs then bs[word := bs ! word OR push_bit (low5 index) 1] else bs)"

definition bitsetClear :: "bitset \<Rightarrow> nat \<Rightarrow> bitset" where
  "bitsetClear bs index =
     (let word = shift5 index
      in if word < length bs then bs[word := bs ! word AND NOT (push_bit (low5 index) 1)] else bs)"

definition bitsetHas :: "bitset \<Rightarrow> nat \<Rightarrow> bool" where
  "bitsetHas bs index =
     (let word = shift5 index
      in if length bs \<le> word then False else bs ! word AND push_bit (low5 index) 1 \<noteq> 0)"

section \<open>Operations on whole sets\<close>

definition bitsetAnd :: "bitset \<Rightarrow> bitset \<Rightarrow> bitset" where
  "bitsetAnd a b = map (\<lambda>i. a ! i AND b ! i) [0..<min (length a) (length b)]"

definition bitsetOr :: "bitset \<Rightarrow> bitset \<Rightarrow> bitset" where
  "bitsetOr a b =
     (let longer = (if length b \<le> length a then a else b);
          shorter = (if length b \<le> length a then b else a)
      in map (\<lambda>i. if i < length shorter then longer ! i OR shorter ! i else longer ! i)
           [0..<length longer])"

definition bitsetAndInto :: "bitset \<Rightarrow> bitset \<Rightarrow> bitset" where
  "bitsetAndInto target other =
     (let shared = min (length target) (length other)
      in map (\<lambda>i. if i < shared then target ! i AND other ! i else 0) [0..<length target])"

definition bitsetOrInto :: "bitset \<Rightarrow> bitset \<Rightarrow> bitset" where
  "bitsetOrInto target other =
     (let shared = min (length target) (length other)
      in map (\<lambda>i. if i < shared then target ! i OR other ! i else target ! i) [0..<length target])"

definition bitsetAndNotInto :: "bitset \<Rightarrow> bitset \<Rightarrow> bitset" where
  "bitsetAndNotInto target removed =
     (let shared = min (length target) (length removed)
      in map (\<lambda>i. if i < shared then target ! i AND NOT (removed ! i) else target ! i)
           [0..<length target])"

definition bitsetNot :: "bitset \<Rightarrow> nat \<Rightarrow> bitset" where
  "bitsetNot bs capacity =
     (let fullWords = shift5 capacity; remainder = low5 capacity
      in map (\<lambda>i. if i < fullWords then NOT (bs ! i)
                  else if i = fullWords \<and> 0 < remainder
                  then NOT (bs ! i) AND (push_bit remainder 1 - 1)
                  else 0) [0..<length bs])"

definition bitsetIsEmpty :: "bitset \<Rightarrow> bool" where
  "bitsetIsEmpty bs = list_all (\<lambda>w. w = 0) bs"

section \<open>Listing the members\<close>

text \<open>\<open>Math.clz32\<close>: the number of zero bits above the highest set bit.\<close>

definition clz32 :: "u32 \<Rightarrow> nat" where
  "clz32 w = length (takeWhile (\<lambda>n. \<not> bit w n) (rev [0..<32]))"

text \<open>
  The inner loop \<open>while (word !== 0)\<close>: the lowest set bit is listed and removed. Each turn
  removes a bit, so the word gets smaller.
\<close>

lemma clear_lowest_less: "w \<noteq> 0 \<Longrightarrow> w AND (w - 1) < (w :: u32)"
proof -
  assume "w \<noteq> 0"
  then have "w - 1 < w"
    by (simp add: word_less_nat_alt unat_minus_one unat_gt_0)
  with word_and_le1 [of w "w - 1"] show ?thesis
    by (meson order_le_less_trans)
qed

function wordMembers :: "nat \<Rightarrow> u32 \<Rightarrow> nat list" where
  "wordMembers base word =
     (if word = 0 then []
      else (base + (clz32 (word AND - word) XOR 31)) # wordMembers base (word AND (word - 1)))"
  by pat_completeness auto
termination
  by (relation "measure (\<lambda>(base, word). unat word)")
    (auto simp: word_less_nat_alt [symmetric] clear_lowest_less)

declare wordMembers.simps [simp del]

definition bitsetIterator :: "bitset \<Rightarrow> nat list" where
  "bitsetIterator bs =
     concat (map (\<lambda>i. let word = bs ! i in if word = 0 then [] else wordMembers (32 * i) word)
       [0..<length bs])"

definition bitsetFromSet :: "nat list \<Rightarrow> nat \<Rightarrow> bitset" where
  "bitsetFromSet ids capacity =
     fold (\<lambda>i bs. bs[shift5 i := bs ! shift5 i OR push_bit (low5 i) 1]) ids (createBitSet capacity)"

definition bitsetToSet :: "bitset \<Rightarrow> nat set" where
  "bitsetToSet bs = set (bitsetIterator bs)"

section \<open>What each operation computes\<close>

definition members :: "bitset \<Rightarrow> nat set" where
  "members bs = {i. i < 2 ^ 32 \<and> bitsetHas bs i}"

lemma bit_one_shifted: "m < 32 \<Longrightarrow> bit (2 ^ m :: u32) n \<longleftrightarrow> m = n"
  by (auto simp: bit_exp_iff)

lemma and_bit_nonzero: "n < 32 \<Longrightarrow> (w :: u32) AND 2 ^ n \<noteq> 0 \<longleftrightarrow> bit w n"
  by (auto simp: bit_eq_iff [where 'a = u32] bit_and_iff bit_one_shifted)

lemma has_iff: "bitsetHas bs i \<longleftrightarrow> shift5 i < length bs \<and> bit (bs ! shift5 i) (low5 i)"
  by (auto simp: bitsetHas_def Let_def and_bit_nonzero)

lemma length_bitsetSet [simp]: "length (bitsetSet bs i) = length bs"
  by (simp add: bitsetSet_def Let_def)

lemma has_set_raw:
  "bitsetHas (bitsetSet bs i) j \<longleftrightarrow>
     bitsetHas bs j \<or> shift5 i = shift5 j \<and> low5 i = low5 j \<and> shift5 i < length bs"
  by (auto simp: has_iff bitsetSet_def Let_def nth_list_update bit_or_iff bit_one_shifted)

lemma has_set:
  "i < 2 ^ 32 \<Longrightarrow> j < 2 ^ 32 \<Longrightarrow>
     bitsetHas (bitsetSet bs i) j \<longleftrightarrow> bitsetHas bs j \<or> i = j \<and> shift5 i < length bs"
  using shift5_low5_inj by (auto simp: has_set_raw)

lemma has_clear:
  "i < 2 ^ 32 \<Longrightarrow> j < 2 ^ 32 \<Longrightarrow>
     bitsetHas (bitsetClear bs i) j \<longleftrightarrow> bitsetHas bs j \<and> i \<noteq> j"
  using shift5_low5_inj
  by (auto simp: has_iff bitsetClear_def Let_def nth_list_update bit_and_iff bit_not_iff
      bit_one_shifted)

lemma has_and: "bitsetHas (bitsetAnd a b) i \<longleftrightarrow> bitsetHas a i \<and> bitsetHas b i"
  by (auto simp: has_iff bitsetAnd_def bit_and_iff)

lemma has_or: "bitsetHas (bitsetOr a b) i \<longleftrightarrow> bitsetHas a i \<or> bitsetHas b i"
  by (auto simp: has_iff bitsetOr_def Let_def bit_or_iff split: if_splits)

lemma has_and_into: "bitsetHas (bitsetAndInto a b) i \<longleftrightarrow> bitsetHas a i \<and> bitsetHas b i"
  by (auto simp: has_iff bitsetAndInto_def Let_def bit_and_iff split: if_splits)

lemma has_or_into:
  "bitsetHas (bitsetOrInto a b) i \<longleftrightarrow> bitsetHas a i \<or> bitsetHas b i \<and> shift5 i < length a"
  by (auto simp: has_iff bitsetOrInto_def Let_def bit_or_iff split: if_splits)

lemma has_and_not_into:
  "bitsetHas (bitsetAndNotInto a b) i \<longleftrightarrow> bitsetHas a i \<and> \<not> bitsetHas b i"
  by (auto simp: has_iff bitsetAndNotInto_def Let_def bit_and_iff bit_not_iff split: if_splits)

lemma has_not:
  "capacity < 2 ^ 32 \<Longrightarrow> i < 2 ^ 32 \<Longrightarrow>
     bitsetHas (bitsetNot bs capacity) i \<longleftrightarrow>
       shift5 i < length bs \<and> i < capacity \<and> \<not> bitsetHas bs i"
proof -
  assume c: "capacity < 2 ^ 32" and i: "i < 2 ^ 32"
  have m: "2 ^ r - 1 = (mask r :: u32)" for r
    by (simp add: mask_eq_exp_minus_1)
  have lt: "i < capacity \<longleftrightarrow> shift5 i < shift5 capacity \<or> shift5 i = shift5 capacity \<and> low5 i < low5 capacity"
    unfolding shift5_div [OF c] shift5_div [OF i] low5_mod by (rule less_by_words)
  show ?thesis
    by (cases "shift5 i < length bs")
      (auto simp: has_iff bitsetNot_def Let_def m bit_and_iff bit_not_iff bit_mask_iff lt)
qed

lemma has_empty: "bitsetIsEmpty bs \<Longrightarrow> \<not> bitsetHas bs i"
  by (auto simp: has_iff bitsetIsEmpty_def list_all_length)

lemma members_set: "i < 2 ^ 32 \<Longrightarrow> shift5 i < length bs \<Longrightarrow> members (bitsetSet bs i) = insert i (members bs)"
  by (auto simp: members_def has_set)

section \<open>Listing is exact and ascending\<close>

text \<open>The lowest set bit of a word, and what the loop does with it.\<close>

definition lowest :: "u32 \<Rightarrow> nat" where
  "lowest w = (LEAST n. bit w n)"

lemma lowest_bit: "w \<noteq> 0 \<Longrightarrow> bit w (lowest w)"
  unfolding lowest_def by (rule LeastI_ex) (auto simp: bit_eq_iff [where 'a = u32])

lemma lowest_le: "bit w n \<Longrightarrow> lowest w \<le> n"
  unfolding lowest_def by (rule Least_le)

lemma lowest_less: "w \<noteq> 0 \<Longrightarrow> lowest w < 32"
  using lowest_bit [of w] bit_imp_le_length [of w "lowest w"] by simp

lemma split_at_lowest:
  assumes "w \<noteq> 0"
  obtains u where "w = push_bit (lowest w) u" and "odd u"
proof
  show eq: "w = push_bit (lowest w) (drop_bit (lowest w) w)"
  proof (rule bit_word_eqI)
    fix n
    show "bit w n = bit (push_bit (lowest w) (drop_bit (lowest w) w)) n" if "n < LENGTH(32)"
      using that lowest_le [of w n] by (auto simp: bit_push_bit_iff bit_drop_bit_eq)
  qed
  show "odd (drop_bit (lowest w) w)"
    using lowest_bit [OF assms] by (simp add: bit_iff_odd_drop_bit)
qed

lemma odd_and_minus: "odd (u :: u32) \<Longrightarrow> u AND - u = 1"
proof -
  assume "odd u"
  then have "u mod 2 = 1"
    by (simp only: odd_iff_mod_2_eq_one)
  with mult_div_mod_eq [of 2 u] have "2 * (u div 2) = u - 1"
    by (metis add_diff_cancel_right')
  then have "u - 1 = unset_bit 0 u"
    by (simp only: unset_bit_0)
  then have "- u = NOT (unset_bit 0 u)"
    by (simp add: minus_eq_not_minus_1)
  with \<open>odd u\<close> show ?thesis
    by (auto intro!: bit_word_eqI simp: bit_and_iff bit_not_iff bit_unset_bit_iff bit_1_iff bit_0
        even_and_iff even_not_iff even_unset_bit_iff)
qed

lemma and_minus: "w \<noteq> 0 \<Longrightarrow> w AND - w = 2 ^ lowest w"
proof -
  assume "w \<noteq> 0"
  then obtain u where u: "w = push_bit (lowest w) u" and "odd u"
    by (rule split_at_lowest)
  define k where "k = lowest w"
  from u have "w = push_bit k u"
    by (simp add: k_def)
  then have "w AND - w = push_bit k (u AND - u)"
    by (simp only: push_bit_and push_bit_minus)
  also have "\<dots> = 2 ^ lowest w"
    using odd_and_minus [OF \<open>odd u\<close>] by (simp add: k_def)
  finally show ?thesis .
qed

lemma bit_clear_lowest: "w \<noteq> 0 \<Longrightarrow> bit (w AND (w - 1)) n \<longleftrightarrow> bit w n \<and> n \<noteq> lowest w"
proof -
  assume w: "w \<noteq> 0"
  have "w AND (w - 1) = w AND NOT (w AND - w)"
    by (simp add: minus_eq_not_minus_1 bit.conj_disj_distrib)
  with lowest_less [OF w] show ?thesis
    by (auto simp: and_minus [OF w] bit_and_iff bit_not_iff bit_one_shifted
        dest: bit_imp_le_length)
qed

lemma clz32_power: "n < 32 \<Longrightarrow> clz32 (2 ^ n) XOR 31 = n"
proof -
  assume "n < 32"
  then have "n \<in> set [0..<32]"
    by simp
  moreover have "\<forall>n \<in> set [0..<32]. clz32 (2 ^ n) XOR 31 = n"
    by code_simp
  ultimately show ?thesis
    by blast
qed

lemma wordMembers_unfold:
  "w \<noteq> 0 \<Longrightarrow> wordMembers base w = (base + lowest w) # wordMembers base (w AND (w - 1))"
  by (subst wordMembers.simps) (simp add: and_minus clz32_power lowest_less)

lemma wordMembers_correct:
  "set (wordMembers base w) = (+) base ` {n. bit w n} \<and> sorted_wrt (<) (wordMembers base w)"
proof (induction base w rule: wordMembers.induct)
  case (1 base w)
  show ?case
  proof (cases "w = 0")
    case True
    then show ?thesis by (simp add: wordMembers.simps)
  next
    case False
    let ?v = "w AND (w - 1)"
    from 1 False have IH: "set (wordMembers base ?v) = (+) base ` {n. bit ?v n}"
      "sorted_wrt (<) (wordMembers base ?v)"
      by auto
    have bits: "{n. bit w n} = insert (lowest w) {n. bit ?v n}"
      using lowest_bit [OF False] by (auto simp: bit_clear_lowest [OF False])
    have "\<forall>n. bit ?v n \<longrightarrow> lowest w < n"
      using lowest_le by (auto simp: bit_clear_lowest [OF False] order_less_le)
    with IH bits show ?thesis
      by (auto simp: wordMembers_unfold [OF False])
  qed
qed

lemma iterator_word:
  "set (let word = bs ! i in if word = 0 then [] else wordMembers (32 * i) word)
     = (+) (32 * i) ` {n. bit (bs ! i) n}"
  "sorted_wrt (<) (let word = bs ! i in if word = 0 then [] else wordMembers (32 * i) word)"
  using wordMembers_correct [of "32 * i" "bs ! i"] by (auto simp: Let_def)

lemma sorted_wrt_concat_blocks:
  assumes "\<And>i. i < n \<Longrightarrow> sorted_wrt (<) (f i) \<and> set (f i) \<subseteq> {32 * i..<32 * Suc i}"
  shows "sorted_wrt (<) (concat (map f [0..<n]) :: nat list)"
  using assms
proof (induction n)
  case 0
  then show ?case by simp
next
  case (Suc n)
  have "x < y" if "x \<in> set (f i)" "i < n" "y \<in> set (f n)" for x y i
  proof -
    have "x < 32 * Suc i" "32 * n \<le> y"
      using that Suc.prems [of i] Suc.prems [of n] by auto
    moreover have "32 * Suc i \<le> 32 * n"
      using that by simp
    ultimately show ?thesis by linarith
  qed
  with Suc show ?case
    by (auto simp: sorted_wrt_append)
qed

lemma bitsetIterator_sorted: "sorted_wrt (<) (bitsetIterator bs)"
  unfolding bitsetIterator_def
proof (rule sorted_wrt_concat_blocks)
  fix i
  show "sorted_wrt (<) (let word = bs ! i in if word = 0 then [] else wordMembers (32 * i) word) \<and>
    set (let word = bs ! i in if word = 0 then [] else wordMembers (32 * i) word) \<subseteq> {32 * i..<32 * Suc i}"
    using iterator_word by (auto dest!: bit_imp_le_length)
qed

lemma set_bitsetIterator: "length bs \<le> 2 ^ 27 \<Longrightarrow> set (bitsetIterator bs) = members bs"
proof -
  assume len: "length bs \<le> 2 ^ 27"
  have "x \<in> set (bitsetIterator bs) \<longleftrightarrow> (\<exists>i < length bs. \<exists>n. bit (bs ! i) n \<and> x = 32 * i + n)" for x
    unfolding bitsetIterator_def set_concat set_map by (auto simp: iterator_word)
  moreover have "(\<exists>i < length bs. \<exists>n. bit (bs ! i) n \<and> x = 32 * i + n) \<longleftrightarrow> x \<in> members bs" for x
  proof
    assume "\<exists>i < length bs. \<exists>n. bit (bs ! i) n \<and> x = 32 * i + n"
    then obtain i n where i: "i < length bs" and b: "bit (bs ! i) n" and x: "x = 32 * i + n"
      by blast
    from b have n: "n < 32"
      using bit_imp_le_length by force
    from i n len x have "x < 2 ^ 32" by simp
    moreover from this i n x b have "bitsetHas bs x"
      by (simp add: has_iff shift5_div low5_mod)
    ultimately show "x \<in> members bs"
      by (simp add: members_def)
  next
    assume "x \<in> members bs"
    then have "x < 2 ^ 32" "shift5 x < length bs" "bit (bs ! shift5 x) (low5 x)"
      by (auto simp: members_def has_iff)
    then have "x div 32 < length bs \<and> bit (bs ! (x div 32)) (x mod 32) \<and> x = 32 * (x div 32) + x mod 32"
      by (simp add: shift5_div low5_mod)
    then show "\<exists>i < length bs. \<exists>n. bit (bs ! i) n \<and> x = 32 * i + n"
      by blast
  qed
  ultimately show ?thesis by blast
qed

end
