(* ===== verification/Pattern_Host.thy ===== *)
theory Pattern_Host
  imports Prelude
begin

text \<open>
  What the pattern search asks of the engine it runs in: \<open>PatternHost\<close> of
  \<open>core/pattern-index/types.ts\<close>, the host object of \<open>core/pattern-index/host.ts\<close>, the
  case folding behind it (\<open>core/ordering/fold-compare.ts\<close>, \<open>core/ordering/fold-table.ts\<close>)
  and \<open>pattern/fold-sources.ts\<close>, which reads the table of single folds backwards.

  The two tables of the source are packed strings of 1585 entries; \<open>singleFoldTable\<close> and
  \<open>multiFoldTable\<close> decode any packed string. Everything after them holds for every pair of
  tables that satisfies \<open>tables_ok\<close>, the documented shape of Unicode case folding: keys
  are unique, the two tables share no key, and what a code point folds to folds to itself.
\<close>

record host =
  appendFoldedCodePoint :: "code_point \<Rightarrow> code_point list \<Rightarrow> code_point list"
  singleFolds :: "(code_point \<times> code_point) list"

section \<open>The packed tables\<close>

text \<open>\<open>String.prototype.split\<close> with a one-character separator.\<close>

fun split_at_char :: "char \<Rightarrow> string \<Rightarrow> string list" where
  "split_at_char sep [] = [[]]"
| "split_at_char sep (c # cs) =
     (if c = sep then [] # split_at_char sep cs
      else (case split_at_char sep cs of [] \<Rightarrow> [[c]] | w # ws \<Rightarrow> (c # w) # ws))"

text \<open>\<open>Number.parseInt(text, 36)\<close> on an optional sign and lower-case digits.\<close>

definition digit36 :: "char \<Rightarrow> int" where
  "digit36 c =
     (let n = int (of_char c) in if 48 \<le> n \<and> n \<le> 57 then n - 48 else n - 87)"

definition parseInt36 :: "string \<Rightarrow> int" where
  "parseInt36 cs =
     (case cs of
        c # ds \<Rightarrow> if c = CHR ''-'' then - foldl (\<lambda>n d. 36 * n + digit36 d) 0 ds
                  else foldl (\<lambda>n d. 36 * n + digit36 d) 0 cs
      | [] \<Rightarrow> 0)"

definition singleFoldTable :: "string \<Rightarrow> (code_point \<times> code_point) list" where
  "singleFoldTable packed =
     rev (snd (foldl (\<lambda>(source, table) entry.
       if entry = [] then (source, table)
       else (case split_at_char (CHR '','') entry of
               delta # offset # _ \<Rightarrow>
                 let source' = source + parseInt36 delta
                 in (source', (nat source', nat (source' + parseInt36 offset)) # table)
             | _ \<Rightarrow> (source, table)))
       (0, []) (split_at_char (CHR '';'') packed)))"

definition multiFoldTable :: "string \<Rightarrow> (code_point \<times> code_point list) list" where
  "multiFoldTable packed =
     rev (snd (foldl (\<lambda>(source, table) entry.
       if entry = [] then (source, table)
       else (case split_at_char (CHR '','') entry of
               delta # folds \<Rightarrow>
                 let source' = source + parseInt36 delta
                 in (source', (nat source', map (\<lambda>cp. nat (parseInt36 cp)) folds) # table)
             | [] \<Rightarrow> (source, table)))
       (0, []) (split_at_char (CHR '';'') packed)))"

section \<open>Folding one code point\<close>

text \<open>\<open>foldOf\<close> returns a number or an array of numbers.\<close>

datatype fold_result = One code_point | Many "code_point list"

definition foldOf ::
  "code_point \<Rightarrow> (code_point \<times> code_point) list \<Rightarrow> (code_point \<times> code_point list) list \<Rightarrow> fold_result" where
  "foldOf codePoint single multi =
     (if codePoint < 128
      then One (if 65 \<le> codePoint \<and> codePoint \<le> 90 then codePoint + 32 else codePoint)
      else case map_of single codePoint of
             Some folded \<Rightarrow> One folded
           | None \<Rightarrow> (case map_of multi codePoint of
                        Some folded \<Rightarrow> Many folded
                      | None \<Rightarrow> One codePoint))"

definition appendFolded ::
  "(code_point \<times> code_point) list \<Rightarrow> (code_point \<times> code_point list) list \<Rightarrow>
     code_point \<Rightarrow> code_point list \<Rightarrow> code_point list" where
  "appendFolded single multi codePoint out =
     (case foldOf codePoint single multi of
        One folded \<Rightarrow> out @ [folded]
      | Many folded \<Rightarrow> out @ folded)"

definition PATTERN_HOST ::
  "(code_point \<times> code_point) list \<times> (code_point \<times> code_point list) list \<Rightarrow> host" where
  "PATTERN_HOST tables =
     \<lparr>appendFoldedCodePoint = appendFolded (fst tables) (snd tables), singleFolds = fst tables\<rparr>"

section \<open>The sources of a fold\<close>

text \<open>
  \<open>sourcesByFold\<close>: the table read backwards, one list of sources for each fold, in the order
  of the table. The code keeps the result in a \<open>WeakMap\<close> keyed by the table, which changes
  no answer.
\<close>

definition sourcesByFold :: "(code_point \<times> code_point) list \<Rightarrow> code_point \<rightharpoonup> code_point list" where
  "sourcesByFold table =
     foldl (\<lambda>sources (source, folded).
       case sources folded of
         None \<Rightarrow> sources(folded \<mapsto> [source])
       | Some listed \<Rightarrow> sources(folded \<mapsto> listed @ [source]))
     Map.empty table"

definition singleFoldSourcesOf :: "host \<Rightarrow> code_point \<Rightarrow> code_point list" where
  "singleFoldSourcesOf h folded =
     (case sourcesByFold (singleFolds h) folded of Some listed \<Rightarrow> listed | None \<Rightarrow> [])"

lemma sourcesByFold_foldl:
  "(case foldl (\<lambda>sources (source, folded).
        case sources folded of
          None \<Rightarrow> sources(folded \<mapsto> [source])
        | Some listed \<Rightarrow> sources(folded \<mapsto> listed @ [source])) m table f of
      Some listed \<Rightarrow> listed | None \<Rightarrow> [])
   = (case m f of Some listed \<Rightarrow> listed | None \<Rightarrow> []) @ [s. (s, f') \<leftarrow> table, f' = f]"
proof (induction table arbitrary: m)
  case Nil
  then show ?case by simp
next
  case (Cons entry table)
  obtain s f' where entry: "entry = (s, f')"
    by (cases entry)
  show ?case
    by (cases "m f'") (auto simp: entry Cons.IH)
qed

lemma singleFoldSourcesOf_eq: "singleFoldSourcesOf h f = [s. (s, f') \<leftarrow> singleFolds h, f' = f]"
  using sourcesByFold_foldl [of Map.empty "singleFolds h" f]
  by (simp add: singleFoldSourcesOf_def sourcesByFold_def)

lemma set_singleFoldSourcesOf: "set (singleFoldSourcesOf h f) = {s. (s, f) \<in> set (singleFolds h)}"
  by (auto simp: singleFoldSourcesOf_eq)

section \<open>The interface and its laws\<close>

text \<open>The fold of a single code point, and of a whole text.\<close>

definition fold_cp :: "host \<Rightarrow> code_point \<Rightarrow> code_point list" where
  "fold_cp h c = appendFoldedCodePoint h c []"

definition fold_text :: "host \<Rightarrow> code_point list \<Rightarrow> code_point list" where
  "fold_text h cs = concat (map (fold_cp h) cs)"

text \<open>A code point that is no surrogate.\<close>

definition plain_point :: "code_point \<Rightarrow> bool" where
  "plain_point c \<longleftrightarrow> c \<le> 0x10ffff \<and> \<not> (0xd800 \<le> c \<and> c \<le> 0xdfff)"

locale folding_host =
  fixes h :: host
  assumes append_fold: "appendFoldedCodePoint h c out = out @ fold_cp h c"
    and fold_nonempty: "fold_cp h c \<noteq> []"
    and fold_fixed: "t \<in> set (fold_cp h c) \<Longrightarrow> fold_cp h t = [t]"
    and single_fold: "(s, f) \<in> set (singleFolds h) \<Longrightarrow> fold_cp h s = [f]"
    and single_source: "fold_cp h s = [f] \<Longrightarrow> s = f \<or> (s, f) \<in> set (singleFolds h)"
    and fold_points: "fold_cp h c = [c] \<or> plain_point c \<and> (\<forall>f \<in> set (fold_cp h c). plain_point f)"
begin

lemma fold_text_fixed: "t \<in> set (fold_text h cs) \<Longrightarrow> fold_cp h t = [t]"
  by (auto simp: fold_text_def fold_fixed)

lemma fold_text_idem: "fold_text h (fold_text h cs) = fold_text h cs"
proof -
  have "concat (map (fold_cp h) ts) = ts" if "\<forall>t \<in> set ts. fold_cp h t = [t]" for ts
    using that by (induction ts) auto
  then show ?thesis
    using fold_text_fixed [of _ cs] unfolding fold_text_def [of _ "fold_text h cs"] by blast
qed

lemma fold_sources:
  "(\<exists>s. P s \<and> fold_cp h s = [f]) \<longleftrightarrow>
     fold_cp h f = [f] \<and> P f \<or> (\<exists>s \<in> set (singleFoldSourcesOf h f). P s)"
proof
  assume "\<exists>s. P s \<and> fold_cp h s = [f]"
  then obtain s where "P s" "fold_cp h s = [f]"
    by blast
  with single_source [of s f]
  show "fold_cp h f = [f] \<and> P f \<or> (\<exists>s \<in> set (singleFoldSourcesOf h f). P s)"
    by (auto simp: set_singleFoldSourcesOf)
next
  assume "fold_cp h f = [f] \<and> P f \<or> (\<exists>s \<in> set (singleFoldSourcesOf h f). P s)"
  then show "\<exists>s. P s \<and> fold_cp h s = [f]"
    by (auto simp: set_singleFoldSourcesOf dest: single_fold)
qed

end

section \<open>The engine's host satisfies the laws\<close>

definition tables_shape ::
  "(code_point \<times> code_point) list \<times> (code_point \<times> code_point list) list \<Rightarrow> bool" where
  "tables_shape tables \<longleftrightarrow>
     distinct (map fst (fst tables)) \<and>
     (\<forall>(s, f) \<in> set (fst tables).
        (s < 128 \<longrightarrow> 65 \<le> s \<and> s \<le> 90 \<and> f = s + 32) \<and>
        \<not> (65 \<le> f \<and> f \<le> 90) \<and> f \<notin> fst ` set (fst tables) \<and> f \<notin> fst ` set (snd tables)) \<and>
     (\<forall>(s, fs) \<in> set (snd tables).
        s \<notin> fst ` set (fst tables) \<and> 2 \<le> length fs \<and>
        (\<forall>f \<in> set fs. \<not> (65 \<le> f \<and> f \<le> 90) \<and> f \<notin> fst ` set (fst tables) \<and> f \<notin> fst ` set (snd tables))) \<and>
     (\<forall>s \<in> set [65..<91]. (s, s + 32) \<in> set (fst tables))"

definition tables_ok ::
  "(code_point \<times> code_point) list \<times> (code_point \<times> code_point list) list \<Rightarrow> bool" where
  "tables_ok tables \<longleftrightarrow>
     tables_shape tables \<and>
     (\<forall>(s, f) \<in> set (fst tables). plain_point s \<and> plain_point f) \<and>
     (\<forall>(s, fs) \<in> set (snd tables). plain_point s \<and> list_all plain_point fs)"

definition ascii_tables :: "(code_point \<times> code_point) list \<times> (code_point \<times> code_point list) list" where
  "ascii_tables = (map (\<lambda>s. (s, s + 32)) [65..<91], [(223, [115, 115])])"

lemma ascii_tables_ok: "tables_ok ascii_tables"
proof -
  have "tables_shape ascii_tables"
    by code_simp
  then show ?thesis
    by (auto simp: tables_ok_def ascii_tables_def plain_point_def)
qed

text \<open>Pairs of tables of the documented shape, as a type: the host built on any of them obeys the laws.\<close>

typedef fold_tables = "{tables. tables_ok tables}"
  by (rule exI [of _ ascii_tables]) (simp add: ascii_tables_ok)

definition host_of :: "fold_tables \<Rightarrow> host" where
  "host_of t = PATTERN_HOST (Rep_fold_tables t)"

lemma singleFolds_host [simp]: "singleFolds (PATTERN_HOST tables) = fst tables"
  by (simp add: PATTERN_HOST_def)

lemma fold_cp_host: "fold_cp (PATTERN_HOST tables) c =
  (if c < 128 then [if 65 \<le> c \<and> c \<le> 90 then c + 32 else c]
   else case map_of (fst tables) c of Some f \<Rightarrow> [f]
     | None \<Rightarrow> (case map_of (snd tables) c of Some fs \<Rightarrow> fs | None \<Rightarrow> [c]))"
  by (simp add: fold_cp_def PATTERN_HOST_def appendFolded_def foldOf_def split: option.splits)

lemma appendFolded_append:
  "appendFoldedCodePoint (PATTERN_HOST tables) c out = out @ fold_cp (PATTERN_HOST tables) c"
  by (simp add: fold_cp_def PATTERN_HOST_def appendFolded_def split: fold_result.splits)

lemma fold_fixed_if:
  "\<not> (65 \<le> f \<and> f \<le> 90) \<Longrightarrow> f \<notin> fst ` set (fst tables) \<Longrightarrow> f \<notin> fst ` set (snd tables) \<Longrightarrow>
     fold_cp (PATTERN_HOST tables) f = [f]"
  by (auto simp: fold_cp_host map_of_eq_None_iff [THEN iffD2])

lemma tables_ok_single:
  assumes ok: "tables_ok tables" and mem: "(s, f) \<in> set (fst tables)"
  shows "s < 128 \<Longrightarrow> 65 \<le> s \<and> s \<le> 90 \<and> f = s + 32"
    and "\<not> (65 \<le> f \<and> f \<le> 90)"
    and "f \<notin> fst ` set (fst tables)"
    and "f \<notin> fst ` set (snd tables)"
    and "map_of (fst tables) s = Some f"
proof -
  from ok have d: "distinct (map fst (fst tables))"
    and q: "\<forall>(s, f) \<in> set (fst tables). (s < 128 \<longrightarrow> 65 \<le> s \<and> s \<le> 90 \<and> f = s + 32) \<and>
      \<not> (65 \<le> f \<and> f \<le> 90) \<and> f \<notin> fst ` set (fst tables) \<and> f \<notin> fst ` set (snd tables)"
    unfolding tables_ok_def tables_shape_def by - (elim conjE, assumption)+
  from d mem show "map_of (fst tables) s = Some f"
    by (rule map_of_is_SomeI)
  from bspec [OF q mem]
  show "s < 128 \<Longrightarrow> 65 \<le> s \<and> s \<le> 90 \<and> f = s + 32" "\<not> (65 \<le> f \<and> f \<le> 90)"
    "f \<notin> fst ` set (fst tables)" "f \<notin> fst ` set (snd tables)"
    by auto
qed

lemma tables_ok_multi:
  assumes ok: "tables_ok tables" and mem: "(s, fs) \<in> set (snd tables)"
  shows "2 \<le> length fs"
    and "f \<in> set fs \<Longrightarrow> \<not> (65 \<le> f \<and> f \<le> 90)"
    and "f \<in> set fs \<Longrightarrow> f \<notin> fst ` set (fst tables)"
    and "f \<in> set fs \<Longrightarrow> f \<notin> fst ` set (snd tables)"
proof -
  from ok have q: "\<forall>(s, fs) \<in> set (snd tables).
        s \<notin> fst ` set (fst tables) \<and> 2 \<le> length fs \<and>
        (\<forall>f \<in> set fs. \<not> (65 \<le> f \<and> f \<le> 90) \<and> f \<notin> fst ` set (fst tables) \<and> f \<notin> fst ` set (snd tables))"
    unfolding tables_ok_def tables_shape_def by - (elim conjE, assumption)+
  from bspec [OF q mem]
  show "2 \<le> length fs" "f \<in> set fs \<Longrightarrow> \<not> (65 \<le> f \<and> f \<le> 90)"
    "f \<in> set fs \<Longrightarrow> f \<notin> fst ` set (fst tables)" "f \<in> set fs \<Longrightarrow> f \<notin> fst ` set (snd tables)"
    by auto
qed

lemma tables_ok_points:
  assumes "tables_ok tables"
  shows "(s, f) \<in> set (fst tables) \<Longrightarrow> plain_point s \<and> plain_point f"
    and "(s, fs) \<in> set (snd tables) \<Longrightarrow> plain_point s \<and> (\<forall>f \<in> set fs. plain_point f)"
proof -
  from assms have "\<forall>(s, f) \<in> set (fst tables). plain_point s \<and> plain_point f"
    and "\<forall>(s, fs) \<in> set (snd tables). plain_point s \<and> list_all plain_point fs"
    unfolding tables_ok_def tables_shape_def by - (elim conjE, assumption)+
  then show "(s, f) \<in> set (fst tables) \<Longrightarrow> plain_point s \<and> plain_point f"
    and "(s, fs) \<in> set (snd tables) \<Longrightarrow> plain_point s \<and> (\<forall>f \<in> set fs. plain_point f)"
    by (auto simp: list_all_iff)
qed

lemma tables_ok_ascii:
  assumes "tables_ok tables" and "65 \<le> s" and "s \<le> 90"
  shows "(s, s + 32) \<in> set (fst tables)"
proof -
  from assms(1) have "\<forall>s \<in> set [65..<91]. (s, s + 32) \<in> set (fst tables)"
    unfolding tables_ok_def tables_shape_def by - (elim conjE, assumption)
  moreover from assms(2,3) have "s \<in> set [65..<91]"
    by (simp only: set_upt) simp
  ultimately show ?thesis
    by blast
qed

interpretation engine: folding_host "host_of t" for t :: fold_tables
proof
  define tables where "tables = Rep_fold_tables t"
  have ok: "tables_ok tables"
    using Rep_fold_tables [of t] by (simp add: tables_def)
  have h: "host_of t = PATTERN_HOST tables"
    by (simp add: host_of_def tables_def)
  show "appendFoldedCodePoint (host_of t) c out = out @ fold_cp (host_of t) c" for c out
    by (simp add: h appendFolded_append)
  show "fold_cp (host_of t) c \<noteq> []" for c
    using tables_ok_multi(1) [OF ok, of c "[]"]
    by (auto simp: h fold_cp_host split: option.splits dest!: map_of_SomeD)
  show "fold_cp (host_of t) x = [x]" if "x \<in> set (fold_cp (host_of t) c)" for x c
  proof (cases "c < 128")
    case True
    with that have x: "x = (if 65 \<le> c \<and> c \<le> 90 then c + 32 else c)"
      by (simp add: h fold_cp_host split: if_splits)
    with True show ?thesis
      by (auto simp: h fold_cp_host)
  next
    case False
    show ?thesis
    proof (cases "map_of (fst tables) c")
      case (Some f)
      with False that have "x = f"
        by (simp add: h fold_cp_host)
      with tables_ok_single [OF ok map_of_SomeD [OF Some]] show ?thesis
        by (simp add: h fold_fixed_if)
    next
      case single: None
      show ?thesis
      proof (cases "map_of (snd tables) c")
        case (Some fs)
        with False single that have "x \<in> set fs"
          by (simp add: h fold_cp_host)
        with tables_ok_multi [OF ok map_of_SomeD [OF Some]] show ?thesis
          by (simp add: h fold_fixed_if)
      next
        case None
        with False single that show ?thesis
          by (auto simp: h fold_cp_host)
      qed
    qed
  qed
  show "fold_cp (host_of t) s = [f]" if "(s, f) \<in> set (singleFolds (host_of t))" for s f
    using that tables_ok_single [OF ok, of s f]
    by (auto simp: h fold_cp_host)
  show "s = f \<or> (s, f) \<in> set (singleFolds (host_of t))" if "fold_cp (host_of t) s = [f]" for s f
  proof (cases "s < 128")
    case True
    with that tables_ok_ascii [OF ok, of s] show ?thesis
      by (auto simp: h fold_cp_host split: if_splits)
  next
    case False
    with that tables_ok_multi(1) [OF ok, of s "[f]"] show ?thesis
      by (auto simp: h fold_cp_host split: option.splits dest!: map_of_SomeD)
  qed
  show "fold_cp (host_of t) c = [c] \<or> plain_point c \<and> (\<forall>f \<in> set (fold_cp (host_of t) c). plain_point f)" for c
  proof (cases "c < 128")
    case True
    then show ?thesis by (auto simp: h fold_cp_host plain_point_def)
  next
    case False
    then show ?thesis
      using tables_ok_points [OF ok] map_of_SomeD [of "fst tables" c] map_of_SomeD [of "snd tables" c]
      by (auto simp: h fold_cp_host split: option.splits)
  qed
qed

end
