(* ===== verification/Pattern_Ast.thy ===== *)
theory Pattern_Ast
  imports Pattern_Host
begin

text \<open>
  The syntax trees of \<open>pattern/expression/ast.ts\<close>, the context masks of
  \<open>pattern/automaton.ts\<close>, and the meaning of a pattern: the spans \<open>(i, j)\<close> of a value,
  from before its code point \<open>i\<close> to before its code point \<open>j\<close>, that the pattern describes.
  The meaning is the abstract specification that the parser's trees, the plans, the compiled
  programs and the two matchers are measured against; no definition of the code is used in
  it beyond the classification of code points for the edges of words.
\<close>

section \<open>Syntax trees\<close>

datatype class_name = Digit_Class | Word_Class | Space_Class

datatype set_item =
    Member code_point
  | Range code_point code_point
  | Class_Item class_name

datatype pattern_node =
    Literal code_point
  | Any_Node
  | Class_Node class_name
  | Set_Node bool "set_item list"
  | Assert_Node nat
  | Sequence "pattern_node list"
  | Choice "pattern_node list"
  | Repeat pattern_node nat "nat option"
  | Number_Range pattern_node

section \<open>Contexts\<close>

definition BEFORE_VALUE_START :: nat where "BEFORE_VALUE_START = 0"
definition AFTER_VALUE_END :: nat where "AFTER_VALUE_END = 0"
definition WORD_CODE_POINT :: nat where "WORD_CODE_POINT = 1"
definition OTHER_CODE_POINT :: nat where "OTHER_CODE_POINT = 2"
definition EDGE_KINDS :: nat where "EDGE_KINDS = 3"

definition START_MASK :: nat where "START_MASK = 0b000000111"
definition END_MASK :: nat where "END_MASK = 0b001001001"
definition WORD_EDGE_MASK :: nat where "WORD_EDGE_MASK = 0b010101010"
definition ANY_CONTEXT_MASK :: nat where "ANY_CONTEXT_MASK = 0b111111111"

definition isWordCodePoint :: "code_point \<Rightarrow> bool" where
  "isWordCodePoint codePoint \<longleftrightarrow>
     (0x30 \<le> codePoint \<and> codePoint \<le> 0x39) \<or>
     (0x41 \<le> codePoint \<and> codePoint \<le> 0x5a) \<or>
     (0x61 \<le> codePoint \<and> codePoint \<le> 0x7a) \<or>
     codePoint = 0x5f"

definition kindOf :: "code_point \<Rightarrow> nat" where
  "kindOf codePoint = (if isWordCodePoint codePoint then WORD_CODE_POINT else OTHER_CODE_POINT)"

definition contextOf :: "nat \<Rightarrow> nat \<Rightarrow> nat" where
  "contextOf previous following = previous * EDGE_KINDS + following"

text \<open>\<open>(mask >>> context) & 1\<close>.\<close>

definition mask_allows :: "nat \<Rightarrow> nat \<Rightarrow> bool" where
  "mask_allows msk context \<longleftrightarrow> drop_bit context msk AND 1 \<noteq> 0"

lemma mask_allows_bit: "mask_allows m c \<longleftrightarrow> bit m c"
  by (simp add: mask_allows_def and_one_eq bit_iff_odd_drop_bit odd_iff_mod_2_eq_one)

lemma kindOf_cases: "kindOf c = WORD_CODE_POINT \<or> kindOf c = OTHER_CODE_POINT"
  by (simp add: kindOf_def)

lemma kindOf_range [simp]: "0 < kindOf c" "kindOf c < 3" "kindOf c \<noteq> 0"
  by (simp_all add: kindOf_def WORD_CODE_POINT_def OTHER_CODE_POINT_def)

section \<open>The context at a place of a value\<close>

definition kind_before :: "code_point list \<Rightarrow> nat \<Rightarrow> nat" where
  "kind_before v i = (if i = 0 then BEFORE_VALUE_START else kindOf (v ! (i - 1)))"

definition kind_after :: "code_point list \<Rightarrow> nat \<Rightarrow> nat" where
  "kind_after v i = (if i < length v then kindOf (v ! i) else AFTER_VALUE_END)"

definition context_at :: "code_point list \<Rightarrow> nat \<Rightarrow> nat" where
  "context_at v i = contextOf (kind_before v i) (kind_after v i)"

lemma kind_before_less: "kind_before v i < 3"
  by (simp add: kind_before_def BEFORE_VALUE_START_def)

lemma kind_after_less: "kind_after v i < 3"
  by (simp add: kind_after_def AFTER_VALUE_END_def)

lemma context_at_less: "context_at v i < 9"
  using kind_before_less [of v i] kind_after_less [of v i]
  by (simp add: context_at_def contextOf_def EDGE_KINDS_def)

lemma any_context_mask: "ANY_CONTEXT_MASK = mask 9"
  by (simp add: ANY_CONTEXT_MASK_def mask_eq_exp_minus_1)

lemma bit_any_context: "c < 9 \<Longrightarrow> bit ANY_CONTEXT_MASK c"
  unfolding any_context_mask bit_mask_iff by simp

text \<open>What the four masks say: any place, the start of the value, its end, and the edge of a word.\<close>

lemma context_cases:
  "p < 3 \<Longrightarrow> f < 3 \<Longrightarrow> P (0::nat) (0::nat) \<Longrightarrow> P 0 1 \<Longrightarrow> P 0 2 \<Longrightarrow> P 1 0 \<Longrightarrow> P 1 1 \<Longrightarrow> P 1 2 \<Longrightarrow>
     P 2 0 \<Longrightarrow> P 2 1 \<Longrightarrow> P 2 2 \<Longrightarrow> P p f"
  by (auto simp: numeral_3_eq_3 less_Suc_eq numeral_2_eq_2)

lemma masks_table:
  assumes "p < 3" and "f < 3"
  shows "(mask_allows START_MASK (contextOf p f) \<longleftrightarrow> p = 0) \<and>
    (mask_allows END_MASK (contextOf p f) \<longleftrightarrow> f = 0) \<and>
    (mask_allows WORD_EDGE_MASK (contextOf p f) \<longleftrightarrow> (p = 1) \<noteq> (f = 1)) \<and>
    mask_allows ANY_CONTEXT_MASK (contextOf p f)"
  by (rule context_cases [OF assms]) code_simp+

lemma start_mask_at: "mask_allows START_MASK (context_at v i) \<longleftrightarrow> i = 0"
  using masks_table [OF kind_before_less kind_after_less, of v i v i]
  by (simp add: context_at_def kind_before_def BEFORE_VALUE_START_def)

lemma end_mask_at: "mask_allows END_MASK (context_at v i) \<longleftrightarrow> length v \<le> i"
  using masks_table [OF kind_before_less kind_after_less, of v i v i]
  by (simp add: context_at_def kind_after_def AFTER_VALUE_END_def)

lemma word_edge_mask_at:
  "mask_allows WORD_EDGE_MASK (context_at v i) \<longleftrightarrow>
     (0 < i \<and> isWordCodePoint (v ! (i - 1))) \<noteq> (i < length v \<and> isWordCodePoint (v ! i))"
  using masks_table [OF kind_before_less kind_after_less, of v i v i]
  by (auto simp: context_at_def kind_before_def kind_after_def BEFORE_VALUE_START_def
      AFTER_VALUE_END_def kindOf_def WORD_CODE_POINT_def OTHER_CODE_POINT_def split: if_splits)

section \<open>What a pattern describes\<close>

type_synonym spans = "(nat \<times> nat) set"

definition char_span :: "code_point list \<Rightarrow> (code_point \<Rightarrow> bool) \<Rightarrow> spans" where
  "char_span v P = {(i, j). j = Suc i \<and> i < length v \<and> P (v ! i)}"

definition word_span :: "code_point list \<Rightarrow> code_point list \<Rightarrow> spans" where
  "word_span v ws = foldr (\<lambda>w R. char_span v (\<lambda>c. c = w) O R) ws Id"

definition assert_span :: "code_point list \<Rightarrow> nat \<Rightarrow> spans" where
  "assert_span v msk = {(i, j). j = i \<and> mask_allows msk (context_at v i)}"

definition repeat_span :: "spans \<Rightarrow> nat \<Rightarrow> nat option \<Rightarrow> spans" where
  "repeat_span R least most =
     (\<Union>n \<in> {n. least \<le> n \<and> (case most of None \<Rightarrow> True | Some m \<Rightarrow> n \<le> m)}. R ^^ n)"

definition seq_span :: "spans list \<Rightarrow> spans" where
  "seq_span Rs = foldr (O) Rs Id"

text \<open>The members of a class and of a set, and the folds that a set matches under \<open>caseFold\<close>.\<close>

definition class_holds :: "class_name \<Rightarrow> code_point \<Rightarrow> bool" where
  "class_holds name c =
     (case name of
        Digit_Class \<Rightarrow> 0x30 \<le> c \<and> c \<le> 0x39
      | Word_Class \<Rightarrow> isWordCodePoint c
      | Space_Class \<Rightarrow> c \<in> {0x09, 0x0a, 0x0c, 0x0d, 0x20})"

definition item_holds :: "set_item \<Rightarrow> code_point \<Rightarrow> bool" where
  "item_holds item c =
     (case item of
        Member m \<Rightarrow> c = m
      | Range low high \<Rightarrow> low \<le> c \<and> c \<le> high
      | Class_Item name \<Rightarrow> class_holds name c)"

definition items_hold :: "set_item list \<Rightarrow> code_point \<Rightarrow> bool" where
  "items_hold items c \<longleftrightarrow> (\<exists>item \<in> set items. item_holds item c)"

text \<open>Under \<open>caseFold\<close> a set matches a code point that is the whole fold of one of its members.\<close>

definition items_fold_hold :: "host \<Rightarrow> set_item list \<Rightarrow> code_point \<Rightarrow> bool" where
  "items_fold_hold h items c \<longleftrightarrow> (\<exists>m. items_hold items m \<and> fold_cp h m = [c])"

definition set_span :: "host \<Rightarrow> bool \<Rightarrow> code_point list \<Rightarrow> bool \<Rightarrow> set_item list \<Rightarrow> spans" where
  "set_span h caseFold v negated items =
     (if \<not> caseFold then char_span v (\<lambda>c. items_hold items c \<noteq> negated)
      else if negated then char_span v (\<lambda>c. \<not> items_fold_hold h items c)
      else char_span v (items_fold_hold h items) \<union>
           (\<Union>m \<in> {m. Member m \<in> set items \<and> 2 \<le> length (fold_cp h m)}. word_span v (fold_cp h m)))"

fun node_span :: "host \<Rightarrow> bool \<Rightarrow> code_point list \<Rightarrow> pattern_node \<Rightarrow> spans" where
  "node_span h caseFold v (Literal c) = (if caseFold then word_span v (fold_cp h c) else word_span v [c])"
| "node_span h caseFold v Any_Node = char_span v (\<lambda>_. True)"
| "node_span h caseFold v (Class_Node name) = char_span v (class_holds name)"
| "node_span h caseFold v (Set_Node negated items) = set_span h caseFold v negated items"
| "node_span h caseFold v (Assert_Node msk) = assert_span v msk"
| "node_span h caseFold v (Sequence items) = seq_span (map (node_span h caseFold v) items)"
| "node_span h caseFold v (Choice branches) = (\<Union>b \<in> set branches. node_span h caseFold v b)"
| "node_span h caseFold v (Repeat body least most) = repeat_span (node_span h caseFold v body) least most"
| "node_span h caseFold v (Number_Range expansion) = node_span h caseFold v expansion"

text \<open>A value matches a pattern when the pattern describes some span of it.\<close>

definition span_in :: "code_point list \<Rightarrow> spans \<Rightarrow> bool" where
  "span_in v R \<longleftrightarrow> (\<exists>i j. (i, j) \<in> R \<and> i \<le> length v \<and> j \<le> length v)"

text \<open>The counts that the parser lets through: a lower count is never above its upper count.\<close>

fun wf_node :: "pattern_node \<Rightarrow> bool" where
  "wf_node (Set_Node negated items) \<longleftrightarrow>
     list_all (\<lambda>item. case item of Range low high \<Rightarrow> low \<le> high | _ \<Rightarrow> True) items"
| "wf_node (Sequence items) \<longleftrightarrow> list_all wf_node items"
| "wf_node (Choice branches) \<longleftrightarrow> list_all wf_node branches"
| "wf_node (Repeat body least most) \<longleftrightarrow>
     wf_node body \<and> (case most of None \<Rightarrow> True | Some m \<Rightarrow> least \<le> m)"
| "wf_node (Number_Range expansion) \<longleftrightarrow> wf_node expansion"
| "wf_node _ \<longleftrightarrow> True"

section \<open>Laws of spans\<close>

lemma word_span_Nil [span_simps]: "word_span v [] = Id"
  by (simp add: word_span_def)

lemma word_span_Cons [span_simps]: "word_span v (w # ws) = char_span v (\<lambda>c. c = w) O word_span v ws"
  by (simp add: word_span_def)

lemma seq_span_Nil [span_simps]: "seq_span [] = Id"
  by (simp add: seq_span_def)

lemma seq_span_Cons [span_simps]: "seq_span (R # Rs) = R O seq_span Rs"
  by (simp add: seq_span_def)

lemma seq_span_append [span_simps]: "seq_span (Rs @ Qs) = seq_span Rs O seq_span Qs"
  by (induction Rs) (simp_all add: span_simps O_assoc)

lemma assert_span_any [span_simps]: "assert_span v ANY_CONTEXT_MASK = Id"
  by (auto simp: assert_span_def mask_allows_bit bit_any_context context_at_less)

lemma assert_span_and [span_simps]: "assert_span v m O assert_span v n = assert_span v (m AND n)"
  by (auto simp: assert_span_def mask_allows_bit bit_and_iff)

lemma assert_span_or [span_simps]: "assert_span v m \<union> assert_span v n = assert_span v (m OR n)"
  by (auto simp: assert_span_def mask_allows_bit bit_or_iff)

lemma assert_span_zero [span_simps]: "assert_span v 0 = {}"
  by (auto simp: assert_span_def mask_allows_bit)

lemma assert_span_sub_Id: "assert_span v m \<subseteq> Id"
  by (auto simp: assert_span_def)

lemma word_span_iff: "(i, j) \<in> word_span v ws \<longleftrightarrow>
  j = i + length ws \<and> (ws = [] \<or> j \<le> length v) \<and> take (length ws) (drop i v) = ws"
proof (induction ws arbitrary: i)
  case Nil
  then show ?case by (auto simp: span_simps)
next
  case (Cons w ws)
  show ?case
    by (cases "i < length v")
      (auto simp: span_simps relcomp_unfold char_span_def Cons.IH Cons_nth_drop_Suc [symmetric])
qed

end
