(* ===== verification/Pattern_Tests.thy ===== *)
theory Pattern_Tests
  imports Pattern_Ast
begin

text \<open>
  \<open>pattern/expression/code-point-tests.ts\<close>: the tests of classes and sets. A test holds the
  code points that a class or a set covers as a flat, sorted list of merged ranges and looks
  a code point up in it by binary search. The lemmas show that merging keeps the covered
  code points, that the search finds exactly them, and that each kind of test decides the
  meaning of \<open>Pattern_Ast\<close>; under \<open>caseFold\<close> this rests on the laws of the host.

  A test's size in bytes only steers the size limits of the caches and is left out. Code
  points fit the 32-bit elements of \<open>Uint32Array\<close>, so \<open>Uint32Array.from\<close> is the identity.
\<close>

record code_point_test =
  ranges :: "nat list"
  isFoldTarget :: "(code_point \<Rightarrow> bool) option"
  has :: "code_point \<Rightarrow> bool"

fun CLASS_RANGES :: "class_name \<Rightarrow> nat list" where
  "CLASS_RANGES Digit_Class = [0x30, 0x39]"
| "CLASS_RANGES Word_Class = [0x30, 0x39, 0x41, 0x5a, 0x5f, 0x5f, 0x61, 0x7a]"
| "CLASS_RANGES Space_Class = [0x09, 0x0a, 0x0c, 0x0d, 0x20, 0x20]"

section \<open>Merging and searching ranges\<close>

fun pairsOf :: "nat list \<Rightarrow> (nat \<times> nat) list" where
  "pairsOf (low # high # bounds) = (low, high) # pairsOf bounds"
| "pairsOf _ = []"

definition mergeRange :: "nat list \<Rightarrow> nat \<times> nat \<Rightarrow> nat list" where
  "mergeRange merged = (\<lambda>(low, high).
     let last = length merged - 1
     in if 0 < length merged \<and> low \<le> merged ! last + 1
        then merged[last := max (merged ! last) high]
        else merged @ [low, high])"

definition mergedRanges :: "nat list \<Rightarrow> nat list" where
  "mergedRanges bounds = foldl mergeRange [] (sort_key fst (pairsOf bounds))"

function searchRanges :: "nat list \<Rightarrow> code_point \<Rightarrow> nat \<Rightarrow> nat \<Rightarrow> bool" where
  "searchRanges rs codePoint low high =
     (if low < high then
        let middle = (low + high) div 2
        in if codePoint < rs ! (middle * 2) then searchRanges rs codePoint low middle
           else if rs ! (middle * 2 + 1) < codePoint then searchRanges rs codePoint (middle + 1) high
           else True
      else False)"
  by pat_completeness auto
termination
  by (relation "measure (\<lambda>(rs, c, low, high). high - low)") auto

declare searchRanges.simps [simp del]

definition inRanges :: "nat list \<Rightarrow> code_point \<Rightarrow> bool" where
  "inRanges rs codePoint = searchRanges rs codePoint 0 (length rs div 2)"

definition rangeBoundsOf :: "set_item list \<Rightarrow> nat list" where
  "rangeBoundsOf items =
     foldl (\<lambda>bounds item. case item of
        Member c \<Rightarrow> bounds @ [c, c]
      | Range low high \<Rightarrow> bounds @ [low, high]
      | Class_Item name \<Rightarrow> bounds @ CLASS_RANGES name) [] items"

section \<open>The tests\<close>

definition rangeTest :: "nat list \<Rightarrow> bool \<Rightarrow> code_point_test" where
  "rangeTest rs negated =
     \<lparr>ranges = rs, isFoldTarget = None, has = (\<lambda>codePoint. inRanges rs codePoint \<noteq> negated)\<rparr>"

definition holdsFold :: "host \<Rightarrow> nat list \<Rightarrow> code_point \<Rightarrow> bool" where
  "holdsFold h rs folded =
     (if inRanges rs folded then True
      else list_ex (\<lambda>source. inRanges rs source) (singleFoldSourcesOf h folded))"

definition foldedRangeTest :: "nat list \<Rightarrow> bool \<Rightarrow> host \<Rightarrow> code_point_test" where
  "foldedRangeTest rs negated h =
     \<lparr>ranges = rs,
      isFoldTarget = Some (\<lambda>folded. 0 < length (singleFoldSourcesOf h folded)),
      has = (\<lambda>folded. holdsFold h rs folded \<noteq> negated)\<rparr>"

definition classTest :: "class_name \<Rightarrow> code_point_test" where
  "classTest name = rangeTest (mergedRanges (CLASS_RANGES name)) False"

definition setTest :: "set_item list \<Rightarrow> bool \<Rightarrow> bool \<Rightarrow> host \<Rightarrow> code_point_test" where
  "setTest items negated caseFold h =
     (let rs = mergedRanges (rangeBoundsOf items)
      in if caseFold then foldedRangeTest rs negated h else rangeTest rs negated)"

text \<open>
  The folds of the members written alone that hold several code points, each once. The code
  compares folds by the string they spell, which is equality of the lists.
\<close>

definition distinctMultiFolds :: "set_item list \<Rightarrow> host \<Rightarrow> code_point list list" where
  "distinctMultiFolds items h =
     foldl (\<lambda>folds item. case item of
        Member c \<Rightarrow>
          let fold = appendFoldedCodePoint h c []
          in if length fold < 2 \<or> List.member folds fold then folds else folds @ [fold]
      | _ \<Rightarrow> folds) [] items"

section \<open>Merged ranges cover the same code points\<close>

definition covers :: "(nat \<times> nat) list \<Rightarrow> code_point \<Rightarrow> bool" where
  "covers ps c \<longleftrightarrow> (\<exists>(low, high) \<in> set ps. low \<le> c \<and> c \<le> high)"

definition flat :: "(nat \<times> nat) list \<Rightarrow> nat list" where
  "flat ps = concat (map (\<lambda>(low, high). [low, high]) ps)"

text \<open>Merged ranges are in ascending order, and no two of them touch.\<close>

definition ascending :: "(nat \<times> nat) list \<Rightarrow> bool" where
  "ascending ps \<longleftrightarrow> sorted_wrt (\<lambda>p q. snd p + 1 < fst q) ps \<and> (\<forall>(low, high) \<in> set ps. low \<le> high)"

lemma flat_simps [simp]:
  "flat [] = []" "flat (p # ps) = fst p # snd p # flat ps" "flat (ps @ qs) = flat ps @ flat qs"
  by (auto simp: flat_def split: prod.splits)

lemma length_flat [simp]: "length (flat ps) = 2 * length ps"
  by (induction ps) auto

lemma nth_flat:
  "i < length ps \<Longrightarrow> flat ps ! (i * 2) = fst (ps ! i)"
  "i < length ps \<Longrightarrow> flat ps ! Suc (i * 2) = snd (ps ! i)"
  by (induction ps arbitrary: i) (auto simp: nth_Cons split: nat.splits)

lemma mergeRange_flat:
  "mergeRange (flat (ps @ [(a, b)])) (low, high) =
     (if low \<le> b + 1 then flat (ps @ [(a, max b high)]) else flat (ps @ [(a, b), (low, high)]))"
  by (auto simp: mergeRange_def Let_def list_update_append nth_append)

lemma mergeRange_Nil: "mergeRange [] (low, high) = flat [(low, high)]"
  by (simp add: mergeRange_def)

lemma covers_append: "covers (ps @ qs) c \<longleftrightarrow> covers ps c \<or> covers qs c"
  by (auto simp: covers_def)

lemma merge_fold:
  assumes "ascending ps" and "sorted (map fst qs)" and "\<forall>(low, high) \<in> set qs. low \<le> high"
    and "\<forall>p \<in> set ps. \<forall>q \<in> set qs. fst p \<le> fst q"
  shows "\<exists>rs. foldl mergeRange (flat ps) qs = flat rs \<and> ascending rs \<and>
    (\<forall>c. covers rs c \<longleftrightarrow> covers (ps @ qs) c)"
  using assms
proof (induction qs arbitrary: ps)
  case Nil
  then show ?case by auto
next
  case (Cons q qs)
  obtain low high where q: "q = (low, high)"
    by (cases q)
  let ?next = "\<lambda>ps'. foldl mergeRange (flat ps) (q # qs) = foldl mergeRange (flat ps') qs \<and>
    ascending ps' \<and> (\<forall>p \<in> set ps'. \<forall>q \<in> set qs. fst p \<le> fst q) \<and>
    (\<forall>c. covers ps' c \<longleftrightarrow> covers (ps @ [q]) c)"
  have "\<exists>ps'. ?next ps'"
  proof (cases ps rule: rev_cases)
    case Nil
    with Cons.prems show ?thesis
      by (intro exI [of _ "[(low, high)]"]) (auto simp: q mergeRange_Nil ascending_def)
  next
    case (snoc front p)
    obtain a b where p: "p = (a, b)"
      by (cases p)
    from Cons.prems snoc have le: "a \<le> low" "low \<le> high"
      by (auto simp: q p)
    show ?thesis
    proof (cases "low \<le> b + 1")
      case True
      from le True have "covers [(a, max b high)] c \<longleftrightarrow> covers [(a, b), (low, high)] c" for c
        by (auto simp: covers_def)
      with Cons.prems True show ?thesis
        by (intro exI [of _ "front @ [(a, max b high)]"])
          (auto simp: snoc q p mergeRange_flat covers_append ascending_def sorted_wrt_append
            simp del: flat_simps(3))
    next
      case False
      with Cons.prems show ?thesis
        by (intro exI [of _ "front @ [(a, b), (low, high)]"])
          (auto simp: snoc q p mergeRange_flat covers_append ascending_def sorted_wrt_append
            simp del: flat_simps(3))
    qed
  qed
  then obtain ps' where ps': "?next ps'"
    by blast
  with Cons.prems Cons.IH [of ps'] show ?case
    by (auto simp: covers_append covers_def [of "q # qs"] covers_def [of "[q]"] covers_def [of qs])
qed

section \<open>The binary search finds exactly the covered code points\<close>

lemma ascending_nth:
  assumes "ascending ps" and "i < j" and "j < length ps"
  shows "snd (ps ! i) + 1 < fst (ps ! j)"
  using assms by (auto simp: ascending_def sorted_wrt_iff_nth_less)

lemma ascending_range: "ascending ps \<Longrightarrow> i < length ps \<Longrightarrow> fst (ps ! i) \<le> snd (ps ! i)"
  by (auto simp: ascending_def dest!: nth_mem split: prod.splits)

lemma searchRanges_correct:
  assumes "ascending ps" and "high \<le> length ps"
  shows "searchRanges (flat ps) c low high \<longleftrightarrow>
    (\<exists>i. low \<le> i \<and> i < high \<and> fst (ps ! i) \<le> c \<and> c \<le> snd (ps ! i))"
  using assms(2)
proof (induction "flat ps" c low high rule: searchRanges.induct)
  case (1 c low high)
  let ?mid = "(low + high) div 2"
  show ?case
  proof (cases "low < high")
    case False
    then show ?thesis by (simp add: searchRanges.simps)
  next
    case True
    then have mid: "low \<le> ?mid" "?mid < high" by auto
    with 1 have mid_len: "?mid < length ps" by simp
    note reads = nth_flat [OF mid_len]
    consider (left) "c < fst (ps ! ?mid)" | (right) "\<not> c < fst (ps ! ?mid)" "snd (ps ! ?mid) < c"
      | (here) "\<not> c < fst (ps ! ?mid)" "\<not> snd (ps ! ?mid) < c"
      by blast
    then show ?thesis
    proof cases
      case left
      have "fst (ps ! ?mid) \<le> fst (ps ! i)" if "?mid \<le> i" "i < high" for i
        using that ascending_nth [OF assms(1), of ?mid i] ascending_range [OF assms(1), of ?mid] 1(3)
        by (cases "i = ?mid") auto
      with left have "\<not> (fst (ps ! i) \<le> c)" if "?mid \<le> i" "i < high" for i
        using that by fastforce
      moreover from True left mid 1 have "searchRanges (flat ps) c low high = searchRanges (flat ps) c low ?mid"
        by (subst searchRanges.simps) (simp add: Let_def reads)
      moreover from left mid 1(3) have "searchRanges (flat ps) c low ?mid \<longleftrightarrow>
          (\<exists>i. low \<le> i \<and> i < ?mid \<and> fst (ps ! i) \<le> c \<and> c \<le> snd (ps ! i))"
        by (intro 1(1) [OF True refl]) (simp_all add: reads)
      moreover have "(low \<le> i \<and> i < high \<and> fst (ps ! i) \<le> c \<and> c \<le> snd (ps ! i)) \<longleftrightarrow>
          (low \<le> i \<and> i < ?mid \<and> fst (ps ! i) \<le> c \<and> c \<le> snd (ps ! i))" for i
        using mid calculation(1) [of i] by (cases "i < ?mid") auto
      ultimately show ?thesis
        by simp
    next
      case right
      have "snd (ps ! i) \<le> snd (ps ! ?mid)" if "i \<le> ?mid" for i
        using that ascending_nth [OF assms(1), of i ?mid] ascending_range [OF assms(1), of ?mid] mid_len
        by (cases "i = ?mid") auto
      with right have "\<not> c \<le> snd (ps ! i)" if "i \<le> ?mid" for i
        using that by fastforce
      moreover from True right 1 have "searchRanges (flat ps) c low high = searchRanges (flat ps) c (?mid + 1) high"
        by (subst searchRanges.simps) (simp add: Let_def reads)
      moreover from right 1(3) have "searchRanges (flat ps) c (?mid + 1) high \<longleftrightarrow>
          (\<exists>i. ?mid + 1 \<le> i \<and> i < high \<and> fst (ps ! i) \<le> c \<and> c \<le> snd (ps ! i))"
        by (intro 1(2) [OF True refl]) (simp_all add: reads)
      moreover have "(low \<le> i \<and> i < high \<and> fst (ps ! i) \<le> c \<and> c \<le> snd (ps ! i)) \<longleftrightarrow>
          (?mid + 1 \<le> i \<and> i < high \<and> fst (ps ! i) \<le> c \<and> c \<le> snd (ps ! i))" for i
        using mid calculation(1) [of i] by (cases "i \<le> ?mid") auto
      ultimately show ?thesis
        by simp
    next
      case here
      with True have "searchRanges (flat ps) c low high"
        by (subst searchRanges.simps) (simp add: Let_def reads)
      with here mid show ?thesis
        by (auto simp: not_less)
    qed
  qed
qed

lemma inRanges_flat:
  assumes "ascending ps"
  shows "inRanges (flat ps) c \<longleftrightarrow> covers ps c"
proof -
  have "inRanges (flat ps) c \<longleftrightarrow> (\<exists>i < length ps. fst (ps ! i) \<le> c \<and> c \<le> snd (ps ! i))"
    using searchRanges_correct [OF assms, of "length ps" c 0] by (simp add: inRanges_def)
  also have "\<dots> \<longleftrightarrow> (\<exists>p \<in> set ps. fst p \<le> c \<and> c \<le> snd p)"
    by (metis in_set_conv_nth)
  finally show ?thesis
    by (simp add: covers_def case_prod_beta)
qed

definition bounds_ok :: "nat list \<Rightarrow> bool" where
  "bounds_ok bounds \<longleftrightarrow> (\<forall>(low, high) \<in> set (pairsOf bounds). low \<le> high)"

lemma mergedRanges_ascending:
  assumes "bounds_ok bounds"
  obtains ps where "mergedRanges bounds = flat ps" and "ascending ps"
    and "\<And>c. covers ps c \<longleftrightarrow> covers (pairsOf bounds) c"
proof -
  have "\<exists>rs. foldl mergeRange (flat []) (sort_key fst (pairsOf bounds)) = flat rs \<and> ascending rs \<and>
    (\<forall>c. covers rs c \<longleftrightarrow> covers ([] @ sort_key fst (pairsOf bounds)) c)"
    using assms by (intro merge_fold) (auto simp: ascending_def bounds_ok_def)
  moreover have "covers (sort_key fst (pairsOf bounds)) = covers (pairsOf bounds)"
    by (auto simp: covers_def fun_eq_iff)
  ultimately show ?thesis
    using that by (auto simp: mergedRanges_def)
qed

lemma inRanges_merged: "bounds_ok bounds \<Longrightarrow> inRanges (mergedRanges bounds) c \<longleftrightarrow> covers (pairsOf bounds) c"
  by (metis inRanges_flat mergedRanges_ascending)

section \<open>The tests decide what the pattern means\<close>

lemma pairsOf_append: "even (length xs) \<Longrightarrow> pairsOf (xs @ ys) = pairsOf xs @ pairsOf ys"
  by (induction xs rule: pairsOf.induct) auto

lemma rangeBoundsOf_foldl:
  "foldl (\<lambda>bounds item. case item of
        Member c \<Rightarrow> bounds @ [c, c]
      | Range low high \<Rightarrow> bounds @ [low, high]
      | Class_Item name \<Rightarrow> bounds @ CLASS_RANGES name) bs items
   = bs @ concat (map (\<lambda>item. case item of
        Member c \<Rightarrow> [c, c] | Range low high \<Rightarrow> [low, high] | Class_Item name \<Rightarrow> CLASS_RANGES name) items)"
  by (induction items arbitrary: bs) (simp_all split: set_item.split)

lemma rangeBoundsOf_Nil [simp]: "rangeBoundsOf [] = []"
  by (simp add: rangeBoundsOf_def)

lemma rangeBoundsOf_Cons: "rangeBoundsOf (item # items) =
  (case item of Member c \<Rightarrow> [c, c] | Range low high \<Rightarrow> [low, high] | Class_Item name \<Rightarrow> CLASS_RANGES name)
   @ rangeBoundsOf items"
  by (simp add: rangeBoundsOf_def rangeBoundsOf_foldl)

lemma even_item: "even (length (case item of Member c \<Rightarrow> [c, c] | Range low high \<Rightarrow> [low, high]
  | Class_Item name \<Rightarrow> CLASS_RANGES name))"
proof (cases item)
  case (Class_Item name)
  then show ?thesis by (cases name) simp_all
qed simp_all

lemma covers_class: "covers (pairsOf (CLASS_RANGES name)) c \<longleftrightarrow> class_holds name c"
  by (cases name) (auto simp: covers_def class_holds_def isWordCodePoint_def)

lemma covers_item: "covers (pairsOf (case item of Member c \<Rightarrow> [c, c] | Range low high \<Rightarrow> [low, high]
  | Class_Item name \<Rightarrow> CLASS_RANGES name)) c \<longleftrightarrow> item_holds item c"
  by (cases item) (auto simp: item_holds_def covers_class, auto simp: covers_def)

lemma covers_bounds: "covers (pairsOf (rangeBoundsOf items)) c \<longleftrightarrow> items_hold items c"
  by (induction items)
    (simp_all add: rangeBoundsOf_Cons pairsOf_append even_item covers_append covers_item items_hold_def,
     simp add: covers_def)

lemma bounds_ok_class: "bounds_ok (CLASS_RANGES name)"
  by (cases name) (auto simp: bounds_ok_def)

lemma bounds_ok_append:
  "even (length xs) \<Longrightarrow> bounds_ok (xs @ ys) \<longleftrightarrow> bounds_ok xs \<and> bounds_ok ys"
  by (auto simp: bounds_ok_def pairsOf_append)

lemma bounds_ok_items: "wf_node (Set_Node negated items) \<Longrightarrow> bounds_ok (rangeBoundsOf items)"
proof (induction items)
  case Nil
  then show ?case by (simp add: bounds_ok_def)
next
  case (Cons item items)
  then show ?case
    by (cases item)
      (auto simp: rangeBoundsOf_Cons bounds_ok_append bounds_ok_class
        even_item [of "Class_Item _", simplified], auto simp: bounds_ok_def)
qed

lemma has_classTest: "has (classTest name) = class_holds name"
  by (simp add: fun_eq_iff classTest_def rangeTest_def inRanges_merged bounds_ok_class covers_class)

lemma has_setTest:
  "wf_node (Set_Node negated items) \<Longrightarrow>
     has (setTest items negated False h) = (\<lambda>c. items_hold items c \<noteq> negated)"
  by (simp add: fun_eq_iff setTest_def rangeTest_def inRanges_merged bounds_ok_items covers_bounds)

context folding_host
begin

lemma has_folded_setTest:
  assumes wf: "wf_node (Set_Node negated items)" and fixed: "fold_cp h c = [c]"
  shows "has (setTest items negated True h) c \<longleftrightarrow> items_fold_hold h items c \<noteq> negated"
proof -
  have "holdsFold h (mergedRanges (rangeBoundsOf items)) c \<longleftrightarrow>
      items_hold items c \<or> (\<exists>s \<in> set (singleFoldSourcesOf h c). items_hold items s)"
    by (auto simp: holdsFold_def list_ex_iff inRanges_merged bounds_ok_items [OF wf] covers_bounds)
  also have "\<dots> \<longleftrightarrow> items_fold_hold h items c"
    using fold_sources [of "items_hold items" c] fixed by (simp add: items_fold_hold_def)
  finally show ?thesis
    by (simp add: setTest_def foldedRangeTest_def Let_def)
qed

lemma set_distinctMultiFolds:
  "set (distinctMultiFolds items h) = {fold_cp h m | m. Member m \<in> set items \<and> 2 \<le> length (fold_cp h m)}"
proof -
  have "set (foldl (\<lambda>folds item. case item of
        Member c \<Rightarrow>
          let fold = appendFoldedCodePoint h c []
          in if length fold < 2 \<or> List.member folds fold then folds else folds @ [fold]
      | _ \<Rightarrow> folds) acc items)
    = set acc \<union> {fold_cp h m | m. Member m \<in> set items \<and> 2 \<le> length (fold_cp h m)}" for acc
    by (induction items arbitrary: acc)
      (auto simp: append_fold Let_def split: set_item.splits)
  from this [of "[]"] show ?thesis
    by (simp add: distinctMultiFolds_def)
qed

end

end
