(* ===== verification/Pattern_Lower.thy ===== *)
theory Pattern_Lower
  imports Pattern_Tests
begin

text \<open>
  \<open>pattern/expression/lower.ts\<close>: a syntax tree is lowered to a plan. Lowering resolves
  classes, sets and \<open>caseFold\<close> into tests and literals, flattens nested sequences and choices,
  merges neighbouring assertions into one mask and collapses a repeat of a repeat. The lemmas
  show that each of these steps, and with them the whole lowering, keeps the spans that the
  pattern describes.
\<close>

definition ANY_CODE_POINT :: int where "ANY_CODE_POINT = - 2"
definition TESTED_CODE_POINT :: int where "TESTED_CODE_POINT = - 1"

datatype plan =
    Consume int "code_point_test option"
  | Assert_Plan nat
  | Sequence_Plan "plan list"
  | Choice_Plan "plan list"
  | Repeat_Plan plan nat "nat option"

definition EMPTY_PLAN :: plan where
  "EMPTY_PLAN = Assert_Plan ANY_CONTEXT_MASK"

definition literalPlan :: "code_point \<Rightarrow> plan" where
  "literalPlan codePoint = Consume (int codePoint) None"

definition testedPlan :: "code_point_test \<Rightarrow> plan" where
  "testedPlan test = Consume TESTED_CODE_POINT (Some test)"

section \<open>Sequences\<close>

text \<open>The closure variables \<open>kept\<close> and \<open>mask\<close> are the pair that the visit passes on.\<close>

definition flushMask :: "plan list \<times> nat \<Rightarrow> plan list \<times> nat" where
  "flushMask = (\<lambda>(kept, msk).
     (if msk \<noteq> ANY_CONTEXT_MASK then kept @ [Assert_Plan msk] else kept, ANY_CONTEXT_MASK))"

fun visitSequence :: "plan list \<times> nat \<Rightarrow> plan \<Rightarrow> plan list \<times> nat" where
  "visitSequence st (Sequence_Plan items) = foldl visitSequence st items"
| "visitSequence (kept, msk) (Assert_Plan m) = (kept, msk AND m)"
| "visitSequence st item = (let (kept, msk) = flushMask st in (kept @ [item], msk))"

definition sequenceOf :: "plan list \<Rightarrow> plan" where
  "sequenceOf items =
     (let (kept, msk) = foldl visitSequence ([], ANY_CONTEXT_MASK) items
      in if kept = [] then Assert_Plan msk
         else let kept = fst (flushMask (kept, msk))
              in if length kept = 1 then kept ! 0 else Sequence_Plan kept)"

section \<open>Choices\<close>

fun visitChoice :: "plan list \<times> nat \<times> bool \<Rightarrow> plan \<Rightarrow> plan list \<times> nat \<times> bool" where
  "visitChoice st (Choice_Plan branches) = foldl visitChoice st branches"
| "visitChoice (kept, msk, hasEmpty) (Assert_Plan m) = (kept, msk OR m, True)"
| "visitChoice (kept, msk, hasEmpty) branch = (kept @ [branch], msk, hasEmpty)"

definition choiceOf :: "plan list \<Rightarrow> plan" where
  "choiceOf branches =
     (let (kept, msk, hasEmpty) = foldl visitChoice ([], 0, False) branches
      in if kept = [] then Assert_Plan msk
         else let kept = (if hasEmpty then kept @ [Assert_Plan msk] else kept)
              in if length kept = 1 then kept ! 0 else Choice_Plan kept)"

section \<open>Repeats\<close>

definition loose :: "nat \<Rightarrow> nat option \<Rightarrow> bool" where
  "loose least most \<longleftrightarrow> least \<le> 1 \<and> (most = None \<or> most = Some 1)"

definition repeatOf :: "plan \<Rightarrow> nat \<Rightarrow> nat option \<Rightarrow> plan" where
  "repeatOf body least most =
     (if most = Some 0 then EMPTY_PLAN
      else case body of
        Assert_Plan m \<Rightarrow> if least = 0 then EMPTY_PLAN else body
      | _ \<Rightarrow>
        if least = 1 \<and> most = Some 1 then body
        else case body of
          Repeat_Plan inner innerLeast innerMost \<Rightarrow>
            if loose least most \<and> loose innerLeast innerMost
            then let nullable = (least = 0 \<or> innerLeast = 0);
                     unbounded = (most = None \<or> innerMost = None)
                 in Repeat_Plan inner (if nullable then 0 else 1) (if unbounded then None else Some 1)
            else Repeat_Plan body least most
        | _ \<Rightarrow> Repeat_Plan body least most)"

section \<open>Nodes\<close>

definition foldedLiteral :: "code_point \<Rightarrow> host \<Rightarrow> plan" where
  "foldedLiteral codePoint h = sequenceOf (map literalPlan (appendFoldedCodePoint h codePoint []))"

definition setPlan :: "bool \<Rightarrow> set_item list \<Rightarrow> bool \<Rightarrow> host \<Rightarrow> plan" where
  "setPlan negated items caseFold h =
     (let single = testedPlan (setTest items negated caseFold h)
      in if \<not> caseFold \<or> negated then single
         else let sequences = map (\<lambda>fold. sequenceOf (map literalPlan fold)) (distinctMultiFolds items h)
              in if length sequences = 0 then single else choiceOf (single # sequences))"

fun lowerNode :: "pattern_node \<Rightarrow> bool \<Rightarrow> host \<Rightarrow> plan" where
  "lowerNode (Literal codePoint) caseFold h =
     (if caseFold then foldedLiteral codePoint h else literalPlan codePoint)"
| "lowerNode Any_Node caseFold h = Consume ANY_CODE_POINT None"
| "lowerNode (Class_Node name) caseFold h = testedPlan (classTest name)"
| "lowerNode (Set_Node negated items) caseFold h = setPlan negated items caseFold h"
| "lowerNode (Assert_Node m) caseFold h = Assert_Plan m"
| "lowerNode (Sequence items) caseFold h = sequenceOf (map (\<lambda>item. lowerNode item caseFold h) items)"
| "lowerNode (Choice branches) caseFold h = choiceOf (map (\<lambda>branch. lowerNode branch caseFold h) branches)"
| "lowerNode (Repeat body least most) caseFold h = repeatOf (lowerNode body caseFold h) least most"
| "lowerNode (Number_Range expansion) caseFold h = lowerNode expansion caseFold h"

definition lowerPattern :: "pattern_node \<Rightarrow> bool \<Rightarrow> host \<Rightarrow> plan" where
  "lowerPattern node caseFold h = lowerNode node caseFold h"

section \<open>What a plan describes\<close>

definition consume_holds :: "int \<Rightarrow> code_point_test option \<Rightarrow> code_point \<Rightarrow> bool" where
  "consume_holds literal test c =
     (if 0 \<le> literal then literal = int c
      else if literal = ANY_CODE_POINT then True
      else case test of Some t \<Rightarrow> has t c | None \<Rightarrow> False)"

fun plan_span :: "code_point list \<Rightarrow> plan \<Rightarrow> spans" where
  "plan_span v (Consume literal test) = char_span v (consume_holds literal test)"
| "plan_span v (Assert_Plan m) = assert_span v m"
| "plan_span v (Sequence_Plan items) = seq_span (map (plan_span v) items)"
| "plan_span v (Choice_Plan branches) = (\<Union>b \<in> set branches. plan_span v b)"
| "plan_span v (Repeat_Plan body least most) = repeat_span (plan_span v body) least most"

definition choice_state :: "code_point list \<Rightarrow> plan list \<times> nat \<times> bool \<Rightarrow> spans" where
  "choice_state v = (\<lambda>(kept, msk, hasEmpty). (\<Union>b \<in> set kept. plan_span v b) \<union> assert_span v msk)"

definition sequence_state :: "code_point list \<Rightarrow> plan list \<times> nat \<Rightarrow> spans" where
  "sequence_state v = (\<lambda>(kept, msk). seq_span (map (plan_span v) kept) O assert_span v msk)"

lemma sequence_state_flush: "sequence_state v (flushMask st) = sequence_state v st"
  by (cases st) (simp add: sequence_state_def flushMask_def span_simps)

lemma flushMask_any: "snd (flushMask st) = ANY_CONTEXT_MASK"
  by (cases st) (simp add: flushMask_def)

lemma sequence_state_push:
  "sequence_state v (case flushMask st of (kept, msk) \<Rightarrow> (kept @ [item], msk)) =
     sequence_state v st O plan_span v item"
proof -
  obtain kept msk where f: "flushMask st = (kept, msk)"
    by (cases "flushMask st")
  with flushMask_any [of st] have "msk = ANY_CONTEXT_MASK"
    by simp
  with f sequence_state_flush [of v st] show ?thesis
    by (simp add: sequence_state_def span_simps)
qed

lemma foldl_sequence_state:
  assumes "\<And>st item. item \<in> set items \<Longrightarrow>
    sequence_state v (visitSequence st item) = sequence_state v st O plan_span v item"
  shows "sequence_state v (foldl visitSequence st items) =
    sequence_state v st O seq_span (map (plan_span v) items)"
  using assms by (induction items arbitrary: st) (simp_all add: span_simps O_assoc)

lemma sequence_state_visit:
  "sequence_state v (visitSequence st item) = sequence_state v st O plan_span v item"
proof (induction item arbitrary: st)
  case (Sequence_Plan items)
  then show ?case by (simp add: foldl_sequence_state)
next
  case (Assert_Plan m)
  then show ?case
    by (cases st) (simp add: sequence_state_def O_assoc span_simps)
qed (simp_all add: sequence_state_push del: plan_span.simps)

lemma sequence_state_kept:
  "kept \<noteq> [] \<Longrightarrow> plan_span v (if length kept = 1 then kept ! 0 else Sequence_Plan kept) =
     seq_span (map (plan_span v) kept)"
  by (cases kept) (auto simp: span_simps)

theorem plan_span_sequenceOf: "plan_span v (sequenceOf items) = seq_span (map (plan_span v) items)"
proof -
  obtain kept msk where f: "foldl visitSequence ([], ANY_CONTEXT_MASK) items = (kept, msk)"
    by (cases "foldl visitSequence ([], ANY_CONTEXT_MASK) items")
  have st: "seq_span (map (plan_span v) items) = sequence_state v (kept, msk)"
    using foldl_sequence_state [of items v "([], ANY_CONTEXT_MASK)"] sequence_state_visit f
    by (simp add: sequence_state_def span_simps)
  show ?thesis
  proof (cases "kept = []")
    case True
    with f st show ?thesis
      by (simp add: sequenceOf_def sequence_state_def span_simps)
  next
    case False
    define final where "final = fst (flushMask (kept, msk))"
    have "seq_span (map (plan_span v) final) = sequence_state v (flushMask (kept, msk))"
      using flushMask_any [of "(kept, msk)"]
      by (simp add: final_def sequence_state_def case_prod_beta span_simps)
    moreover have "final \<noteq> []"
      using False by (simp add: final_def flushMask_def)
    moreover have "sequenceOf items = (if length final = 1 then final ! 0 else Sequence_Plan final)"
      using False f by (simp add: sequenceOf_def final_def Let_def)
    ultimately show ?thesis
      by (metis sequence_state_kept sequence_state_flush st)
  qed
qed

lemma foldl_choice_state:
  assumes "\<And>st branch. branch \<in> set branches \<Longrightarrow>
    choice_state v (visitChoice st branch) = choice_state v st \<union> plan_span v branch"
  shows "choice_state v (foldl visitChoice st branches) =
    choice_state v st \<union> (\<Union>b \<in> set branches. plan_span v b)"
  using assms by (induction branches arbitrary: st) auto

lemma choice_state_visit:
  "choice_state v (visitChoice st branch) = choice_state v st \<union> plan_span v branch"
proof (induction branch arbitrary: st)
  case (Choice_Plan branches)
  then show ?case by (simp add: foldl_choice_state)
next
  case (Assert_Plan m)
  then show ?case
    by (cases st) (auto simp: choice_state_def span_simps [symmetric])
qed (auto simp: choice_state_def split: prod.splits)

text \<open>While no assertion has been seen the merged mask allows nothing.\<close>

lemma foldl_choice_mask:
  assumes "\<And>st branch. branch \<in> set branches \<Longrightarrow> (case st of (kept, msk, hasEmpty) \<Rightarrow> hasEmpty \<or> msk = 0) \<Longrightarrow>
    (case visitChoice st branch of (kept, msk, hasEmpty) \<Rightarrow> hasEmpty \<or> msk = 0)"
    and "case st of (kept, msk, hasEmpty) \<Rightarrow> hasEmpty \<or> msk = 0"
  shows "case foldl visitChoice st branches of (kept, msk, hasEmpty) \<Rightarrow> hasEmpty \<or> msk = 0"
  using assms by (induction branches arbitrary: st) simp_all

lemma choice_mask_visit:
  "case st of (kept, msk, hasEmpty) \<Rightarrow> hasEmpty \<or> msk = 0 \<Longrightarrow>
   case visitChoice st branch of (kept, msk, hasEmpty) \<Rightarrow> hasEmpty \<or> msk = 0"
proof (induction branch arbitrary: st)
  case (Choice_Plan branches)
  then show ?case
    by (simp only: visitChoice.simps) (rule foldl_choice_mask)
qed (auto split: prod.splits)

theorem plan_span_choiceOf: "plan_span v (choiceOf branches) = (\<Union>b \<in> set branches. plan_span v b)"
proof -
  obtain kept msk hasEmpty where f: "foldl visitChoice ([], 0, False) branches = (kept, msk, hasEmpty)"
    by (cases "foldl visitChoice ([], 0, False) branches")
  have st: "(\<Union>b \<in> set branches. plan_span v b) = choice_state v (kept, msk, hasEmpty)"
    using foldl_choice_state [of branches v "([], 0, False)"] choice_state_visit f
    by (simp add: choice_state_def span_simps)
  have none: "hasEmpty \<or> msk = 0"
    using foldl_choice_mask [of branches "([], 0, False)"] choice_mask_visit f by simp
  define final where "final = (if hasEmpty then kept @ [Assert_Plan msk] else kept)"
  show ?thesis
  proof (cases "kept = []")
    case True
    with f st show ?thesis
      by (simp add: choiceOf_def choice_state_def)
  next
    case False
    have "plan_span v (if length final = 1 then final ! 0 else Choice_Plan final) =
        (\<Union>b \<in> set final. plan_span v b)"
      using False by (cases final) (auto simp: final_def split: if_splits)
    moreover have "choiceOf branches = (if length final = 1 then final ! 0 else Choice_Plan final)"
      using False f by (simp add: choiceOf_def final_def Let_def)
    moreover have "(\<Union>b \<in> set final. plan_span v b) = choice_state v (kept, msk, hasEmpty)"
      using none by (auto simp: final_def choice_state_def span_simps)
    ultimately show ?thesis
      using st by metis
  qed
qed

section \<open>Repeats of repeats\<close>

lemma repeat_span_0_None: "repeat_span R 0 None = R\<^sup>*"
  by (simp add: repeat_span_def rtrancl_is_UN_relpow)

lemma repeat_span_1_None: "repeat_span R (Suc 0) None = R\<^sup>+"
  by (auto simp: repeat_span_def trancl_power Suc_le_eq)

lemma repeat_span_0_1: "repeat_span R 0 (Some (Suc 0)) = R\<^sup>="
proof -
  have "{n. n \<le> Suc 0} = {0, Suc 0}"
    by auto
  then show ?thesis
    by (auto simp: repeat_span_def)
qed

lemma repeat_span_1_1: "repeat_span R (Suc 0) (Some (Suc 0)) = R"
proof -
  have "{n. Suc 0 \<le> n \<and> n \<le> Suc 0} = {Suc 0}"
    by auto
  then show ?thesis
    by (simp add: repeat_span_def)
qed

lemmas loose_spans = repeat_span_0_None repeat_span_1_None repeat_span_0_1 repeat_span_1_1

lemma repeat_span_0_0: "repeat_span R 0 (Some 0) = Id"
  by (simp add: repeat_span_def)

lemma relpow_sub_Id: "R \<subseteq> Id \<Longrightarrow> 0 < n \<Longrightarrow> R ^^ n = R"
proof (induction n)
  case (Suc n)
  have "R O R = R"
    using Suc.prems(1) by blast
  with Suc show ?case
    by (cases n) simp_all
qed simp

lemma repeat_span_sub_Id:
  assumes "R \<subseteq> Id" and "case most of None \<Rightarrow> True | Some m \<Rightarrow> least \<le> m \<and> 0 < m"
  shows "repeat_span R least most = (if least = 0 then Id else R)"
proof (cases "least = 0")
  case True
  have "R ^^ n \<subseteq> Id" for n
    using relpow_sub_Id [OF assms(1), of n] assms(1) by (cases n) auto
  then have "repeat_span R 0 most \<subseteq> Id"
    unfolding repeat_span_def by blast
  moreover have "R ^^ 0 \<subseteq> repeat_span R 0 most"
    unfolding repeat_span_def by (rule UN_upper) (simp split: option.split)
  ultimately show ?thesis
    using True by auto
next
  case False
  have "least \<in> {n. least \<le> n \<and> (case most of None \<Rightarrow> True | Some m \<Rightarrow> n \<le> m)}"
    using assms(2) by (auto split: option.splits)
  moreover have "R ^^ n = R" if "least \<le> n" for n
    using relpow_sub_Id [OF assms(1)] that False by simp
  ultimately show ?thesis
    using False by (auto simp: repeat_span_def)
qed

lemma repeat_of_loose:
  assumes "loose a b" and "loose c d"
  shows "repeat_span (repeat_span R c d) a b =
    repeat_span R (if a = 0 \<or> c = 0 then 0 else 1) (if b = None \<or> d = None then None else Some 1)"
proof -
  have a: "a = 0 \<or> a = Suc 0" and b: "b = None \<or> b = Some (Suc 0)"
    and c: "c = 0 \<or> c = Suc 0" and d: "d = None \<or> d = Some (Suc 0)"
    using assms by (auto simp: loose_def)
  show ?thesis
    using a b c d by (auto simp: loose_spans)
qed

theorem plan_span_repeatOf:
  assumes "case most of None \<Rightarrow> True | Some m \<Rightarrow> least \<le> m"
  shows "plan_span v (repeatOf body least most) = repeat_span (plan_span v body) least most"
proof -
  consider (none) "most = Some 0" | (assert) m where "most \<noteq> Some 0" "body = Assert_Plan m"
    | (once) "most \<noteq> Some 0" "\<forall>m. body \<noteq> Assert_Plan m" "least = 1 \<and> most = Some 1"
    | (rest) "most \<noteq> Some 0" "\<forall>m. body \<noteq> Assert_Plan m" "\<not> (least = 1 \<and> most = Some 1)"
    by blast
  then show ?thesis
  proof cases
    case none
    with assms show ?thesis
      by (simp add: repeatOf_def EMPTY_PLAN_def span_simps repeat_span_0_0)
  next
    case assert
    have "case most of None \<Rightarrow> True | Some m \<Rightarrow> least \<le> m \<and> 0 < m"
      using assms assert(1) by (auto split: option.splits)
    from repeat_span_sub_Id [OF assert_span_sub_Id this] assert show ?thesis
      by (simp add: repeatOf_def EMPTY_PLAN_def span_simps)
  next
    case once
    then show ?thesis
      by (cases body) (simp_all add: repeatOf_def repeat_span_1_1)
  next
    case rest
    then show ?thesis
      by (cases body) (auto simp: repeatOf_def Let_def repeat_of_loose simp del: One_nat_def)
  qed
qed

section \<open>Lowering keeps what the pattern describes\<close>

lemma consume_literal: "plan_span v (literalPlan c) = char_span v (\<lambda>x. x = c)"
  by (auto simp: literalPlan_def char_span_def consume_holds_def)

lemma consume_tested: "plan_span v (testedPlan t) = char_span v (has t)"
  by (auto simp: testedPlan_def TESTED_CODE_POINT_def ANY_CODE_POINT_def char_span_def consume_holds_def)

lemma consume_any: "char_span v (consume_holds ANY_CODE_POINT None) = char_span v (\<lambda>_. True)"
  by (auto simp: ANY_CODE_POINT_def char_span_def consume_holds_def)

lemma seq_literals: "seq_span (map (plan_span v) (map literalPlan ws)) = word_span v ws"
  by (induction ws) (simp_all add: span_simps consume_literal)

lemma char_span_cong: "(\<And>c. c \<in> set v \<Longrightarrow> P c \<longleftrightarrow> Q c) \<Longrightarrow> char_span v P = char_span v Q"
  by (auto simp: char_span_def)

context folding_host
begin

lemma plan_span_set:
  assumes wf: "wf_node (Set_Node negated items)"
    and folded: "caseFold \<Longrightarrow> \<forall>c \<in> set v. fold_cp h c = [c]"
  shows "plan_span v (setPlan negated items caseFold h) = set_span h caseFold v negated items"
proof (cases caseFold)
  case False
  then show ?thesis
    by (simp add: setPlan_def set_span_def consume_tested has_setTest [OF wf])
next
  case True
  have single: "plan_span v (testedPlan (setTest items negated True h)) =
      char_span v (\<lambda>c. items_fold_hold h items c \<noteq> negated)"
    unfolding consume_tested
    by (rule char_span_cong) (use folded True in \<open>simp add: has_folded_setTest [OF wf]\<close>)
  show ?thesis
  proof (cases negated)
    case True
    with \<open>caseFold\<close> single show ?thesis
      by (simp add: setPlan_def set_span_def)
  next
    case False
    have multi: "(\<Union>p \<in> set (map (\<lambda>fold. sequenceOf (map literalPlan fold)) (distinctMultiFolds items h)).
        plan_span v p) = (\<Union>m \<in> {m. Member m \<in> set items \<and> 2 \<le> length (fold_cp h m)}. word_span v (fold_cp h m))"
      by (auto simp: plan_span_sequenceOf seq_literals set_distinctMultiFolds simp del: map_map)
    show ?thesis
    proof (cases "distinctMultiFolds items h = []")
      case True
      with multi \<open>caseFold\<close> False single show ?thesis
        by (auto simp: setPlan_def set_span_def)
    next
      case some: False
      then have "setPlan negated items caseFold h = choiceOf (testedPlan (setTest items negated True h) #
          map (\<lambda>fold. sequenceOf (map literalPlan fold)) (distinctMultiFolds items h))"
        using \<open>caseFold\<close> False by (simp add: setPlan_def Let_def)
      with multi \<open>caseFold\<close> False single show ?thesis
        by (simp add: plan_span_choiceOf set_span_def)
    qed
  qed
qed

lemma plan_span_lower:
  assumes "wf_node node" and folded: "caseFold \<Longrightarrow> \<forall>c \<in> set v. fold_cp h c = [c]"
  shows "plan_span v (lowerNode node caseFold h) = node_span h caseFold v node"
  using assms(1)
proof (induction node)
  case (Literal c)
  show ?case
    by (simp add: consume_literal foldedLiteral_def fold_cp_def [symmetric] plan_span_sequenceOf
        seq_literals span_simps del: map_map)
next
  case (Set_Node negated items)
  then show ?case
    using plan_span_set folded by simp
next
  case (Sequence items)
  then have "map (plan_span v) (map (\<lambda>item. lowerNode item caseFold h) items) = map (node_span h caseFold v) items"
    by (auto simp: list_all_iff)
  then show ?case
    by (simp add: plan_span_sequenceOf del: map_map)
next
  case (Choice branches)
  then show ?case
    by (auto simp: plan_span_choiceOf list_all_iff)
next
  case (Repeat body least most)
  then show ?case
    by (simp add: plan_span_repeatOf)
qed (simp_all add: consume_any consume_tested has_classTest)

end

end
