(* ===== verification/Pattern_Automaton.thy ===== *)
theory Pattern_Automaton
  imports Pattern_Lower
begin

text \<open>
  \<open>pattern/automaton.ts\<close>: the compiled program of a pattern and the walk \<open>closeOver\<close> over
  its splits and assertions. The walk marks states with a stamp that it never has to clear
  until the stamp itself runs out. The lemmas show that the walk stops, that it reports a
  match exactly where the match state is reachable without consuming a code point, that it
  otherwise lists each reachable consuming state once, and that the stamps of one walk are
  never mistaken for those of another.
\<close>

definition CONSUME_STATE :: nat where "CONSUME_STATE = 0"
definition SPLIT_STATE :: nat where "SPLIT_STATE = 1"
definition ASSERT_STATE :: nat where "ASSERT_STATE = 2"
definition MATCH_STATE :: nat where "MATCH_STATE = 3"

lemmas state_kinds = CONSUME_STATE_def SPLIT_STATE_def ASSERT_STATE_def MATCH_STATE_def

definition WORD_KIND_EDGES :: "nat list" where
  "WORD_KIND_EDGES = [0x30, 0x3a, 0x41, 0x5b, 0x5f, 0x60, 0x61, 0x7b]"

record code_point_classes =
  classStarts :: "nat list"
  classFoldTarget :: "(code_point \<Rightarrow> bool) option"
  direct :: "int list"

record program =
  positions :: nat
  states :: nat
  kinds :: "nat list"
  nexts :: "int list"
  alternatives :: "int list"
  masks :: "nat list"
  literals :: "int list"
  tests :: "code_point_test option list"
  startState :: nat
  anchoredStart :: bool
  classes :: code_point_classes

section \<open>Classes of code points\<close>

function searchStarts :: "nat list \<Rightarrow> code_point \<Rightarrow> nat \<Rightarrow> nat \<Rightarrow> nat" where
  "searchStarts sts codePoint low high =
     (if low < high then
        let middle = (low + high) div 2
        in if sts ! middle \<le> codePoint then searchStarts sts codePoint (middle + 1) high
           else searchStarts sts codePoint low middle
      else low)"
  by pat_completeness auto
termination
  by (relation "measure (\<lambda>(sts, c, low, high). high - low)") auto

declare searchStarts.simps [simp del]

definition searchedClass :: "nat list \<Rightarrow> (code_point \<Rightarrow> bool) option \<Rightarrow> code_point \<Rightarrow> int" where
  "searchedClass sts foldTarget codePoint =
     (if (case foldTarget of Some check \<Rightarrow> check codePoint | None \<Rightarrow> False)
      then - 1 - int codePoint
      else int (searchStarts sts codePoint 0 (length sts)))"

definition DIRECT_CLASS_CODE_POINTS :: nat where "DIRECT_CLASS_CODE_POINTS = 128"

definition codePointClasses :: "nat list \<Rightarrow> (code_point \<Rightarrow> bool) option \<Rightarrow> code_point_classes" where
  "codePointClasses sts foldTarget =
     \<lparr>classStarts = sts, classFoldTarget = foldTarget,
      direct = map (searchedClass sts foldTarget) [0..<DIRECT_CLASS_CODE_POINTS]\<rparr>"

definition classOf :: "program \<Rightarrow> code_point \<Rightarrow> int" where
  "classOf P codePoint =
     (let cs = classes P
      in if codePoint < length (direct cs) then direct cs ! codePoint
         else searchedClass (classStarts cs) (classFoldTarget cs) codePoint)"

section \<open>Accepting a code point\<close>

definition accepts :: "program \<Rightarrow> nat \<Rightarrow> code_point \<Rightarrow> bool" where
  "accepts P position codePoint =
     (let literal = literals P ! position
      in if 0 \<le> literal then literal = int codePoint
         else if literal = ANY_CODE_POINT then True
         else (case tests P ! position of Some test \<Rightarrow> has test codePoint | None \<Rightarrow> False))"

lemma accepts_consume: "accepts P p = consume_holds (literals P ! p) (tests P ! p)"
  by (simp add: accepts_def consume_holds_def fun_eq_iff)

section \<open>The walk\<close>

text \<open>
  The stack lives in a typed array with a depth; here it is a list of the pushed states. A
  state is marked when it is pushed, so one walk pushes it at most once and the array, which has
  a slot per state, cannot overflow. A state index read from a program is always in range (\<open>program_ok\<close>, proved of every compiled program), so the model may treat an
  index beyond \<open>marks\<close> as already marked.
\<close>

record closure_scratch =
  marks :: "nat list"
  stamp :: nat

definition createClosureScratch :: "nat \<Rightarrow> closure_scratch" where
  "createClosureScratch n = \<lparr>marks = replicate n 0, stamp = 0\<rparr>"

definition LAST_STAMP :: nat where "LAST_STAMP = 0xffffffff"

definition nextStamp :: "closure_scratch \<Rightarrow> closure_scratch" where
  "nextStamp scratch =
     (let scratch = (if stamp scratch = LAST_STAMP
                     then scratch\<lparr>marks := replicate (length (marks scratch)) 0, stamp := 0\<rparr>
                     else scratch)
      in scratch\<lparr>stamp := stamp scratch + 1\<rparr>)"

definition pushState :: "nat \<Rightarrow> nat list \<times> nat list \<Rightarrow> nat \<Rightarrow> nat list \<times> nat list" where
  "pushState stmp = (\<lambda>(mks, stack) state.
     if state < length mks \<and> mks ! state \<noteq> stmp then (mks[state := stmp], state # stack)
     else (mks, stack))"

datatype closure = Match_Reached | Reached "nat list"

definition unmarked :: "nat \<Rightarrow> nat list \<Rightarrow> nat" where
  "unmarked stmp mks = length (filter (\<lambda>m. m \<noteq> stmp) mks)"

lemma unmarked_update:
  "i < length mks \<Longrightarrow> mks ! i \<noteq> stmp \<Longrightarrow> unmarked stmp mks = Suc (unmarked stmp (mks[i := stmp]))"
proof (induction mks arbitrary: i)
  case (Cons m mks)
  then show ?case by (cases i) (auto simp: unmarked_def)
qed simp

lemma pushState_measure:
  "2 * unmarked stmp (fst (pushState stmp st s)) + length (snd (pushState stmp st s))
     \<le> 2 * unmarked stmp (fst st) + length (snd st)"
  using unmarked_update [of s "fst st" stmp] by (auto simp: pushState_def split: prod.splits)

function drain ::
  "program \<Rightarrow> nat \<Rightarrow> nat \<Rightarrow> nat list \<Rightarrow> nat list \<Rightarrow> nat list \<Rightarrow> closure \<times> nat list" where
  "drain P context stmp mks [] out = (Reached out, mks)"
| "drain P context stmp mks (state # stack) out =
     (if kinds P ! state = CONSUME_STATE then drain P context stmp mks stack (out @ [state])
      else if kinds P ! state = MATCH_STATE then (Match_Reached, mks)
      else if kinds P ! state = ASSERT_STATE \<and> \<not> mask_allows (masks P ! state) context
      then drain P context stmp mks stack out
      else let pushed = pushState stmp (mks, stack) (nat (nexts P ! state))
           in if kinds P ! state \<noteq> SPLIT_STATE then drain P context stmp (fst pushed) (snd pushed) out
              else let pushed = pushState stmp pushed (nat (alternatives P ! state))
                   in drain P context stmp (fst pushed) (snd pushed) out)"
  by pat_completeness auto
termination
proof (relation "measure (\<lambda>(P, context, stmp, mks, stack, out). 2 * unmarked stmp mks + length stack)",
    goal_cases)
  case (4 P ctx stmp mks state stack out pushed)
  then show ?case
    using pushState_measure [of stmp "(mks, stack)" "nat (nexts P ! state)"] by simp
next
  case (5 P ctx stmp mks state stack out pushed pushed')
  then show ?case
    using pushState_measure [of stmp "(mks, stack)" "nat (nexts P ! state)"]
      pushState_measure [of stmp pushed "nat (alternatives P ! state)"] by simp
qed auto

definition closeOver ::
  "program \<Rightarrow> nat list \<Rightarrow> bool \<Rightarrow> nat \<Rightarrow> closure_scratch \<Rightarrow> closure \<times> closure_scratch" where
  "closeOver P seeds fromStart context scratch =
     (let scratch = nextStamp scratch;
          seeded = foldl (pushState (stamp scratch)) (marks scratch, [])
                     (map (\<lambda>seed. nat (nexts P ! seed)) seeds);
          rooted = (if fromStart then pushState (stamp scratch) seeded (startState P) else seeded);
          walked = drain P context (stamp scratch) (fst rooted) (snd rooted) []
      in (fst walked, scratch\<lparr>marks := snd walked\<rparr>))"

section \<open>Programs in order\<close>

text \<open>
  Every state index that a program holds is in range, and the consuming states are the ones
  numbered below \<open>positions\<close>.
\<close>

definition next_of :: "program \<Rightarrow> nat \<Rightarrow> nat" where
  "next_of P s = nat (nexts P ! s)"

definition alternative_of :: "program \<Rightarrow> nat \<Rightarrow> nat" where
  "alternative_of P s = nat (alternatives P ! s)"

definition program_ok :: "program \<Rightarrow> bool" where
  "program_ok P \<longleftrightarrow>
     startState P < states P \<and> positions P \<le> states P \<and>
     (\<forall>s < states P.
        (kinds P ! s \<noteq> MATCH_STATE \<longrightarrow> next_of P s < states P) \<and>
        (kinds P ! s = SPLIT_STATE \<longrightarrow> alternative_of P s < states P) \<and>
        (kinds P ! s = CONSUME_STATE \<longleftrightarrow> s < positions P))"

text \<open>One step that consumes nothing, in a context.\<close>

definition silent :: "program \<Rightarrow> nat \<Rightarrow> (nat \<times> nat) set" where
  "silent P ctx = {(s, t).
     kinds P ! s \<noteq> CONSUME_STATE \<and> kinds P ! s \<noteq> MATCH_STATE \<and>
     (kinds P ! s = ASSERT_STATE \<longrightarrow> mask_allows (masks P ! s) ctx) \<and>
     (t = next_of P s \<or> kinds P ! s = SPLIT_STATE \<and> t = alternative_of P s)}"

definition roots :: "program \<Rightarrow> nat list \<Rightarrow> bool \<Rightarrow> nat set" where
  "roots P seeds fromStart = next_of P ` set seeds \<union> (if fromStart then {startState P} else {})"

definition reach :: "program \<Rightarrow> nat \<Rightarrow> nat set \<Rightarrow> nat set" where
  "reach P ctx rs = (silent P ctx)\<^sup>* `` rs"

lemma reach_step: "s \<in> reach P ctx rs \<Longrightarrow> (s, t) \<in> silent P ctx \<Longrightarrow> t \<in> reach P ctx rs"
  by (auto simp: reach_def intro: rtrancl_into_rtrancl)

lemma reach_roots: "rs \<subseteq> reach P ctx rs"
  by (auto simp: reach_def)

lemma reach_least:
  assumes "rs \<subseteq> V" and "\<And>s t. s \<in> V \<Longrightarrow> (s, t) \<in> silent P ctx \<Longrightarrow> t \<in> V"
  shows "reach P ctx rs \<subseteq> V"
proof
  fix t
  assume "t \<in> reach P ctx rs"
  then obtain s where "s \<in> rs" "(s, t) \<in> (silent P ctx)\<^sup>*"
    by (auto simp: reach_def)
  from this(2,1) assms show "t \<in> V"
    by (induction rule: rtrancl_induct) auto
qed

lemma reach_mono: "rs \<subseteq> rs' \<Longrightarrow> reach P ctx rs \<subseteq> reach P ctx rs'"
  by (auto simp: reach_def)

lemma reach_union: "reach P ctx (rs \<union> rs') = reach P ctx rs \<union> reach P ctx rs'"
  by (auto simp: reach_def)

lemma reach_empty [simp]: "reach P ctx {} = {}"
  by (simp add: reach_def)

section \<open>The walk visits what is reachable\<close>

definition marked :: "nat \<Rightarrow> nat list \<Rightarrow> nat set" where
  "marked stmp mks = {s. s < length mks \<and> mks ! s = stmp}"

lemma marked_push:
  "s < length (fst st) \<Longrightarrow> marked stmp (fst (pushState stmp st s)) = insert s (marked stmp (fst st))"
  by (auto simp: pushState_def marked_def nth_list_update split: prod.splits)

lemma length_push [simp]: "length (fst (pushState stmp st s)) = length (fst st)"
  by (auto simp: pushState_def split: prod.splits)

lemma set_push:
  "s < length (fst st) \<Longrightarrow>
     set (snd (pushState stmp st s)) = set (snd st) \<union> ({s} - marked stmp (fst st))"
  by (auto simp: pushState_def marked_def split: prod.splits)

lemma distinct_push:
  "set (snd st) \<union> set out \<subseteq> marked stmp (fst st) \<Longrightarrow> distinct (snd st @ out) \<Longrightarrow>
     distinct (snd (pushState stmp st s) @ out)"
  by (auto simp: pushState_def marked_def split: prod.splits)

lemma stamps_push: "set (fst (pushState stmp st s)) \<subseteq> insert stmp (set (fst st))"
  using set_update_subset_insert [of "fst st" s stmp] by (auto simp: pushState_def split: prod.splits)

definition walk_inv ::
  "program \<Rightarrow> nat \<Rightarrow> nat \<Rightarrow> nat set \<Rightarrow> nat list \<Rightarrow> nat list \<Rightarrow> nat list \<Rightarrow> bool" where
  "walk_inv P ctx stmp C mks stack out \<longleftrightarrow>
     length mks = states P \<and>
     set stack \<union> set out \<subseteq> marked stmp mks \<and> distinct (stack @ out) \<and> marked stmp mks \<subseteq> C \<and>
     (\<forall>s \<in> set out. kinds P ! s = CONSUME_STATE) \<and>
     (\<forall>s \<in> marked stmp mks - set stack.
        (kinds P ! s = CONSUME_STATE \<longrightarrow> s \<in> set out) \<and> kinds P ! s \<noteq> MATCH_STATE \<and>
        (\<forall>t. (s, t) \<in> silent P ctx \<longrightarrow> t \<in> marked stmp mks))"

lemma silent_split:
  "kinds P ! s = SPLIT_STATE \<Longrightarrow> (s, t) \<in> silent P ctx \<longleftrightarrow> t = next_of P s \<or> t = alternative_of P s"
  by (auto simp: silent_def state_kinds)

lemma silent_assert:
  "kinds P ! s = ASSERT_STATE \<Longrightarrow>
     (s, t) \<in> silent P ctx \<longleftrightarrow> mask_allows (masks P ! s) ctx \<and> t = next_of P s"
  by (auto simp: silent_def state_kinds)

lemma silent_other:
  "kinds P ! s \<noteq> SPLIT_STATE \<Longrightarrow> (s, t) \<in> silent P ctx \<longleftrightarrow>
     kinds P ! s \<noteq> CONSUME_STATE \<and> kinds P ! s \<noteq> MATCH_STATE \<and>
     (kinds P ! s = ASSERT_STATE \<longrightarrow> mask_allows (masks P ! s) ctx) \<and> t = next_of P s"
  by (auto simp: silent_def)

text \<open>Popping a state and pushing what it leads to keeps the invariant.\<close>

lemma walk_inv_step:
  assumes inv: "walk_inv P ctx stmp C mks (s # stack) out"
    and kind: "kinds P ! s \<noteq> MATCH_STATE"
    and succ: "\<And>t. (s, t) \<in> silent P ctx \<Longrightarrow> t \<in> marked stmp mks'"
    and len: "length mks' = length mks"
    and grows: "marked stmp mks \<subseteq> marked stmp mks'"
    and inC: "marked stmp mks' \<subseteq> C"
    and stack: "set stack' = set stack \<union> (marked stmp mks' - marked stmp mks)"
    and out: "set out' = set out \<union> (if kinds P ! s = CONSUME_STATE then {s} else {})"
    and dist: "distinct (stack' @ out')"
  shows "walk_inv P ctx stmp C mks' stack' out'"
proof -
  from inv have old: "length mks = states P" "set stack \<subseteq> marked stmp mks" "s \<in> marked stmp mks"
    "set out \<subseteq> marked stmp mks" "\<forall>r \<in> set out. kinds P ! r = CONSUME_STATE"
    and done_: "\<forall>r \<in> marked stmp mks - set (s # stack).
        (kinds P ! r = CONSUME_STATE \<longrightarrow> r \<in> set out) \<and> kinds P ! r \<noteq> MATCH_STATE \<and>
        (\<forall>t. (r, t) \<in> silent P ctx \<longrightarrow> t \<in> marked stmp mks)"
    unfolding walk_inv_def by simp_all
  have "(kinds P ! r = CONSUME_STATE \<longrightarrow> r \<in> set out') \<and> kinds P ! r \<noteq> MATCH_STATE \<and>
        (\<forall>t. (r, t) \<in> silent P ctx \<longrightarrow> t \<in> marked stmp mks')"
    if r: "r \<in> marked stmp mks' - set stack'" for r
  proof (cases "r = s")
    case True
    with kind succ out show ?thesis by simp
  next
    case False
    with r stack have "r \<in> marked stmp mks - set (s # stack)"
      by auto
    with done_ grows out show ?thesis by blast
  qed
  moreover have "set stack' \<union> set out' \<subseteq> marked stmp mks'"
    using stack out old grows by (auto split: if_splits)
  moreover have "\<forall>r \<in> set out'. kinds P ! r = CONSUME_STATE"
    using out old(5) by (auto split: if_splits)
  ultimately show ?thesis
    using old(1) len inC dist unfolding walk_inv_def by simp
qed

lemma walk_inv_distinct: "walk_inv P ctx stmp C mks stack out \<Longrightarrow> distinct (stack @ out)"
  by (simp add: walk_inv_def)

lemma walk_inv_marked: "walk_inv P ctx stmp C mks stack out \<Longrightarrow>
    length mks = states P \<and> set stack \<union> set out \<subseteq> marked stmp mks \<and> marked stmp mks \<subseteq> C"
  by (simp add: walk_inv_def)

lemma walk_inv_push:
  assumes ok: "program_ok P" and closed: "\<And>s t. s \<in> C \<Longrightarrow> (s, t) \<in> silent P ctx \<Longrightarrow> t \<in> C"
    and inv: "walk_inv P ctx stmp C mks (s # stack) out"
    and kind: "kinds P ! s \<noteq> CONSUME_STATE" "kinds P ! s \<noteq> MATCH_STATE"
      "kinds P ! s = ASSERT_STATE \<longrightarrow> mask_allows (masks P ! s) ctx"
    and st1: "st1 = pushState stmp (mks, stack) (next_of P s)"
    and st2: "st2 = (if kinds P ! s = SPLIT_STATE then pushState stmp st1 (alternative_of P s) else st1)"
  shows "walk_inv P ctx stmp C (fst st2) (snd st2) out"
    and "marked stmp mks \<subseteq> marked stmp (fst st2)"
proof -
  have m: "length mks = states P" "set (s # stack) \<union> set out \<subseteq> marked stmp mks" "marked stmp mks \<subseteq> C"
    using walk_inv_marked [OF inv] by auto
  from m have s: "s < states P" "s \<in> C"
    by (auto simp: marked_def)
  have next_: "next_of P s < states P" "kinds P ! s = SPLIT_STATE \<Longrightarrow> alternative_of P s < states P"
    using ok s(1) kind unfolding program_ok_def by blast+
  have marked1: "marked stmp (fst st1) = insert (next_of P s) (marked stmp mks)"
    and len1: "length (fst st1) = length mks"
    and stack1: "set (snd st1) = set stack \<union> ({next_of P s} - marked stmp mks)"
    and dist1: "distinct (snd st1 @ out)"
    using marked_push [of "next_of P s" "(mks, stack)" stmp] set_push [of "next_of P s" "(mks, stack)" stmp]
      distinct_push [of "(mks, stack)" out stmp "next_of P s"] walk_inv_distinct [OF inv] m next_
    by (simp_all add: st1)
  let ?new = "if kinds P ! s = SPLIT_STATE then {next_of P s, alternative_of P s} else {next_of P s}"
  have succ: "(s, t) \<in> silent P ctx \<longleftrightarrow> t \<in> ?new" for t
    using kind by (cases "kinds P ! s = SPLIT_STATE") (simp_all add: silent_split silent_other)
  have marked2: "marked stmp (fst st2) = ?new \<union> marked stmp mks"
    using marked1 marked_push [of "alternative_of P s" st1 stmp] next_ len1 m by (auto simp: st2)
  have len2: "length (fst st2) = length mks"
    using len1 by (simp add: st2)
  have stack2: "set (snd st2) = set stack \<union> (marked stmp (fst st2) - marked stmp mks)"
    unfolding marked2 using stack1 marked1 set_push [of "alternative_of P s" st1 stmp] next_ len1 m
    by (auto simp: st2)
  have "set (snd st1) \<union> set out \<subseteq> marked stmp (fst st1)"
    using stack1 marked1 m by auto
  then have dist2: "distinct (snd st2 @ out)"
    using dist1 distinct_push [of st1 out stmp "alternative_of P s"] by (simp add: st2)
  have newC: "?new \<subseteq> C"
    using closed [OF s(2)] succ by blast
  show "marked stmp mks \<subseteq> marked stmp (fst st2)"
    by (simp only: marked2 Un_upper2)
  show "walk_inv P ctx stmp C (fst st2) (snd st2) out"
    using inv kind(2) _ len2 \<open>marked stmp mks \<subseteq> marked stmp (fst st2)\<close> _ stack2 _ dist2
  proof (rule walk_inv_step)
    show "t \<in> marked stmp (fst st2)" if "(s, t) \<in> silent P ctx" for t
      using that unfolding marked2 succ by blast
    show "marked stmp (fst st2) \<subseteq> C"
      using newC m(3) unfolding marked2 by blast
    show "set out = set out \<union> (if kinds P ! s = CONSUME_STATE then {s} else {})"
      using kind(1) by simp
  qed
qed

lemma drain_correct:
  assumes ok: "program_ok P" and closed: "\<And>s t. s \<in> C \<Longrightarrow> (s, t) \<in> silent P ctx \<Longrightarrow> t \<in> C"
    and inv: "walk_inv P ctx stmp C mks stack out"
  shows "case drain P ctx stmp mks stack out of
      (Match_Reached, mks') \<Rightarrow> \<exists>s \<in> C. kinds P ! s = MATCH_STATE
    | (Reached out', mks') \<Rightarrow> walk_inv P ctx stmp C mks' [] out' \<and> marked stmp mks \<subseteq> marked stmp mks'"
  using inv ok closed
proof (induction P ctx stmp mks stack out rule: drain.induct)
  case (1 P ctx stmp mks out)
  then show ?case by simp
next
  case (2 P ctx stmp mks s stack out)
  note inv = 2(5) and ok = 2(6) and closed = 2(7)
  consider (consume) "kinds P ! s = CONSUME_STATE"
    | (match) "kinds P ! s = MATCH_STATE"
    | (blocked) "kinds P ! s = ASSERT_STATE" "\<not> mask_allows (masks P ! s) ctx"
    | (push) "kinds P ! s \<noteq> CONSUME_STATE" "kinds P ! s \<noteq> MATCH_STATE"
        "kinds P ! s = ASSERT_STATE \<longrightarrow> mask_allows (masks P ! s) ctx"
    by blast
  then show ?case
  proof cases
    case consume
    have "walk_inv P ctx stmp C mks stack (out @ [s])"
      by (rule walk_inv_step [OF inv])
        (use consume inv in \<open>auto simp: walk_inv_def silent_def state_kinds\<close>)
    with consume 2(1) ok closed show ?thesis by simp
  next
    case match
    have "s \<in> C"
      using walk_inv_marked [OF inv] by auto
    with match show ?thesis by (auto simp: state_kinds)
  next
    case blocked
    have "walk_inv P ctx stmp C mks stack out"
      by (rule walk_inv_step [OF inv])
        (use blocked inv in \<open>auto simp: walk_inv_def silent_assert state_kinds\<close>)
    with blocked 2(2) ok closed show ?thesis by (simp add: state_kinds)
  next
    case push
    define st1 where "st1 = pushState stmp (mks, stack) (next_of P s)"
    define st2 where
      "st2 = (if kinds P ! s = SPLIT_STATE then pushState stmp st1 (alternative_of P s) else st1)"
    have inv2: "walk_inv P ctx stmp C (fst st2) (snd st2) out" "marked stmp mks \<subseteq> marked stmp (fst st2)"
      using walk_inv_push [OF ok _ inv push st1_def st2_def] closed by blast+
    have unfold: "drain P ctx stmp mks (s # stack) out = drain P ctx stmp (fst st2) (snd st2) out"
      using push by (auto simp: Let_def st1_def st2_def next_of_def alternative_of_def)
    have IH: "case drain P ctx stmp (fst st2) (snd st2) out of
        (Match_Reached, mks') \<Rightarrow> \<exists>s \<in> C. kinds P ! s = MATCH_STATE
      | (Reached out', mks') \<Rightarrow> walk_inv P ctx stmp C mks' [] out' \<and> marked stmp (fst st2) \<subseteq> marked stmp mks'"
    proof (cases "kinds P ! s = SPLIT_STATE")
      case True
      then have st2: "st2 = pushState stmp st1 (alternative_of P s)"
        by (simp add: st2_def)
      from True 2(4) [OF push(1,2) _ refl _ refl] push inv2(1) ok closed show ?thesis
        unfolding st2 st1_def next_of_def alternative_of_def by simp
    next
      case False
      then have st2: "st2 = st1"
        by (simp add: st2_def)
      from False 2(3) [OF push(1,2) _ refl] push inv2(1) ok closed show ?thesis
        unfolding st2 st1_def next_of_def by simp
    qed
    obtain r m where d: "drain P ctx stmp (fst st2) (snd st2) out = (r, m)"
      by (cases "drain P ctx stmp (fst st2) (snd st2) out")
    from IH inv2(2) show ?thesis
      unfolding unfold d by (cases r) auto
  qed
qed

text \<open>The array of marks keeps its length, and only the current stamp is written to it.\<close>

lemma drain_marks:
  "length (snd (drain P ctx stmp mks stack out)) = length mks \<and>
   set (snd (drain P ctx stmp mks stack out)) \<subseteq> insert stmp (set mks)"
proof (induction P ctx stmp mks stack out rule: drain.induct)
  case (1 P ctx stmp mks out)
  then show ?case by auto
next
  case (2 P ctx stmp mks s stack out)
  define st1 where "st1 = pushState stmp (mks, stack) (nat (nexts P ! s))"
  define st2 where "st2 = pushState stmp st1 (nat (alternatives P ! s))"
  have st1: "length (fst st1) = length mks" "set (fst st1) \<subseteq> insert stmp (set mks)"
    using stamps_push [of stmp "(mks, stack)"] by (auto simp: st1_def)
  have st2: "length (fst st2) = length mks" "set (fst st2) \<subseteq> insert stmp (set mks)"
    using stamps_push [of stmp st1] st1 by (auto simp: st2_def)
  consider "kinds P ! s = CONSUME_STATE" | "kinds P ! s = MATCH_STATE"
    | "kinds P ! s = ASSERT_STATE" "\<not> mask_allows (masks P ! s) ctx"
    | (one) "kinds P ! s \<noteq> CONSUME_STATE" "kinds P ! s \<noteq> MATCH_STATE"
        "\<not> (kinds P ! s = ASSERT_STATE \<and> \<not> mask_allows (masks P ! s) ctx)" "kinds P ! s \<noteq> SPLIT_STATE"
    | (two) "kinds P ! s \<noteq> CONSUME_STATE" "kinds P ! s \<noteq> MATCH_STATE"
        "\<not> (kinds P ! s = ASSERT_STATE \<and> \<not> mask_allows (masks P ! s) ctx)" "kinds P ! s = SPLIT_STATE"
    by blast
  then show ?case
  proof cases
    case one
    then have "drain P ctx stmp mks (s # stack) out = drain P ctx stmp (fst st1) (snd st1) out"
      by (auto simp: st1_def Let_def)
    with "2.IH"(3) [OF one(1-3) st1_def one(4)] st1 show ?thesis by auto
  next
    case two
    then have "drain P ctx stmp mks (s # stack) out = drain P ctx stmp (fst st2) (snd st2) out"
      by (auto simp: st1_def st2_def Let_def)
    with "2.IH"(4) [OF two(1-3) st1_def _ st2_def] two(4) st2 show ?thesis by auto
  qed (use "2.IH"(1,2) in \<open>auto simp: state_kinds\<close>)
qed

section \<open>What closeOver returns\<close>

definition scratch_ok :: "program \<Rightarrow> closure_scratch \<Rightarrow> bool" where
  "scratch_ok P scratch \<longleftrightarrow>
     length (marks scratch) = states P \<and> (\<forall>m \<in> set (marks scratch). m \<le> stamp scratch) \<and>
     stamp scratch \<le> LAST_STAMP"

lemma scratch_ok_create: "scratch_ok P (createClosureScratch (states P))"
  by (simp add: scratch_ok_def createClosureScratch_def)

lemma nextStamp_fresh:
  assumes "scratch_ok P scratch"
  shows "length (marks (nextStamp scratch)) = states P"
    and "\<forall>m \<in> set (marks (nextStamp scratch)). m < stamp (nextStamp scratch)"
    and "stamp (nextStamp scratch) \<le> LAST_STAMP"
  using assms by (auto simp: scratch_ok_def nextStamp_def Let_def LAST_STAMP_def le_eq_less_or_eq)

lemma marked_fresh: "\<forall>m \<in> set mks. m < stmp \<Longrightarrow> marked stmp mks = {}"
  by (auto simp: marked_def dest!: nth_mem)

lemma foldl_push:
  assumes "\<forall>s \<in> set ss. s < length (fst st)" and "set (snd st) = marked stmp (fst st)"
    and "distinct (snd st)" and "set (fst st) \<subseteq> insert stmp M"
  defines "st' \<equiv> foldl (pushState stmp) st ss"
  shows "length (fst st') = length (fst st) \<and> marked stmp (fst st') = marked stmp (fst st) \<union> set ss \<and>
    set (snd st') = marked stmp (fst st') \<and> distinct (snd st') \<and> set (fst st') \<subseteq> insert stmp M"
  using assms(1-4) unfolding st'_def
proof (induction ss arbitrary: st)
  case Nil
  then show ?case by simp
next
  case (Cons s ss)
  let ?st = "pushState stmp st s"
  have "distinct (snd ?st)"
    using distinct_push [of st "[]" stmp s] Cons.prems by simp
  moreover have "set (fst ?st) \<subseteq> insert stmp M"
    using stamps_push [of stmp st s] Cons.prems by blast
  moreover have "marked stmp (fst ?st) = insert s (marked stmp (fst st))"
    "set (snd ?st) = marked stmp (fst ?st)"
    using marked_push [of s st stmp] set_push [of s st stmp] Cons.prems by auto
  ultimately show ?case
    using Cons.IH [of ?st] Cons.prems by (simp add: insert_commute)
qed

text \<open>
  The result of a walk: a match exactly if one is reachable, and otherwise each reachable
  consuming state once, with the reachable states marked by the stamp of this walk.
\<close>

definition closure_result :: "program \<Rightarrow> nat \<Rightarrow> nat set \<Rightarrow> closure \<Rightarrow> closure_scratch \<Rightarrow> bool" where
  "closure_result P ctx rs result scratch \<longleftrightarrow>
     (case result of
        Match_Reached \<Rightarrow> \<exists>s \<in> reach P ctx rs. kinds P ! s = MATCH_STATE
      | Reached out \<Rightarrow>
          (\<forall>s \<in> reach P ctx rs. kinds P ! s \<noteq> MATCH_STATE) \<and> distinct out \<and>
          set out = {s \<in> reach P ctx rs. kinds P ! s = CONSUME_STATE} \<and>
          marked (stamp scratch) (marks scratch) = reach P ctx rs)"

theorem closeOver_reach:
  assumes ok: "program_ok P" and scratch: "scratch_ok P scratch"
    and seeds: "\<forall>p \<in> set seeds. p < positions P"
    and res: "closeOver P seeds fromStart ctx scratch = (result, scratch')"
  shows "closure_result P ctx (roots P seeds fromStart) result scratch' \<and> scratch_ok P scratch'"
proof -
  define sc where "sc = nextStamp scratch"
  note fresh = nextStamp_fresh [OF scratch, folded sc_def]
  define ss where "ss = map (next_of P) seeds @ (if fromStart then [startState P] else [])"
  define st where "st = foldl (pushState (stamp sc)) (marks sc, []) ss"
  let ?rs = "roots P seeds fromStart"
  let ?C = "reach P ctx ?rs"
  have set_ss: "set ss = ?rs"
    by (auto simp: ss_def roots_def)
  have "next_of P p < states P" if "p < positions P" for p
    using ok that unfolding program_ok_def state_kinds
    by (metis order_less_le_trans zero_neq_numeral)
  with seeds ok fresh(1) have range: "\<forall>s \<in> set ss. s < length (marks sc)"
    by (auto simp: ss_def program_ok_def)
  have st: "length (fst st) = states P" "marked (stamp sc) (fst st) = ?rs"
    "set (snd st) = ?rs" "distinct (snd st)" "set (fst st) \<subseteq> insert (stamp sc) (set (marks sc))"
    using foldl_push [of ss "(marks sc, [])" "stamp sc" "set (marks sc)"] range fresh(1)
      marked_fresh [OF fresh(2)] by (auto simp: st_def set_ss)
  have inv: "walk_inv P ctx (stamp sc) ?C (fst st) (snd st) []"
    using st reach_roots [of ?rs P ctx] by (simp add: walk_inv_def)
  obtain r mks where d: "drain P ctx (stamp sc) (fst st) (snd st) [] = (r, mks)"
    by (cases "drain P ctx (stamp sc) (fst st) (snd st) []")
  have "closeOver P seeds fromStart ctx scratch = (r, sc\<lparr>marks := mks\<rparr>)"
    using d by (simp add: closeOver_def sc_def [symmetric] st_def ss_def next_of_def [abs_def] Let_def
        split: if_splits)
  with res have r: "result = r" "scratch' = sc\<lparr>marks := mks\<rparr>"
    by simp_all
  have "scratch_ok P scratch'"
    using drain_marks [of P ctx "stamp sc" "fst st" "snd st" "[]"] st(1,5) fresh d
    by (fastforce simp: scratch_ok_def r le_eq_less_or_eq)
  moreover have "closure_result P ctx ?rs result scratch'"
  proof (cases r)
    case Match_Reached
    with drain_correct [OF ok reach_step inv] d show ?thesis
      by (simp add: closure_result_def r)
  next
    case (Reached out)
    with drain_correct [OF ok reach_step inv] d st(2)
    have fin: "walk_inv P ctx (stamp sc) ?C mks [] out" "?rs \<subseteq> marked (stamp sc) mks"
      by auto
    then have "?C \<subseteq> marked (stamp sc) mks"
      by (intro reach_least) (auto simp: walk_inv_def)
    with fin(1) have "marked (stamp sc) mks = ?C"
      by (auto simp: walk_inv_def)
    with fin(1) show ?thesis
      by (auto simp: closure_result_def r Reached walk_inv_def)
  qed
  ultimately show ?thesis by blast
qed

end
