(* ===== verification/Pattern_Paths.thy ===== *)
theory Pattern_Paths
  imports Pattern_Automaton
begin

text \<open>
  Paths through a graph of states, and what a part of a graph computes. A part \<open>[lo, hi)\<close>
  with an entry and an exit computes a set of spans when the paths that leave it, started
  at its entry, are exactly those that come out at its exit after one of the spans. Parts
  are composed the way \<open>ProgramBuilder\<close> composes them: one after the other, behind a split,
  and in a loop.
\<close>

section \<open>Steps\<close>

datatype state_info =
  State (kind_of: nat) (next_in: int) (alternative_in: int) (mask_of: nat)
    (literal_of: int) (test_of: "code_point_test option")

type_synonym config = "nat \<times> nat"

inductive_set moves :: "code_point list \<Rightarrow> (nat \<Rightarrow> state_info) \<Rightarrow> (config \<times> config) set"
  for v :: "code_point list" and G :: "nat \<Rightarrow> state_info" where
  consume: "kind_of (G s) = CONSUME_STATE \<Longrightarrow>
      (i, j) \<in> char_span v (consume_holds (literal_of (G s)) (test_of (G s))) \<Longrightarrow>
      ((s, i), (nat (next_in (G s)), j)) \<in> moves v G"
| first: "kind_of (G s) = SPLIT_STATE \<Longrightarrow> ((s, i), (nat (next_in (G s)), i)) \<in> moves v G"
| second: "kind_of (G s) = SPLIT_STATE \<Longrightarrow> ((s, i), (nat (alternative_in (G s)), i)) \<in> moves v G"
| assert: "kind_of (G s) = ASSERT_STATE \<Longrightarrow> (i, j) \<in> assert_span v (mask_of (G s)) \<Longrightarrow>
      ((s, i), (nat (next_in (G s)), j)) \<in> moves v G"

inductive_cases movesE: "((s, i), (t, j)) \<in> moves v G"

lemma moves_consume: "kind_of (G s) = CONSUME_STATE \<Longrightarrow> ((s, i), (t, j)) \<in> moves v G \<longleftrightarrow>
    t = nat (next_in (G s)) \<and> (i, j) \<in> char_span v (consume_holds (literal_of (G s)) (test_of (G s)))"
  by (auto elim!: movesE intro: moves.intros simp: state_kinds)

lemma moves_split: "kind_of (G s) = SPLIT_STATE \<Longrightarrow> ((s, i), (t, j)) \<in> moves v G \<longleftrightarrow>
    (t = nat (next_in (G s)) \<or> t = nat (alternative_in (G s))) \<and> j = i"
  by (auto elim!: movesE intro: moves.intros simp: state_kinds)

lemma moves_assert: "kind_of (G s) = ASSERT_STATE \<Longrightarrow> ((s, i), (t, j)) \<in> moves v G \<longleftrightarrow>
    t = nat (next_in (G s)) \<and> (i, j) \<in> assert_span v (mask_of (G s))"
  by (auto elim!: movesE intro: moves.intros simp: state_kinds)

lemma moves_match: "kind_of (G s) = MATCH_STATE \<Longrightarrow> ((s, i), (t, j)) \<notin> moves v G"
  by (auto elim!: movesE simp: state_kinds)

section \<open>What a part computes\<close>

definition computes ::
  "code_point list \<Rightarrow> (nat \<Rightarrow> state_info) \<Rightarrow> nat \<Rightarrow> nat \<Rightarrow> spans \<Rightarrow> nat \<Rightarrow> nat \<Rightarrow> bool" where
  "computes v G lo hi A exit entry \<longleftrightarrow>
     (\<forall>i j. (i, j) \<in> A \<longrightarrow> ((entry, i), (exit, j)) \<in> (moves v G)\<^sup>*) \<and>
     (\<forall>n m i j. ((entry, i), (m, j)) \<in> moves v G ^^ n \<longrightarrow> m \<notin> {lo..<hi} \<longrightarrow>
        (\<exists>k l. (i, k) \<in> A \<and> l \<le> n \<and> ((exit, k), (m, j)) \<in> moves v G ^^ l))"

lemma computesI:
  assumes "\<And>i j. (i, j) \<in> A \<Longrightarrow> ((entry, i), (exit, j)) \<in> (moves v G)\<^sup>*"
    and "\<And>n m i j. ((entry, i), (m, j)) \<in> moves v G ^^ n \<Longrightarrow> m \<notin> {lo..<hi} \<Longrightarrow>
        \<exists>k l. (i, k) \<in> A \<and> l \<le> n \<and> ((exit, k), (m, j)) \<in> moves v G ^^ l"
  shows "computes v G lo hi A exit entry"
  using assms unfolding computes_def by blast

lemma computes_complete:
  "computes v G lo hi A exit entry \<Longrightarrow> (i, j) \<in> A \<Longrightarrow> ((entry, i), (exit, j)) \<in> (moves v G)\<^sup>*"
  unfolding computes_def by blast

lemma computes_sound:
  assumes "computes v G lo hi A exit entry" and "((entry, i), (m, j)) \<in> moves v G ^^ n"
    and "m \<notin> {lo..<hi}"
  obtains k l where "(i, k) \<in> A" and "l \<le> n" and "((exit, k), (m, j)) \<in> moves v G ^^ l"
  using assms unfolding computes_def by blast

lemma computes_mono:
  "computes v G lo hi A exit entry \<Longrightarrow> lo' \<le> lo \<Longrightarrow> hi \<le> hi' \<Longrightarrow> computes v G lo' hi' A exit entry"
  unfolding computes_def by (meson atLeastLessThan_subset_iff atLeastatMost_subset_iff ivl_subset subsetD)

lemma computes_id: "computes v G lo hi Id exit exit"
  by (rule computesI) auto

lemma computes_seq:
  assumes B: "computes v G lo hi B exit middle" and A: "computes v G lo hi A middle entry"
  shows "computes v G lo hi (A O B) exit entry"
proof (rule computesI)
  show "((entry, i), (exit, j)) \<in> (moves v G)\<^sup>*" if "(i, j) \<in> A O B" for i j
    using that computes_complete [OF A] computes_complete [OF B] by (blast intro: rtrancl_trans)
next
  fix n m i j
  assume path: "((entry, i), (m, j)) \<in> moves v G ^^ n" and m: "m \<notin> {lo..<hi}"
  from computes_sound [OF A path m] obtain k l where
    "(i, k) \<in> A" "l \<le> n" and rest: "((middle, k), (m, j)) \<in> moves v G ^^ l" .
  moreover from computes_sound [OF B rest m] obtain k' l' where
    "(k, k') \<in> B" "l' \<le> l" "((exit, k'), (m, j)) \<in> moves v G ^^ l'" .
  ultimately show "\<exists>k l. (i, k) \<in> A O B \<and> l \<le> n \<and> ((exit, k), (m, j)) \<in> moves v G ^^ l"
    by (meson le_trans relcomp.relcompI)
qed

lemma relpow_Suc_first:
  assumes "(x, z) \<in> R ^^ n" and "x \<noteq> z"
  obtains y k where "n = Suc k" and "(x, y) \<in> R" and "(y, z) \<in> R ^^ k"
proof (cases n)
  case (Suc k)
  with assms(1) have "(x, z) \<in> R ^^ Suc k"
    by simp
  from relpow_Suc_D2 [OF this] obtain y where "(x, y) \<in> R" "(y, z) \<in> R ^^ k"
    by blast
  with Suc that show ?thesis by blast
qed (use assms in simp)

lemma computes_step:
  assumes kind: "kind_of (G s) = CONSUME_STATE \<and> A = char_span v (consume_holds (literal_of (G s)) (test_of (G s)))
      \<or> kind_of (G s) = ASSERT_STATE \<and> A = assert_span v (mask_of (G s))"
    and "s \<in> {lo..<hi}" and "nat (next_in (G s)) = exit"
  shows "computes v G lo hi A exit s"
proof -
  have step: "((s, i), (t, j)) \<in> moves v G \<longleftrightarrow> t = exit \<and> (i, j) \<in> A" for i t j
    using kind assms(3) moves_consume [of G s i t j v] moves_assert [of G s i t j v] by auto
  show ?thesis
  proof (rule computesI)
    fix n m i j
    assume "((s, i), (m, j)) \<in> moves v G ^^ n" "m \<notin> {lo..<hi}"
    with assms(2) obtain k t q where "n = Suc k" "((s, i), (t, q)) \<in> moves v G" "((t, q), (m, j)) \<in> moves v G ^^ k"
      by (auto elim: relpow_Suc_first)
    with step show "\<exists>k l. (i, k) \<in> A \<and> l \<le> n \<and> ((exit, k), (m, j)) \<in> moves v G ^^ l"
      by (metis Suc_leD order_refl)
  qed (use step in blast)
qed

lemma computes_split:
  assumes kind: "kind_of (G s) = SPLIT_STATE" and "s \<in> {lo..<hi}"
    and A: "computes v G lo hi A exit (nat (next_in (G s)))"
    and B: "computes v G lo hi B exit (nat (alternative_in (G s)))"
  shows "computes v G lo hi (A \<union> B) exit s"
proof (rule computesI)
  note step = moves_split [of G s, OF kind]
  show "((s, i), (exit, j)) \<in> (moves v G)\<^sup>*" if "(i, j) \<in> A \<union> B" for i j
    using that
    by (auto intro: converse_rtrancl_into_rtrancl [OF moves.first [of G, OF kind] computes_complete [OF A]]
        converse_rtrancl_into_rtrancl [OF moves.second [of G, OF kind] computes_complete [OF B]])
  fix n m i j
  assume "((s, i), (m, j)) \<in> moves v G ^^ n" and m: "m \<notin> {lo..<hi}"
  with assms(2) obtain k t q where n: "n = Suc k" and t: "((s, i), (t, q)) \<in> moves v G"
    and rest: "((t, q), (m, j)) \<in> moves v G ^^ k"
    by (auto elim: relpow_Suc_first)
  from t have q: "q = i" and t: "t = nat (next_in (G s)) \<or> t = nat (alternative_in (G s))"
    by (simp_all add: step)
  from t have "\<exists>k' l. (i, k') \<in> A \<union> B \<and> l \<le> k \<and> ((exit, k'), (m, j)) \<in> moves v G ^^ l"
  proof
    assume "t = nat (next_in (G s))"
    with rest q have "((nat (next_in (G s)), i), (m, j)) \<in> moves v G ^^ k" by simp
    from computes_sound [OF A this m] show ?thesis by blast
  next
    assume "t = nat (alternative_in (G s))"
    with rest q have "((nat (alternative_in (G s)), i), (m, j)) \<in> moves v G ^^ k" by simp
    from computes_sound [OF B this m] show ?thesis by blast
  qed
  with n show "\<exists>k l. (i, k) \<in> A \<union> B \<and> l \<le> n \<and> ((exit, k), (m, j)) \<in> moves v G ^^ l"
    by (meson le_Suc_eq)
qed

lemma computes_loop:
  assumes kind: "kind_of (G s) = SPLIT_STATE" and next_: "nat (alternative_in (G s)) = exit"
    and body: "computes v G (Suc s) hi R s (nat (next_in (G s)))" and "s < hi"
  shows "computes v G s hi (R\<^sup>*) exit s"
proof (rule computesI)
  note step = moves_split [of G s, OF kind]
  have once: "((s, i), (s, j)) \<in> (moves v G)\<^sup>*" if "(i, j) \<in> R" for i j
    by (rule converse_rtrancl_into_rtrancl [OF moves.first [of G, OF kind] computes_complete [OF body that]])
  have many: "((s, i), (s, j)) \<in> (moves v G)\<^sup>*" if "(i, j) \<in> R\<^sup>*" for i j
    using that by (induction rule: rtrancl_induct) (auto dest: once)
  show "((s, i), (exit, j)) \<in> (moves v G)\<^sup>*" if "(i, j) \<in> R\<^sup>*" for i j
    using many [OF that] moves.second [of G s j v, OF kind] unfolding next_ by (rule rtrancl.rtrancl_into_rtrancl)
next
  fix n m i j
  assume "((s, i), (m, j)) \<in> moves v G ^^ n" and m: "m \<notin> {s..<hi}"
  then show "\<exists>k l. (i, k) \<in> R\<^sup>* \<and> l \<le> n \<and> ((exit, k), (m, j)) \<in> moves v G ^^ l"
  proof (induction n arbitrary: i rule: less_induct)
    case (less n)
    from less.prems \<open>s < hi\<close> obtain k t q where n: "n = Suc k" and t: "((s, i), (t, q)) \<in> moves v G"
      and rest: "((t, q), (m, j)) \<in> moves v G ^^ k"
      by (auto elim: relpow_Suc_first)
    from t have q: "q = i" and cases: "t = nat (next_in (G s)) \<or> t = exit"
      unfolding next_ [symmetric] by (simp_all add: moves_split [of G s, OF kind])
    from cases show ?case
    proof
      assume "t = exit"
      with rest q n show ?thesis by (meson le_SucI order_refl rtrancl.rtrancl_refl)
    next
      assume t: "t = nat (next_in (G s))"
      have "m \<notin> {Suc s..<hi}"
        using m by auto
      from computes_sound [OF body rest [unfolded t q] this] obtain k' l where
        "(i, k') \<in> R" "l \<le> k" "((s, k'), (m, j)) \<in> moves v G ^^ l" .
      moreover with less.IH [of l k'] m n obtain k'' l' where
        "(k', k'') \<in> R\<^sup>*" "l' \<le> l" "((exit, k''), (m, j)) \<in> moves v G ^^ l'"
        by auto
      ultimately show ?thesis
        using n by (meson converse_rtrancl_into_rtrancl le_SucI le_trans)
    qed
  qed
qed

end
