(* ===== verification/Pattern_Compile.thy ===== *)
theory Pattern_Compile
  imports Pattern_Paths
begin

text \<open>
  \<open>pattern/expression/compile.ts\<close>: a plan is compiled to a program, state by state from its
  end, with the required copies of a repeat written out and a loop closed by patching its
  split afterwards; the finished states are renumbered so that the consuming ones come first.
  The lemmas show that the program's paths from its start to its match state are exactly the
  spans that the plan describes, that every compiled program is in order (\<open>program_ok\<close>),
  that the anchored start is claimed only where it is true, and that \<open>planSize\<close> predicts the
  number of states and positions exactly.

  Not modelled: the size in bytes (\<open>programBytes\<close>), which counts distinct test objects by
  identity and only steers the size limits of the caches.
\<close>

section \<open>The builder\<close>

text \<open>\<open>UNSET\<close> is the entry of a field that a state does not have.\<close>

definition UNSET :: int where "UNSET = - 1"

record builder =
  b_kinds :: "nat list"
  b_next :: "int list"
  b_alternative :: "int list"
  b_masks :: "nat list"
  b_literals :: "int list"
  b_tests :: "code_point_test option list"
  b_positions :: nat

definition newBuilder :: builder where
  "newBuilder = \<lparr>b_kinds = [], b_next = [], b_alternative = [], b_masks = [], b_literals = [],
     b_tests = [], b_positions = 0\<rparr>"

definition addState :: "nat \<Rightarrow> int \<Rightarrow> int \<Rightarrow> nat \<Rightarrow> builder \<Rightarrow> nat \<times> builder" where
  "addState kind nxt alt msk b =
     (let b = b\<lparr>b_kinds := b_kinds b @ [kind], b_next := b_next b @ [nxt],
                b_alternative := b_alternative b @ [alt], b_masks := b_masks b @ [msk],
                b_literals := b_literals b @ [UNSET], b_tests := b_tests b @ [None]\<rparr>
      in (length (b_kinds b) - 1, b))"

definition consumeState :: "int \<Rightarrow> code_point_test option \<Rightarrow> nat \<Rightarrow> builder \<Rightarrow> nat \<times> builder" where
  "consumeState literal test nxt b =
     (let (state, b) = addState CONSUME_STATE (int nxt) UNSET 0 b
      in (state, b\<lparr>b_literals := (b_literals b)[state := literal],
                   b_tests := (b_tests b)[state := test],
                   b_positions := b_positions b + 1\<rparr>))"

definition splitState :: "int \<Rightarrow> int \<Rightarrow> builder \<Rightarrow> nat \<times> builder" where
  "splitState first second b = addState SPLIT_STATE first second 0 b"

text \<open>
  \<open>compile\<close> with \<open>loop\<close> and \<open>compileRepeat\<close> written into its repeat case. A choice has
  a branch (\<open>choiceOf\<close> makes no empty one); the code's read of its last branch would fail
  without one.
\<close>

function compilePlan :: "plan \<Rightarrow> nat \<Rightarrow> builder \<Rightarrow> nat \<times> builder" where
  "compilePlan (Consume literal test) nxt b = consumeState literal test nxt b"
| "compilePlan (Assert_Plan msk) nxt b =
     (if msk = ANY_CONTEXT_MASK then (nxt, b) else addState ASSERT_STATE (int nxt) UNSET msk b)"
| "compilePlan (Sequence_Plan items) nxt b =
     foldr (\<lambda>item (entry, b). compilePlan item entry b) items (nxt, b)"
| "compilePlan (Choice_Plan branches) nxt b =
     (if branches = [] then (nxt, b)
      else foldr (\<lambda>branch (entry, b).
             let (first, b) = compilePlan branch nxt b
             in splitState (int first) (int entry) b)
           (butlast branches) (compilePlan (last branches) nxt b))"
| "compilePlan (Repeat_Plan body least most) nxt b =
     (let ((entry, b), required) =
        (case most of
           None \<Rightarrow>
             let (loop, b) = splitState UNSET (int nxt) b;
                 (entry, b) = compilePlan body loop b;
                 b = b\<lparr>b_next := (b_next b)[loop := int entry]\<rparr>
             in ((if 0 < least then entry else loop, b), if 0 < least then least - 1 else least)
         | Some m \<Rightarrow>
             (fold (\<lambda>_ (entry, b).
                let (first, b) = compilePlan body entry b
                in splitState (int first) (int nxt) b) [0..<m - least] (nxt, b), least))
      in fold (\<lambda>_ (entry, b). compilePlan body entry b) [0..<required] (entry, b))"
  by pat_completeness auto
termination
  by (relation "measure (\<lambda>(plan, nxt, b). size plan)")
    (auto dest!: in_set_butlastD last_in_set simp: less_Suc_eq_le size_list_estimation')

section \<open>Classes of code points\<close>

definition addRangeEdges :: "nat list \<Rightarrow> nat set \<Rightarrow> nat set" where
  "addRangeEdges rs edges = foldl (\<lambda>edges (low, high). insert (high + 1) (insert low edges)) edges (pairsOf rs)"

text \<open>
  The set \<open>tests\<close> that the code also uses to skip a test it has seen only saves work; the
  model keeps the tests in the order of their first visit.
\<close>

fun collectClassEdges :: "plan \<Rightarrow> nat set \<times> code_point_test list \<Rightarrow> nat set \<times> code_point_test list" where
  "collectClassEdges (Consume literal test) (edges, seen) =
     (if 0 \<le> literal then (insert (nat literal + 1) (insert (nat literal) edges), seen)
      else case test of
        Some t \<Rightarrow> (addRangeEdges (ranges t) edges, seen @ [t])
      | None \<Rightarrow> (edges, seen))"
| "collectClassEdges (Assert_Plan msk) st = st"
| "collectClassEdges (Sequence_Plan items) st = fold collectClassEdges items st"
| "collectClassEdges (Choice_Plan branches) st = fold collectClassEdges branches st"
| "collectClassEdges (Repeat_Plan body least most) st = collectClassEdges body st"

fun firstFoldTarget :: "code_point_test list \<Rightarrow> (code_point \<Rightarrow> bool) option" where
  "firstFoldTarget [] = None"
| "firstFoldTarget (t # ts) = (case isFoldTarget t of Some check \<Rightarrow> Some check | None \<Rightarrow> firstFoldTarget ts)"

definition planClasses :: "plan \<Rightarrow> code_point_classes" where
  "planClasses p =
     (let (edges, seen) = collectClassEdges p (set WORD_KIND_EDGES, [])
      in codePointClasses (sorted_list_of_set edges) (firstFoldTarget seen))"

section \<open>Sizes\<close>

fun sizeOf :: "plan \<Rightarrow> nat \<times> nat" where
  "sizeOf (Consume literal test) = (1, 1)"
| "sizeOf (Assert_Plan msk) = (if msk = ANY_CONTEXT_MASK then 0 else 1, 0)"
| "sizeOf (Sequence_Plan items) =
     fold (\<lambda>child (sts, poss). let (s, p) = sizeOf child in (sts + s, poss + p)) items (0, 0)"
| "sizeOf (Choice_Plan branches) =
     fold (\<lambda>child (sts, poss). let (s, p) = sizeOf child in (sts + s, poss + p)) branches
       (length branches - 1, 0)"
| "sizeOf (Repeat_Plan body least most) =
     (let (s, p) = sizeOf body
      in case most of
           None \<Rightarrow> let copies = max least 1 in (1 + copies * s, copies * p)
         | Some m \<Rightarrow> let optional = m - least in (optional + m * s, m * p))"

text \<open>The states and positions of \<open>planSize\<close>.\<close>

definition planSize :: "plan \<Rightarrow> nat \<times> nat" where
  "planSize p = (let (s, ps) = sizeOf p in (s + 1, ps))"

section \<open>The finished program\<close>

text \<open>\<open>startsOnlyAtStart\<close>: one walk for each context behind the start of the value, on one scratch.\<close>

fun walksNowhere :: "program \<Rightarrow> nat list \<Rightarrow> closure_scratch \<Rightarrow> bool" where
  "walksNowhere P [] scratch = True"
| "walksNowhere P (context # contexts) scratch =
     (case closeOver P [] True context scratch of
        (Match_Reached, _) \<Rightarrow> False
      | (Reached out, scratch') \<Rightarrow> if 0 < length out then False else walksNowhere P contexts scratch')"

definition startsOnlyAtStart :: "program \<Rightarrow> bool" where
  "startsOnlyAtStart P =
     walksNowhere P
       [contextOf previous following.
          previous \<leftarrow> [WORD_CODE_POINT, OTHER_CODE_POINT],
          following \<leftarrow> [AFTER_VALUE_END, WORD_CODE_POINT, OTHER_CODE_POINT]]
       (createClosureScratch (states P))"

text \<open>Consuming states get the next position, the others the next number after all positions.\<close>

definition renumber :: "builder \<Rightarrow> nat list" where
  "renumber b =
     fst (foldl (\<lambda>(renumbered, nextPosition, nextOther) state.
            if b_kinds b ! state = CONSUME_STATE
            then (renumbered @ [nextPosition], nextPosition + 1, nextOther)
            else (renumbered @ [nextOther], nextPosition, nextOther + 1))
          ([], 0, b_positions b) [0..<length (b_kinds b)])"

definition renumberedIndex :: "nat list \<Rightarrow> int \<Rightarrow> int" where
  "renumberedIndex renumbered i = (if i = UNSET then UNSET else int (renumbered ! nat i))"

text \<open>The loop that writes each state's fields at its new number; \<open>Uint16Array\<close> keeps 16 bits of a mask.\<close>

definition placed :: "nat list \<Rightarrow> nat \<Rightarrow> 'a \<Rightarrow> (nat \<Rightarrow> 'a) \<Rightarrow> 'a list" where
  "placed renumbered room blank f =
     foldl (\<lambda>xs state. xs[renumbered ! state := f state]) (replicate room blank) [0..<length renumbered]"

definition finishProgram :: "plan \<Rightarrow> builder \<Rightarrow> nat \<Rightarrow> program" where
  "finishProgram p b entry =
     (let count = length (b_kinds b); renumbered = renumber b
      in \<lparr>positions = b_positions b,
          states = count,
          kinds = placed renumbered count 0 (\<lambda>s. b_kinds b ! s),
          nexts = placed renumbered count 0 (\<lambda>s. renumberedIndex renumbered (b_next b ! s)),
          alternatives = placed renumbered count 0 (\<lambda>s. renumberedIndex renumbered (b_alternative b ! s)),
          masks = placed renumbered count 0 (\<lambda>s. take_bit 16 (b_masks b ! s)),
          literals = placed renumbered (b_positions b) 0 (\<lambda>s. b_literals b ! s),
          tests = placed renumbered (b_positions b) None (\<lambda>s. b_tests b ! s),
          startState = renumbered ! entry,
          anchoredStart = False,
          classes = planClasses p\<rparr>)"

definition compileProgram :: "plan \<Rightarrow> program" where
  "compileProgram p =
     (let (matchState, b) = addState MATCH_STATE UNSET UNSET 0 newBuilder;
          (entry, b) = compilePlan p matchState b;
          draft = finishProgram p b entry
      in draft\<lparr>anchoredStart := startsOnlyAtStart draft\<rparr>)"

end
