(* ===== verification/Pattern_Compiled.thy ===== *)
theory Pattern_Compiled
  imports Pattern_Compile
begin

text \<open>
  Correctness of \<open>pattern/expression/compile.ts\<close>. A call of the builder is summarised by
  \<open>part\<close>: it only appends states, with every index in range, as many as \<open>sizeOf\<close> says, and
  the appended part computes the spans of its plan. One law for each way of putting parts
  together gives the theorem for a whole plan; the finished program is the same graph under
  other numbers.
\<close>

section \<open>Growing a builder\<close>

definition size_of :: "builder \<Rightarrow> nat" where
  "size_of b = length (b_kinds b)"

definition info :: "builder \<Rightarrow> nat \<Rightarrow> state_info" where
  "info b s = State (b_kinds b ! s) (b_next b ! s) (b_alternative b ! s) (b_masks b ! s)
     (b_literals b ! s) (b_tests b ! s)"

definition builder_ok :: "builder \<Rightarrow> bool" where
  "builder_ok b \<longleftrightarrow>
     length (b_next b) = size_of b \<and> length (b_alternative b) = size_of b \<and>
     length (b_masks b) = size_of b \<and> length (b_literals b) = size_of b \<and>
     length (b_tests b) = size_of b"

definition consuming :: "builder \<Rightarrow> nat" where
  "consuming b = length (filter (\<lambda>k. k = CONSUME_STATE) (b_kinds b))"

definition info_ok :: "(int \<times> code_point_test option) set \<Rightarrow> nat \<Rightarrow> state_info \<Rightarrow> bool" where
  "info_ok S n st \<longleftrightarrow>
     (kind_of st = CONSUME_STATE \<longrightarrow> (literal_of st, test_of st) \<in> S) \<and>
     kind_of st \<in> {CONSUME_STATE, SPLIT_STATE, ASSERT_STATE} \<and>
     0 \<le> next_in st \<and> nat (next_in st) < n \<and>
     (if kind_of st = SPLIT_STATE then 0 \<le> alternative_in st \<and> nat (alternative_in st) < n
      else alternative_in st = UNSET)"

lemma info_ok_mono: "info_ok S n st \<Longrightarrow> n \<le> m \<Longrightarrow> info_ok S m st"
  by (auto simp: info_ok_def split: if_splits)

definition grows ::
  "(int \<times> code_point_test option) set \<Rightarrow> builder \<Rightarrow> builder \<Rightarrow> nat \<Rightarrow> nat \<Rightarrow> bool" where
  "grows S b b' sts poss \<longleftrightarrow>
     builder_ok b \<and> builder_ok b' \<and> size_of b' = size_of b + sts \<and>
     b_positions b' = b_positions b + poss \<and> consuming b' = consuming b + poss \<and>
     (\<forall>s < size_of b. info b' s = info b s) \<and>
     (\<forall>s \<in> {size_of b..<size_of b'}. info_ok S (size_of b') (info b' s))"

definition computing ::
  "code_point list \<Rightarrow> builder \<Rightarrow> builder \<Rightarrow> spans \<Rightarrow> nat \<Rightarrow> nat \<Rightarrow> bool" where
  "computing v b b' A exit entry \<longleftrightarrow>
     entry < size_of b' \<and>
     (\<forall>G. (\<forall>s \<in> {size_of b..<size_of b'}. G s = info b' s) \<longrightarrow>
        computes v G (size_of b) (size_of b') A exit entry)"

lemma grows_refl: "builder_ok b \<Longrightarrow> grows S b b 0 0"
  by (simp add: grows_def)

lemma grows_ok: "grows S b b' m n \<Longrightarrow> builder_ok b'"
  by (simp add: grows_def)

lemma grows_le: "grows S b b' m n \<Longrightarrow> size_of b \<le> size_of b'"
  by (simp add: grows_def)

lemma grows_trans:
  assumes "grows S b b1 m n" and "grows S b1 b2 m' n'"
  shows "grows S b b2 (m + m') (n + n')"
proof -
  have "info_ok S (size_of b2) (info b2 s)" if "s \<in> {size_of b..<size_of b2}" for s
    using assms that info_ok_mono [of S "size_of b1" "info b1 s" "size_of b2"]
    unfolding grows_def by (cases "s < size_of b1") auto
  then show ?thesis
    using assms unfolding grows_def by auto
qed

lemma computing_later:
  assumes "computing v b b1 A exit entry" and "grows S b1 b2 m n"
  shows "computing v b b2 A exit entry"
proof -
  have "computes v G (size_of b) (size_of b2) A exit entry"
    if "\<forall>s \<in> {size_of b..<size_of b2}. G s = info b2 s" for G
  proof (rule computes_mono)
    show "computes v G (size_of b) (size_of b1) A exit entry"
      using assms that unfolding computing_def grows_def by auto
  qed (use grows_le [OF assms(2)] in auto)
  then show ?thesis
    using assms grows_le [OF assms(2)] unfolding computing_def by auto
qed

lemma computing_earlier:
  assumes "computing v b1 b2 A exit entry" and "grows S b b1 m n"
  shows "computing v b b2 A exit entry"
proof -
  have "computes v G (size_of b) (size_of b2) A exit entry"
    if "\<forall>s \<in> {size_of b..<size_of b2}. G s = info b2 s" for G
  proof (rule computes_mono)
    show "computes v G (size_of b1) (size_of b2) A exit entry"
      using assms that unfolding computing_def grows_def by auto
  qed (use grows_le [OF assms(2)] in auto)
  then show ?thesis
    using assms unfolding computing_def by auto
qed

lemma computing_seq:
  "computing v b b' B exit middle \<Longrightarrow> computing v b b' A middle entry \<Longrightarrow>
     computing v b b' (A O B) exit entry"
  unfolding computing_def by (blast intro: computes_seq)

lemma computing_id: "exit < size_of b' \<Longrightarrow> computing v b b' Id exit exit"
  unfolding computing_def by (blast intro: computes_id)

section \<open>Adding one state\<close>

lemma nth_info_append: "s < length xs \<Longrightarrow> (xs @ [x]) ! s = xs ! s"
  by (simp add: nth_append)

lemma grows_add:
  assumes "builder_ok b" and "addState kind nxt alt msk b = (s, b')"
    and "kind = SPLIT_STATE \<or> kind = ASSERT_STATE" and "info_ok S (Suc (size_of b)) (State kind nxt alt msk UNSET None)"
  shows "s = size_of b" and "grows S b b' 1 0" and "info b' s = State kind nxt alt msk UNSET None"
proof -
  show s: "s = size_of b" and i: "info b' s = State kind nxt alt msk UNSET None"
    using assms(1,2) by (auto simp: addState_def Let_def builder_ok_def size_of_def info_def nth_append)
  show "grows S b b' 1 0"
    using assms s i
    by (auto simp: grows_def addState_def Let_def builder_ok_def size_of_def info_def nth_append
        consuming_def state_kinds less_Suc_eq)
qed

lemma grows_consume:
  assumes "builder_ok b" and "(lit, test) \<in> S" and "consumeState lit test nxt b = (s, b')" and "nxt < size_of b"
  shows "s = size_of b" and "grows S b b' 1 1"
    and "info b' s = State CONSUME_STATE (int nxt) UNSET 0 lit test"
proof -
  show s: "s = size_of b" and i: "info b' s = State CONSUME_STATE (int nxt) UNSET 0 lit test"
    using assms(1,3) by (auto simp: consumeState_def addState_def Let_def builder_ok_def size_of_def
        info_def nth_append)
  show "grows S b b' 1 1"
    using assms s i
    by (auto simp: grows_def consumeState_def addState_def Let_def builder_ok_def size_of_def info_def
        nth_append consuming_def info_ok_def state_kinds less_Suc_eq)
qed

lemma computing_new:
  assumes "grows S b b' 1 n" and "info b' (size_of b) = st" and "nat (next_in st) = exit"
    and "kind_of st = CONSUME_STATE \<and> A = char_span v (consume_holds (literal_of st) (test_of st))
      \<or> kind_of st = ASSERT_STATE \<and> A = assert_span v (mask_of st)"
  shows "computing v b b' A exit (size_of b)"
proof -
  have "size_of b' = Suc (size_of b)"
    using assms(1) by (simp add: grows_def)
  with assms(2-4) show ?thesis
    unfolding computing_def by (auto intro!: computes_step)
qed

section \<open>Parts\<close>

definition part ::
  "code_point list \<Rightarrow> (int \<times> code_point_test option) set \<Rightarrow> builder \<Rightarrow> nat \<times> nat \<Rightarrow> spans \<Rightarrow> nat \<Rightarrow> nat \<times> builder \<Rightarrow> bool" where
  "part v S b sz A exit result \<longleftrightarrow>
     grows S b (snd result) (fst sz) (snd sz) \<and> computing v b (snd result) A exit (fst result)"

lemma part_id: "builder_ok b \<Longrightarrow> exit < size_of b \<Longrightarrow> part v S b (0, 0) Id exit (exit, b)"
  by (simp add: part_def grows_refl computing_id)

lemma part_ok: "part v S b z A exit r \<Longrightarrow> builder_ok (snd r)"
  by (auto simp: part_def dest: grows_ok)

lemma part_le: "part v S b z A exit r \<Longrightarrow> size_of b \<le> size_of (snd r)"
  by (auto simp: part_def dest: grows_le)

lemma part_entry: "part v S b z A exit r \<Longrightarrow> fst r < size_of (snd r)"
  by (simp add: part_def computing_def)

lemma part_seq:
  assumes "part v S b (m, n) B exit r" and "part v S (snd r) (m', n') A (fst r) r'"
  shows "part v S b (m + m', n + n') (A O B) exit r'"
  using assms unfolding part_def
  by (auto intro: grows_trans computing_seq computing_later computing_earlier)

lemma part_split:
  assumes g: "grows S b b' m n" and A: "computing v b b' A exit e1" and B: "computing v b b' B exit e2"
  shows "part v S b (Suc m, n) (A \<union> B) exit (splitState (int e1) (int e2) b')"
proof -
  obtain s b'' where r: "splitState (int e1) (int e2) b' = (s, b'')"
    by (cases "splitState (int e1) (int e2) b'")
  let ?st = "State SPLIT_STATE (int e1) (int e2) 0 UNSET None"
  have "info_ok S (Suc (size_of b')) ?st"
    using A B by (simp add: info_ok_def computing_def state_kinds)
  from grows_add [OF grows_ok [OF g] r [unfolded splitState_def] _ this]
  have s: "s = size_of b'" "grows S b' b'' 1 0" "info b'' s = ?st"
    by simp_all
  have sz: "size_of b'' = Suc (size_of b')" and le: "size_of b \<le> size_of b'"
    using s(2) grows_le [OF g] by (simp_all add: grows_def)
  have "computes v G (size_of b) (size_of b'') (A \<union> B) exit s"
    if G: "\<forall>s \<in> {size_of b..<size_of b''}. G s = info b'' s" for G
  proof -
    have Gs: "G s = ?st"
      using G s sz le by auto
    show ?thesis
    proof (rule computes_split)
      show "s \<in> {size_of b..<size_of b''}" using s(1) sz le by simp
    qed (use Gs G computing_later [OF A s(2)] computing_later [OF B s(2)] in \<open>auto simp: computing_def\<close>)
  qed
  then have "computing v b b'' (A \<union> B) exit s"
    using s(1) sz by (simp add: computing_def)
  with grows_trans [OF g s(2)] r show ?thesis
    by (simp add: part_def)
qed

text \<open>Closing a loop: the split is added first, and its first way is set to the body's entry afterwards.\<close>

lemma part_loop:
  assumes ok: "builder_ok b" and exit: "exit < size_of b"
    and l: "splitState UNSET (int exit) b = (l, b1)"
    and body: "part v S b1 (m, n) R l (e, b2)"
  defines "b3 \<equiv> b2\<lparr>b_next := (b_next b2)[l := int e]\<rparr>"
  shows "part v S b (Suc m, n) (R\<^sup>*) exit (l, b3)" and "part v S b (Suc m, n) (R\<^sup>+) exit (e, b3)"
proof -
  have l': "l = size_of b" and b1: "builder_ok b1" "size_of b1 = Suc (size_of b)"
    "b_positions b1 = b_positions b" "consuming b1 = consuming b" "\<forall>s < size_of b. info b1 s = info b s"
    "info b1 l = State SPLIT_STATE UNSET (int exit) 0 UNSET None"
    using l ok by (auto simp: splitState_def addState_def Let_def size_of_def builder_ok_def consuming_def
        info_def nth_append state_kinds)
  have g: "grows S b1 b2 m n" and c: "computing v b1 b2 R l e"
    using body by (simp_all add: part_def)
  then have b2: "builder_ok b2" "size_of b2 = Suc (size_of b) + m" "e < size_of b2"
    "b_positions b2 = b_positions b + n" "consuming b2 = consuming b + n"
    "\<forall>s < Suc (size_of b). info b2 s = info b1 s"
    "\<forall>s \<in> {Suc (size_of b)..<size_of b2}. info_ok S (size_of b2) (info b2 s)"
    using b1 by (auto simp: grows_def computing_def)
  have size3: "size_of b3 = size_of b2"
    by (simp add: b3_def size_of_def)
  have info3: "info b3 s = info b2 s" if "s \<noteq> l" for s
    using that by (simp add: b3_def info_def)
  have infol: "info b3 l = State SPLIT_STATE (int e) (int exit) 0 UNSET None"
  proof -
    have "info b2 l = info b1 l"
      using b2(6) l' by simp
    moreover have "l < length (b_next b2)"
      using b2(1,2) l' by (simp add: builder_ok_def)
    ultimately show ?thesis
      using b1(6) by (simp add: info_def b3_def)
  qed
  have grows3: "grows S b b3 (Suc m) n"
  proof -
    have "builder_ok b3"
      using b2(1) by (simp add: builder_ok_def b3_def size_of_def)
    moreover have "info b3 s = info b s" if "s < size_of b" for s
      using that b1(5) b2(6) info3 [of s] l' by simp
    moreover have "info_ok S (size_of b3) (info b3 s)" if "s \<in> {size_of b..<size_of b3}" for s
      using that b2 infol info3 [of s] exit l' size3
      by (cases "s = l") (auto simp: info_ok_def state_kinds)
    moreover have "consuming b3 = consuming b2" "b_positions b3 = b_positions b2"
      by (simp_all add: consuming_def b3_def)
    ultimately show ?thesis
      using ok b2 size3 by (simp add: grows_def)
  qed
  have "computes v G (size_of b) (size_of b3) R l e \<and> computes v G (size_of b) (size_of b3) (R\<^sup>*) exit l"
    if G: "\<forall>s \<in> {size_of b..<size_of b3}. G s = info b3 s" for G
  proof -
    have Gl: "G l = State SPLIT_STATE (int e) (int exit) 0 UNSET None"
      using G l' b2(2) infol size3 by simp
    have "\<forall>s \<in> {size_of b1..<size_of b2}. G s = info b2 s"
      using G info3 l' b1(2) size3 by simp
    with c have R: "computes v G (Suc l) (size_of b3) R l e"
      using b1(2) l' size3 by (simp add: computing_def)
    have "computes v G l (size_of b3) (R\<^sup>*) exit l"
      using computes_loop [of G l exit v "size_of b3" R] Gl R b2(2) l' size3 by simp
    moreover have "computes v G l (size_of b3) R l e"
      using computes_mono [OF R, of l] by simp
    ultimately show ?thesis using l' by simp
  qed
  then have "computing v b b3 R l e" and star: "computing v b b3 (R\<^sup>*) exit l"
    using b2(2,3) size3 l' by (simp_all add: computing_def)
  then have "computing v b b3 (R O R\<^sup>*) exit e"
    by (blast intro: computing_seq)
  with grows3 star show "part v S b (Suc m, n) (R\<^sup>*) exit (l, b3)" "part v S b (Suc m, n) (R\<^sup>+) exit (e, b3)"
    by (simp_all add: part_def trancl_unfold_left)
qed

section \<open>Spans of repeats\<close>

lemma repeat_span_None: "repeat_span R least None = (if 0 < least then R ^^ (least - 1) O R\<^sup>+ else R\<^sup>*)"
proof (cases least)
  case 0
  then show ?thesis by (simp add: repeat_span_0_None)
next
  case (Suc k)
  have "{n. Suc k \<le> n} = (\<lambda>d. k + d) ` {n. 0 < n}"
  proof (rule set_eqI)
    fix n
    have "Suc k \<le> n \<longleftrightarrow> n = k + (n - k) \<and> 0 < n - k"
      by auto
    then show "n \<in> {n. Suc k \<le> n} \<longleftrightarrow> n \<in> (\<lambda>d. k + d) ` {n. 0 < n}"
      by auto
  qed
  then have "repeat_span R least None = (\<Union>d \<in> {n. 0 < n}. R ^^ (k + d))"
    by (simp add: repeat_span_def Suc)
  also have "\<dots> = R ^^ k O (\<Union>d \<in> {n. 0 < n}. R ^^ d)"
    by (auto simp: relpow_add relcomp_unfold)
  also have "(\<Union>d \<in> {n. 0 < n}. R ^^ d) = R\<^sup>+"
    by (auto simp: trancl_power)
  finally show ?thesis by (simp add: Suc)
qed

lemma repeat_span_Some:
  assumes "least \<le> m"
  shows "repeat_span R least (Some m) = R ^^ least O repeat_span R 0 (Some (m - least))"
proof -
  have "{n. least \<le> n \<and> n \<le> m} = (\<lambda>d. least + d) ` {n. n \<le> m - least}"
    using assms by (auto simp: image_iff le_iff_add)
  then have "repeat_span R least (Some m) = (\<Union>d \<in> {n. n \<le> m - least}. R ^^ (least + d))"
    by (simp add: repeat_span_def)
  also have "\<dots> = R ^^ least O repeat_span R 0 (Some (m - least))"
    by (auto simp: repeat_span_def relpow_add relcomp_unfold)
  finally show ?thesis .
qed

lemma relpow_Suc_left: "R ^^ Suc n = R O R ^^ n"
  by (simp add: relpow_commute)

lemma repeat_span_optional: "repeat_span R 0 (Some (Suc n)) = R O repeat_span R 0 (Some n) \<union> Id"
proof -
  have "{k. k \<le> Suc n} = insert 0 (Suc ` {k. k \<le> n})"
    by (auto simp: image_iff) (metis Suc_le_mono not0_implies_Suc)
  then have "repeat_span R 0 (Some (Suc n)) = (\<Union>k \<in> {k. k \<le> n}. R ^^ Suc k) \<union> Id"
    by (simp add: repeat_span_def Un_commute)
  also have "(\<Union>k \<in> {k. k \<le> n}. R ^^ Suc k) = R O repeat_span R 0 (Some n)"
    unfolding relpow_Suc_left repeat_span_def relcomp_UNION_distrib by simp
  finally show ?thesis .
qed

section \<open>Whole plans\<close>

text \<open>What a plan's consuming states accept.\<close>

fun plan_consumes :: "plan \<Rightarrow> (int \<times> code_point_test option) set" where
  "plan_consumes (Consume literal test) = {(literal, test)}"
| "plan_consumes (Assert_Plan m) = {}"
| "plan_consumes (Sequence_Plan items) = (\<Union>p \<in> set items. plan_consumes p)"
| "plan_consumes (Choice_Plan branches) = (\<Union>p \<in> set branches. plan_consumes p)"
| "plan_consumes (Repeat_Plan body least most) = plan_consumes body"

text \<open>What lowering guarantees of a plan: a choice has branches, and a repeat a sensible range.\<close>

fun wf_plan :: "plan \<Rightarrow> bool" where
  "wf_plan (Sequence_Plan items) \<longleftrightarrow> list_all wf_plan items"
| "wf_plan (Choice_Plan branches) \<longleftrightarrow> branches \<noteq> [] \<and> list_all wf_plan branches"
| "wf_plan (Repeat_Plan body least most) \<longleftrightarrow>
     wf_plan body \<and> (case most of None \<Rightarrow> True | Some m \<Rightarrow> least \<le> m)"
| "wf_plan _ \<longleftrightarrow> True"

definition good :: "code_point list \<Rightarrow> (int \<times> code_point_test option) set \<Rightarrow> plan \<Rightarrow> bool" where
  "good v S p \<longleftrightarrow> (\<forall>nxt b. builder_ok b \<longrightarrow> nxt < size_of b \<longrightarrow>
     part v S b (sizeOf p) (plan_span v p) nxt (compilePlan p nxt b))"

lemma goodD: "good v S p \<Longrightarrow> builder_ok b \<Longrightarrow> nxt < size_of b \<Longrightarrow>
    part v S b (sizeOf p) (plan_span v p) nxt (compilePlan p nxt b)"
  by (simp add: good_def)

lemma good_after:
  assumes "good v S p" and "part v S b (m, n) B exit r"
  shows "part v S b (m + fst (sizeOf p), n + snd (sizeOf p)) (plan_span v p O B) exit
    (compilePlan p (fst r) (snd r))"
  using part_seq [OF assms(2), of "fst (sizeOf p)" "snd (sizeOf p)"]
    goodD [OF assms(1) part_ok [OF assms(2)] part_entry [OF assms(2)]] by simp

lemma fold_sizes:
  "fold (\<lambda>child (sts, poss). let (s, p) = sizeOf child in (sts + s, poss + p)) xs (m, n) =
     (m + sum_list (map (\<lambda>x. fst (sizeOf x)) xs), n + sum_list (map (\<lambda>x. snd (sizeOf x)) xs))"
  by (induction xs arbitrary: m n) (simp_all add: case_prod_beta Let_def)

lemma part_sequence:
  assumes "\<forall>p \<in> set items. good v S p" and "builder_ok b" and "nxt < size_of b"
  shows "part v S b (sum_list (map (\<lambda>x. fst (sizeOf x)) items), sum_list (map (\<lambda>x. snd (sizeOf x)) items))
    (seq_span (map (plan_span v) items)) nxt
    (foldr (\<lambda>item (entry, b). compilePlan item entry b) items (nxt, b))"
  using assms(1)
proof (induction items)
  case Nil
  then show ?case using part_id [OF assms(2,3)] by (simp add: span_simps)
next
  case (Cons p items)
  then show ?case
    using good_after [of v S p, OF _ Cons.IH] by (simp add: span_simps case_prod_beta add.commute)
qed

lemma part_choice:
  assumes "\<forall>p \<in> set branches. good v S p" and p: "good v S p" and b: "builder_ok b" "nxt < size_of b"
  shows "part v S b (length branches + sum_list (map (\<lambda>x. fst (sizeOf x)) branches) + fst (sizeOf p),
      sum_list (map (\<lambda>x. snd (sizeOf x)) branches) + snd (sizeOf p))
    ((\<Union>q \<in> set branches. plan_span v q) \<union> plan_span v p) nxt
    (foldr (\<lambda>branch (entry, b). let (first, b) = compilePlan branch nxt b in splitState (int first) (int entry) b)
       branches (compilePlan p nxt b))"
  using assms(1)
proof (induction branches)
  case Nil
  then show ?case using goodD [OF p b] by simp
next
  case (Cons q branches)
  define r where "r = foldr (\<lambda>branch (entry, b). let (first, b) = compilePlan branch nxt b
      in splitState (int first) (int entry) b) branches (compilePlan p nxt b)"
  define R where "R = (\<Union>q \<in> set branches. plan_span v q) \<union> plan_span v p"
  obtain m n where mn: "m = length branches + sum_list (map (\<lambda>x. fst (sizeOf x)) branches) + fst (sizeOf p)"
    "n = sum_list (map (\<lambda>x. snd (sizeOf x)) branches) + snd (sizeOf p)"
    by blast
  have IH: "part v S b (m, n) R nxt r"
    using Cons by (simp add: r_def R_def mn)
  obtain first b2 where c: "compilePlan q nxt (snd r) = (first, b2)"
    by (cases "compilePlan q nxt (snd r)")
  have "part v S (snd r) (sizeOf q) (plan_span v q) nxt (first, b2)"
    using goodD [of v S q "snd r" nxt] Cons.prems part_ok [OF IH] part_le [OF IH] b(2) c by simp
  with IH have "part v S b (Suc (m + fst (sizeOf q)), n + snd (sizeOf q)) (plan_span v q \<union> R) nxt
      (splitState (int first) (int (fst r)) b2)"
    by (intro part_split) (auto simp: part_def intro: grows_trans computing_later computing_earlier)
  moreover have "foldr (\<lambda>branch (entry, b). let (first, b) = compilePlan branch nxt b
      in splitState (int first) (int entry) b) (q # branches) (compilePlan p nxt b) =
      splitState (int first) (int (fst r)) b2"
    using c unfolding foldr.simps o_apply r_def [symmetric] by (simp add: case_prod_beta)
  ultimately show ?case
    unfolding R_def mn by (simp add: Un_assoc ac_simps)
qed

lemma part_copies:
  assumes p: "good v S p" and "part v S b (m, n) B exit r"
  shows "part v S b (m + k * fst (sizeOf p), n + k * snd (sizeOf p)) (plan_span v p ^^ k O B) exit
    (fold (\<lambda>_ (entry, b). compilePlan p entry b) [0..<k] r)"
proof (induction k)
  case (Suc k)
  show ?case
    using good_after [OF p Suc]
    by (simp add: case_prod_beta O_assoc relpow_Suc_left ac_simps del: relpow.simps)
qed (use assms(2) in simp)

lemma part_optional:
  assumes p: "good v S p" and b: "builder_ok b" "nxt < size_of b"
  shows "part v S b (k + k * fst (sizeOf p), k * snd (sizeOf p)) (repeat_span (plan_span v p) 0 (Some k)) nxt
    (fold (\<lambda>_ (entry, b). let (first, b) = compilePlan p entry b in splitState (int first) (int nxt) b)
       [0..<k] (nxt, b))"
proof (induction k)
  case 0
  then show ?case using part_id [OF b] by (simp add: repeat_span_0_0)
next
  case (Suc k)
  define r where "r = fold (\<lambda>_ (entry, b). let (first, b) = compilePlan p entry b
      in splitState (int first) (int nxt) b) [0..<k] (nxt, b)"
  obtain first b2 where c: "compilePlan p (fst r) (snd r) = (first, b2)"
    by (cases "compilePlan p (fst r) (snd r)")
  have step: "fold (\<lambda>_ (entry, b). let (first, b) = compilePlan p entry b in splitState (int first) (int nxt) b)
      [0..<Suc k] (nxt, b) = splitState (int first) (int nxt) b2"
    using c unfolding upt_Suc_append [OF le0] fold_append o_apply r_def [symmetric]
    by (simp add: case_prod_beta)
  from good_after [OF p Suc [folded r_def]] c
  have part: "part v S b (k + k * fst (sizeOf p) + fst (sizeOf p), k * snd (sizeOf p) + snd (sizeOf p))
      (plan_span v p O repeat_span (plan_span v p) 0 (Some k)) nxt (first, b2)"
    by simp
  have "computing v b b2 Id nxt nxt"
    using part_le [OF part] b(2) by (simp add: computing_id)
  with part have "part v S b (Suc (k + k * fst (sizeOf p) + fst (sizeOf p)), k * snd (sizeOf p) + snd (sizeOf p))
      (plan_span v p O repeat_span (plan_span v p) 0 (Some k) \<union> Id) nxt (splitState (int first) (int nxt) b2)"
    by (intro part_split) (auto simp: part_def)
  then show ?case
    unfolding step by (simp add: repeat_span_optional ac_simps)
qed

theorem compilePlan_good: "wf_plan p \<Longrightarrow> plan_consumes p \<subseteq> S \<Longrightarrow> good v S p"
proof (induction p)
  case (Consume lit test)
  show ?case
    unfolding good_def
  proof (intro allI impI)
    fix nxt b
    assume b: "builder_ok b" "nxt < size_of b"
    obtain s b' where c: "consumeState lit test nxt b = (s, b')"
      by (cases "consumeState lit test nxt b")
    have "(lit, test) \<in> S"
      using Consume by simp
    note g = grows_consume [OF b(1) this c b(2)]
    from computing_new [OF g(2) g(3) [unfolded g(1)]] c g(1,2)
    show "part v S b (sizeOf (Consume lit test)) (plan_span v (Consume lit test)) nxt
        (compilePlan (Consume lit test) nxt b)"
      by (simp add: part_def)
  qed
next
  case (Assert_Plan m)
  show ?case
    unfolding good_def
  proof (intro allI impI)
    fix nxt b
    assume b: "builder_ok b" "nxt < size_of b"
    show "part v S b (sizeOf (Assert_Plan m)) (plan_span v (Assert_Plan m)) nxt (compilePlan (Assert_Plan m) nxt b)"
    proof (cases "m = ANY_CONTEXT_MASK")
      case True
      with part_id [OF b] show ?thesis by (simp add: span_simps)
    next
      case False
      obtain s b' where c: "addState ASSERT_STATE (int nxt) UNSET m b = (s, b')"
        by (cases "addState ASSERT_STATE (int nxt) UNSET m b")
      have "info_ok S (Suc (size_of b)) (State ASSERT_STATE (int nxt) UNSET m UNSET None)"
        using b(2) by (simp add: info_ok_def state_kinds)
      note g = grows_add [OF b(1) c _ this, simplified]
      from computing_new [OF g(2) [folded One_nat_def] g(3) [unfolded g(1)]] c g(1,2) False show ?thesis
        by (simp add: part_def)
    qed
  qed
next
  case (Sequence_Plan items)
  then have "\<forall>p \<in> set items. good v S p"
    by (auto simp: list_all_iff)
  from part_sequence [OF this] show ?case
    unfolding good_def sizeOf.simps fold_sizes compilePlan.simps plan_span.simps by simp
next
  case (Choice_Plan branches)
  then obtain qs q where qs: "branches = qs @ [q]"
    by (cases branches rule: rev_cases) auto
  have "\<forall>p \<in> set branches. good v S p"
    using Choice_Plan by (auto simp: list_all_iff)
  then have "\<forall>p \<in> set qs. good v S p" "good v S q"
    by (simp_all add: qs)
  from part_choice [OF this] show ?case
    unfolding good_def sizeOf.simps fold_sizes compilePlan.simps plan_span.simps
    by (simp add: qs ac_simps)
next
  case (Repeat_Plan body least most)
  then have body: "good v S body"
    by simp
  show ?case
    unfolding good_def
  proof (intro allI impI)
    fix nxt b
    assume b: "builder_ok b" "nxt < size_of b"
    show "part v S b (sizeOf (Repeat_Plan body least most)) (plan_span v (Repeat_Plan body least most)) nxt
        (compilePlan (Repeat_Plan body least most) nxt b)"
    proof (cases most)
      case (Some m)
      with Repeat_Plan.prems have m: "least \<le> m" by simp
      have "(m - least) * k + least * k = m * k" for k
        using m by (metis add_mult_distrib le_add_diff_inverse2)
      then show ?thesis
        using part_copies [OF body part_optional [OF body b, of "m - least"], of least]
        by (simp add: Some case_prod_beta Let_def repeat_span_Some [OF m] add.assoc)
    next
      case None
      obtain l b1 where l: "splitState UNSET (int nxt) b = (l, b1)"
        by (cases "splitState UNSET (int nxt) b")
      then have b1: "builder_ok b1" "l < size_of b1"
        using b(1) by (auto simp: splitState_def addState_def Let_def builder_ok_def size_of_def)
      obtain e b2 where c: "compilePlan body l b1 = (e, b2)"
        by (cases "compilePlan body l b1")
      have "part v S b1 (fst (sizeOf body), snd (sizeOf body)) (plan_span v body) l (e, b2)"
        using goodD [OF body b1] c by simp
      note loops = part_loop [OF b l this]
      show ?thesis
      proof (cases least)
        case 0
        with loops(1) show ?thesis
          by (simp add: None l c repeat_span_None case_prod_beta Let_def)
      next
        case (Suc k)
        with part_copies [OF body loops(2), of k] show ?thesis
          by (simp add: None l c repeat_span_None case_prod_beta Let_def ac_simps)
      qed
    qed
  qed
qed

section \<open>The states of a finished program\<close>

definition drafted :: "plan \<Rightarrow> nat \<times> builder" where
  "drafted p = compilePlan p 0 (snd (addState MATCH_STATE UNSET UNSET 0 newBuilder))"

lemma match_builder:
  defines "b \<equiv> snd (addState MATCH_STATE UNSET UNSET 0 newBuilder)"
  shows "builder_ok b" and "size_of b = 1" and "b_positions b = 0" and "consuming b = 0"
    and "info b 0 = State MATCH_STATE UNSET UNSET 0 UNSET None"
    and "addState MATCH_STATE UNSET UNSET 0 newBuilder = (0, b)"
  unfolding b_def
  by (auto simp: addState_def newBuilder_def Let_def builder_ok_def size_of_def consuming_def info_def state_kinds)

lemma drafted_part:
  assumes "wf_plan p"
  shows "part v (plan_consumes p) (snd (addState MATCH_STATE UNSET UNSET 0 newBuilder)) (sizeOf p) (plan_span v p) 0 (drafted p)"
  unfolding drafted_def using match_builder by (intro goodD compilePlan_good assms) simp_all

text \<open>What is known of the states of a drafted program.\<close>

definition draft_ok :: "(int \<times> code_point_test option) set \<Rightarrow> nat \<times> builder \<Rightarrow> bool" where
  "draft_ok S d \<longleftrightarrow>
     builder_ok (snd d) \<and> fst d < size_of (snd d) \<and> consuming (snd d) = b_positions (snd d) \<and>
     (\<forall>s < size_of (snd d).
        if s = 0 then info (snd d) s = State MATCH_STATE UNSET UNSET 0 UNSET None
        else info_ok S (size_of (snd d)) (info (snd d) s))"

lemma drafted_ok:
  assumes "wf_plan p"
  shows "draft_ok (plan_consumes p) (drafted p)"
    and "size_of (snd (drafted p)) = Suc (fst (sizeOf p))"
    and "b_positions (snd (drafted p)) = snd (sizeOf p)"
proof -
  note part = drafted_part [OF assms, of "[]"]
  note b = match_builder
  have g: "grows (plan_consumes p) (snd (addState MATCH_STATE UNSET UNSET 0 newBuilder)) (snd (drafted p)) (fst (sizeOf p)) (snd (sizeOf p))"
    using part by (simp add: part_def)
  then show "size_of (snd (drafted p)) = Suc (fst (sizeOf p))" "b_positions (snd (drafted p)) = snd (sizeOf p)"
    using b by (simp_all add: grows_def)
  show "draft_ok (plan_consumes p) (drafted p)"
    using part_ok [OF part] part_entry [OF part] g b unfolding draft_ok_def grows_def by auto
qed

theorem drafted_paths:
  assumes "wf_plan p"
  shows "((fst (drafted p), i), (0, j)) \<in> (moves v (info (snd (drafted p))))\<^sup>* \<longleftrightarrow> (i, j) \<in> plan_span v p"
proof -
  let ?G = "info (snd (drafted p))"
  note ok = drafted_ok(1) [OF assms, unfolded draft_ok_def]
  have c: "computes v ?G 1 (size_of (snd (drafted p))) (plan_span v p) 0 (fst (drafted p))"
    using drafted_part [OF assms, of v] match_builder(2) by (simp add: part_def computing_def)
  show ?thesis
  proof
    assume "((fst (drafted p), i), (0, j)) \<in> (moves v ?G)\<^sup>*"
    then obtain n where "((fst (drafted p), i), (0, j)) \<in> moves v ?G ^^ n"
      using rtrancl_imp_relpow by blast
    then obtain k l where
      k: "(i, k) \<in> plan_span v p" and "((0, k), (0, j)) \<in> moves v ?G ^^ l"
      by (rule computes_sound [OF c]) simp
    moreover have "((0, k), (t, q)) \<notin> moves v ?G" for t q
      using ok by (intro moves_match) auto
    ultimately have "k = j"
      by (cases l) (auto elim!: relpow_Suc_E2 simp del: relpow.simps(2))
    with k show "(i, j) \<in> plan_span v p" by simp
  qed (rule computes_complete [OF c])
qed

end
