(* ===== verification/Pattern_Program.thy ===== *)
theory Pattern_Program
  imports Pattern_Compiled
begin

text \<open>
  The finished program of \<open>compileProgram\<close>: the renumbering is a bijection that puts the
  consuming states first, so the program is in order and has the paths of the builder's
  graph; \<open>anchoredStart\<close> holds exactly when nothing can be consumed or matched from a start
  behind the first code point.
\<close>

section \<open>Renumbering\<close>

definition consuming_before :: "builder \<Rightarrow> nat \<Rightarrow> nat" where
  "consuming_before b s = length (filter (\<lambda>k. k = CONSUME_STATE) (take s (b_kinds b)))"

definition new_number :: "builder \<Rightarrow> nat \<Rightarrow> nat" where
  "new_number b s =
     (if b_kinds b ! s = CONSUME_STATE then consuming_before b s
      else b_positions b + (s - consuming_before b s))"

lemma consuming_before_Suc: "s < size_of b \<Longrightarrow>
  consuming_before b (Suc s) = consuming_before b s + (if b_kinds b ! s = CONSUME_STATE then 1 else 0)"
  by (simp add: consuming_before_def size_of_def take_Suc_conv_app_nth)

lemma consuming_before_le: "consuming_before b s \<le> s"
  unfolding consuming_before_def by (rule order_trans [OF length_filter_le]) simp

lemma consuming_before_all: "consuming_before b (size_of b) = consuming b"
  by (simp add: consuming_before_def consuming_def size_of_def)

lemma renumber_prefix:
  assumes "n \<le> size_of b"
  shows "foldl (\<lambda>(renumbered, nextPosition, nextOther) state.
            if b_kinds b ! state = CONSUME_STATE
            then (renumbered @ [nextPosition], nextPosition + 1, nextOther)
            else (renumbered @ [nextOther], nextPosition, nextOther + 1))
          ([], 0, b_positions b) [0..<n] =
     (map (new_number b) [0..<n], consuming_before b n, b_positions b + (n - consuming_before b n))"
  using assms
proof (induction n)
  case 0
  then show ?case by (simp add: consuming_before_def)
next
  case (Suc n)
  then show ?case
    using consuming_before_le [of b n]
    by (simp add: consuming_before_Suc new_number_def Suc_diff_le)
qed

lemma renumber_eq: "renumber b = map (new_number b) [0..<size_of b]"
  using renumber_prefix [of "size_of b" b] by (simp add: renumber_def size_of_def)

lemma consuming_before_mono: "s \<le> t \<Longrightarrow> t \<le> size_of b \<Longrightarrow>
    consuming_before b s \<le> consuming_before b t \<and> s - consuming_before b s \<le> t - consuming_before b t"
proof (induction t)
  case (Suc t)
  show ?case
  proof (cases "s = Suc t")
    case False
    with Suc consuming_before_le [of b t] show ?thesis by (auto simp: consuming_before_Suc)
  qed simp
qed simp

lemma new_number_consume:
  assumes "consuming b = b_positions b" and "s < size_of b"
  shows "b_kinds b ! s = CONSUME_STATE \<longleftrightarrow> new_number b s < b_positions b"
  using assms consuming_before_mono [of "Suc s" "size_of b" b]
  by (auto simp: new_number_def consuming_before_Suc consuming_before_all)

lemma new_number_less:
  assumes "consuming b = b_positions b" and "s < size_of b"
  shows "new_number b s < size_of b"
  using assms consuming_before_mono [of "Suc s" "size_of b" b] consuming_before_le [of b "size_of b"]
    consuming_before_le [of b s]
  by (auto simp: new_number_def consuming_before_Suc consuming_before_all Suc_diff_le)

lemma new_number_mono:
  assumes "s < t" and "t < size_of b" and "b_kinds b ! s = CONSUME_STATE \<longleftrightarrow> b_kinds b ! t = CONSUME_STATE"
  shows "new_number b s < new_number b t"
  using assms consuming_before_mono [of "Suc s" t b] consuming_before_le [of b s]
  by (auto simp: new_number_def consuming_before_Suc Suc_diff_le)

lemma new_number_inj:
  assumes "consuming b = b_positions b"
  shows "inj_on (new_number b) {..<size_of b}"
proof (rule inj_onI)
  fix s t
  assume st: "s \<in> {..<size_of b}" "t \<in> {..<size_of b}" "new_number b s = new_number b t"
  then have "b_kinds b ! s = CONSUME_STATE \<longleftrightarrow> b_kinds b ! t = CONSUME_STATE"
    using new_number_consume [OF assms] by simp
  with st new_number_mono [of s t b] new_number_mono [of t s b] show "s = t"
    by (cases s t rule: linorder_cases) auto
qed

lemma new_number_onto:
  assumes "consuming b = b_positions b"
  shows "new_number b ` {..<size_of b} = {..<size_of b}"
  by (rule endo_inj_surj) (use new_number_less [OF assms] new_number_inj [OF assms] in auto)

text \<open>Writing at distinct places.\<close>

lemma foldl_placed_other:
  "\<forall>s \<in> set ss. g s \<noteq> t \<Longrightarrow> foldl (\<lambda>xs s. xs[g s := f s]) xs ss ! t = xs ! t"
  by (induction ss arbitrary: xs) simp_all

lemma length_foldl_placed: "length (foldl (\<lambda>xs s. xs[g s := f s]) xs ss) = length xs"
  by (induction ss arbitrary: xs) simp_all

lemma foldl_placed:
  "inj_on g (set ss) \<Longrightarrow> distinct ss \<Longrightarrow> s \<in> set ss \<Longrightarrow> g s < length xs \<Longrightarrow>
     foldl (\<lambda>xs s. xs[g s := f s]) xs ss ! g s = f s"
proof (induction ss arbitrary: xs)
  case (Cons t ss)
  show ?case
  proof (cases "s = t")
    case True
    with Cons.prems have "\<forall>u \<in> set ss. g u \<noteq> g t"
      by (metis distinct.simps(2) inj_on_contraD list.set_intros)
    with True Cons.prems show ?thesis by (simp add: foldl_placed_other)
  next
    case False
    with Cons show ?thesis by simp
  qed
qed simp

lemma placed_at:
  assumes "consuming b = b_positions b" and "s < size_of b" and "new_number b s < n"
  shows "placed (renumber b) n blank f ! new_number b s = f s"
proof -
  have "foldl (\<lambda>xs s. xs[renumber b ! s := f s]) (replicate n blank) [0..<size_of b] ! (renumber b ! s) = f s"
    by (rule foldl_placed)
      (use assms new_number_inj [OF assms(1)] in \<open>auto simp: renumber_eq inj_on_def\<close>)
  with assms(2) show ?thesis by (simp add: placed_def renumber_eq)
qed

lemma placed_length: "length (placed rs n blank f) = n"
  by (simp add: placed_def length_foldl_placed)

section \<open>The states of the program\<close>

definition compiled :: "plan \<Rightarrow> program" where
  "compiled p = finishProgram p (snd (drafted p)) (fst (drafted p))"

lemma compileProgram_eq: "compileProgram p = (compiled p)\<lparr>anchoredStart := startsOnlyAtStart (compiled p)\<rparr>"
  using arg_cong [OF match_builder(6), of fst]
  by (simp add: compileProgram_def compiled_def drafted_def Let_def case_prod_beta)

definition renumbered_info :: "builder \<Rightarrow> state_info \<Rightarrow> state_info" where
  "renumbered_info b st = State (kind_of st) (renumberedIndex (renumber b) (next_in st))
     (renumberedIndex (renumber b) (alternative_in st)) (take_bit 16 (mask_of st)) (literal_of st) (test_of st)"

definition program_info :: "program \<Rightarrow> nat \<Rightarrow> state_info" where
  "program_info P s = State (kinds P ! s) (nexts P ! s) (alternatives P ! s) (masks P ! s) (literals P ! s) (tests P ! s)"

text \<open>One step of a program on a value.\<close>

definition run_steps :: "code_point list \<Rightarrow> program \<Rightarrow> (config \<times> config) set" where
  "run_steps v P =
     {((s, i), (t, j)). kinds P ! s = CONSUME_STATE \<and> t = next_of P s \<and> (i, j) \<in> char_span v (accepts P s)} \<union>
     {((s, i), (t, j)). j = i \<and> (s, t) \<in> silent P (context_at v i)}"

lemma run_steps_iff: "((s, i), (t, j)) \<in> run_steps v P \<longleftrightarrow>
    kinds P ! s = CONSUME_STATE \<and> t = next_of P s \<and> (i, j) \<in> char_span v (accepts P s) \<or>
    j = i \<and> (s, t) \<in> silent P (context_at v i)"
  by (simp add: run_steps_def)

lemma mask_allows_16: "c < 16 \<Longrightarrow> mask_allows (take_bit 16 m) c = mask_allows m c"
  by (simp add: mask_allows_bit bit_take_bit_iff)

abbreviation built :: "plan \<Rightarrow> builder" where "built p \<equiv> snd (drafted p)"

lemma count:
  assumes wf: "wf_plan p"
  shows "consuming (built p) = b_positions (built p)"
  using drafted_ok(1) [OF wf] by (simp add: draft_ok_def)

lemma fields:
  assumes wf: "wf_plan p"
  shows "states (compiled p) = size_of (built p)" "positions (compiled p) = b_positions (built p)" "startState (compiled p) = new_number (built p) (fst (drafted p))"
  using drafted_ok(1) [OF wf] by (simp_all add: compiled_def finishProgram_def Let_def size_of_def draft_ok_def renumber_eq)

lemma kind_at:
  assumes wf: "wf_plan p"
  shows "s < size_of (built p) \<Longrightarrow> kinds (compiled p) ! new_number (built p) s = kind_of (info (built p) s)"
  by (simp add: placed_at [OF count [OF wf]] new_number_less [OF count [OF wf]] compiled_def finishProgram_def Let_def info_def flip: size_of_def)

lemma next_at:
  assumes wf: "wf_plan p"
  shows "s < size_of (built p) \<Longrightarrow> nexts (compiled p) ! new_number (built p) s = renumberedIndex (renumber (built p)) (next_in (info (built p) s))"
  by (simp add: placed_at [OF count [OF wf]] new_number_less [OF count [OF wf]] compiled_def finishProgram_def Let_def info_def flip: size_of_def)

lemma alternative_at:
  assumes wf: "wf_plan p"
  shows "s < size_of (built p) \<Longrightarrow> alternatives (compiled p) ! new_number (built p) s = renumberedIndex (renumber (built p)) (alternative_in (info (built p) s))"
  by (simp add: placed_at [OF count [OF wf]] new_number_less [OF count [OF wf]] compiled_def finishProgram_def Let_def info_def flip: size_of_def)

lemma mask_at:
  assumes wf: "wf_plan p"
  shows "s < size_of (built p) \<Longrightarrow> masks (compiled p) ! new_number (built p) s = take_bit 16 (mask_of (info (built p) s))"
  by (simp add: placed_at [OF count [OF wf]] new_number_less [OF count [OF wf]] compiled_def finishProgram_def Let_def info_def flip: size_of_def)

lemma accepts_at:
  assumes wf: "wf_plan p" and "s < size_of (built p)" and "kind_of (info (built p) s) = CONSUME_STATE"
  shows "accepts (compiled p) (new_number (built p) s) = consume_holds (literal_of (info (built p) s)) (test_of (info (built p) s))"
proof -
  have "new_number (built p) s < b_positions (built p)"
    using assms new_number_consume [OF count [OF wf]] by (simp add: info_def)
  with assms(2) show ?thesis
    by (simp add: placed_at [OF count [OF wf]] accepts_consume compiled_def finishProgram_def Let_def info_def)
qed

lemma info_range:
  assumes wf: "wf_plan p" and "s < size_of (built p)" and "kind_of (info (built p) s) \<noteq> MATCH_STATE"
  shows "info_ok (plan_consumes p) (size_of (built p)) (info (built p) s)"
  using drafted_ok(1) [OF wf] assms unfolding draft_ok_def by (metis state_info.sel(1))

lemma target:
  assumes "0 \<le> i" and "nat i < size_of (built p)"
  shows "nat (renumberedIndex (renumber (built p)) i) = new_number (built p) (nat i)"
  using assms by (simp add: renumberedIndex_def UNSET_def renumber_eq)

lemma next_target:
  assumes wf: "wf_plan p" and "s < size_of (built p)" and "kind_of (info (built p) s) \<noteq> MATCH_STATE"
  shows "next_of (compiled p) (new_number (built p) s) = new_number (built p) (nat (next_in (info (built p) s)))"
    and "nat (next_in (info (built p) s)) < size_of (built p)"
  using info_range [OF assms] assms(2) target by (simp_all add: next_of_def next_at [OF wf] info_ok_def)

lemma alternative_target:
  assumes wf: "wf_plan p" and "s < size_of (built p)" and "kind_of (info (built p) s) = SPLIT_STATE"
  shows "alternative_of (compiled p) (new_number (built p) s) = new_number (built p) (nat (alternative_in (info (built p) s)))"
    and "nat (alternative_in (info (built p) s)) < size_of (built p)"
  using info_range [OF wf, of s] assms target by (simp_all add: alternative_of_def alternative_at [OF wf] info_ok_def state_kinds)

lemma number_cases:
  assumes wf: "wf_plan p" and "s < states (compiled p)"
  obtains r where "r < size_of (built p)" and "s = new_number (built p) r"
  using assms new_number_onto [OF count [OF wf]] fields(1) [OF wf] by (metis imageE lessThan_iff)

lemma compiled_ok:
  assumes wf: "wf_plan p"
  shows "program_ok (compiled p)"
proof -
  have "startState (compiled p) < states (compiled p)"
    using drafted_ok(1) [OF wf] new_number_less [OF count [OF wf]] by (simp add: fields [OF wf] draft_ok_def)
  moreover have "positions (compiled p) \<le> states (compiled p)"
    using count [OF wf] consuming_before_le [of "built p" "size_of (built p)"] by (simp add: fields [OF wf] consuming_before_all)
  moreover have "(kinds (compiled p) ! s \<noteq> MATCH_STATE \<longrightarrow> next_of (compiled p) s < states (compiled p)) \<and>
      (kinds (compiled p) ! s = SPLIT_STATE \<longrightarrow> alternative_of (compiled p) s < states (compiled p)) \<and>
      (kinds (compiled p) ! s = CONSUME_STATE \<longleftrightarrow> s < positions (compiled p))" if "s < states (compiled p)" for s
  proof -
    from that obtain r where r: "r < size_of (built p)" "s = new_number (built p) r"
      by (rule number_cases [OF wf])
    then show ?thesis
      using next_target [OF wf r(1)] alternative_target [OF wf r(1)] new_number_less [OF count [OF wf]]
        new_number_consume [OF count [OF wf] r(1)] kind_at [OF wf r(1)]
      by (auto simp: fields [OF wf] info_def)
  qed
  ultimately show ?thesis
    by (simp add: program_ok_def)
qed

lemma steps_moves:
  assumes wf: "wf_plan p" and s: "s < size_of (built p)"
  shows "((new_number (built p) s, i), (t', j)) \<in> run_steps v (compiled p) \<longleftrightarrow>
    (\<exists>t < size_of (built p). t' = new_number (built p) t \<and> ((s, i), (t, j)) \<in> moves v (info (built p)))"
proof -
  let ?st = "info (built p) s"
  have ctx: "context_at v i < 16"
    using context_at_less [of v i] by simp
  have kinds: "kind_of ?st = MATCH_STATE \<or> kind_of ?st \<in> {CONSUME_STATE, SPLIT_STATE, ASSERT_STATE}"
    using info_range [OF wf s] by (auto simp: info_ok_def)
  then consider (match) "kind_of ?st = MATCH_STATE" | (consume) "kind_of ?st = CONSUME_STATE"
    | (split) "kind_of ?st = SPLIT_STATE" | (assert) "kind_of ?st = ASSERT_STATE"
    by blast
  then show ?thesis
  proof cases
    case match
    then show ?thesis
      using moves_match [of "info (built p)" s, OF match] kind_at [OF wf s]
      by (auto simp: run_steps_iff silent_def state_kinds)
  next
    case consume
    then show ?thesis
      using moves_consume [of "info (built p)" s, OF consume] kind_at [OF wf s] next_target [OF wf s] accepts_at [OF wf s consume]
      by (auto simp: run_steps_iff silent_def state_kinds)
  next
    case split
    then show ?thesis
      using moves_split [of "info (built p)" s, OF split] kind_at [OF wf s] next_target [OF wf s] alternative_target [OF wf s split]
      by (auto simp: run_steps_iff silent_def state_kinds)
  next
    case assert
    then show ?thesis
      using moves_assert [of "info (built p)" s, OF assert] kind_at [OF wf s] next_target [OF wf s] mask_at [OF wf s]
        mask_allows_16 [OF ctx]
      by (auto simp: run_steps_iff silent_def state_kinds assert_span_def)
  qed
qed

lemma paths_moves:
  assumes wf: "wf_plan p" and "((s, i), (t, j)) \<in> (moves v (info (built p)))\<^sup>*" and "s < size_of (built p)"
  shows "((new_number (built p) s, i), (new_number (built p) t, j)) \<in> (run_steps v (compiled p))\<^sup>* \<and> t < size_of (built p)"
  using assms(2)
proof (induction rule: rtrancl_induct2)
  case (step t j t' j')
  from step have t: "t < size_of (built p)"
    by simp
  have "t' < size_of (built p)"
    using step(2) info_range [OF wf t] by (cases rule: moves.cases) (auto simp: info_ok_def state_kinds split: if_splits)
  with step(2) have "((new_number (built p) t, j), (new_number (built p) t', j')) \<in> run_steps v (compiled p)"
    using steps_moves [OF wf t] by blast
  with step \<open>t' < size_of (built p)\<close> show ?case
    by auto
qed (simp add: assms(3))

lemma paths_steps:
  assumes wf: "wf_plan p" and "((new_number (built p) s, i), (t', j)) \<in> (run_steps v (compiled p))\<^sup>*" and "s < size_of (built p)"
  shows "\<exists>t < size_of (built p). t' = new_number (built p) t \<and> ((s, i), (t, j)) \<in> (moves v (info (built p)))\<^sup>*"
  using assms(2)
proof (induction rule: rtrancl_induct2)
  case (step t j t' j')
  then show ?case
    using steps_moves [OF wf] by (metis rtrancl.rtrancl_into_rtrancl)
qed (use assms(3) in blast)

theorem compiled_paths:
  assumes wf: "wf_plan p"
  shows "(\<exists>m. kinds (compiled p) ! m = MATCH_STATE \<and> ((startState (compiled p), i), (m, j)) \<in> (run_steps v (compiled p))\<^sup>*) \<longleftrightarrow> (i, j) \<in> plan_span v p"
proof -
  note ok = drafted_ok(1) [OF wf, unfolded draft_ok_def]
  have start: "fst (drafted p) < size_of (built p)" and pos: "0 < size_of (built p)"
    using ok drafted_ok(2) [OF wf] by simp_all
  then have zero: "info (built p) 0 = State MATCH_STATE UNSET UNSET 0 UNSET None"
    using ok by auto
  have only: "s = 0" if s: "kind_of (info (built p) s) = MATCH_STATE" "s < size_of (built p)" for s
  proof (rule ccontr)
    assume "s \<noteq> 0"
    with s(2) ok have "info_ok (plan_consumes p) (size_of (built p)) (info (built p) s)"
      by auto
    with s(1) show False by (simp add: info_ok_def state_kinds)
  qed
  show ?thesis
  proof
    assume "(i, j) \<in> plan_span v p"
    then have "((fst (drafted p), i), (0, j)) \<in> (moves v (info (built p)))\<^sup>*"
      using drafted_paths [OF wf] by simp
    with paths_moves [OF wf this start] kind_at [OF wf, of 0] zero
    show "\<exists>m. kinds (compiled p) ! m = MATCH_STATE \<and> ((startState (compiled p), i), (m, j)) \<in> (run_steps v (compiled p))\<^sup>*"
      unfolding fields [OF wf] by auto
  next
    assume "\<exists>m. kinds (compiled p) ! m = MATCH_STATE \<and> ((startState (compiled p), i), (m, j)) \<in> (run_steps v (compiled p))\<^sup>*"
    then obtain t where "t < size_of (built p)" "kinds (compiled p) ! new_number (built p) t = MATCH_STATE"
      "((fst (drafted p), i), (t, j)) \<in> (moves v (info (built p)))\<^sup>*"
      using paths_steps [OF wf _ start] unfolding fields [OF wf] by blast
    with kind_at [OF wf, of t] only [of t] show "(i, j) \<in> plan_span v p"
      using drafted_paths [OF wf] by simp
  qed
qed

section \<open>Anchored starts\<close>

lemma walksNowhere_iff:
  assumes ok: "program_ok P" and "scratch_ok P scratch"
  shows "walksNowhere P ctxs scratch \<longleftrightarrow>
    (\<forall>ctx \<in> set ctxs. \<forall>s \<in> reach P ctx {startState P}. kinds P ! s \<noteq> MATCH_STATE \<and> kinds P ! s \<noteq> CONSUME_STATE)"
  using assms(2)
proof (induction ctxs arbitrary: scratch)
  case (Cons ctx ctxs)
  obtain r scratch' where c: "closeOver P [] True ctx scratch = (r, scratch')"
    by (cases "closeOver P [] True ctx scratch")
  have res: "closure_result P ctx {startState P} r scratch'" and ok': "scratch_ok P scratch'"
    using closeOver_reach [OF ok Cons.prems _ c] by (simp_all add: roots_def)
  show ?case
  proof (cases r)
    case Match_Reached
    with res c show ?thesis by (auto simp: closure_result_def)
  next
    case (Reached out)
    with res have "out = [] \<longleftrightarrow> (\<forall>s \<in> reach P ctx {startState P}. kinds P ! s \<noteq> CONSUME_STATE)"
      "\<forall>s \<in> reach P ctx {startState P}. kinds P ! s \<noteq> MATCH_STATE"
      by (auto simp: closure_result_def simp flip: set_empty)
    with Cons.IH [OF ok'] c Reached show ?thesis by auto
  qed
qed simp

text \<open>Nothing leads on from the start behind the first code point.\<close>

definition only_at_start :: "program \<Rightarrow> bool" where
  "only_at_start P \<longleftrightarrow>
     (\<forall>previous \<in> {1, 2}. \<forall>following \<in> {0, 1, 2}. \<forall>s \<in> reach P (contextOf previous following) {startState P}.
        kinds P ! s \<noteq> MATCH_STATE \<and> kinds P ! s \<noteq> CONSUME_STATE)"

lemma startsOnlyAtStart_iff: "program_ok P \<Longrightarrow> startsOnlyAtStart P \<longleftrightarrow> only_at_start P"
  unfolding startsOnlyAtStart_def
  by (subst walksNowhere_iff [OF _ scratch_ok_create])
    (simp_all add: only_at_start_def WORD_CODE_POINT_def OTHER_CODE_POINT_def AFTER_VALUE_END_def)

lemma anchored_blocks:
  assumes "only_at_start P" and "0 < i" and "kinds P ! m = MATCH_STATE"
  shows "((startState P, i), (m, j)) \<notin> (run_steps v P)\<^sup>*"
proof
  assume path: "((startState P, i), (m, j)) \<in> (run_steps v P)\<^sup>*"
  have "kind_before v i \<in> {1, 2}" and "kind_after v i \<in> {0, 1, 2}"
    using assms(2) by (auto simp: kind_before_def kind_after_def kindOf_def WORD_CODE_POINT_def
        OTHER_CODE_POINT_def AFTER_VALUE_END_def)
  with assms(1) have none: "\<forall>s \<in> reach P (context_at v i) {startState P}. kinds P ! s \<noteq> MATCH_STATE \<and> kinds P ! s \<noteq> CONSUME_STATE"
    unfolding only_at_start_def context_at_def by blast
  from path have "m \<in> reach P (context_at v i) {startState P} \<and> j = i"
  proof (induction rule: rtrancl_induct2)
    case refl
    then show ?case using reach_roots by blast
  next
    case (step s j t j')
    with none show ?case
      by (auto simp: run_steps_iff intro: reach_step)
  qed
  with none assms(3) show False by blast
qed

section \<open>What compileProgram returns\<close>

text \<open>Only \<open>anchoredStart\<close> differs between the draft and the finished program.\<close>

lemma update_anchored [simp]:
  "states (P\<lparr>anchoredStart := a\<rparr>) = states P" "run_steps v (P\<lparr>anchoredStart := a\<rparr>) = run_steps v P"
  "program_ok (P\<lparr>anchoredStart := a\<rparr>) = program_ok P" "only_at_start (P\<lparr>anchoredStart := a\<rparr>) = only_at_start P"
  "silent (P\<lparr>anchoredStart := a\<rparr>) = silent P"
  by (simp_all add: run_steps_def silent_def program_ok_def only_at_start_def reach_def next_of_def
      alternative_of_def accepts_def [abs_def] fun_eq_iff)

lemma compileProgram_ok: "wf_plan p \<Longrightarrow> program_ok (compileProgram p)"
  by (simp add: compileProgram_eq compiled_ok)

lemma compileProgram_size:
  "wf_plan p \<Longrightarrow> (states (compileProgram p), positions (compileProgram p)) = planSize p"
  using drafted_ok(2,3) [of p]
  by (simp add: compileProgram_eq fields planSize_def case_prod_beta Let_def)

lemma compileProgram_paths:
  assumes "wf_plan p"
  shows "(\<exists>m. kinds (compileProgram p) ! m = MATCH_STATE \<and>
      ((startState (compileProgram p), i), (m, j)) \<in> (run_steps v (compileProgram p))\<^sup>*) \<longleftrightarrow> (i, j) \<in> plan_span v p"
  using compiled_paths [OF assms] by (simp add: compileProgram_eq)

lemma compileProgram_anchored:
  "wf_plan p \<Longrightarrow> anchoredStart (compileProgram p) \<longleftrightarrow> only_at_start (compileProgram p)"
  by (simp add: compileProgram_eq startsOnlyAtStart_iff [OF compiled_ok])

lemma anchored_spans:
  assumes "wf_plan p" and "anchoredStart (compileProgram p)" and "(i, j) \<in> plan_span v p"
  shows "i = 0"
  using anchored_blocks compileProgram_paths [OF assms(1)] compileProgram_anchored [OF assms(1)] assms(2,3)
  by blast

section \<open>Lowering makes sensible plans\<close>

lemma wf_visitSequence:
  "list_all wf_plan (fst st) \<Longrightarrow> wf_plan item \<Longrightarrow> list_all wf_plan (fst (visitSequence st item))"
proof (induction item arbitrary: st)
  case (Sequence_Plan items)
  have "list_all wf_plan (fst (foldl visitSequence st items))"
  proof (rule foldl_invariant)
    fix st' :: "plan list \<times> nat" and item
    assume item: "item \<in> set items" and st': "list_all wf_plan (fst st')"
    have "wf_plan item"
      using Sequence_Plan(3) item by (simp add: list_all_iff)
    from Sequence_Plan(1) [OF item st' this] show "list_all wf_plan (fst (visitSequence st' item))" .
  qed (rule Sequence_Plan(2))
  then show ?case by simp
qed (auto simp: flushMask_def case_prod_beta Let_def split: prod.splits)

lemma wf_sequenceOf: "list_all wf_plan items \<Longrightarrow> wf_plan (sequenceOf items)"
proof -
  assume items: "list_all wf_plan items"
  have "list_all wf_plan (fst (foldl visitSequence st items))" if "list_all wf_plan (fst st)" for st
    by (rule foldl_invariant [where I = "\<lambda>st. list_all wf_plan (fst st)", OF that], rule wf_visitSequence) (use items in \<open>simp_all add: list_all_iff\<close>)
  from this [of "([], ANY_CONTEXT_MASK)"]
  obtain kept msk where "foldl visitSequence ([], ANY_CONTEXT_MASK) items = (kept, msk)" "list_all wf_plan kept"
    by (cases "foldl visitSequence ([], ANY_CONTEXT_MASK) items") simp
  then show ?thesis
    by (cases kept) (simp_all add: sequenceOf_def flushMask_def Let_def)
qed

lemma wf_visitChoice:
  "list_all wf_plan (fst st) \<Longrightarrow> wf_plan item \<Longrightarrow> list_all wf_plan (fst (visitChoice st item))"
proof (induction item arbitrary: st)
  case (Choice_Plan items)
  have "list_all wf_plan (fst (foldl visitChoice st items))"
  proof (rule foldl_invariant)
    fix st' :: "plan list \<times> nat \<times> bool" and item
    assume item: "item \<in> set items" and st': "list_all wf_plan (fst st')"
    have "wf_plan item"
      using Choice_Plan(3) item by (simp add: list_all_iff)
    from Choice_Plan(1) [OF item st' this] show "list_all wf_plan (fst (visitChoice st' item))" .
  qed (rule Choice_Plan(2))
  then show ?case by simp
qed (auto split: prod.splits)

lemma wf_choiceOf: "list_all wf_plan items \<Longrightarrow> wf_plan (choiceOf items)"
proof -
  assume items: "list_all wf_plan items"
  have "list_all wf_plan (fst (foldl visitChoice st items))" if "list_all wf_plan (fst st)" for st
    by (rule foldl_invariant [where I = "\<lambda>st. list_all wf_plan (fst st)", OF that], rule wf_visitChoice) (use items in \<open>simp_all add: list_all_iff\<close>)
  from this [of "([], 0, False)"]
  obtain kept msk e where "foldl visitChoice ([], 0, False) items = (kept, msk, e)" "list_all wf_plan kept"
    by (cases "foldl visitChoice ([], 0, False) items") simp
  then show ?thesis
    by (cases kept) (simp_all add: choiceOf_def Let_def)
qed

lemma wf_repeatOf:
  "wf_plan body \<Longrightarrow> (case most of None \<Rightarrow> True | Some m \<Rightarrow> least \<le> m) \<Longrightarrow> wf_plan (repeatOf body least most)"
  by (cases body) (auto simp: repeatOf_def EMPTY_PLAN_def Let_def loose_def)

lemma wf_literals: "list_all wf_plan (map literalPlan cs)"
  by (simp add: list_all_iff literalPlan_def)

lemma wf_lower: "wf_node node \<Longrightarrow> wf_plan (lowerNode node caseFold h)"
proof (induction node)
  case (Set_Node negated items)
  have "list_all wf_plan (map (\<lambda>fold. sequenceOf (map literalPlan fold)) fs)" for fs
    using wf_sequenceOf [OF wf_literals] by (simp add: list_all_iff)
  then show ?case
    by (auto simp: setPlan_def Let_def testedPlan_def simp del: map_map intro!: wf_choiceOf)
next
  case (Sequence items)
  then show ?case by (auto simp: list_all_iff intro!: wf_sequenceOf)
next
  case (Choice branches)
  then show ?case by (auto simp: list_all_iff intro!: wf_choiceOf)
qed (auto simp: literalPlan_def testedPlan_def foldedLiteral_def wf_repeatOf intro!: wf_sequenceOf wf_literals)

end
