(* ===== verification/Pattern_Simulation.thy ===== *)
theory Pattern_Simulation
  imports Pattern_Program
begin

text \<open>
  \<open>pattern/position-simulation.ts\<close>: a value is read code point by code point, keeping the
  positions whose code point was just read. The specification is \<open>front\<close>, the states that
  the program reaches between two code points; a value matches where a front holds the
  match state, which is the case exactly if the plan describes a span of it. The lemmas
  show that \<open>step\<close> and \<open>endMatches\<close> follow the fronts, whatever the caches and the marks
  already hold.
\<close>

section \<open>The states between two code points\<close>

definition front :: "program \<Rightarrow> nat \<Rightarrow> nat set \<Rightarrow> nat set" where
  "front P ctx live = reach P ctx (insert (startState P) (next_of P ` live))"

definition kept :: "program \<Rightarrow> code_point \<Rightarrow> nat set \<Rightarrow> nat set" where
  "kept P c F = {p \<in> F. kinds P ! p = CONSUME_STATE \<and> accepts P p c}"

definition hits :: "program \<Rightarrow> nat set \<Rightarrow> bool" where
  "hits P F \<longleftrightarrow> (\<exists>s \<in> F. kinds P ! s = MATCH_STATE)"

definition read_one :: "program \<Rightarrow> nat \<times> nat set \<Rightarrow> code_point \<Rightarrow> nat \<times> nat set" where
  "read_one P = (\<lambda>(previous, live) c. (kindOf c, kept P c (front P (contextOf previous (kindOf c)) live)))"

text \<open>The kind of the last code point read and the positions that accepted it.\<close>

definition read :: "program \<Rightarrow> code_point list \<Rightarrow> nat \<times> nat set" where
  "read P w = foldl (read_one P) (BEFORE_VALUE_START, {}) w"

definition live :: "program \<Rightarrow> code_point list \<Rightarrow> nat set" where
  "live P w = snd (read P w)"

definition front_at :: "program \<Rightarrow> code_point list \<Rightarrow> nat \<Rightarrow> nat set" where
  "front_at P v n = front P (context_at v n) (live P (take n v))"

definition value_hits :: "program \<Rightarrow> code_point list \<Rightarrow> bool" where
  "value_hits P v \<longleftrightarrow> (\<exists>n \<le> length v. hits P (front_at P v n))"

lemma read_Nil [simp]: "read P [] = (BEFORE_VALUE_START, {})"
  by (simp add: read_def)

lemma read_snoc [simp]: "read P (w @ [c]) = read_one P (read P w) c"
  by (simp add: read_def)

lemma read_kind: "fst (read P w) = kind_before w (length w)"
  by (cases w rule: rev_cases) (simp_all add: kind_before_def read_one_def case_prod_beta)

lemma kind_before_take: "n \<le> length v \<Longrightarrow> kind_before v n = kind_before (take n v) n"
  by (simp add: kind_before_def)

lemma live_Suc:
  assumes "n < length v"
  shows "live P (take (Suc n) v) = kept P (v ! n) (front_at P v n)"
proof -
  have "fst (read P (take n v)) = kind_before v n"
    using assms kind_before_take [of n v] read_kind [of P "take n v"] by (simp add: min_absorb2)
  with assms show ?thesis
    by (simp add: live_def take_Suc_conv_app_nth read_one_def case_prod_beta front_at_def context_at_def kind_after_def)
qed

lemma run_steps_place: "((s, i), (t, j)) \<in> (run_steps v P)\<^sup>* \<Longrightarrow> i \<le> j"
  by (induction rule: rtrancl_induct2) (auto simp: run_steps_iff char_span_def)

lemma front_at_start: "startState P \<in> front_at P v n"
  unfolding front_at_def front_def using reach_roots by blast

lemma front_at_silent: "s \<in> front_at P v n \<Longrightarrow> (s, t) \<in> silent P (context_at v n) \<Longrightarrow> t \<in> front_at P v n"
  unfolding front_at_def front_def by (rule reach_step)

lemma front_at_consume:
  assumes "s \<in> front_at P v n" and "n < length v" and "kinds P ! s = CONSUME_STATE" and "accepts P s (v ! n)"
  shows "next_of P s \<in> front_at P v (Suc n)"
proof -
  have "next_of P s \<in> insert (startState P) (next_of P ` live P (take (Suc n) v))"
    using assms by (simp add: live_Suc kept_def)
  then show ?thesis
    unfolding front_at_def front_def using reach_roots by blast
qed

lemma path_front_at:
  assumes "((startState P, i), (s, j)) \<in> (run_steps v P)\<^sup>*" and "i \<le> length v"
  shows "j \<le> length v \<and> s \<in> front_at P v j"
  using assms(1)
proof (induction rule: rtrancl_induct2)
  case refl
  with assms(2) show ?case by (simp add: front_at_start)
next
  case (step s j t j')
  then show ?case
    by (auto simp: run_steps_iff char_span_def intro: front_at_silent front_at_consume)
qed

lemma front_at_Suc: "n < length v \<Longrightarrow> front_at P v (Suc n) =
    reach P (context_at v (Suc n)) (insert (startState P) (next_of P ` kept P (v ! n) (front_at P v n)))"
  by (simp add: front_at_def [of P v "Suc n"] front_def live_Suc)

lemma front_at_path:
  "n \<le> length v \<Longrightarrow> s \<in> front_at P v n \<Longrightarrow> \<exists>i. ((startState P, i), (s, n)) \<in> (run_steps v P)\<^sup>*"
proof (induction n arbitrary: s)
  case 0
  have "front_at P v 0 \<subseteq> {s. ((startState P, 0), (s, 0)) \<in> (run_steps v P)\<^sup>*}"
    unfolding front_at_def front_def live_def
    by (rule reach_least) (auto simp: run_steps_iff elim!: rtrancl_into_rtrancl)
  with 0 show ?case by blast
next
  case (Suc n)
  then have n: "n < length v"
    by simp
  have "front_at P v (Suc n) \<subseteq> {s. \<exists>i. ((startState P, i), (s, Suc n)) \<in> (run_steps v P)\<^sup>*}" (is "_ \<subseteq> ?V")
    unfolding front_at_Suc [OF n]
  proof (rule reach_least)
    show "insert (startState P) (next_of P ` kept P (v ! n) (front_at P v n)) \<subseteq> ?V"
    proof -
      have "next_of P p \<in> ?V" if "p \<in> kept P (v ! n) (front_at P v n)" for p
      proof -
        from that have p: "p \<in> front_at P v n" "kinds P ! p = CONSUME_STATE" "accepts P p (v ! n)"
          by (simp_all add: kept_def)
        with Suc.IH [of p] n obtain i where "((startState P, i), (p, n)) \<in> (run_steps v P)\<^sup>*"
          by auto
        moreover have "((p, n), (next_of P p, Suc n)) \<in> run_steps v P"
          using p n by (simp add: run_steps_iff char_span_def)
        ultimately show ?thesis
          by (blast intro: rtrancl_into_rtrancl)
      qed
      then show ?thesis by blast
    qed
  next
    show "t \<in> ?V" if "s \<in> ?V" "(s, t) \<in> silent P (context_at v (Suc n))" for s t
    proof -
      have "((s, Suc n), (t, Suc n)) \<in> run_steps v P"
        using that(2) by (simp add: run_steps_iff)
      with that(1) show ?thesis by (blast intro: rtrancl_into_rtrancl)
    qed
  qed
  with Suc.prems show ?case by blast
qed

text \<open>A value is hit exactly if the plan describes a span of it.\<close>

theorem value_hits_span:
  assumes "wf_plan p"
  shows "value_hits (compileProgram p) v \<longleftrightarrow> span_in v (plan_span v p)"
proof
  let ?P = "compileProgram p"
  show "span_in v (plan_span v p)" if hits: "value_hits ?P v"
  proof -
    from hits obtain n s where "n \<le> length v" "s \<in> front_at ?P v n" "kinds ?P ! s = MATCH_STATE"
      by (auto simp: value_hits_def hits_def)
    with front_at_path [of n v s ?P] compileProgram_paths [OF assms, of _ n v]
    obtain i where "((startState ?P, i), (s, n)) \<in> (run_steps v ?P)\<^sup>*" "(i, n) \<in> plan_span v p"
      by blast
    with run_steps_place \<open>n \<le> length v\<close> show ?thesis
      unfolding span_in_def by (meson le_trans)
  qed
  show "value_hits ?P v" if span: "span_in v (plan_span v p)"
  proof -
    from span obtain i j where "(i, j) \<in> plan_span v p" "i \<le> length v"
      by (auto simp: span_in_def)
    with compileProgram_paths [OF assms, of i j v]
    obtain m where "kinds ?P ! m = MATCH_STATE" "((startState ?P, i), (m, j)) \<in> (run_steps v ?P)\<^sup>*"
      by blast
    with path_front_at [OF this(2) \<open>i \<le> length v\<close>] show ?thesis
      by (auto simp: value_hits_def hits_def)
  qed
qed

section \<open>The simulation\<close>

datatype step_outcome = Step_Continues | Step_Matched | Step_Dead

record start_closure =
  sc_positions :: "nat list"
  sc_matches :: bool

definition CONTEXTS :: nat where "CONTEXTS = 9"

record simulation =
  s_program :: program
  s_steps :: nat
  s_previousKind :: nat
  s_after :: "nat list"
  s_scratch :: closure_scratch
  s_starts :: "start_closure option list"

definition newSimulation :: "program \<Rightarrow> simulation" where
  "newSimulation P = \<lparr>s_program = P, s_steps = 0, s_previousKind = BEFORE_VALUE_START, s_after = [],
     s_scratch = createClosureScratch (states P), s_starts = replicate CONTEXTS None\<rparr>"

definition resetSimulation :: "simulation \<Rightarrow> simulation" where
  "resetSimulation s = s\<lparr>s_after := [], s_previousKind := BEFORE_VALUE_START\<rparr>"

definition loadSimulation :: "nat list \<Rightarrow> nat \<Rightarrow> simulation \<Rightarrow> simulation" where
  "loadSimulation ps previousKind s = s\<lparr>s_after := ps, s_previousKind := previousKind\<rparr>"

definition sortedAfter :: "simulation \<Rightarrow> nat list" where
  "sortedAfter s = sort (s_after s)"

definition startClosure :: "nat \<Rightarrow> simulation \<Rightarrow> start_closure \<times> simulation" where
  "startClosure ctx s =
     (case s_starts s ! ctx of
        Some known \<Rightarrow> (known, s)
      | None \<Rightarrow>
          let (reached, scratch) = closeOver (s_program s) [] True ctx (s_scratch s);
              closure = (case reached of
                 Match_Reached \<Rightarrow> \<lparr>sc_positions = [], sc_matches = True\<rparr>
               | Reached out \<Rightarrow> \<lparr>sc_positions = out, sc_matches = False\<rparr>)
          in (closure, s\<lparr>s_scratch := scratch, s_starts := (s_starts s)[ctx := Some closure]\<rparr>))"

definition mergePosition :: "nat \<Rightarrow> nat list \<times> nat list \<Rightarrow> nat \<Rightarrow> nat list \<times> nat list" where
  "mergePosition stmp = (\<lambda>(mks, candidates) position.
     if mks ! position = stmp then (mks, candidates)
     else (mks[position := stmp], candidates @ [position]))"

definition closeSimulation :: "nat \<Rightarrow> simulation \<Rightarrow> closure \<times> simulation" where
  "closeSimulation ctx s =
     (let fromStart = (s_previousKind s = BEFORE_VALUE_START \<or> \<not> anchoredStart (s_program s));
          (start, s) = (if fromStart then (let (c, s) = startClosure ctx s in (Some c, s)) else (None, s))
      in if (case start of Some c \<Rightarrow> sc_matches c | None \<Rightarrow> False) then (Match_Reached, s)
         else let (count, scratch) = closeOver (s_program s) (s_after s) False ctx (s_scratch s);
                  s = s\<lparr>s_scratch := scratch\<rparr>
              in case (count, start) of
                   (Reached out, Some c) \<Rightarrow>
                     let (mks, candidates) =
                           foldl (mergePosition (stamp scratch)) (marks scratch, out) (sc_positions c)
                     in (Reached candidates, s\<lparr>s_scratch := scratch\<lparr>marks := mks\<rparr>\<rparr>)
                 | _ \<Rightarrow> (count, s))"

definition stepSimulation :: "code_point \<Rightarrow> simulation \<Rightarrow> step_outcome \<times> simulation" where
  "stepSimulation codePoint s =
     (let following = kindOf codePoint;
          (reached, s) = closeSimulation (contextOf (s_previousKind s) following) s
      in case reached of
           Match_Reached \<Rightarrow> (Step_Matched, s\<lparr>s_steps := 0\<rparr>)
         | Reached candidates \<Rightarrow>
             let keep = filter (\<lambda>position. accepts (s_program s) position codePoint) candidates
             in (if length keep = 0 \<and> anchoredStart (s_program s) then Step_Dead else Step_Continues,
                 s\<lparr>s_steps := length candidates, s_after := keep, s_previousKind := following\<rparr>))"

definition endMatches :: "simulation \<Rightarrow> bool \<times> simulation" where
  "endMatches s =
     (let (reached, s) = closeSimulation (contextOf (s_previousKind s) AFTER_VALUE_END) s
      in (reached = Match_Reached, s))"

section \<open>The invariant\<close>

definition start_ok :: "program \<Rightarrow> nat \<Rightarrow> start_closure \<Rightarrow> bool" where
  "start_ok P ctx c \<longleftrightarrow>
     sc_matches c = hits P (reach P ctx {startState P}) \<and>
     (\<not> sc_matches c \<longrightarrow> distinct (sc_positions c) \<and>
        set (sc_positions c) = {s \<in> reach P ctx {startState P}. kinds P ! s = CONSUME_STATE})"

definition sim_ok :: "simulation \<Rightarrow> bool" where
  "sim_ok s \<longleftrightarrow>
     program_ok (s_program s) \<and> (anchoredStart (s_program s) \<longrightarrow> only_at_start (s_program s)) \<and>
     scratch_ok (s_program s) (s_scratch s) \<and> length (s_starts s) = CONTEXTS \<and>
     (\<forall>ctx < CONTEXTS. \<forall>c. s_starts s ! ctx = Some c \<longrightarrow> start_ok (s_program s) ctx c) \<and>
     set (s_after s) \<subseteq> {..<positions (s_program s)} \<and> distinct (s_after s) \<and> s_previousKind s < 3"

text \<open>The caches and marks may change, the rest stays.\<close>

definition same_reading :: "simulation \<Rightarrow> simulation \<Rightarrow> bool" where
  "same_reading s s' \<longleftrightarrow> s_program s' = s_program s \<and> s_after s' = s_after s \<and>
     s_previousKind s' = s_previousKind s \<and> s_steps s' = s_steps s"

lemma scratch_ok_same: "scratch_ok P scratch \<Longrightarrow> scratch_ok P' scratch \<longleftrightarrow> states P' = states P"
  by (auto simp: scratch_ok_def)

lemma startClosure_ok:
  assumes ok: "sim_ok s" and ctx: "ctx < CONTEXTS" and res: "startClosure ctx s = (c, s')"
  shows "start_ok (s_program s) ctx c \<and> sim_ok s' \<and> same_reading s s'"
proof (cases "s_starts s ! ctx")
  case (Some known)
  with ok ctx res show ?thesis
    by (auto simp: startClosure_def sim_ok_def same_reading_def)
next
  case None
  let ?P = "s_program s"
  obtain reached scratch where r: "closeOver ?P [] True ctx (s_scratch s) = (reached, scratch)"
    by (cases "closeOver ?P [] True ctx (s_scratch s)")
  from ok have P: "program_ok ?P" "scratch_ok ?P (s_scratch s)"
    by (simp_all add: sim_ok_def)
  from closeOver_reach [OF P _ r] have cr: "closure_result ?P ctx {startState ?P} reached scratch"
    and sc: "scratch_ok ?P scratch"
    by (simp_all add: roots_def)
  have c: "c = (case reached of Match_Reached \<Rightarrow> \<lparr>sc_positions = [], sc_matches = True\<rparr>
      | Reached out \<Rightarrow> \<lparr>sc_positions = out, sc_matches = False\<rparr>)"
    and s': "s' = s\<lparr>s_scratch := scratch, s_starts := (s_starts s)[ctx := Some c]\<rparr>"
    using res None r by (auto simp: startClosure_def Let_def)
  have start: "start_ok ?P ctx c"
    using cr by (auto simp: c start_ok_def closure_result_def hits_def split: closure.splits)
  moreover have "sim_ok s'"
    using ok sc start ctx by (auto simp: sim_ok_def s' nth_list_update split: if_splits)
  moreover have "same_reading s s'"
    by (simp add: same_reading_def s')
  ultimately show ?thesis by blast
qed

lemma foldl_merge:
  assumes "distinct ps" and "distinct out" and "set ps \<subseteq> {..<length mks}"
    and "\<And>p. p \<in> set ps \<Longrightarrow> mks ! p = stmp \<longleftrightarrow> p \<in> set out"
    and "foldl (mergePosition stmp) (mks, out) ps = (mks', out')"
  shows "distinct out' \<and> set out' = set out \<union> set ps \<and> length mks' = length mks \<and>
    set mks' \<subseteq> insert stmp (set mks)"
  using assms
proof (induction ps arbitrary: mks out)
  case (Cons p ps)
  show ?case
  proof (cases "mks ! p = stmp")
    case True
    with Cons show ?thesis by (auto simp: mergePosition_def)
  next
    case False
    have "distinct out' \<and> set out' = set (out @ [p]) \<union> set ps \<and> length mks' = length (mks[p := stmp]) \<and>
      set mks' \<subseteq> insert stmp (set (mks[p := stmp]))"
    proof (rule Cons.IH)
      show "foldl (mergePosition stmp) (mks[p := stmp], out @ [p]) ps = (mks', out')"
        using Cons.prems(5) False by (simp add: mergePosition_def)
      show "mks[p := stmp] ! q = stmp \<longleftrightarrow> q \<in> set (out @ [p])" if "q \<in> set ps" for q
        using Cons.prems(1,3) Cons.prems(4) [of q] that by (auto simp: nth_list_update)
    qed (use Cons.prems False in auto)
    with set_update_subset_insert [of mks p stmp] show ?thesis by auto
  qed
qed auto

lemma stamp_marks:
  assumes "marked (stamp scratch) (marks scratch) = M" and "p < length (marks scratch)"
  shows "marks scratch ! p = stamp scratch \<longleftrightarrow> p \<in> M"
  using assms by (auto simp: marked_def)

text \<open>From behind the first code point an anchored program gains nothing from its start.\<close>

lemma anchored_front:
  assumes "only_at_start P" and "previous \<in> {1, 2}" and "following < 3"
  shows "hits P (reach P (contextOf previous following) {startState P}) = False"
    and "{s \<in> reach P (contextOf previous following) {startState P}. kinds P ! s = CONSUME_STATE} = {}"
proof -
  have "following \<in> {0, 1, 2}"
    using assms(3) by auto
  with assms(1,2) have "\<forall>s \<in> reach P (contextOf previous following) {startState P}.
      kinds P ! s \<noteq> MATCH_STATE \<and> kinds P ! s \<noteq> CONSUME_STATE"
    unfolding only_at_start_def by blast
  then show "hits P (reach P (contextOf previous following) {startState P}) = False"
    "{s \<in> reach P (contextOf previous following) {startState P}. kinds P ! s = CONSUME_STATE} = {}"
    by (auto simp: hits_def)
qed

definition closed :: "program \<Rightarrow> nat set \<Rightarrow> closure \<Rightarrow> bool" where
  "closed P F result \<longleftrightarrow>
     (case result of
        Match_Reached \<Rightarrow> hits P F
      | Reached out \<Rightarrow> \<not> hits P F \<and> distinct out \<and> set out = {s \<in> F. kinds P ! s = CONSUME_STATE})"

lemma closure_closed: "closure_result P ctx rs r sc \<Longrightarrow> closed P (reach P ctx rs) r"
  by (auto simp: closure_result_def closed_def hits_def split: closure.splits)

lemma sim_ok_scratch: "sim_ok s \<Longrightarrow> scratch_ok (s_program s) sc \<Longrightarrow> sim_ok (s\<lparr>s_scratch := sc\<rparr>)"
  by (simp add: sim_ok_def)

lemma silent_next_less:
  assumes "program_ok P" and "s < states P" and "(s, t) \<in> silent P ctx"
  shows "t < states P"
proof -
  have "(kinds P ! s \<noteq> MATCH_STATE \<longrightarrow> next_of P s < states P) \<and>
      (kinds P ! s = SPLIT_STATE \<longrightarrow> alternative_of P s < states P)"
    using assms(1,2) by (simp add: program_ok_def)
  with assms(3) show ?thesis by (auto simp: silent_def)
qed

lemma hits_Un: "hits P (A \<union> B) \<longleftrightarrow> hits P A \<or> hits P B"
  by (auto simp: hits_def)

lemma closeSimulation_closed:
  assumes ok: "sim_ok s" and fol: "following < 3"
    and ctx: "ctx = contextOf (s_previousKind s) following"
    and res: "closeSimulation ctx s = (result, s')"
  shows "closed (s_program s) (front (s_program s) ctx (set (s_after s))) result \<and> sim_ok s' \<and> same_reading s s'"
proof -
  let ?P = "s_program s"
  let ?S = "reach ?P ctx {startState ?P}" and ?N = "reach ?P ctx (next_of ?P ` set (s_after s))"
  have ctx9: "ctx < CONTEXTS"
    using ok fol ctx by (simp add: sim_ok_def contextOf_def EDGE_KINDS_def CONTEXTS_def)
  have front: "front ?P ctx (set (s_after s)) = ?S \<union> ?N"
    unfolding front_def by (metis insert_is_Un reach_union)
  have P: "program_ok ?P" "scratch_ok ?P (s_scratch s)" "\<forall>p \<in> set (s_after s). p < positions ?P"
    using ok by (auto simp: sim_ok_def)
  have walk: "closure_result ?P ctx (next_of ?P ` set (s_after s)) r sc \<and> scratch_ok ?P sc"
    if "closeOver ?P (s_after s) False ctx (s_scratch t) = (r, sc)" "scratch_ok ?P (s_scratch t)" for r sc t
    using closeOver_reach [OF P(1) that(2) P(3) that(1)] by (simp add: roots_def)
  show ?thesis
  proof (cases "s_previousKind s = BEFORE_VALUE_START \<or> \<not> anchoredStart ?P")
    case False
    obtain r sc where r: "closeOver ?P (s_after s) False ctx (s_scratch s) = (r, sc)"
      by (cases "closeOver ?P (s_after s) False ctx (s_scratch s)")
    with False res have res': "result = r" "s' = s\<lparr>s_scratch := sc\<rparr>"
      by (auto simp: closeSimulation_def Let_def split: closure.splits)
    have "only_at_start ?P" "s_previousKind s \<in> {1, 2}"
      using False ok by (auto simp: sim_ok_def BEFORE_VALUE_START_def)
    from anchored_front [OF this fol, folded ctx] closure_closed [OF conjunct1 [OF walk [OF r P(2)]]]
    have "closed ?P (?S \<union> ?N) r"
      by (auto simp: closed_def hits_Un split: closure.splits)
    with walk [OF r P(2)] sim_ok_scratch [OF ok] show ?thesis
      by (simp add: front res' same_reading_def)
  next
    case True
    obtain c t where c: "startClosure ctx s = (c, t)"
      by (cases "startClosure ctx s")
    note start = startClosure_ok [OF ok ctx9 c]
    then have t: "s_program t = ?P" "s_after t = s_after s" "scratch_ok ?P (s_scratch t)" "sim_ok t"
      "start_ok ?P ctx c"
      by (auto simp: same_reading_def sim_ok_def)
    obtain r sc where r: "closeOver ?P (s_after s) False ctx (s_scratch t) = (r, sc)"
      by (cases "closeOver ?P (s_after s) False ctx (s_scratch t)")
    note w = walk [OF r t(3)]
    from True c have close: "closeSimulation ctx s = (if sc_matches c then (Match_Reached, t)
        else case r of Match_Reached \<Rightarrow> (r, t\<lparr>s_scratch := sc\<rparr>)
          | Reached out \<Rightarrow> (case foldl (mergePosition (stamp sc)) (marks sc, out) (sc_positions c) of
              (mks, candidates) \<Rightarrow> (Reached candidates, t\<lparr>s_scratch := sc\<lparr>marks := mks\<rparr>\<rparr>)))"
      using r t by (simp add: closeSimulation_def Let_def split: closure.splits)
    consider (start) "sc_matches c" | (match) "\<not> sc_matches c" "r = Match_Reached"
      | (merge) out where "\<not> sc_matches c" "r = Reached out"
      by (cases r) auto
    then show ?thesis
    proof cases
      case start
      with close res t(5) have "result = Match_Reached" "s' = t" "hits ?P ?S"
        by (simp_all add: start_ok_def)
      with \<open>start_ok ?P ctx c \<and> sim_ok t \<and> same_reading s t\<close> show ?thesis
        by (simp add: front closed_def hits_Un)
    next
      case match
      with close res have "result = Match_Reached" "s' = t\<lparr>s_scratch := sc\<rparr>"
        by simp_all
      with match w closure_closed [OF conjunct1 [OF w]] start sim_ok_scratch [OF t(4)] t(1) show ?thesis
        by (simp add: front closed_def hits_Un same_reading_def)
    next
      case merge
      obtain mks candidates where
        m: "foldl (mergePosition (stamp sc)) (marks sc, out) (sc_positions c) = (mks, candidates)"
        by (cases "foldl (mergePosition (stamp sc)) (marks sc, out) (sc_positions c)")
      with close res merge have res': "result = Reached candidates" "s' = t\<lparr>s_scratch := sc\<lparr>marks := mks\<rparr>\<rparr>"
        by simp_all
      have N: "\<not> hits ?P ?N" "distinct out" "set out = {s \<in> ?N. kinds ?P ! s = CONSUME_STATE}"
        and marks: "marked (stamp sc) (marks sc) = ?N" and len: "length (marks sc) = states ?P"
        using w merge by (auto simp: closure_result_def hits_def scratch_ok_def)
      have S: "\<not> hits ?P ?S" "distinct (sc_positions c)"
        "set (sc_positions c) = {s \<in> ?S. kinds ?P ! s = CONSUME_STATE}"
        using t(5) merge by (simp_all add: start_ok_def)
      have below: "set (sc_positions c) \<subseteq> {..<length (marks sc)}"
      proof -
        have "startState ?P < states ?P"
          using P(1) by (simp add: program_ok_def)
        then have "?S \<subseteq> {..<states ?P}"
          by (intro reach_least) (auto simp: silent_next_less [OF P(1)])
        with S(3) len show ?thesis by auto
      qed
      have "distinct candidates \<and> set candidates = set out \<union> set (sc_positions c) \<and>
          length mks = length (marks sc) \<and> set mks \<subseteq> insert (stamp sc) (set (marks sc))"
      proof (rule foldl_merge [OF S(2) N(2) below _ m])
        show "marks sc ! p = stamp sc \<longleftrightarrow> p \<in> set out" if "p \<in> set (sc_positions c)" for p
          using that below S(3) N(3) stamp_marks [OF marks, of p] by auto
      qed
      moreover from this have "scratch_ok ?P (sc\<lparr>marks := mks\<rparr>)"
        using w by (auto simp: scratch_ok_def)
      ultimately show ?thesis
        using S N start sim_ok_scratch [OF t(4)] t(1)
        by (auto simp: front closed_def hits_Un same_reading_def res')
    qed
  qed
qed

section \<open>Reading a value\<close>

text \<open>No front before the end of what has been read holds the match state.\<close>

definition unhit :: "program \<Rightarrow> code_point list \<Rightarrow> bool" where
  "unhit P w \<longleftrightarrow> (\<forall>n < length w. \<not> hits P (front_at P w n))"

definition sim_reads :: "simulation \<Rightarrow> code_point list \<Rightarrow> bool" where
  "sim_reads s w \<longleftrightarrow>
     sim_ok s \<and> s_previousKind s = kind_before w (length w) \<and> set (s_after s) = live (s_program s) w"

lemma kind_before_append: "n \<le> length w \<Longrightarrow> kind_before (w @ u) n = kind_before w n"
  by (auto simp: kind_before_def nth_append)

lemma front_at_append: "n < length w \<Longrightarrow> front_at P (w @ u) n = front_at P w n"
  by (simp add: front_at_def context_at_def kind_before_append kind_after_def nth_append)

lemma front_at_next: "front_at P (w @ c # u) (length w) =
    front P (contextOf (kind_before w (length w)) (kindOf c)) (live P w)"
  by (simp add: front_at_def context_at_def kind_before_append kind_after_def)

lemma front_at_last: "front_at P w (length w) =
    front P (contextOf (kind_before w (length w)) AFTER_VALUE_END) (live P w)"
  by (simp add: front_at_def context_at_def kind_after_def)

lemma unhit_Nil [simp]: "unhit P []"
  by (simp add: unhit_def)

lemma unhit_snoc: "unhit P (w @ [c]) \<longleftrightarrow> unhit P w \<and> \<not> hits P (front_at P (w @ [c]) (length w))"
  by (auto simp: unhit_def less_Suc_eq front_at_append)

lemma value_hits_unhit: "unhit P w \<Longrightarrow> value_hits P w \<longleftrightarrow> hits P (front_at P w (length w))"
  by (auto simp: unhit_def value_hits_def le_less)

lemma value_hits_append: "\<not> unhit P w \<Longrightarrow> value_hits P (w @ u)"
  unfolding unhit_def value_hits_def by (metis front_at_append less_imp_le length_append trans_less_add1)

lemma live_snoc: "live P (w @ [c]) = kept P c (front_at P (w @ [c]) (length w))"
  using live_Suc [of "length w" "w @ [c]" P] by simp

text \<open>Once an anchored program has no live position it never matches.\<close>

lemma dead_forever:
  assumes "only_at_start P" and "w \<noteq> []" and "live P w = {}" and "unhit P w"
  shows "unhit P (w @ u) \<and> live P (w @ u) = {} \<and> \<not> value_hits P (w @ u)"
proof -
  have front: "\<not> hits P (front P (contextOf (kind_before x (length x)) following) {}) \<and>
      kept P c (front P (contextOf (kind_before x (length x)) following) {}) = {}"
    if "x \<noteq> []" "following < 3" for x following c
  proof -
    have "kind_before x (length x) \<in> {1, 2}"
      using that(1) kindOf_cases by (auto simp: kind_before_def WORD_CODE_POINT_def OTHER_CODE_POINT_def)
    from anchored_front [OF assms(1) this that(2)] show ?thesis
      unfolding front_def kept_def by auto
  qed
  have "unhit P (w @ u) \<and> live P (w @ u) = {}"
  proof (induction u rule: rev_induct)
    case (snoc c u)
    with front [of "w @ u" "kindOf c"] assms(2) have "\<not> hits P (front_at P ((w @ u) @ [c]) (length (w @ u)))"
      "live P ((w @ u) @ [c]) = {}"
      using front_at_next [of P "w @ u" c "[]"] by (simp_all only: live_snoc) auto
    with snoc show ?case
      unfolding append_assoc [symmetric] unhit_snoc by simp
  qed (use assms in simp)
  moreover from this front [of "w @ u" 0] assms(2) have "\<not> hits P (front_at P (w @ u) (length (w @ u)))"
    by (simp add: front_at_last AFTER_VALUE_END_def del: length_append)
  ultimately show ?thesis
    by (simp add: value_hits_unhit)
qed

lemma kept_positions: "program_ok P \<Longrightarrow> p \<in> F \<Longrightarrow> F \<subseteq> {..<states P} \<Longrightarrow> kinds P ! p = CONSUME_STATE \<Longrightarrow>
    p < positions P"
  by (auto simp: program_ok_def)

lemma front_below:
  assumes "program_ok P" and "L \<subseteq> {..<positions P}"
  shows "front P ctx L \<subseteq> {..<states P}"
  unfolding front_def
proof (rule reach_least)
  have "next_of P p < states P" if "p \<in> L" for p
    using assms that unfolding program_ok_def state_kinds
    by (metis less_le_trans lessThan_iff subset_iff zero_neq_numeral)
  then show "insert (startState P) (next_of P ` L) \<subseteq> {..<states P}"
    using assms(1) by (auto simp: program_ok_def)
qed (use silent_next_less [OF assms(1)] in auto)

text \<open>One step and the end, from any positions that the simulation may have been loaded with.\<close>

theorem stepSimulation_front:
  assumes ok: "sim_ok s" and res: "stepSimulation c s = (outcome, s')"
  defines "P \<equiv> s_program s"
  defines "F \<equiv> front P (contextOf (s_previousKind s) (kindOf c)) (set (s_after s))"
  shows "sim_ok s' \<and> s_program s' = P \<and>
    (outcome = Step_Matched \<longleftrightarrow> hits P F) \<and>
    (outcome \<noteq> Step_Matched \<longrightarrow> set (s_after s') = kept P c F \<and> s_previousKind s' = kindOf c) \<and>
    (outcome = Step_Dead \<longleftrightarrow> \<not> hits P F \<and> anchoredStart P \<and> kept P c F = {}) \<and>
    s_steps s' = (if hits P F then 0 else card {p \<in> F. kinds P ! p = CONSUME_STATE})"
proof -
  obtain reached t where r: "closeSimulation (contextOf (s_previousKind s) (kindOf c)) s = (reached, t)"
    by (cases "closeSimulation (contextOf (s_previousKind s) (kindOf c)) s")
  from closeSimulation_closed [OF ok kindOf_range(2) refl r]
  have cl: "closed P F reached" and t: "sim_ok t" "same_reading s t"
    by (simp_all add: P_def F_def)
  then have tP: "s_program t = P"
    by (simp add: same_reading_def P_def)
  show ?thesis
  proof (cases reached)
    case Match_Reached
    with res r have "outcome = Step_Matched" "s' = t\<lparr>s_steps := 0\<rparr>"
      by (simp_all add: stepSimulation_def)
    moreover have "hits P F"
      using cl Match_Reached by (simp add: closed_def)
    ultimately show ?thesis
      using t tP by (simp add: sim_ok_def)
  next
    case (Reached out)
    define keep where "keep = filter (\<lambda>p. accepts P p c) out"
    have out: "\<not> hits P F" "distinct out" "set out = {p \<in> F. kinds P ! p = CONSUME_STATE}"
      using cl Reached by (simp_all add: closed_def)
    have res': "outcome = (if keep = [] \<and> anchoredStart P then Step_Dead else Step_Continues)"
      "s' = t\<lparr>s_steps := length out, s_after := keep, s_previousKind := kindOf c\<rparr>"
      using res r Reached by (auto simp: stepSimulation_def keep_def Let_def tP P_def)
    have keep: "set keep = kept P c F"
      using out(3) by (auto simp: keep_def kept_def)
    have "F \<subseteq> {..<states P}"
      unfolding F_def using ok by (intro front_below) (simp_all add: sim_ok_def P_def)
    then have "set keep \<subseteq> {..<positions P}"
      using keep kept_positions [of P] ok by (auto simp: sim_ok_def P_def kept_def)
    then have "sim_ok s'"
      using t(1) out(2) tP by (simp add: sim_ok_def res' keep_def)
    then show ?thesis
      using out res'(1) keep tP by (auto simp: res'(2) distinct_card [symmetric])
  qed
qed

theorem stepSimulation_reads:
  assumes reads: "sim_reads s w" and res: "stepSimulation c s = (outcome, s')"
  defines "P \<equiv> s_program s"
  defines "F \<equiv> front_at P (w @ [c]) (length w)"
  shows "sim_ok s' \<and> s_program s' = P \<and>
    (outcome = Step_Matched \<longleftrightarrow> hits P F) \<and>
    (outcome \<noteq> Step_Matched \<longrightarrow> sim_reads s' (w @ [c])) \<and>
    (outcome = Step_Dead \<longleftrightarrow> \<not> hits P F \<and> anchoredStart P \<and> live P (w @ [c]) = {}) \<and>
    s_steps s' = (if hits P F then 0 else card {p \<in> F. kinds P ! p = CONSUME_STATE})"
proof -
  have F: "F = front P (contextOf (s_previousKind s) (kindOf c)) (set (s_after s))"
    using front_at_next [of P w c "[]"] reads by (simp add: F_def sim_reads_def P_def)
  have "live P (w @ [c]) = kept P c F"
    by (simp add: live_snoc F_def)
  moreover have "sim_ok s"
    using reads by (simp add: sim_reads_def)
  note stepSimulation_front [OF this res, folded P_def, folded F]
  ultimately show ?thesis
    by (simp add: sim_reads_def kind_before_def)
qed

lemma endMatches_front:
  assumes "sim_ok s" and "endMatches s = (answer, s')"
  shows "answer \<longleftrightarrow> hits (s_program s) (front (s_program s) (contextOf (s_previousKind s) AFTER_VALUE_END) (set (s_after s)))"
    and "sim_ok s'" and "same_reading s s'"
proof -
  obtain reached t where r: "closeSimulation (contextOf (s_previousKind s) AFTER_VALUE_END) s = (reached, t)"
    by (cases "closeSimulation (contextOf (s_previousKind s) AFTER_VALUE_END) s")
  from closeSimulation_closed [OF assms(1) _ refl r]
  have cl: "closed (s_program s) (front (s_program s) (contextOf (s_previousKind s) AFTER_VALUE_END) (set (s_after s))) reached"
    and t: "sim_ok t" "same_reading s t"
    by (simp_all add: AFTER_VALUE_END_def)
  have "answer = (reached = Match_Reached)" "s' = t"
    using assms(2) r by (simp_all add: endMatches_def)
  with cl t show "answer \<longleftrightarrow> hits (s_program s) (front (s_program s) (contextOf (s_previousKind s) AFTER_VALUE_END) (set (s_after s)))"
    and "sim_ok s'" and "same_reading s s'"
    by (auto simp: closed_def split: closure.splits)
qed

theorem endMatches_reads:
  assumes "sim_reads s w" and "endMatches s = (answer, s')"
  shows "(answer \<longleftrightarrow> hits (s_program s) (front_at (s_program s) w (length w))) \<and> sim_reads s' w \<and>
    s_program s' = s_program s"
proof -
  have "front_at (s_program s) w (length w) =
      front (s_program s) (contextOf (s_previousKind s) AFTER_VALUE_END) (set (s_after s))"
    using assms(1) by (simp add: front_at_last sim_reads_def)
  with endMatches_front [OF _ assms(2)] assms(1) show ?thesis
    by (simp add: sim_reads_def same_reading_def)
qed

lemma newSimulation_ok:
  "program_ok P \<Longrightarrow> (anchoredStart P \<longrightarrow> only_at_start P) \<Longrightarrow> sim_reads (newSimulation P) []"
  by (simp add: sim_reads_def sim_ok_def newSimulation_def scratch_ok_create kind_before_def live_def
      BEFORE_VALUE_START_def)

lemma loadSimulation_reads:
  assumes "sim_ok s" and "set ps = live (s_program s) w" and "distinct ps"
    and "set ps \<subseteq> {..<positions (s_program s)}" and "kind = kind_before w (length w)"
  shows "sim_reads (loadSimulation ps kind s) w"
  using assms kind_before_less [of w "length w"] by (simp add: sim_reads_def sim_ok_def loadSimulation_def)

end
