(* ===== verification/Pattern_Text.thy ===== *)
theory Pattern_Text
  imports Pattern_Host
begin

text \<open>
  \<open>pattern/text.ts\<close>: JavaScript strings are lists of 16-bit code units. The lemmas show that
  reading a string code point by code point and writing the code points back loses nothing,
  and that the key of a run of three code points determines the run.
\<close>

type_synonym code_units = "nat list"

definition BASIC_PLANE_LAST :: nat where "BASIC_PLANE_LAST = 0xffff"
definition PATTERN_RUN_CODE_POINTS :: nat where "PATTERN_RUN_CODE_POINTS = 3"

section \<open>Code units and code points\<close>

definition is_high :: "nat \<Rightarrow> bool" where "is_high u \<longleftrightarrow> 0xd800 \<le> u \<and> u \<le> 0xdbff"
definition is_low :: "nat \<Rightarrow> bool" where "is_low u \<longleftrightarrow> 0xdc00 \<le> u \<and> u \<le> 0xdfff"

text \<open>\<open>String.prototype.codePointAt\<close> at the head of a suffix.\<close>

fun codePointAt :: "code_units \<Rightarrow> code_point" where
  "codePointAt [] = 0"
| "codePointAt [u] = u"
| "codePointAt (u # w # us) =
     (if is_high u \<and> is_low w then 0x10000 + (u - 0xd800) * 0x400 + (w - 0xdc00) else u)"

text \<open>\<open>String.fromCodePoint\<close>.\<close>

definition fromCodePoint :: "code_point \<Rightarrow> code_units" where
  "fromCodePoint c =
     (if c \<le> BASIC_PLANE_LAST then [c]
      else [0xd800 + (c - 0x10000) div 0x400, 0xdc00 + (c - 0x10000) mod 0x400])"

text \<open>The loop \<open>for (at = 0; at < text.length; at++)\<close> that skips the second unit of a pair.\<close>

function forCodePoints :: "(code_point \<Rightarrow> 'a \<Rightarrow> 'a) \<Rightarrow> code_units \<Rightarrow> 'a \<Rightarrow> 'a" where
  "forCodePoints f [] s = s"
| "forCodePoints f (u # us) s =
     (let codePoint = codePointAt (u # us)
      in forCodePoints f (if BASIC_PLANE_LAST < codePoint then drop 1 us else us) (f codePoint s))"
  by pat_completeness auto
termination
  by (relation "measure (\<lambda>(f, us, s). length us)") auto

definition appendTextCodePoints :: "code_units \<Rightarrow> bool \<Rightarrow> host \<Rightarrow> code_point list \<Rightarrow> code_point list" where
  "appendTextCodePoints txt caseFold h out =
     forCodePoints (\<lambda>codePoint out. if caseFold then appendFoldedCodePoint h codePoint out else out @ [codePoint])
       txt out"

definition foldedCodePointCount :: "code_units \<Rightarrow> host \<Rightarrow> nat" where
  "foldedCodePointCount txt h = length (appendTextCodePoints txt True h [])"

definition runKey :: "code_point \<Rightarrow> code_point \<Rightarrow> code_point \<Rightarrow> code_units" where
  "runKey first second third = fromCodePoint first @ fromCodePoint second @ fromCodePoint third"

text \<open>\<open>runKeyCodePoints\<close> with the written slots as the result, at most three.\<close>

definition runKeyCodePoints :: "code_units \<Rightarrow> code_point list" where
  "runKeyCodePoints key =
     forCodePoints (\<lambda>c slots. if length slots < PATTERN_RUN_CODE_POINTS then slots @ [c] else slots) key []"

definition compareRuns :: "code_point list \<Rightarrow> nat \<Rightarrow> code_point list \<Rightarrow> nat \<Rightarrow> int" where
  "compareRuns left leftAt right rightAt =
     foldr (\<lambda>offset rest.
        let difference = int (left ! (leftAt + offset)) - int (right ! (rightAt + offset))
        in if difference \<noteq> 0 then difference else rest)
      [0..<PATTERN_RUN_CODE_POINTS] 0"

text \<open>A JavaScript \<open>Set\<close>, in the order of insertion.\<close>

definition keyAdd :: "'a \<Rightarrow> 'a list \<Rightarrow> 'a list" where
  "keyAdd x xs = (if x \<in> set xs then xs else xs @ [x])"

definition collectRunKeys :: "code_point list \<Rightarrow> code_units list \<Rightarrow> code_units list" where
  "collectRunKeys folded out =
     foldl (\<lambda>out at. keyAdd (runKey (folded ! at) (folded ! (at + 1)) (folded ! (at + 2))) out) out
       [0..<Suc (length folded) - PATTERN_RUN_CODE_POINTS]"

text \<open>A document's value: a string, an array, or something else (\<open>unknown\<close>).\<close>

datatype field_value = Text_Value code_units | Array_Value "field_value list" | Other_Value

definition forEachTextValue :: "field_value \<Rightarrow> code_units list" where
  "forEachTextValue value =
     (case value of
        Text_Value txt \<Rightarrow> [txt]
      | Array_Value elements \<Rightarrow> [txt. Text_Value txt \<leftarrow> elements]
      | Other_Value \<Rightarrow> [])"

definition holdsTextValue :: "field_value \<Rightarrow> bool" where
  "holdsTextValue value = (case value of Text_Value _ \<Rightarrow> True | Array_Value _ \<Rightarrow> True | Other_Value \<Rightarrow> False)"

section \<open>Decoding\<close>

definition code_points :: "code_units \<Rightarrow> code_point list" where
  "code_points us = rev (forCodePoints (#) us [])"

lemma forCodePoints_append: "forCodePoints (#) us (s @ s') = forCodePoints (#) us s @ s'"
proof (induction "length us" arbitrary: us s rule: less_induct)
  case less
  show ?case
  proof (cases us)
    case (Cons u ws)
    have "length (if BASIC_PLANE_LAST < codePointAt us then drop 1 ws else ws) < length us"
      by (auto simp: Cons)
    from less [OF this, of "codePointAt us # s"] show ?thesis
      by (simp only: Cons forCodePoints.simps Let_def append_Cons)
  qed simp
qed

lemma code_points_Nil [simp]: "code_points [] = []"
  by (simp add: code_points_def)

lemma code_points_Cons: "code_points (u # us) =
    codePointAt (u # us) # code_points (if BASIC_PLANE_LAST < codePointAt (u # us) then drop 1 us else us)"
  using forCodePoints_append [of "if BASIC_PLANE_LAST < codePointAt (u # us) then drop 1 us else us"
      "[]" "[codePointAt (u # us)]"]
  by (simp add: code_points_def Let_def)

lemma code_units_induct [case_names Nil Cons]:
  assumes "P []" and "\<And>u us. P (if BASIC_PLANE_LAST < codePointAt (u # us) then drop 1 us else us) \<Longrightarrow> P (u # us)"
  shows "P us"
proof (induction "length us" arbitrary: us rule: less_induct)
  case less
  show ?case
  proof (cases us)
    case (Cons u ws)
    with less [of "if BASIC_PLANE_LAST < codePointAt us then drop 1 ws else ws"] show ?thesis
      by (auto intro!: assms(2))
  qed (simp add: assms(1))
qed

lemma forCodePoints_fold: "forCodePoints f us s = fold f (code_points us) s"
proof (induction us arbitrary: s rule: code_units_induct)
  case (Cons u us)
  then show ?case by (simp add: code_points_Cons Let_def)
qed simp

lemma appendTextCodePoints_plain: "appendTextCodePoints us False h out = out @ code_points us"
proof -
  have "fold (\<lambda>c out. out @ [c]) cs out = out @ cs" for cs :: "code_point list" and out
    by (induction cs arbitrary: out) simp_all
  then show ?thesis by (simp add: appendTextCodePoints_def forCodePoints_fold)
qed

context folding_host
begin

lemma appendTextCodePoints_folded: "appendTextCodePoints us True h out = out @ fold_text h (code_points us)"
proof -
  have "fold (\<lambda>c out. appendFoldedCodePoint h c out) cs out = out @ fold_text h cs" for cs out
  proof (induction cs arbitrary: out)
    case (Cons c cs)
    show ?case by (simp add: Cons.IH append_fold [of c out] fold_text_def)
  qed (simp add: fold_text_def)
  then show ?thesis by (simp add: appendTextCodePoints_def forCodePoints_fold)
qed

end

section \<open>Round trips\<close>

text \<open>
  The code points of a string never hold a high surrogate before a low one, and every such
  sequence of code points is read back as it was written.
\<close>

fun unpaired :: "code_point list \<Rightarrow> bool" where
  "unpaired [] \<longleftrightarrow> True"
| "unpaired [c] \<longleftrightarrow> c \<le> 0x10ffff"
| "unpaired (c # d # cs) \<longleftrightarrow> c \<le> 0x10ffff \<and> \<not> (is_high c \<and> is_low d) \<and> unpaired (d # cs)"

definition encode :: "code_point list \<Rightarrow> code_units" where
  "encode cs = concat (map fromCodePoint cs)"

lemma codePointAt_pair:
  assumes "0xffff < c" and "c \<le> 0x10ffff"
  shows "codePointAt ((0xd800 + (c - 0x10000) div 0x400) # (0xdc00 + (c - 0x10000) mod 0x400) # us) = c"
proof -
  have "(c - 0x10000) div 0x400 \<le> 0x3ff"
    using assms by (simp add: less_mult_imp_div_less less_Suc_eq_le [symmetric])
  moreover have "(c - 0x10000) mod 0x400 \<le> 0x3ff"
    using mod_less_divisor [of "0x400" "c - 0x10000"] by simp
  moreover have "(c - 0x10000) div 0x400 * 0x400 + (c - 0x10000) mod 0x400 = c - 0x10000"
    by (rule div_mult_mod_eq)
  ultimately show ?thesis
    using assms by (simp add: is_high_def is_low_def)
qed

lemma encode_Cons: "encode (c # cs) = fromCodePoint c @ encode cs"
  by (simp add: encode_def)

lemma codePointAt_single:
  assumes "\<not> (is_high c \<and> cs \<noteq> [] \<and> is_low (hd cs))" and "unpaired cs"
  shows "codePointAt (c # encode cs) = c"
proof (cases cs)
  case (Cons d ds)
  obtain x xs where x: "fromCodePoint d = x # xs" "x = d \<or> x = 0xd800 + (d - 0x10000) div 0x400 \<and> 0xffff < d"
    by (cases "d \<le> 0xffff") (simp_all add: fromCodePoint_def BASIC_PLANE_LAST_def)
  have "d \<le> 0x10ffff"
    using assms(2) by (cases ds) (auto simp: Cons)
  then have "(d - 0x10000) div 0x400 \<le> 0x3ff" if "0xffff < d"
    using that by (simp add: less_mult_imp_div_less less_Suc_eq_le [symmetric])
  with x assms(1) have "\<not> (is_high c \<and> is_low x)"
    by (auto simp: Cons is_low_def)
  then show ?thesis
    by (auto simp: Cons encode_Cons x(1))
qed (simp add: encode_def)

lemma unpaired_Cons: "unpaired (c # cs) \<longleftrightarrow>
    c \<le> 0x10ffff \<and> \<not> (is_high c \<and> cs \<noteq> [] \<and> is_low (hd cs)) \<and> unpaired cs"
  by (cases cs) auto

lemma code_points_encode: "unpaired cs \<Longrightarrow> code_points (encode cs) = cs"
proof (induction cs)
  case (Cons c cs)
  then have c: "c \<le> 0x10ffff" "\<not> (is_high c \<and> cs \<noteq> [] \<and> is_low (hd cs))" "unpaired cs"
    and IH: "code_points (encode cs) = cs"
    by (simp_all add: unpaired_Cons)
  show ?case
  proof (cases "c \<le> BASIC_PLANE_LAST")
    case True
    then show ?thesis
      using codePointAt_single [OF c(2,3)] IH
      by (simp add: encode_Cons fromCodePoint_def code_points_Cons)
  next
    case False
    with codePointAt_pair [of c "encode cs"] c(1) IH show ?thesis
      by (simp add: encode_Cons fromCodePoint_def code_points_Cons BASIC_PLANE_LAST_def)
  qed
qed (simp add: encode_def)

text \<open>Code units are below \<open>2^16\<close>.\<close>

definition units_ok :: "code_units \<Rightarrow> bool" where
  "units_ok us \<longleftrightarrow> (\<forall>u \<in> set us. u \<le> 0xffff)"

lemma codePointAt_cases:
  assumes "units_ok (u # us)"
  obtains (single) "codePointAt (u # us) = u" "u \<le> 0xffff" "\<not> (is_high u \<and> us \<noteq> [] \<and> is_low (hd us))"
    | (pair) w ws where "us = w # ws" "is_high u" "is_low w"
        "codePointAt (u # us) = 0x10000 + (u - 0xd800) * 0x400 + (w - 0xdc00)"
proof (cases us)
  case Nil
  with assms single show ?thesis by (simp add: units_ok_def)
next
  case (Cons w ws)
  with assms single pair show ?thesis by (cases "is_high u \<and> is_low w") (auto simp: units_ok_def)
qed

lemma pair_value:
  assumes "is_high u" and "is_low w"
  defines "c \<equiv> 0x10000 + (u - 0xd800) * 0x400 + (w - 0xdc00)"
  shows "0xffff < c" and "c \<le> 0x10ffff" and "fromCodePoint c = [u, w]"
proof -
  from assms(1,2) have b: "u - 0xd800 \<le> 0x3ff" "w - 0xdc00 < 0x400" "0xd800 \<le> u" "0xdc00 \<le> w"
    by (auto simp: is_high_def is_low_def)
  show c: "0xffff < c"
    by (simp add: c_def)
  show "c \<le> 0x10ffff"
    using b by (simp add: c_def)
  have "c - 0x10000 = (w - 0xdc00) + (u - 0xd800) * 0x400"
    by (simp add: c_def)
  then have "(c - 0x10000) div 0x400 = u - 0xd800" "(c - 0x10000) mod 0x400 = w - 0xdc00"
    using b(2) by simp_all
  with b c show "fromCodePoint c = [u, w]"
    by (simp add: fromCodePoint_def BASIC_PLANE_LAST_def)
qed

lemma units_ok_Cons: "units_ok (u # us) \<longleftrightarrow> u \<le> 0xffff \<and> units_ok us"
  by (simp add: units_ok_def)

lemma encode_code_points: "units_ok us \<Longrightarrow> encode (code_points us) = us \<and> unpaired (code_points us)"
proof (induction us rule: code_units_induct)
  case (Cons u us)
  from Cons.prems show ?case
  proof (cases rule: codePointAt_cases)
    case single
    with Cons have IH: "encode (code_points us) = us" "unpaired (code_points us)"
      by (simp_all add: BASIC_PLANE_LAST_def units_ok_Cons)
    have "\<not> (is_high u \<and> code_points us \<noteq> [] \<and> is_low (hd (code_points us)))"
    proof (cases us)
      case (Cons w ws)
      have "is_low (codePointAt (w # ws)) \<Longrightarrow> is_low w"
        by (cases ws) (auto simp: is_low_def split: if_splits)
      with single(3) show ?thesis by (auto simp: Cons code_points_Cons)
    qed simp
    with single IH show ?thesis
      by (simp add: code_points_Cons unpaired_Cons encode_Cons fromCodePoint_def BASIC_PLANE_LAST_def)
  next
    case (pair w ws)
    note c = pair_value [OF pair(2,3), folded pair(4)]
    with Cons pair(1) have IH: "encode (code_points ws) = ws" "unpaired (code_points ws)"
      by (simp_all add: BASIC_PLANE_LAST_def units_ok_Cons)
    have "code_points (u # us) = codePointAt (u # us) # code_points ws"
      using c(1) pair(1) by (simp only: code_points_Cons) (simp add: BASIC_PLANE_LAST_def)
    moreover have "\<not> is_high (codePointAt (u # us))"
      using c(1) by (simp add: is_high_def)
    ultimately show ?thesis
      using c IH pair(1) by (simp add: unpaired_Cons encode_Cons)
  qed
qed (simp add: encode_def)

text \<open>A fold keeps the code points of a text unpaired.\<close>

lemma plain_point_surrogate: "plain_point c \<Longrightarrow> c \<le> 0x10ffff \<and> \<not> is_high c \<and> \<not> is_low c"
  by (auto simp: plain_point_def is_high_def is_low_def)

lemma unpaired_append_plain: "\<forall>c \<in> set cs. plain_point c \<Longrightarrow> unpaired ds \<Longrightarrow> unpaired (cs @ ds)"
  by (induction cs) (auto simp: unpaired_Cons dest!: plain_point_surrogate)

context folding_host
begin

lemma fold_unpaired: "unpaired cs \<Longrightarrow> unpaired (fold_text h cs)"
proof (induction cs)
  case (Cons c cs)
  then have c: "c \<le> 0x10ffff" "\<not> (is_high c \<and> cs \<noteq> [] \<and> is_low (hd cs))" and IH: "unpaired (fold_text h cs)"
    by (simp_all add: unpaired_Cons)
  have split: "fold_text h (c # cs) = fold_cp h c @ fold_text h cs"
    by (simp add: fold_text_def)
  show ?case
  proof (cases "fold_cp h c = [c]")
    case False
    with fold_points [of c] IH show ?thesis
      unfolding split by (auto intro: unpaired_append_plain)
  next
    case True
    have "\<not> is_low (hd (fold_text h cs))" if "is_high c" "fold_text h cs \<noteq> []"
    proof (cases cs)
      case Nil
      with that show ?thesis by (simp add: fold_text_def)
    next
      case (Cons d ds)
      have "hd (fold_text h cs) = hd (fold_cp h d)" "hd (fold_cp h d) \<in> set (fold_cp h d)"
        using fold_nonempty [of d] by (simp_all add: Cons fold_text_def)
      with fold_points [of d] c(2) that(1) Cons show ?thesis
        by (auto dest!: plain_point_surrogate)
    qed
    with c(1) IH show ?thesis
      by (auto simp: split True unpaired_Cons)
  qed
qed (simp add: fold_text_def)

lemma fold_cp_bounded: "c \<le> 0x10ffff \<Longrightarrow> f \<in> set (fold_cp h c) \<Longrightarrow> f \<le> 0x10ffff"
  using fold_points [of c] by (auto dest!: plain_point_surrogate)

lemma fold_bounded: "\<forall>c \<in> set cs. c \<le> 0x10ffff \<Longrightarrow> f \<in> set (fold_text h cs) \<Longrightarrow> f \<le> 0x10ffff"
  using fold_cp_bounded by (auto simp: fold_text_def)

end

lemma unpaired_bounded: "unpaired cs \<Longrightarrow> \<forall>c \<in> set cs. c \<le> 0x10ffff"
  by (induction cs) (auto simp: unpaired_Cons)

section \<open>Keys of runs\<close>

lemma runKey_encode: "runKey a b c = encode [a, b, c]"
  by (simp add: runKey_def encode_def)

lemma runKey_round:
  assumes "unpaired [a, b, c]"
  shows "runKeyCodePoints (runKey a b c) = [a, b, c]"
proof -
  have "fold (\<lambda>c slots. if length slots < 3 then slots @ [c] else slots) [a, b, c] [] = [a, b, c]"
    by simp
  with code_points_encode [OF assms] show ?thesis
    by (simp add: runKeyCodePoints_def forCodePoints_fold runKey_encode PATTERN_RUN_CODE_POINTS_def)
qed

lemma runKey_inj:
  "unpaired [a, b, c] \<Longrightarrow> unpaired [a', b', c'] \<Longrightarrow> runKey a b c = runKey a' b' c' \<Longrightarrow> a = a' \<and> b = b' \<and> c = c'"
  using runKey_round by (metis list.inject)

text \<open>
  Three code points that hold a pair have a key of fewer code points, so the key of a run is never
  the key of anything else.
\<close>

lemma length_code_points_encode:
  "\<forall>c \<in> set cs. c \<le> 0x10ffff \<Longrightarrow>
     length (code_points (encode cs)) \<le> length cs \<and> (length (code_points (encode cs)) = length cs \<longrightarrow> unpaired cs)"
proof (induction "length cs" arbitrary: cs rule: less_induct)
  case less
  show ?case
  proof (cases cs rule: unpaired.cases)
    case (2 c)
    then show ?thesis
      using code_points_encode [of "[c]"] less.prems by simp
  next
    case (3 c d ds)
    have bounded: "c \<le> 0x10ffff" "d \<le> 0x10ffff"
      using less.prems by (simp_all add: 3)
    have shorter: "length (code_points (encode ds)) \<le> length ds"
      "length (code_points (encode (d # ds))) \<le> length (d # ds) \<and>
        (length (code_points (encode (d # ds))) = length (d # ds) \<longrightarrow> unpaired (d # ds))"
      using less.hyps [of ds] less.hyps [of "d # ds"] less.prems by (simp_all add: 3)
    show ?thesis
    proof (cases "is_high c \<and> is_low d")
      case True
      then have units: "encode (c # d # ds) = c # d # encode ds" and "0xffff < codePointAt (c # d # encode ds)"
        by (auto simp: encode_Cons fromCodePoint_def BASIC_PLANE_LAST_def is_high_def is_low_def)
      then have "code_points (encode (c # d # ds)) = codePointAt (c # d # encode ds) # code_points (encode ds)"
        by (simp add: code_points_Cons BASIC_PLANE_LAST_def)
      with shorter(1) show ?thesis by (simp add: 3)
    next
      case False
      have "code_points (encode (c # d # ds)) = c # code_points (encode (d # ds))"
      proof (cases "c \<le> BASIC_PLANE_LAST")
        case True
        obtain x xs where x: "encode (d # ds) = x # xs" "x = d \<or> x = 0xd800 + (d - 0x10000) div 0x400 \<and> 0xffff < d"
          by (cases "d \<le> 0xffff") (simp_all add: encode_Cons fromCodePoint_def BASIC_PLANE_LAST_def)
        have "(d - 0x10000) div 0x400 \<le> 0x3ff" if "0xffff < d"
          using that bounded(2) by (simp add: less_mult_imp_div_less less_Suc_eq_le [symmetric])
        with x False have "\<not> (is_high c \<and> is_low x)"
          by (auto simp: is_low_def)
        then have "codePointAt (c # x # xs) = c"
          by auto
        with True x(1) show ?thesis
          by (simp add: encode_Cons [of c] fromCodePoint_def code_points_Cons)
      next
        case False
        with codePointAt_pair [of c "encode (d # ds)"] bounded(1) show ?thesis
          by (simp add: encode_Cons [of c] fromCodePoint_def code_points_Cons BASIC_PLANE_LAST_def)
      qed
      with shorter(2) False bounded show ?thesis by (auto simp: 3)
    qed
  qed (simp add: encode_def)
qed

lemma runKey_unpaired:
  assumes "runKey a b c = runKey x y z" and "unpaired [x, y, z]" and "a \<le> 0x10ffff" and "b \<le> 0x10ffff" and "c \<le> 0x10ffff"
  shows "a = x \<and> b = y \<and> c = z"
proof -
  have "code_points (encode [a, b, c]) = [x, y, z]"
    using assms(1) code_points_encode [OF assms(2)] by (simp add: runKey_encode)
  then have "unpaired [a, b, c]"
    using length_code_points_encode [of "[a, b, c]"] assms(3-5) by simp
  with assms(1,2) show ?thesis
    using runKey_inj by blast
qed

lemma set_setAdd [simp]: "set (keyAdd x xs) = insert x (set xs)"
  by (auto simp: keyAdd_def)

lemma distinct_setAdd [simp]: "distinct (keyAdd x xs) = distinct xs"
  by (auto simp: keyAdd_def)

lemma collectRunKeys_eq:
  "set (collectRunKeys cs out) =
     set out \<union> {runKey (cs ! at) (cs ! (at + 1)) (cs ! (at + 2)) | at. at + 3 \<le> length cs}"
  "distinct out \<Longrightarrow> distinct (collectRunKeys cs out)"
proof -
  have "set (foldl (\<lambda>out at. keyAdd (g at) out) out ats) = set out \<union> g ` set ats"
    for g :: "nat \<Rightarrow> code_units" and out ats
    by (induction ats arbitrary: out) auto
  then show "set (collectRunKeys cs out) =
      set out \<union> {runKey (cs ! at) (cs ! (at + 1)) (cs ! (at + 2)) | at. at + 3 \<le> length cs}"
    by (auto simp: collectRunKeys_def PATTERN_RUN_CODE_POINTS_def image_iff)
  have "distinct out \<Longrightarrow> distinct (foldl (\<lambda>out at. keyAdd (g at) out) out ats)"
    for g :: "nat \<Rightarrow> code_units" and out ats
    by (induction ats arbitrary: out) simp_all
  then show "distinct out \<Longrightarrow> distinct (collectRunKeys cs out)"
    by (simp add: collectRunKeys_def)
qed

lemma compareRuns_zero:
  "compareRuns xs i ys j = 0 \<longleftrightarrow> (\<forall>k < 3. xs ! (i + k) = ys ! (j + k))"
  by (auto simp: compareRuns_def PATTERN_RUN_CODE_POINTS_def Let_def numeral_3_eq_3 upt_rec less_Suc_eq)

end
