(* ===== verification/Work_Meter.thy ===== *)
theory Work_Meter
  imports Main
begin

text \<open>
  The budget of a pattern search: the local meter of \<open>core/pattern-index/work-meter.ts\<close> and
  the tally of \<open>pattern/work-tally.ts\<close>, which hands units to the meter in batches. The
  lemmas show that batching changes nothing: the error comes at exactly the addition that
  takes the total past the cap, and no unit is lost or counted twice.

  Not modelled: the clock of a meter (it measures time).
\<close>

datatype work_error = Work_Cap_Exceeded nat

section \<open>The meter\<close>

record work_meter =
  m_cap :: nat
  m_total :: nat
  m_flushUnits :: nat
  m_matcherStateBytes :: int

definition meterAdd :: "nat \<Rightarrow> work_meter \<Rightarrow> work_error + work_meter" where
  "meterAdd units meter =
     (if units \<le> 0 then Inr meter
      else let meter = meter\<lparr>m_total := m_total meter + units\<rparr>
           in if m_cap meter < m_total meter then Inl (Work_Cap_Exceeded (m_cap meter)) else Inr meter)"

definition remaining :: "work_meter \<Rightarrow> int" where
  "remaining meter = int (m_cap meter) - int (m_total meter)"

definition DEFAULT_PATTERN_WORK_CAP :: nat where "DEFAULT_PATTERN_WORK_CAP = 25000000"
definition MATCHER_STATE_BUDGET_BYTES :: int where "MATCHER_STATE_BUDGET_BYTES = 1000000"
definition PATTERN_WORK_FLUSH_UNITS :: nat where "PATTERN_WORK_FLUSH_UNITS = 65536"

definition createPatternWorkMeter :: "nat \<Rightarrow> work_meter" where
  "createPatternWorkMeter cap =
     \<lparr>m_cap = cap, m_total = 0, m_flushUnits = PATTERN_WORK_FLUSH_UNITS,
      m_matcherStateBytes = MATCHER_STATE_BUDGET_BYTES\<rparr>"

section \<open>The tally\<close>

record work_tally =
  t_pending :: nat
  t_headroom :: int
  t_meter :: work_meter

definition newTally :: "work_meter \<Rightarrow> work_tally" where
  "newTally meter = \<lparr>t_pending = 0, t_headroom = remaining meter, t_meter = meter\<rparr>"

definition tallyFlush :: "work_tally \<Rightarrow> work_error + work_tally" where
  "tallyFlush t =
     (if t_pending t = 0 then Inr t
      else case meterAdd (t_pending t) (t_meter t) of
             Inl e \<Rightarrow> Inl e
           | Inr meter \<Rightarrow> Inr (t\<lparr>t_pending := 0, t_meter := meter, t_headroom := remaining meter\<rparr>))"

definition tallyAdd :: "nat \<Rightarrow> work_tally \<Rightarrow> work_error + work_tally" where
  "tallyAdd units t =
     (let t = t\<lparr>t_pending := t_pending t + units\<rparr>
      in if m_flushUnits (t_meter t) \<le> t_pending t \<or> t_headroom t < int (t_pending t) then tallyFlush t
         else Inr t)"

section \<open>Batching is exact\<close>

definition tally_cap :: "work_tally \<Rightarrow> nat" where
  "tally_cap t = m_cap (t_meter t)"

definition spent :: "work_tally \<Rightarrow> nat" where
  "spent t = m_total (t_meter t) + t_pending t"

definition tally_ok :: "work_tally \<Rightarrow> bool" where
  "tally_ok t \<longleftrightarrow> t_headroom t = remaining (t_meter t) \<and> spent t \<le> tally_cap t"

lemma newTally_ok: "m_total meter \<le> m_cap meter \<Longrightarrow> tally_ok (newTally meter)"
  by (simp add: tally_ok_def newTally_def spent_def tally_cap_def)

lemma tallyFlush_ok:
  assumes "tally_ok t"
  obtains t' where "tallyFlush t = Inr t'" and "tally_ok t'" and "spent t' = spent t"
    and "tally_cap t' = tally_cap t" and "t_pending t' = 0"
proof (cases "t_pending t = 0")
  case True
  with assms that show ?thesis by (simp add: tallyFlush_def)
next
  case False
  with assms that [of "t\<lparr>t_pending := 0, t_meter := (t_meter t)\<lparr>m_total := spent t\<rparr>,
      t_headroom := remaining ((t_meter t)\<lparr>m_total := spent t\<rparr>)\<rparr>"] show ?thesis
    by (simp add: tallyFlush_def tally_ok_def spent_def tally_cap_def meterAdd_def Let_def)
qed

theorem tallyAdd_exact:
  assumes "tally_ok t"
  shows "case tallyAdd units t of
      Inl e \<Rightarrow> tally_cap t < spent t + units \<and> e = Work_Cap_Exceeded (tally_cap t)
    | Inr t' \<Rightarrow> spent t + units \<le> tally_cap t \<and> spent t' = spent t + units \<and> tally_cap t' = tally_cap t \<and>
        tally_ok t'"
  using assms
  by (auto simp: tallyAdd_def tallyFlush_def tally_ok_def spent_def tally_cap_def meterAdd_def remaining_def
      Let_def split: sum.splits)

lemma tallyAdd_Inr:
  assumes "tally_ok t" and "tallyAdd units t = Inr t'"
  shows "tally_ok t'" and "spent t' = spent t + units" and "tally_cap t' = tally_cap t"
    and "spent t + units \<le> tally_cap t"
  using tallyAdd_exact [OF assms(1), of units] assms(2) by simp_all

lemma tallyAdd_fits: "tally_ok t \<Longrightarrow> spent t + units \<le> tally_cap t \<Longrightarrow> \<exists>t'. tallyAdd units t = Inr t'"
  using tallyAdd_exact [of t units] by (cases "tallyAdd units t") simp_all

text \<open>A whole search adds its units one after the other.\<close>

fun addAll :: "nat list \<Rightarrow> work_tally \<Rightarrow> work_error + work_tally" where
  "addAll [] t = Inr t"
| "addAll (u # us) t = (case tallyAdd u t of Inl e \<Rightarrow> Inl e | Inr t \<Rightarrow> addAll us t)"

lemma addAll_exact:
  "tally_ok t \<Longrightarrow> (\<exists>t'. addAll us t = Inr t') \<longleftrightarrow> spent t + sum_list us \<le> tally_cap t"
proof (induction us arbitrary: t)
  case (Cons u us)
  show ?case
  proof (cases "tallyAdd u t")
    case (Inl e)
    with tallyAdd_exact [OF Cons.prems, of u] show ?thesis by auto
  next
    case (Inr t')
    with tallyAdd_Inr [OF Cons.prems Inr] Cons.IH [of t'] show ?thesis
      by (simp add: add.assoc)
  qed
qed (simp add: tally_ok_def)

end
