(* ===== verification/Pattern_Matcher.thy ===== *)
theory Pattern_Matcher
  imports Pattern_Text Work_Meter
begin

text \<open>
  The interface \<open>ValueMatcher\<close> of \<open>pattern/evaluate.ts\<close> and its client \<open>matchesText\<close>. The
  locale states what a matcher promises: it reads a value code point by code point, may
  decide early but only when no continuation changes the answer, answers at the end, can
  be used for another value afterwards, and adds at most \<open>work\<close> units for a code point.
  \<open>matchesText\<close> is proved correct from these laws alone; the two matchers of the program
  provide them (\<open>Literal_Matcher\<close>, \<open>Lazy_Dfa\<close>).
\<close>

type_synonym 'm feed_result = "work_error + (bool \<times> 'm \<times> work_tally)"

record 'm matcher_ops =
  beginValue :: "'m \<Rightarrow> bool \<times> 'm"
  feedValue :: "code_point \<Rightarrow> 'm \<Rightarrow> work_tally \<Rightarrow> 'm feed_result"
  matchedValue :: "'m \<Rightarrow> bool \<times> 'm"

section \<open>The client\<close>

text \<open>The inner loop over the folded code points, left as soon as the matcher has decided.\<close>

fun feedFolded :: "'m matcher_ops \<Rightarrow> code_point list \<Rightarrow> 'm \<Rightarrow> work_tally \<Rightarrow> 'm feed_result" where
  "feedFolded ops [] m t = Inr (True, m, t)"
| "feedFolded ops (c # cs) m t =
     (case feedValue ops c m t of
        Inl e \<Rightarrow> Inl e
      | Inr (goes_on, m, t) \<Rightarrow> if \<not> goes_on then Inr (False, m, t) else feedFolded ops cs m t)"

text \<open>The loop over the text, left as soon as the matcher has decided.\<close>

function feedText :: "'m matcher_ops \<Rightarrow> bool \<Rightarrow> host \<Rightarrow> code_units \<Rightarrow> 'm \<Rightarrow> work_tally \<Rightarrow> 'm feed_result" where
  "feedText ops caseFold h [] m t = Inr (True, m, t)"
| "feedText ops caseFold h (u # us) m t =
     (let codePoint = codePointAt (u # us);
          rest = (if BASIC_PLANE_LAST < codePoint then drop 1 us else us)
      in case (if \<not> caseFold then feedValue ops codePoint m t
               else feedFolded ops (appendFoldedCodePoint h codePoint []) m t) of
           Inl e \<Rightarrow> Inl e
         | Inr (goes_on, m, t) \<Rightarrow> if \<not> goes_on then Inr (False, m, t) else feedText ops caseFold h rest m t)"
  by pat_completeness auto
termination
  by (relation "measure (\<lambda>(ops, caseFold, h, us, m, t). length us)") auto

definition matchesText ::
  "'m matcher_ops \<Rightarrow> 'm \<Rightarrow> code_units \<Rightarrow> bool \<Rightarrow> host \<Rightarrow> work_tally \<Rightarrow> 'm feed_result" where
  "matchesText ops m txt caseFold h t =
     (case beginValue ops m of
        (False, m) \<Rightarrow> (let (answer, m) = matchedValue ops m in Inr (answer, m, t))
      | (True, m) \<Rightarrow>
          (case feedText ops caseFold h txt m t of
             Inl e \<Rightarrow> Inl e
           | Inr (_, m, t) \<Rightarrow> (let (answer, m) = matchedValue ops m in Inr (answer, m, t))))"

text \<open>The code points that a matcher is fed for a text.\<close>

definition fed_points :: "host \<Rightarrow> bool \<Rightarrow> code_units \<Rightarrow> code_point list" where
  "fed_points h caseFold us = (if caseFold then fold_text h (code_points us) else code_points us)"

lemma fed_points_Nil [simp]: "fed_points h caseFold [] = []"
  by (simp add: fed_points_def fold_text_def)

lemma fed_points_Cons: "fed_points h caseFold (u # us) =
    (if caseFold then fold_cp h (codePointAt (u # us)) else [codePointAt (u # us)]) @
    fed_points h caseFold (if BASIC_PLANE_LAST < codePointAt (u # us) then drop 1 us else us)"
  by (simp add: fed_points_def fold_text_def code_points_Cons)

section \<open>The interface\<close>

text \<open>
  \<open>ready\<close>: a value may begin. \<open>reading m w\<close>: \<open>w\<close> has been read and nothing is decided.
  \<open>decided m b\<close>: the answer is \<open>b\<close>. \<open>spec m v\<close>: the value \<open>v\<close> matches.
\<close>

locale value_matcher =
  fixes ops :: "'m matcher_ops"
    and ready :: "'m \<Rightarrow> bool"
    and reading :: "'m \<Rightarrow> code_point list \<Rightarrow> bool"
    and decided :: "'m \<Rightarrow> bool \<Rightarrow> bool"
    and spec :: "'m \<Rightarrow> code_point list \<Rightarrow> bool"
    and work :: "'m \<Rightarrow> nat"
  assumes begin_law: "ready m \<Longrightarrow> beginValue ops m = (goes_on, m') \<Longrightarrow>
      spec m' = spec m \<and> work m' = work m \<and>
      (if goes_on then reading m' [] else \<exists>b. decided m' b \<and> (\<forall>v. spec m v = b))"
    and feed_law: "reading m w \<Longrightarrow> tally_ok t \<Longrightarrow> feedValue ops c m t = Inr (goes_on, m', t') \<Longrightarrow>
      spec m' = spec m \<and> work m' = work m \<and>
      (if goes_on then reading m' (w @ [c]) else \<exists>b. decided m' b \<and> (\<forall>u. spec m (w @ c # u) = b))"
    and feed_work: "reading m w \<Longrightarrow> tally_ok t \<Longrightarrow> feedValue ops c m t = Inr (goes_on, m', t') \<Longrightarrow>
      tally_ok t' \<and> tally_cap t' = tally_cap t \<and> spent t' \<le> spent t + work m"
    and feed_fits: "reading m w \<Longrightarrow> tally_ok t \<Longrightarrow> spent t + work m \<le> tally_cap t \<Longrightarrow>
      \<exists>r. feedValue ops c m t = Inr r"
    and matched_reading: "reading m w \<Longrightarrow> matchedValue ops m = (b, m') \<Longrightarrow>
      b = spec m w \<and> ready m' \<and> spec m' = spec m \<and> work m' = work m"
    and matched_decided: "decided m b \<Longrightarrow> matchedValue ops m = (b', m') \<Longrightarrow>
      b' = b \<and> ready m' \<and> spec m' = spec m \<and> work m' = work m"
begin

definition fed :: "'m \<Rightarrow> work_tally \<Rightarrow> code_point list \<Rightarrow> code_point list \<Rightarrow> bool \<Rightarrow> 'm \<Rightarrow> work_tally \<Rightarrow> bool" where
  "fed m t w cs goes_on m' t' \<longleftrightarrow>
     spec m' = spec m \<and> work m' = work m \<and>
     (if goes_on then reading m' (w @ cs) else \<exists>b. decided m' b \<and> (\<forall>u. spec m (w @ cs @ u) = b)) \<and>
     tally_ok t' \<and> tally_cap t' = tally_cap t \<and> spent t' \<le> spent t + work m * length cs"

lemma fed_one:
  "reading m w \<Longrightarrow> tally_ok t \<Longrightarrow> feedValue ops c m t = Inr (goes_on, m', t') \<Longrightarrow> fed m t w [c] goes_on m' t'"
  using feed_law [of m w t c goes_on m' t'] feed_work [of m w t c goes_on m' t'] by (auto simp: fed_def)

lemma fed_more:
  "fed m t w cs True m1 t1 \<Longrightarrow> fed m1 t1 (w @ cs) ds goes_on m' t' \<Longrightarrow> fed m t w (cs @ ds) goes_on m' t'"
  by (auto simp: fed_def add_mult_distrib2)

lemma fed_stop: "fed m t w cs False m' t' \<Longrightarrow> fed m t w (cs @ ds) False m' t'"
  by (auto simp: fed_def add_mult_distrib2)

lemma feedFolded_fed:
  "reading m w \<Longrightarrow> tally_ok t \<Longrightarrow> feedFolded ops cs m t = Inr (goes_on, m', t') \<Longrightarrow> fed m t w cs goes_on m' t'"
proof (induction cs arbitrary: m w t)
  case Nil
  then show ?case by (auto simp: fed_def)
next
  case (Cons c cs)
  from Cons.prems(3) obtain g m1 t1 where one: "feedValue ops c m t = Inr (g, m1, t1)"
    by (auto split: sum.splits)
  note f = fed_one [OF Cons.prems(1,2) one]
  show ?case
  proof (cases g)
    case True
    with f Cons.prems(3) one Cons.IH [of m1 "w @ [c]" t1] fed_more [of m t w "[c]" m1 t1 cs]
    show ?thesis by (auto simp: fed_def)
  next
    case False
    with f Cons.prems(3) one fed_stop [of m t w "[c]" m1 t1 cs] show ?thesis by simp
  qed
qed

text \<open>Enough of the budget is left, so no addition fails.\<close>

lemma feedFolded_fits:
  "reading m w \<Longrightarrow> tally_ok t \<Longrightarrow> spent t + work m * length cs \<le> tally_cap t \<Longrightarrow>
     \<exists>r. feedFolded ops cs m t = Inr r"
proof (induction cs arbitrary: m w t)
  case (Cons c cs)
  from Cons.prems feed_fits [of m w t c] obtain g m1 t1 where one: "feedValue ops c m t = Inr (g, m1, t1)"
    by fastforce
  show ?case
  proof (cases g)
    case True
    with fed_one [OF Cons.prems(1,2) one] Cons.prems(3) have "reading m1 (w @ [c])" "tally_ok t1"
      "spent t1 + work m1 * length cs \<le> tally_cap t1"
      by (simp_all add: fed_def)
    from Cons.IH [OF this] True one show ?thesis by simp
  next
    case False
    with one have "feedFolded ops (c # cs) m t = Inr (False, m1, t1)"
      by simp
    then show ?thesis by blast
  qed
qed (simp, blast)

lemma feedText_fed:
  "reading m w \<Longrightarrow> tally_ok t \<Longrightarrow> feedText ops caseFold h us m t = Inr (goes_on, m', t') \<Longrightarrow>
     fed m t w (fed_points h caseFold us) goes_on m' t'"
proof (induction us arbitrary: m w t rule: code_units_induct)
  case Nil
  then show ?case by (auto simp: fed_def)
next
  case (Cons u us)
  let ?c = "codePointAt (u # us)" and ?us = "if BASIC_PLANE_LAST < codePointAt (u # us) then drop 1 us else us"
  let ?one = "if \<not> caseFold then feedValue ops ?c m t else feedFolded ops (appendFoldedCodePoint h ?c []) m t"
  let ?cs = "if caseFold then fold_cp h ?c else [?c]"
  from Cons.prems(3) obtain g m1 t1 where one: "?one = Inr (g, m1, t1)"
    by (auto simp: Let_def split: sum.splits)
  have f: "fed m t w ?cs g m1 t1"
    using one fed_one [OF Cons.prems(1,2)] feedFolded_fed [OF Cons.prems(1,2)]
    by (auto simp: fold_cp_def split: if_splits)
  have unfold: "feedText ops caseFold h (u # us) m t =
      (if \<not> g then Inr (False, m1, t1) else feedText ops caseFold h ?us m1 t1)"
    using one by (simp add: Let_def split: if_splits)
  show ?case
  proof (cases g)
    case True
    with f have "reading m1 (w @ ?cs)" "tally_ok t1"
      by (simp_all add: fed_def)
    moreover from Cons.prems(3) True have "feedText ops caseFold h ?us m1 t1 = Inr (goes_on, m', t')"
      unfolding unfold by simp
    ultimately have "fed m1 t1 (w @ ?cs) (fed_points h caseFold ?us) goes_on m' t'"
      by (rule Cons.IH)
    moreover from f True have "fed m t w ?cs True m1 t1"
      by simp
    ultimately show ?thesis
      unfolding fed_points_Cons by (blast intro: fed_more)
  next
    case False
    with f Cons.prems(3) unfold fed_stop [of m t w ?cs m1 t1] show ?thesis
      unfolding fed_points_Cons by simp
  qed
qed

lemma feedText_fits:
  "reading m w \<Longrightarrow> tally_ok t \<Longrightarrow> spent t + work m * length (fed_points h caseFold us) \<le> tally_cap t \<Longrightarrow>
     \<exists>r. feedText ops caseFold h us m t = Inr r"
proof (induction us arbitrary: m w t rule: code_units_induct)
  case (Cons u us)
  let ?c = "codePointAt (u # us)" and ?us = "if BASIC_PLANE_LAST < codePointAt (u # us) then drop 1 us else us"
  let ?one = "if \<not> caseFold then feedValue ops ?c m t else feedFolded ops (appendFoldedCodePoint h ?c []) m t"
  let ?cs = "if caseFold then fold_cp h ?c else [?c]"
  have room: "spent t + work m * length ?cs + work m * length (fed_points h caseFold ?us) \<le> tally_cap t"
    using Cons.prems(3) unfolding fed_points_Cons by (simp only: length_append add_mult_distrib2 add.assoc)
  then have "\<exists>r. ?one = Inr r"
    using feed_fits [OF Cons.prems(1,2), of ?c] feedFolded_fits [OF Cons.prems(1,2), of "fold_cp h ?c"]
    by (auto simp: fold_cp_def split: if_splits)
  then obtain g m1 t1 where one: "?one = Inr (g, m1, t1)"
    by fastforce
  have f: "fed m t w ?cs g m1 t1"
    using one fed_one [OF Cons.prems(1,2)] feedFolded_fed [OF Cons.prems(1,2)]
    by (auto simp: fold_cp_def split: if_splits)
  have unfold: "feedText ops caseFold h (u # us) m t =
      (if \<not> g then Inr (False, m1, t1) else feedText ops caseFold h ?us m1 t1)"
    using one by (simp add: Let_def split: if_splits)
  show ?case
  proof (cases g)
    case True
    with f room have "reading m1 (w @ ?cs)" "tally_ok t1"
      "spent t1 + work m1 * length (fed_points h caseFold ?us) \<le> tally_cap t1"
      by (simp_all add: fed_def)
    from Cons.IH [OF this] True show ?thesis
      unfolding unfold by simp
  next
    case False
    then have "feedText ops caseFold h (u # us) m t = Inr (False, m1, t1)"
      unfolding unfold by simp
    then show ?thesis by blast
  qed
qed (simp, blast)

theorem matchesText_correct:
  assumes "ready m" and "tally_ok t" and "matchesText ops m us caseFold h t = Inr (answer, m', t')"
  shows "answer = spec m (fed_points h caseFold us) \<and> ready m' \<and> spec m' = spec m \<and> work m' = work m \<and>
    tally_ok t' \<and> tally_cap t' = tally_cap t \<and> spent t' \<le> spent t + work m * length (fed_points h caseFold us)"
proof -
  obtain g m1 where b: "beginValue ops m = (g, m1)"
    by (cases "beginValue ops m")
  note begun = begin_law [OF assms(1) b]
  show ?thesis
  proof (cases g)
    case False
    with begun obtain d where d: "decided m1 d" "\<forall>v. spec m v = d" "spec m1 = spec m" "work m1 = work m"
      by auto
    with False b assms(3) matched_decided [OF d(1)] assms(2) show ?thesis
      by (auto simp: matchesText_def split: prod.splits)
  next
    case True
    with begun have r: "reading m1 []" "spec m1 = spec m" "work m1 = work m"
      by simp_all
    from True b assms(3) obtain g2 m2 t2 where f: "feedText ops caseFold h us m1 t = Inr (g2, m2, t2)"
      and fin: "matchedValue ops m2 = (answer, m')" "t' = t2"
      by (auto simp: matchesText_def split: sum.splits prod.splits)
    from feedText_fed [OF r(1) assms(2) f] have fd: "fed m1 t [] (fed_points h caseFold us) g2 m2 t2" .
    show ?thesis
    proof (cases g2)
      case True
      with fd matched_reading [OF _ fin(1)] r fin(2) show ?thesis
        by (auto simp: fed_def)
    next
      case False
      with fd obtain d where d: "decided m2 d" "\<forall>u. spec m1 (fed_points h caseFold us @ u) = d"
        by (auto simp: fed_def)
      from d(2) [rule_format, of "[]"] matched_decided [OF d(1) fin(1)] fd r fin(2) show ?thesis
        by (auto simp: fed_def)
    qed
  qed
qed

theorem matchesText_fits:
  assumes "ready m" and "tally_ok t" and "spent t + work m * length (fed_points h caseFold us) \<le> tally_cap t"
  shows "\<exists>answer m' t'. matchesText ops m us caseFold h t = Inr (answer, m', t')"
proof -
  obtain g m1 where b: "beginValue ops m = (g, m1)"
    by (cases "beginValue ops m")
  note begun = begin_law [OF assms(1) b]
  show ?thesis
  proof (cases g)
    case False
    with b show ?thesis by (simp add: matchesText_def case_prod_beta)
  next
    case True
    with begun assms(2,3) feedText_fits [of m1 "[]" t h caseFold us]
    obtain r where "feedText ops caseFold h us m1 t = Inr r"
      by auto
    with True b show ?thesis by (simp add: matchesText_def case_prod_beta)
  qed
qed

end

end
