(* ===== verification/Literal_Matcher.thy ===== *)
theory Literal_Matcher
  imports Pattern_Matcher "HOL-Library.Sublist" "HOL-Library.While_Combinator"
begin

text \<open>
  \<open>pattern/literal-matcher.ts\<close>: the matcher for \<open>eq\<close>, \<open>startsWith\<close>, \<open>endsWith\<close> and
  \<open>contains\<close>, which keeps the longest prefix of the text that ends where the value has been
  read to and falls back along borders (Knuth, Morris and Pratt). The lemmas show that the
  borders are right, that the matcher keeps the longest prefix, that it answers the four
  tests exactly, and that the work it reports for a code point is the number of positions
  of the literal that are alive there.
\<close>

section \<open>The matcher\<close>

text \<open>\<open>while (border > 0 && codePoints[border] !== c) border = borders[border]\<close>.\<close>

definition fallBack :: "code_point list \<Rightarrow> nat list \<Rightarrow> code_point \<Rightarrow> nat \<Rightarrow> nat" where
  "fallBack cps borders c border =
     while (\<lambda>border. 0 < border \<and> cps ! border \<noteq> c) (\<lambda>border. borders ! border) border"

definition bordersOf :: "code_point list \<Rightarrow> nat list" where
  "bordersOf cps =
     snd (foldl (\<lambda>(border, borders) at.
            let border = fallBack cps borders (cps ! at) border;
                border = (if cps ! at = cps ! border then border + 1 else border)
            in (border, borders[at + 1 := border]))
          (0, replicate (length cps + 1) 0) [1..<length cps])"

definition reachablePositionsOf :: "nat list \<Rightarrow> nat \<Rightarrow> nat list" where
  "reachablePositionsOf borders len =
     foldl (\<lambda>reachable prfx. reachable[prfx := (if prfx < len then 1 else 0) + reachable ! (borders ! prfx)])
       (replicate (len + 1) 0) [1..<len + 1]"

record literal_matcher =
  l_codePoints :: "code_point list"
  l_anchoredStart :: bool
  l_anchoredEnd :: bool
  l_borders :: "nat list"
  l_reachable :: "nat list"
  l_prefix :: nat
  l_alive :: bool
  l_accepting :: bool
  l_decided :: "bool option"

definition newLiteralMatcher :: "code_point list \<Rightarrow> bool \<Rightarrow> bool \<Rightarrow> literal_matcher" where
  "newLiteralMatcher cps anchoredStart anchoredEnd =
     \<lparr>l_codePoints = cps, l_anchoredStart = anchoredStart, l_anchoredEnd = anchoredEnd,
      l_borders = bordersOf cps, l_reachable = reachablePositionsOf (bordersOf cps) (length cps),
      l_prefix = 0, l_alive = True, l_accepting = False, l_decided = None\<rparr>"

definition literalDecide :: "bool \<Rightarrow> literal_matcher \<Rightarrow> bool \<times> literal_matcher" where
  "literalDecide outcome m = (False, m\<lparr>l_decided := Some outcome\<rparr>)"

definition literalBegin :: "literal_matcher \<Rightarrow> bool \<times> literal_matcher" where
  "literalBegin m =
     (let m = m\<lparr>l_decided := None, l_prefix := 0, l_alive := 0 < length (l_codePoints m),
                l_accepting := length (l_codePoints m) = 0\<rparr>
      in if \<not> l_anchoredEnd m \<and> l_accepting m then literalDecide True m else (True, m))"

definition literalSteps :: "literal_matcher \<Rightarrow> nat" where
  "literalSteps m =
     (let len = length (l_codePoints m)
      in if len = 0 then 0
         else if l_anchoredStart m then (if l_alive m \<and> l_prefix m < len then 1 else 0)
         else 1 + l_reachable m ! l_prefix m)"

definition advanceAnchored :: "code_point \<Rightarrow> literal_matcher \<Rightarrow> literal_matcher" where
  "advanceAnchored codePoint m =
     (if l_codePoints m ! l_prefix m = codePoint
      then let m = m\<lparr>l_prefix := l_prefix m + 1\<rparr> in m\<lparr>l_accepting := l_prefix m = length (l_codePoints m)\<rparr>
      else m\<lparr>l_alive := False, l_accepting := False\<rparr>)"

definition advance :: "code_point \<Rightarrow> literal_matcher \<Rightarrow> literal_matcher" where
  "advance codePoint m =
     (let cps = l_codePoints m;
          prfx = (if l_prefix m = length cps then l_borders m ! l_prefix m else l_prefix m);
          prfx = fallBack cps (l_borders m) codePoint prfx;
          prfx = (if cps ! prfx = codePoint then prfx + 1 else prfx)
      in m\<lparr>l_prefix := prfx, l_accepting := prfx = length cps\<rparr>)"

definition literalFeed :: "code_point \<Rightarrow> literal_matcher \<Rightarrow> work_tally \<Rightarrow> literal_matcher feed_result" where
  "literalFeed codePoint m t =
     (let stps = literalSteps m
      in if stps = 0
         then let (goes_on, m) = literalDecide (\<not> l_anchoredStart m \<and> length (l_codePoints m) = 0) m
              in Inr (goes_on, m, t)
         else case tallyAdd stps t of
                Inl e \<Rightarrow> Inl e
              | Inr t \<Rightarrow>
                  let m = (if l_anchoredStart m then advanceAnchored codePoint m else advance codePoint m);
                      (goes_on, m) = (if \<not> l_anchoredEnd m \<and> l_accepting m then literalDecide True m else (True, m))
                  in Inr (goes_on, m, t))"

definition literalMatched :: "literal_matcher \<Rightarrow> bool" where
  "literalMatched m =
     (case l_decided m of Some outcome \<Rightarrow> outcome | None \<Rightarrow> l_anchoredEnd m \<and> l_accepting m)"

definition literal_ops :: "literal_matcher matcher_ops" where
  "literal_ops = \<lparr>beginValue = literalBegin, feedValue = literalFeed, matchedValue = \<lambda>m. (literalMatched m, m)\<rparr>"

section \<open>Prefixes that end here\<close>

definition ends :: "code_point list \<Rightarrow> code_point list \<Rightarrow> nat \<Rightarrow> bool" where
  "ends cps w k \<longleftrightarrow> k \<le> length cps \<and> suffix (take k cps) w"

lemma ends_0 [simp]: "ends cps w 0"
  by (simp add: ends_def)

lemma ends_le: "ends cps w k \<Longrightarrow> k \<le> length w"
  by (auto simp: ends_def dest: suffix_length_le)

lemma suffix_shorter: "suffix a w \<Longrightarrow> suffix b w \<Longrightarrow> length a \<le> length b \<Longrightarrow> suffix a b"
  by (meson suffix_length_suffix)

text \<open>A shorter prefix that ends at the end of \<open>w\<close> ends at the end of a longer one.\<close>

lemma ends_chain: "ends cps w b \<Longrightarrow> k \<le> b \<Longrightarrow> ends cps w k \<longleftrightarrow> ends cps (take b cps) k"
  by (auto simp: ends_def intro: suffix_shorter suffix_order.trans)

lemma ends_snoc: "ends cps (w @ [c]) (Suc k) \<longleftrightarrow> k < length cps \<and> ends cps w k \<and> cps ! k = c"
  by (auto simp: ends_def take_Suc_conv_app_nth)

definition longest :: "(nat \<Rightarrow> bool) \<Rightarrow> nat \<Rightarrow> bool" where
  "longest Q k \<longleftrightarrow> Q k \<and> (\<forall>j. Q j \<longrightarrow> j \<le> k)"

text \<open>The border of a prefix: its longest proper suffix that is a prefix again.\<close>

definition border_ok :: "code_point list \<Rightarrow> nat list \<Rightarrow> nat \<Rightarrow> bool" where
  "border_ok cps borders n \<longleftrightarrow> longest (\<lambda>k. k < n \<and> ends cps (take n cps) k) (borders ! n)"

lemma fallBack_correct:
  fixes c :: code_point
  assumes b: "ends cps w b" and below: "b < length cps" and borders: "\<And>n. 0 < n \<Longrightarrow> n \<le> b \<Longrightarrow> border_ok cps borders n"
  defines "r \<equiv> fallBack cps borders c b"
  shows "ends cps w r \<and> r \<le> b \<and> (\<forall>k \<le> b. ends cps w k \<longrightarrow> r < k \<longrightarrow> cps ! k \<noteq> c) \<and> (r = 0 \<or> cps ! r = c)"
proof -
  let ?I = "\<lambda>r. ends cps w r \<and> r \<le> b \<and> (\<forall>k \<le> b. ends cps w k \<longrightarrow> r < k \<longrightarrow> cps ! k \<noteq> c)"
  have "?I r \<and> \<not> (0 < r \<and> cps ! r \<noteq> c)"
    unfolding r_def fallBack_def
  proof (rule while_rule [where P = ?I and r = "measure id"])
    show "?I b" using b by auto
    fix s
    assume I: "?I s" and test: "0 < s \<and> cps ! s \<noteq> c"
    with borders [of s] have bd: "borders ! s < s" "ends cps (take s cps) (borders ! s)"
      "\<And>j. j < s \<Longrightarrow> ends cps (take s cps) j \<Longrightarrow> j \<le> borders ! s"
      by (auto simp: border_ok_def longest_def)
    have "ends cps w (borders ! s)"
      using ends_chain [of cps w s "borders ! s"] I bd by simp
    moreover have "cps ! k \<noteq> c" if "k \<le> b" "ends cps w k" "borders ! s < k" for k
    proof (cases k s rule: linorder_cases)
      case less
      with that bd(3) [of k] ends_chain [of cps w s k] I show ?thesis by simp
    next
      case equal
      with test show ?thesis by simp
    next
      case greater
      with I that show ?thesis by simp
    qed
    ultimately show "?I (borders ! s)" using I bd(1) by auto
    show "(borders ! s, s) \<in> measure id" using bd(1) by simp
  qed (auto simp: wf_measure)
  then show ?thesis by auto
qed

text \<open>Falling back and then reading \<open>c\<close> gives the longest prefix that ends after \<open>c\<close>.\<close>

lemma fallBack_longest:
  fixes c :: code_point
  assumes b: "ends cps w b" and below: "b < length cps" and borders: "\<And>n. 0 < n \<Longrightarrow> n \<le> b \<Longrightarrow> border_ok cps borders n"
    and max: "\<And>k. ends cps w k \<Longrightarrow> k < length cps \<Longrightarrow> Q k \<Longrightarrow> k \<le> b"
    and Q: "\<And>k. k \<le> b \<Longrightarrow> Q k"
  defines "r \<equiv> fallBack cps borders c b"
  shows "longest (\<lambda>k. ends cps (w @ [c]) k \<and> (k = 0 \<or> Q (k - 1))) (if cps ! r = c then r + 1 else r)"
proof -
  from fallBack_correct [OF b below borders, of c, folded r_def]
  have r: "ends cps w r" "r \<le> b" "r = 0 \<or> cps ! r = c"
    and least: "\<And>k. k \<le> b \<Longrightarrow> ends cps w k \<Longrightarrow> r < k \<Longrightarrow> cps ! k \<noteq> c"
    by auto
  have up: "j \<le> (if cps ! r = c then r + 1 else r)" if "ends cps (w @ [c]) j" "j = 0 \<or> Q (j - 1)" for j
  proof (cases j)
    case (Suc k)
    with that have "ends cps w k" "k < length cps" "cps ! k = c" "Q k"
      by (auto simp: ends_snoc)
    with max [of k] least [of k] r(3) show ?thesis
      using Suc by (cases "r < k") (auto simp: not_less)
  qed simp
  show ?thesis
    unfolding longest_def
  proof (intro conjI allI impI)
    show "ends cps (w @ [c]) (if cps ! r = c then r + 1 else r)"
      using r below by (auto simp: ends_snoc)
    show "(if cps ! r = c then r + 1 else r) = 0 \<or> Q ((if cps ! r = c then r + 1 else r) - 1)"
      using r Q by auto
  qed (use up in auto)
qed

section \<open>The borders\<close>

lemma bordersOf_prefix:
  assumes "n \<le> length cps"
  defines "step \<equiv> (\<lambda>(border, borders) at.
            let border = fallBack cps borders (cps ! at) border;
                border = (if cps ! at = cps ! border then border + 1 else border)
            in (border, borders[at + 1 := border]))"
  defines "st \<equiv> foldl step (0, replicate (length cps + 1) 0) [1..<n]"
  shows "length (snd st) = length cps + 1 \<and> snd st ! 0 = 0 \<and>
    (0 < n \<longrightarrow> fst st = snd st ! n \<and> (\<forall>k. 0 < k \<longrightarrow> k \<le> n \<longrightarrow> border_ok cps (snd st) k))"
  using assms(1) unfolding st_def
proof (induction n)
  case 0
  then show ?case by simp
next
  case (Suc n)
  show ?case
  proof (cases "n = 0")
    case True
    then show ?thesis
      using Suc.prems by (cases cps) (auto simp: border_ok_def longest_def le_Suc_eq)
  next
    case False
    define st where "st = foldl step (0, replicate (length cps + 1) 0) [1..<n]"
    from Suc False have IH: "length (snd st) = length cps + 1" "snd st ! 0 = 0" "fst st = snd st ! n"
      "\<And>k. 0 < k \<Longrightarrow> k \<le> n \<Longrightarrow> border_ok cps (snd st) k"
      by (simp_all add: st_def)
    define r where "r = fallBack cps (snd st) (cps ! n) (fst st)"
    define b where "b = (if cps ! n = cps ! r then r + 1 else r)"
    have next_: "foldl step (0, replicate (length cps + 1) 0) [1..<Suc n] = (b, (snd st)[Suc n := b])"
      using False by (simp add: st_def step_def r_def b_def Let_def case_prod_beta)
    have bn: "longest (\<lambda>k. k < n \<and> ends cps (take n cps) k) (fst st)"
      using IH(4) [of n] False by (simp add: border_ok_def IH(3))
    have b: "longest (\<lambda>k. ends cps (take n cps @ [cps ! n]) k \<and> (k = 0 \<or> k - 1 < n)) b"
    proof -
      have "longest (\<lambda>k. ends cps (take n cps @ [cps ! n]) k \<and> (k = 0 \<or> k - 1 < n)) (if cps ! r = cps ! n then r + 1 else r)"
        unfolding r_def
        by (rule fallBack_longest) (use bn IH(4) Suc.prems in \<open>auto simp: longest_def\<close>)
      then show ?thesis by (simp add: b_def eq_commute)
    qed
    have "border_ok cps ((snd st)[Suc n := b]) (Suc n)"
    proof -
      have "(\<lambda>k. k < Suc n \<and> ends cps (take (Suc n) cps) k) = (\<lambda>k. ends cps (take n cps @ [cps ! n]) k \<and> (k = 0 \<or> k - 1 < n))"
        using Suc.prems by (auto simp: take_Suc_conv_app_nth fun_eq_iff)
      with b Suc.prems show ?thesis
        by (simp add: border_ok_def IH(1))
    qed
    moreover have "border_ok cps ((snd st)[Suc n := b]) k" if "0 < k" "k \<le> n" for k
      using IH(4) [OF that] that by (simp add: border_ok_def)
    ultimately show ?thesis
      unfolding next_ using IH Suc.prems by (auto simp: le_Suc_eq)
  qed
qed

lemma bordersOf_ok:
  "length (bordersOf cps) = length cps + 1" "0 < n \<Longrightarrow> n \<le> length cps \<Longrightarrow> border_ok cps (bordersOf cps) n"
  using bordersOf_prefix [of "length cps" cps] by (auto simp: bordersOf_def)

section \<open>The positions that are alive\<close>

text \<open>The positions of the literal that wait for the next code point after \<open>take p cps\<close>, except the first.\<close>

definition waiting :: "code_point list \<Rightarrow> nat \<Rightarrow> nat set" where
  "waiting cps p = {k. 0 < k \<and> k < length cps \<and> k \<le> p \<and> ends cps (take p cps) k}"

lemma waiting_step:
  assumes "border_ok cps borders p" and "0 < p" and "p \<le> length cps"
  shows "waiting cps p = (if p < length cps then insert p (waiting cps (borders ! p)) else waiting cps (borders ! p))"
proof -
  let ?b = "borders ! p"
  from assms(1) have b: "?b < p" "ends cps (take p cps) ?b" "\<And>k. k < p \<Longrightarrow> ends cps (take p cps) k \<Longrightarrow> k \<le> ?b"
    by (auto simp: border_ok_def longest_def)
  have "k \<in> waiting cps p \<longleftrightarrow> k \<in> waiting cps ?b" if "k < p" for k
    using b that ends_chain [OF b(2), of k] by (auto simp: waiting_def)
  moreover have "p \<in> waiting cps p \<longleftrightarrow> p < length cps"
    using assms(2,3) by (auto simp: waiting_def ends_def)
  moreover have "k \<le> p" if "k \<in> waiting cps p \<or> k \<in> waiting cps ?b" for k
    using that b(1) by (auto simp: waiting_def)
  moreover have "p \<notin> waiting cps ?b"
    using b(1) by (auto simp: waiting_def)
  ultimately show ?thesis
    by (auto simp: le_less split: if_splits)
qed

lemma finite_waiting [simp]: "finite (waiting cps p)"
  by (rule finite_subset [of _ "{..p}"]) (auto simp: waiting_def)

lemma reachable_prefix:
  assumes "n \<le> length cps + 1"
  defines "st \<equiv> foldl (\<lambda>reachable prfx. reachable[prfx := (if prfx < length cps then 1 else 0) +
      reachable ! (bordersOf cps ! prfx)]) (replicate (length cps + 1) (0::nat)) [1..<n]"
  shows "length st = length cps + 1 \<and> (\<forall>p < n. st ! p = card (waiting cps p))"
  using assms(1) unfolding st_def
proof (induction n)
  case 0
  then show ?case by simp
next
  case (Suc n)
  have zero: "waiting cps 0 = {}"
    by (auto simp: waiting_def)
  show ?case
  proof (cases "n = 0")
    case True
    then show ?thesis by (simp add: zero)
  next
    case False
    define st where "st = foldl (\<lambda>reachable prfx. reachable[prfx := (if prfx < length cps then 1 else 0) +
      reachable ! (bordersOf cps ! prfx)]) (replicate (length cps + 1) (0::nat)) [1..<n]"
    from Suc have IH: "length st = length cps + 1" "\<And>p. p < n \<Longrightarrow> st ! p = card (waiting cps p)"
      by (simp_all add: st_def)
    have ok: "border_ok cps (bordersOf cps) n"
      using bordersOf_ok(2) [of n cps] False Suc.prems by simp
    then have b: "bordersOf cps ! n < n"
      by (simp add: border_ok_def longest_def)
    then have "n \<notin> waiting cps (bordersOf cps ! n)"
      by (auto simp: waiting_def)
    with waiting_step [OF ok] False Suc.prems
    have "(if n < length cps then 1 else 0) + card (waiting cps (bordersOf cps ! n)) = card (waiting cps n)"
      by simp
    moreover have "foldl (\<lambda>reachable prfx. reachable[prfx := (if prfx < length cps then 1 else 0) +
      reachable ! (bordersOf cps ! prfx)]) (replicate (length cps + 1) 0) [1..<Suc n] =
      st[n := (if n < length cps then 1 else 0) + st ! (bordersOf cps ! n)]"
      using False by (simp only: st_def) simp
    ultimately have next_: "foldl (\<lambda>reachable prfx. reachable[prfx := (if prfx < length cps then 1 else 0) +
      reachable ! (bordersOf cps ! prfx)]) (replicate (length cps + 1) 0) [1..<Suc n] = st[n := card (waiting cps n)]"
      using IH(2) [OF b] by simp
    have "n < length st"
      using IH(1) Suc.prems by simp
    then show ?thesis
      unfolding next_ using IH by (auto simp: nth_list_update less_Suc_eq)
  qed
qed

lemma reachable_ok:
  "p \<le> length cps \<Longrightarrow> reachablePositionsOf (bordersOf cps) (length cps) ! p = card (waiting cps p)"
  using reachable_prefix [of "length cps + 1" cps] by (simp add: reachablePositionsOf_def)

lemma card_waiting: "card (waiting cps p) \<le> p"
proof -
  have "waiting cps p \<subseteq> {1..p}"
    by (auto simp: waiting_def)
  from card_mono [OF _ this] show ?thesis by simp
qed

text \<open>With the longest prefix at hand, the waiting positions and the first are the ones alive.\<close>

lemma alive_positions:
  assumes "longest (ends cps w) p" and "cps \<noteq> []"
  shows "1 + card (waiting cps p) = card {k. k < length cps \<and> ends cps w k}"
proof -
  have "{k. k < length cps \<and> ends cps w k} = insert 0 (waiting cps p)"
    using assms ends_chain [of cps w p] by (auto simp: longest_def waiting_def)
  moreover have "0 \<notin> waiting cps p"
    by (simp add: waiting_def)
  ultimately show ?thesis by simp
qed

section \<open>What the matcher answers\<close>

definition literal_spec :: "literal_matcher \<Rightarrow> code_point list \<Rightarrow> bool" where
  "literal_spec m v \<longleftrightarrow>
     (if l_anchoredStart m then (if l_anchoredEnd m then v = l_codePoints m else prefix (l_codePoints m) v)
      else (if l_anchoredEnd m then suffix (l_codePoints m) v else sublist (l_codePoints m) v))"

definition literal_ready :: "literal_matcher \<Rightarrow> bool" where
  "literal_ready m \<longleftrightarrow> l_borders m = bordersOf (l_codePoints m) \<and>
     l_reachable m = reachablePositionsOf (bordersOf (l_codePoints m)) (length (l_codePoints m))"

definition literal_reading :: "literal_matcher \<Rightarrow> code_point list \<Rightarrow> bool" where
  "literal_reading m w \<longleftrightarrow> literal_ready m \<and> l_decided m = None \<and>
     (let cps = l_codePoints m
      in if cps = [] then l_anchoredEnd m \<and> l_accepting m \<and> w = []
         else if l_anchoredStart m
         then (if l_alive m then prefix w cps \<and> l_prefix m = length w \<and> l_accepting m = (w = cps) \<and>
                 (\<not> l_anchoredEnd m \<longrightarrow> w \<noteq> cps)
               else \<not> l_accepting m \<and> \<not> prefix cps w \<and> \<not> prefix w cps)
         else longest (ends cps w) (l_prefix m) \<and> l_accepting m = (l_prefix m = length cps) \<and>
              (\<not> l_anchoredEnd m \<longrightarrow> \<not> sublist cps w))"

definition literal_decided :: "literal_matcher \<Rightarrow> bool \<Rightarrow> bool" where
  "literal_decided m b \<longleftrightarrow> literal_ready m \<and> l_decided m = Some b"

definition literal_work :: "literal_matcher \<Rightarrow> nat" where
  "literal_work m = length (l_codePoints m) + 1"

lemma longest_full:
  assumes l: "longest (ends cps w) p"
  shows "p = length cps \<longleftrightarrow> suffix cps w"
proof
  show "suffix cps w" if "p = length cps"
    using l that by (simp add: longest_def ends_def)
  show "p = length cps" if "suffix cps w"
  proof -
    have "ends cps w (length cps)"
      using that by (simp add: ends_def)
    with l have "length cps \<le> p" "p \<le> length cps"
      by (simp_all add: longest_def ends_def)
    then show ?thesis by simp
  qed
qed

lemma advance_longest:
  fixes c :: code_point
  assumes "literal_ready m" and "l_codePoints m \<noteq> []" and "longest (ends (l_codePoints m) w) (l_prefix m)"
  defines "m' \<equiv> advance c m"
  shows "longest (ends (l_codePoints m) (w @ [c])) (l_prefix m') \<and> l_accepting m' = (l_prefix m' = length (l_codePoints m)) \<and>
    m' = m\<lparr>l_prefix := l_prefix m', l_accepting := l_accepting m'\<rparr>"
proof -
  let ?cps = "l_codePoints m" and ?p = "l_prefix m"
  define b where "b = (if ?p = length ?cps then l_borders m ! ?p else ?p)"
  have p: "ends ?cps w ?p" "\<And>k. ends ?cps w k \<Longrightarrow> k \<le> ?p" "?p \<le> length ?cps"
    using assms(3) by (auto simp: longest_def ends_def)
  have bd: "0 < n \<Longrightarrow> n \<le> length ?cps \<Longrightarrow> border_ok ?cps (l_borders m) n" for n
    using assms(1) bordersOf_ok(2) by (simp add: literal_ready_def)
  have b: "ends ?cps w b" "b < length ?cps" "\<And>k. ends ?cps w k \<Longrightarrow> k < length ?cps \<Longrightarrow> k \<le> b"
  proof -
    consider "?p < length ?cps" | "?p = length ?cps"
      using p(3) by linarith
    then have "ends ?cps w b \<and> b < length ?cps \<and> (\<forall>k. ends ?cps w k \<longrightarrow> k < length ?cps \<longrightarrow> k \<le> b)"
    proof cases
      case 1
      with p show ?thesis by (simp add: b_def)
    next
      case 2
      with bd [of ?p] assms(2) have "longest (\<lambda>k. k < ?p \<and> ends ?cps (take ?p ?cps) k) b"
        by (simp add: border_ok_def b_def)
      with 2 p ends_chain [OF p(1)] show ?thesis
        by (auto simp: longest_def)
    qed
    then show "ends ?cps w b" "b < length ?cps" "\<And>k. ends ?cps w k \<Longrightarrow> k < length ?cps \<Longrightarrow> k \<le> b"
      by blast+
  qed
  have "longest (\<lambda>k. ends ?cps (w @ [c]) k \<and> (k = 0 \<or> True))
      (if ?cps ! fallBack ?cps (l_borders m) c b = c then fallBack ?cps (l_borders m) c b + 1
       else fallBack ?cps (l_borders m) c b)"
    by (rule fallBack_longest) (use b bd in auto)
  then show ?thesis
    by (simp add: m'_def advance_def Let_def b_def [symmetric] split: if_splits)
qed

section \<open>The laws of a value matcher\<close>

lemma literal_begin:
  assumes "literal_ready m" and "literalBegin m = (goes_on, m')"
  shows "literal_spec m' = literal_spec m \<and> literal_work m' = literal_work m \<and>
    (if goes_on then literal_reading m' [] else \<exists>b. literal_decided m' b \<and> (\<forall>v. literal_spec m v = b))"
  using assms
  by (auto simp: literalBegin_def literalDecide_def Let_def literal_spec_def [abs_def] literal_work_def literal_reading_def
      literal_ready_def literal_decided_def longest_def ends_def split: if_splits)

lemma literal_matched_reading: "literal_reading m w \<Longrightarrow> literalMatched m = literal_spec m w"
  unfolding literal_reading_def literalMatched_def literal_spec_def Let_def
  by (cases "l_anchoredStart m"; cases "l_anchoredEnd m") (auto simp: longest_full split: if_splits)

text \<open>The anchored tests.\<close>

lemma literal_feed_anchored:
  assumes r: "literal_reading m w" and anchored: "l_anchoredStart m" and ne: "l_codePoints m \<noteq> []"
  shows "literalSteps m = 0 \<Longrightarrow> \<not> literal_spec m (w @ c # u)"
    and "0 < literalSteps m \<Longrightarrow> literalSteps m = 1"
    and "0 < literalSteps m \<Longrightarrow> m' = advanceAnchored c m \<Longrightarrow>
      (if \<not> l_anchoredEnd m \<and> l_accepting m' then \<forall>u. literal_spec m (w @ c # u) else literal_reading m' (w @ [c])) \<and>
      l_codePoints m' = l_codePoints m \<and> l_anchoredStart m' = l_anchoredStart m \<and> l_anchoredEnd m' = l_anchoredEnd m \<and>
      literal_ready m'"
proof -
  let ?cps = "l_codePoints m"
  from r ne anchored have live: "l_alive m \<Longrightarrow> prefix w ?cps \<and> l_prefix m = length w \<and> (\<not> l_anchoredEnd m \<longrightarrow> w \<noteq> ?cps)"
    and dead: "\<not> l_alive m \<Longrightarrow> \<not> prefix ?cps w \<and> \<not> prefix w ?cps"
    and rest: "literal_ready m" "l_decided m = None"
    by (simp_all add: literal_reading_def Let_def split: if_splits)
  show "\<not> literal_spec m (w @ c # u)" if zero: "literalSteps m = 0"
  proof (cases "l_alive m")
    case True
    with zero live ne anchored have "w = ?cps"
      by (auto simp: literalSteps_def Let_def prefix_def split: if_splits)
    with live [OF True] anchored show ?thesis
      by (auto simp: literal_spec_def)
  next
    case False
    with dead anchored show ?thesis
      by (auto simp: literal_spec_def prefix_append) (metis prefixI)+
  qed
  show "literalSteps m = 1" if "0 < literalSteps m"
    using that anchored ne by (simp add: literalSteps_def split: if_splits)
  show "(if \<not> l_anchoredEnd m \<and> l_accepting m' then \<forall>u. literal_spec m (w @ c # u) else literal_reading m' (w @ [c])) \<and>
      l_codePoints m' = ?cps \<and> l_anchoredStart m' = l_anchoredStart m \<and> l_anchoredEnd m' = l_anchoredEnd m \<and>
      literal_ready m'"
    if steps: "0 < literalSteps m" and m': "m' = advanceAnchored c m"
  proof -
    from steps anchored have alive: "l_alive m" "l_prefix m < length ?cps"
      by (simp_all add: literalSteps_def Let_def split: if_splits)
    with live have w: "prefix w ?cps" "l_prefix m = length w"
      by simp_all
    with alive obtain d ds where cps: "?cps = w @ d # ds"
      by (auto simp: prefix_def) (metis append_Nil2 list.exhaust nat_less_le)
    show ?thesis
    proof (cases "d = c")
      case True
      with cps w rest anchored alive show ?thesis
        by (auto simp: m' advanceAnchored_def literal_spec_def literal_reading_def literal_ready_def Let_def)
    next
      case False
      have "\<not> prefix ?cps (w @ [c])" "\<not> prefix (w @ [c]) ?cps"
        using False by (auto simp: cps)
      with False cps w rest anchored alive ne show ?thesis
        by (auto simp: m' advanceAnchored_def literal_reading_def literal_ready_def Let_def)
    qed
  qed
qed

text \<open>The tests that may begin anywhere.\<close>

lemma literal_feed_loose:
  fixes c :: code_point
  assumes r: "literal_reading m w" and loose: "\<not> l_anchoredStart m" and ne: "l_codePoints m \<noteq> []"
  defines "m' \<equiv> advance c m"
  shows "(if \<not> l_anchoredEnd m \<and> l_accepting m' then \<forall>u. literal_spec m (w @ c # u) else literal_reading m' (w @ [c])) \<and>
      l_codePoints m' = l_codePoints m \<and> l_anchoredStart m' = l_anchoredStart m \<and> l_anchoredEnd m' = l_anchoredEnd m \<and>
      literal_ready m'"
proof -
  let ?cps = "l_codePoints m"
  from r ne loose have l: "longest (ends ?cps w) (l_prefix m)" "literal_ready m" "l_decided m = None"
    "\<not> l_anchoredEnd m \<longrightarrow> \<not> sublist ?cps w"
    by (simp_all add: literal_reading_def Let_def)
  obtain p a where m': "m' = m\<lparr>l_prefix := p, l_accepting := a\<rparr>"
    and p: "longest (ends ?cps (w @ [c])) p" "a = (p = length ?cps)"
    using advance_longest [OF l(2) ne l(1), of c] unfolding m'_def by metis
  have hit: "a \<longleftrightarrow> suffix ?cps (w @ [c])"
    using longest_full [OF p(1)] p(2) by simp
  have now: "sublist ?cps (w @ [c]) \<longleftrightarrow> suffix ?cps (w @ [c])" if "\<not> l_anchoredEnd m"
    using that l(4) by (auto simp: sublist_snoc)
  have "\<forall>u. literal_spec m (w @ c # u)" if "\<not> l_anchoredEnd m" "a"
  proof
    fix u
    from that hit have "sublist ?cps (w @ [c])"
      by auto
    then have "sublist ?cps ((w @ [c]) @ u)"
      by (simp only: sublist_append simp_thms)
    with that loose show "literal_spec m (w @ c # u)"
      by (simp add: literal_spec_def)
  qed
  with p hit now l ne loose show ?thesis
    by (auto simp: m' literal_reading_def literal_ready_def Let_def)
qed

lemma literal_steps_loose:
  assumes r: "literal_reading m w" and loose: "\<not> l_anchoredStart m" and ne: "l_codePoints m \<noteq> []"
  shows "literalSteps m = card {k. k < length (l_codePoints m) \<and> ends (l_codePoints m) w k}"
    and "0 < literalSteps m" and "literalSteps m \<le> literal_work m"
proof -
  from r ne loose have l: "longest (ends (l_codePoints m) w) (l_prefix m)" "literal_ready m"
    by (simp_all add: literal_reading_def Let_def)
  then have p: "l_prefix m \<le> length (l_codePoints m)"
    by (simp add: longest_def ends_def)
  then have steps: "literalSteps m = 1 + card (waiting (l_codePoints m) (l_prefix m))"
    using l(2) loose ne by (simp add: literalSteps_def literal_ready_def reachable_ok)
  with alive_positions [OF l(1) ne]
  show "literalSteps m = card {k. k < length (l_codePoints m) \<and> ends (l_codePoints m) w k}"
    by simp
  show "0 < literalSteps m" "literalSteps m \<le> literal_work m"
    using steps card_waiting [of "l_codePoints m" "l_prefix m"] p by (simp_all add: literal_work_def)
qed

text \<open>An empty literal is settled by the first code point.\<close>

lemma literal_feed_empty:
  assumes "literal_reading m w" and "l_codePoints m = []"
  shows "literalSteps m = 0" and "literal_spec m (w @ c # u) \<longleftrightarrow> \<not> l_anchoredStart m"
  using assms by (auto simp: literalSteps_def literal_reading_def literal_spec_def Let_def)

lemma literal_steps_work: "literal_reading m w \<Longrightarrow> literalSteps m \<le> literal_work m"
  using literal_feed_empty(1) literal_steps_loose(3) literal_feed_anchored(2)
  by (cases "l_codePoints m = []"; cases "l_anchoredStart m"; cases "literalSteps m = 0") (auto simp: literal_work_def)

lemma literal_feed:
  assumes r: "literal_reading m w" and res: "literalFeed c m t = Inr (goes_on, m', t')"
  shows "literal_spec m' = literal_spec m \<and> literal_work m' = literal_work m \<and>
    (if goes_on then literal_reading m' (w @ [c]) else \<exists>b. literal_decided m' b \<and> (\<forall>u. literal_spec m (w @ c # u) = b))"
proof (cases "literalSteps m = 0")
  case True
  have ready: "literal_ready m"
    using r by (simp add: literal_reading_def)
  have ans: "literal_spec m (w @ c # u) \<longleftrightarrow> \<not> l_anchoredStart m \<and> l_codePoints m = []" for u
    using True literal_feed_empty(2) [OF r] literal_feed_anchored(1) [OF r] literal_steps_loose(2) [OF r]
    by (cases "l_codePoints m = []"; cases "l_anchoredStart m") auto
  from True res have "goes_on = False"
    "m' = m\<lparr>l_decided := Some (\<not> l_anchoredStart m \<and> l_codePoints m = [])\<rparr>"
    by (auto simp: literalFeed_def literalDecide_def)
  with ready ans show ?thesis
    by (auto simp: literal_spec_def [abs_def] literal_work_def literal_decided_def literal_ready_def)
next
  case False
  then have ne: "l_codePoints m \<noteq> []"
    using literal_feed_empty(1) [OF r] by auto
  define m1 where "m1 = (if l_anchoredStart m then advanceAnchored c m else advance c m)"
  have adv: "(if \<not> l_anchoredEnd m \<and> l_accepting m1 then \<forall>u. literal_spec m (w @ c # u) else literal_reading m1 (w @ [c])) \<and>
      l_codePoints m1 = l_codePoints m \<and> l_anchoredStart m1 = l_anchoredStart m \<and> l_anchoredEnd m1 = l_anchoredEnd m \<and>
      literal_ready m1"
    using False literal_feed_anchored(3) [OF r _ ne _ refl, of c] literal_feed_loose [OF r _ ne, of c]
    by (cases "l_anchoredStart m") (simp_all add: m1_def)
  from False res obtain t1 where "tallyAdd (literalSteps m) t = Inr t1"
    by (auto simp: literalFeed_def split: sum.splits)
  with False res have "(goes_on, m') = (if \<not> l_anchoredEnd m1 \<and> l_accepting m1 then literalDecide True m1 else (True, m1))"
    by (auto simp: literalFeed_def Let_def m1_def split: if_splits prod.splits)
  with adv show ?thesis
    by (auto simp: literalDecide_def literal_spec_def [abs_def] literal_work_def literal_decided_def literal_ready_def
        split: if_splits)
qed

lemma literal_feed_tally:
  assumes r: "literal_reading m w" and t: "tally_ok t"
  shows "literalFeed c m t = Inr (goes_on, m', t') \<Longrightarrow>
      tally_ok t' \<and> tally_cap t' = tally_cap t \<and> spent t' \<le> spent t + literal_work m"
    and "spent t + literal_work m \<le> tally_cap t \<Longrightarrow> \<exists>r. literalFeed c m t = Inr r"
proof -
  note work = literal_steps_work [OF r]
  show "tally_ok t' \<and> tally_cap t' = tally_cap t \<and> spent t' \<le> spent t + literal_work m"
    if "literalFeed c m t = Inr (goes_on, m', t')"
  proof (cases "literalSteps m = 0")
    case True
    with that t show ?thesis
      by (auto simp: literalFeed_def literalDecide_def)
  next
    case False
    with that obtain t1 where t1: "tallyAdd (literalSteps m) t = Inr t1" and "t' = t1"
      by (auto simp: literalFeed_def Let_def split: sum.splits prod.splits)
    with tallyAdd_Inr [OF t t1] work show ?thesis by simp
  qed
  show "\<exists>r. literalFeed c m t = Inr r" if "spent t + literal_work m \<le> tally_cap t"
  proof -
    from that work have "spent t + literalSteps m \<le> tally_cap t"
      by simp
    from tallyAdd_fits [OF t this] obtain t1 where "tallyAdd (literalSteps m) t = Inr t1"
      by blast
    then show ?thesis
      by (simp add: literalFeed_def Let_def case_prod_beta)
  qed
qed

interpretation literal: value_matcher literal_ops literal_ready literal_reading literal_decided literal_spec literal_work
proof
  show "literal_spec m' = literal_spec m \<and> literal_work m' = literal_work m \<and>
      (if goes_on then literal_reading m' [] else \<exists>b. literal_decided m' b \<and> (\<forall>v. literal_spec m v = b))"
    if "literal_ready m" "beginValue literal_ops m = (goes_on, m')" for m goes_on m'
    using literal_begin that by (simp add: literal_ops_def)
  show "literal_spec m' = literal_spec m \<and> literal_work m' = literal_work m \<and>
      (if goes_on then literal_reading m' (w @ [c])
       else \<exists>b. literal_decided m' b \<and> (\<forall>u. literal_spec m (w @ c # u) = b))"
    if "literal_reading m w" "feedValue literal_ops c m t = Inr (goes_on, m', t')" for m w t c goes_on m' t'
    using literal_feed that by (simp add: literal_ops_def)
  show "tally_ok t' \<and> tally_cap t' = tally_cap t \<and> spent t' \<le> spent t + literal_work m"
    if "literal_reading m w" "tally_ok t" "feedValue literal_ops c m t = Inr (goes_on, m', t')" for m w t c goes_on m' t'
    using literal_feed_tally(1) that by (simp add: literal_ops_def)
  show "\<exists>r. feedValue literal_ops c m t = Inr r"
    if "literal_reading m w" "tally_ok t" "spent t + literal_work m \<le> tally_cap t" for m w t c
    using literal_feed_tally(2) that by (simp add: literal_ops_def)
  show "b = literal_spec m w \<and> literal_ready m' \<and> literal_spec m' = literal_spec m \<and> literal_work m' = literal_work m"
    if "literal_reading m w" "matchedValue literal_ops m = (b, m')" for m w b m'
    using that literal_matched_reading by (auto simp: literal_ops_def literal_reading_def)
  show "b' = b \<and> literal_ready m' \<and> literal_spec m' = literal_spec m \<and> literal_work m' = literal_work m"
    if "literal_decided m b" "matchedValue literal_ops m = (b', m')" for m b b' m'
    using that by (auto simp: literal_ops_def literal_decided_def literalMatched_def)
qed

lemma literal_new_ready: "literal_ready (newLiteralMatcher cps anchoredStart anchoredEnd)"
  by (simp add: literal_ready_def newLiteralMatcher_def)

lemma literal_new_spec: "literal_spec (newLiteralMatcher cps anchoredStart anchoredEnd) v \<longleftrightarrow>
    (if anchoredStart then (if anchoredEnd then v = cps else prefix cps v)
     else (if anchoredEnd then suffix cps v else sublist cps v))"
  by (simp add: literal_spec_def newLiteralMatcher_def)

lemma literal_new_work: "literal_work (newLiteralMatcher cps anchoredStart anchoredEnd) = length cps + 1"
  by (simp add: literal_work_def newLiteralMatcher_def)

end
