(* ===== verification/Pattern_Properties.thy ===== *)
theory Pattern_Properties
  imports Bitset Pattern_Simulation Literal_Matcher "HOL-Library.Code_Target_Nat"
begin

text \<open>
  What the pattern search promises, stated over the code's model and proved by the lemmas
  of the component theories. Each property that has hypotheses is followed by an instance
  at a concrete input that satisfies them.
\<close>

section \<open>Programs\<close>

text \<open>A host with a small pair of tables, for the instances.\<close>

definition ascii_host :: host where
  "ascii_host = host_of (Abs_fold_tables ascii_tables)"

text \<open>
  C4: a value is hit by the program compiled from a pattern exactly if the pattern describes
  a span of it, folded values under \<open>caseFold\<close> included: parsing tree, lowering, compiling and
  the fronts that the matchers follow agree with the meaning of the pattern.
\<close>

theorem program_matches_pattern:
  assumes "wf_node node"
  shows "value_hits (compileProgram (lowerPattern node caseFold (host_of t))) (fed_points (host_of t) caseFold us)
    \<longleftrightarrow> span_in (fed_points (host_of t) caseFold us)
          (node_span (host_of t) caseFold (fed_points (host_of t) caseFold us) node)"
proof -
  have "\<forall>c \<in> set (fed_points (host_of t) caseFold us). fold_cp (host_of t) c = [c]" if caseFold
    using that engine.fold_text_fixed by (simp add: fed_points_def)
  from engine.plan_span_lower [OF assms this] value_hits_span [OF wf_lower [OF assms]] show ?thesis
    by (simp add: lowerPattern_def)
qed

lemma program_matches_pattern_witness:
  "value_hits (compileProgram (lowerPattern (Repeat (Literal 65) 1 None) True ascii_host)) (fed_points ascii_host True [66, 97])
    \<longleftrightarrow> span_in (fed_points ascii_host True [66, 97])
          (node_span ascii_host True (fed_points ascii_host True [66, 97]) (Repeat (Literal 65) 1 None))"
  unfolding ascii_host_def by (rule program_matches_pattern) simp

text \<open>
  Lowering keeps the meaning of every pattern that the parser lets through: the plan
  describes the same spans of a (folded) value as the syntax tree.
\<close>

theorem lowering_keeps_spans:
  assumes "wf_node node" and "caseFold \<Longrightarrow> \<forall>c \<in> set v. fold_cp (host_of t) c = [c]"
  shows "plan_span v (lowerPattern node caseFold (host_of t)) = node_span (host_of t) caseFold v node"
  using engine.plan_span_lower [OF assms] by (simp add: lowerPattern_def)

lemma lowering_keeps_spans_witness:
  "plan_span [97, 98] (lowerPattern (Choice [Literal 97, Repeat (Set_Node True [Range 97 99]) 2 (Some 3)]) False ascii_host) =
    node_span ascii_host False [97, 98] (Choice [Literal 97, Repeat (Set_Node True [Range 97 99]) 2 (Some 3)])"
  unfolding ascii_host_def by (rule lowering_keeps_spans) simp_all

text \<open>
  The paths of a compiled program from its start to its match state, consuming code
  points and passing assertions on the way, are exactly the spans that its plan describes.
\<close>

theorem compiled_paths_are_spans:
  assumes "wf_plan p"
  shows "(\<exists>m. kinds (compileProgram p) ! m = MATCH_STATE \<and>
      ((startState (compileProgram p), i), (m, j)) \<in> (run_steps v (compileProgram p))\<^sup>*) \<longleftrightarrow> (i, j) \<in> plan_span v p"
  by (rule compileProgram_paths [OF assms])

lemma compiled_paths_are_spans_witness:
  "(\<exists>m. kinds (compileProgram (Repeat_Plan (Consume 97 None) 2 (Some 3))) ! m = MATCH_STATE \<and>
      ((startState (compileProgram (Repeat_Plan (Consume 97 None) 2 (Some 3))), 0), (m, 2))
        \<in> (run_steps [97, 97] (compileProgram (Repeat_Plan (Consume 97 None) 2 (Some 3))))\<^sup>*) \<longleftrightarrow>
     (0, 2) \<in> plan_span [97, 97] (Repeat_Plan (Consume 97 None) 2 (Some 3))"
  by (rule compiled_paths_are_spans) simp



text \<open>
  \<open>planSize\<close> predicts the states and positions of the compiled program exactly, so the
  limit on positions can be checked before anything is built.
\<close>

theorem plan_size_exact:
  assumes "wf_plan p"
  shows "planSize p = (states (compileProgram p), positions (compileProgram p))"
  by (rule compileProgram_size [OF assms, symmetric])

lemma plan_size_exact_witness:
  "planSize (Repeat_Plan (Consume 97 None) 2 (Some 5)) =
     (states (compileProgram (Repeat_Plan (Consume 97 None) 2 (Some 5))),
      positions (compileProgram (Repeat_Plan (Consume 97 None) 2 (Some 5))))"
  by (rule plan_size_exact) simp

text \<open>
  \<open>anchoredStart\<close> is claimed only where it is true: a plan whose program claims it
  describes no span that begins behind the first code point, in no value.
\<close>

theorem anchored_start_is_sound:
  assumes "wf_plan p" and "anchoredStart (compileProgram p)" and "(i, j) \<in> plan_span v p"
  shows "i = 0"
  by (rule anchored_spans [OF assms])

lemma anchored_start_is_sound_witness:
  "anchoredStart (compileProgram (Sequence_Plan [Assert_Plan START_MASK, Consume 97 None])) \<and> (0 :: nat) = 0"
proof
  show anchored: "anchoredStart (compileProgram (Sequence_Plan [Assert_Plan START_MASK, Consume 97 None]))"
    by code_simp
  have "(0, 1) \<in> plan_span [97] (Sequence_Plan [Assert_Plan START_MASK, Consume 97 None])"
    by (auto simp: span_simps assert_span_def start_mask_at char_span_def consume_holds_def relcomp_unfold)
  from anchored_start_is_sound [OF _ anchored this] show "(0 :: nat) = 0"
    by simp
qed

section \<open>Walks\<close>

text \<open>
  C17: \<open>closeOver\<close> reports a match exactly if the match state is reachable without consuming a
  code point, and otherwise lists each reachable consuming state once; whatever the scratch
  space holds from earlier walks, also when the stamp runs out.
\<close>

theorem close_over_is_reachability:
  assumes "program_ok P" and "scratch_ok P scratch" and "\<forall>p \<in> set seeds. p < positions P"
    and "closeOver P seeds fromStart ctx scratch = (result, scratch')"
  shows "closure_result P ctx (roots P seeds fromStart) result scratch' \<and> scratch_ok P scratch'"
  by (rule closeOver_reach [OF assms])

definition small_program :: program where
  "small_program = compileProgram (Repeat_Plan (Consume 97 None) 0 None)"

lemma close_over_is_reachability_witness:
  "scratch_ok small_program
     (snd (closeOver small_program [] True 0 (createClosureScratch (states small_program))))"
proof -
  have "program_ok small_program"
    unfolding small_program_def by (rule compileProgram_ok) simp
  from close_over_is_reachability [OF this scratch_ok_create, of "[]" True 0]
  show ?thesis
    by (metis empty_iff list.set(1) prod.collapse)
qed

section \<open>Reading values\<close>

text \<open>
  One step of the simulation follows the front of the program: it reports a match, the
  positions that accept the code point, a dead end, and the work exactly as the states that
  are reachable there say, whatever its caches already hold.
\<close>

theorem simulation_step_exact:
  assumes "sim_reads s w" and "stepSimulation c s = (outcome, s')"
  shows "sim_ok s' \<and> s_program s' = s_program s \<and>
    (outcome = Step_Matched \<longleftrightarrow> hits (s_program s) (front_at (s_program s) (w @ [c]) (length w))) \<and>
    (outcome \<noteq> Step_Matched \<longrightarrow> sim_reads s' (w @ [c])) \<and>
    (outcome = Step_Dead \<longleftrightarrow> \<not> hits (s_program s) (front_at (s_program s) (w @ [c]) (length w)) \<and>
       anchoredStart (s_program s) \<and> live (s_program s) (w @ [c]) = {}) \<and>
    s_steps s' = (if hits (s_program s) (front_at (s_program s) (w @ [c]) (length w)) then 0
      else card {p \<in> front_at (s_program s) (w @ [c]) (length w). kinds (s_program s) ! p = CONSUME_STATE})"
  by (rule stepSimulation_reads [OF assms])

lemma simulation_step_exact_witness:
  "sim_ok (snd (stepSimulation 97 (newSimulation small_program)))"
proof -
  have P: "program_ok small_program"
    unfolding small_program_def by (rule compileProgram_ok) simp
  have "anchoredStart small_program \<longrightarrow> only_at_start small_program"
    unfolding small_program_def by (subst compileProgram_anchored) simp_all
  from simulation_step_exact [OF newSimulation_ok [OF P this]] show ?thesis
    by (metis prod.collapse)
qed

section \<open>Literals\<close>

definition literal_answer :: "bool \<Rightarrow> bool \<Rightarrow> code_point list \<Rightarrow> code_point list \<Rightarrow> bool" where
  "literal_answer aStart aEnd literal v \<longleftrightarrow>
     (if aStart then (if aEnd then v = literal else prefix literal v)
      else (if aEnd then suffix literal v else sublist literal v))"

text \<open>
  A text tested with a fresh literal matcher gets the right answer for \<open>eq\<close>, \<open>startsWith\<close>,
  \<open>endsWith\<close> and \<open>contains\<close> (both ends anchored, the start, the end, none), folded or not, and
  the budget is charged at most one unit more than the literal's length for a code point.
\<close>

theorem literal_matcher_answers:
  assumes "tally_ok t"
    and "matchesText literal_ops (newLiteralMatcher cps aStart aEnd) us caseFold h t = Inr (answer, m, t')"
  shows "answer = literal_answer aStart aEnd cps (fed_points h caseFold us) \<and> tally_ok t' \<and>
    spent t' \<le> spent t + (length cps + 1) * length (fed_points h caseFold us)"
  using literal.matchesText_correct [OF literal_new_ready assms]
  by (simp add: literal_new_spec literal_answer_def literal_new_work)

definition roomy_tally :: work_tally where
  "roomy_tally = newTally (createPatternWorkMeter 100)"

lemma roomy_tally_ok: "tally_ok roomy_tally" and roomy_tally_room: "spent roomy_tally = 0" "tally_cap roomy_tally = 100"
  by (simp_all add: roomy_tally_def newTally_ok createPatternWorkMeter_def)
    (simp_all add: newTally_def spent_def tally_cap_def)

lemma literal_matcher_answers_witness:
  "fst (projr (matchesText literal_ops (newLiteralMatcher [97, 98] False False) [97, 97, 98] False ascii_host roomy_tally)) =
     literal_answer False False [97, 98] [97, 97, 98]"
proof -
  note t = roomy_tally_ok
  have points: "fed_points ascii_host False [97, 97, 98] = [97, 97, 98]"
    by (simp add: fed_points_def code_points_Cons BASIC_PLANE_LAST_def is_high_def)
  have "spent roomy_tally + literal_work (newLiteralMatcher [97, 98] False False) *
      length (fed_points ascii_host False [97, 97, 98]) \<le> tally_cap roomy_tally"
    unfolding points by (simp add: roomy_tally_room literal_new_work)
  from literal.matchesText_fits [OF literal_new_ready t this]
  obtain answer m t' where r: "matchesText literal_ops (newLiteralMatcher [97, 98] False False) [97, 97, 98] False
      ascii_host roomy_tally = Inr (answer, m, t')"
    by blast
  from literal_matcher_answers [OF t r] show ?thesis
    unfolding points by (simp add: r)
qed

text \<open>
  With enough of the budget left, testing a text returns an answer: the literal matcher
  never asks for more than one unit more than the literal's length for a code point.
\<close>

theorem literal_matcher_returns:
  assumes "tally_ok t"
    and "spent t + (length cps + 1) * length (fed_points h caseFold us) \<le> tally_cap t"
  shows "\<exists>answer m t'. matchesText literal_ops (newLiteralMatcher cps aStart aEnd) us caseFold h t = Inr (answer, m, t')"
  using literal.matchesText_fits [OF literal_new_ready assms(1)] assms(2)
  by (simp add: literal_new_work)

lemma literal_matcher_returns_witness:
  "\<exists>answer m t'. matchesText literal_ops (newLiteralMatcher [97] True False) [98] False ascii_host roomy_tally = Inr (answer, m, t')"
  by (rule literal_matcher_returns)
    (simp_all add: fed_points_def code_points_Cons BASIC_PLANE_LAST_def roomy_tally_ok roomy_tally_room)

text \<open>
  The work that the literal matcher reports for a code point is the number of positions of
  the literal that are alive there, which is what a simulation of the same literal would visit.
\<close>

theorem literal_steps_count_positions:
  assumes "literal_reading m w" and "\<not> l_anchoredStart m" and "l_codePoints m \<noteq> []"
  shows "literalSteps m = card {k. k < length (l_codePoints m) \<and> suffix (take k (l_codePoints m)) w}"
  using literal_steps_loose(1) [OF assms] by (simp add: ends_def Collect_conj_eq less_imp_le cong: conj_cong)

lemma literal_steps_count_positions_witness:
  "literalSteps (snd (literalBegin (newLiteralMatcher [97, 97] False False))) =
     card {k. k < length [97 :: nat, 97] \<and> suffix (take k [97, 97]) []}"
proof -
  have "literal_reading (snd (literalBegin (newLiteralMatcher [97, 97] False False))) []"
    using literal_begin [OF literal_new_ready, of "[97, 97]" False False]
    by (auto simp: literalBegin_def newLiteralMatcher_def Let_def)
  from literal_steps_count_positions [OF this] show ?thesis
    by (simp add: literalBegin_def newLiteralMatcher_def Let_def)
qed

section \<open>The budget\<close>

text \<open>
  C24: batching the units of a search changes nothing: from a tally within its cap, a sequence
  of additions goes through exactly if the units fit in the cap together.
\<close>

theorem budget_is_exact:
  assumes "tally_ok t"
  shows "(\<exists>t'. addAll units t = Inr t') \<longleftrightarrow> spent t + sum_list units \<le> tally_cap t"
  by (rule addAll_exact [OF assms])

lemma budget_is_exact_witness:
  "(\<exists>t'. addAll [60, 40] roomy_tally = Inr t') \<longleftrightarrow> spent roomy_tally + sum_list [60, 40] \<le> tally_cap roomy_tally"
  by (rule budget_is_exact [OF roomy_tally_ok])

section \<open>Texts and keys\<close>

text \<open>
  Reading a string code point by code point loses nothing: writing the code points back
  gives the string again, lone surrogates included.
\<close>

theorem code_points_round_trip:
  assumes "units_ok us"
  shows "concat (map fromCodePoint (appendTextCodePoints us False h [])) = us"
  using encode_code_points [OF assms] by (simp add: appendTextCodePoints_plain encode_def)

lemma code_points_round_trip_witness:
  "concat (map fromCodePoint (appendTextCodePoints [0xd83d, 0xde00, 0xdc00, 97] False ascii_host [])) =
     [0xd83d, 0xde00, 0xdc00, 97]"
  by (rule code_points_round_trip) (simp add: units_ok_def)

text \<open>
  The key of a run gives its three code points back, so the index never mixes up two runs.
\<close>

theorem run_key_round_trip:
  assumes "unpaired [a, b, c]"
  shows "runKeyCodePoints (runKey a b c) = [a, b, c]"
  by (rule runKey_round [OF assms])

lemma run_key_round_trip_witness:
  "runKeyCodePoints (runKey 97 0x1f600 0xd800) = [97, 0x1f600, 0xd800]"
  by (rule run_key_round_trip) (simp add: is_high_def is_low_def)

section \<open>Sets of code points and of documents\<close>

text \<open>
  Merging the ranges of a set and searching them by bisection decides exactly membership
  in one of the ranges, in whatever order and overlap they were written.
\<close>

theorem merged_ranges_decide_membership:
  assumes "bounds_ok bounds"
  shows "inRanges (mergedRanges bounds) c \<longleftrightarrow> (\<exists>(low, high) \<in> set (pairsOf bounds). low \<le> c \<and> c \<le> high)"
  using inRanges_merged [OF assms] by (simp add: covers_def)

lemma merged_ranges_decide_membership_witness:
  "inRanges (mergedRanges [50, 60, 10, 20, 21, 30]) 25 \<longleftrightarrow>
     (\<exists>(low, high) \<in> set (pairsOf [50, 60, 10, 20, 21, 30]). low \<le> 25 \<and> 25 \<le> high)"
  by (rule merged_ranges_decide_membership) (simp add: bounds_ok_def)

text \<open>
  Listing a set of documents gives its members in ascending order, each once.
\<close>

theorem bitset_listing_exact:
  assumes "length bs \<le> 2 ^ 27"
  shows "sorted_wrt (<) (bitsetIterator bs) \<and> set (bitsetIterator bs) = members bs"
  using bitsetIterator_sorted set_bitsetIterator [OF assms] by blast

lemma bitset_listing_exact_witness:
  "sorted_wrt (<) (bitsetIterator [5, 0, 1]) \<and> set (bitsetIterator [5, 0, 1]) = members [5, 0, 1]"
  by (rule bitset_listing_exact) simp

text \<open>
  The complement of a set of documents holds exactly the documents below the capacity
  that the set does not hold; the bits beyond the capacity stay clear.
\<close>

theorem bitset_complement_exact:
  assumes "capacity < 2 ^ 32" and "i < 2 ^ 32"
  shows "bitsetHas (bitsetNot bs capacity) i \<longleftrightarrow> shift5 i < length bs \<and> i < capacity \<and> \<not> bitsetHas bs i"
  by (rule has_not [OF assms])

lemma bitset_complement_exact_witness:
  "bitsetHas (bitsetNot [5] 3) 1 \<longleftrightarrow> shift5 1 < length [5 :: u32] \<and> (1::nat) < 3 \<and> \<not> bitsetHas [5] 1"
  by (rule bitset_complement_exact) simp_all

end
