(* ===== verification/Required_Runs.thy ===== *)
theory Required_Runs
  imports Pattern_Program Pattern_Text "HOL-Library.Sublist"
begin

text \<open>
  \<open>pattern/expression/required-runs.ts\<close>: runs of three folded code points that every value a
  pattern matches must hold. They are taken from the factors of the pattern, the stretches of
  literals between parts that may match anything; at most sixteen are spread over the factors. The
  theorem \<open>requiredRuns_sound\<close> states that no matching value lacks them.
\<close>

definition SHORTLIST_RUN_LOOKUPS :: nat where "SHORTLIST_RUN_LOOKUPS = 16"

datatype run_query = All_Runs "nat list" | Any_Runs "nat list list"

definition NO_RUNS :: "nat list" where "NO_RUNS = []"

section \<open>Collecting factors\<close>

record factor_collector =
  factors :: "code_point list list"
  currentFactor :: "code_point list"

definition newCollector :: factor_collector where
  "newCollector = \<lparr>factors = [], currentFactor = []\<rparr>"

definition flushFactor :: "factor_collector \<Rightarrow> factor_collector" where
  "flushFactor s =
     \<lparr>factors = (if PATTERN_RUN_CODE_POINTS \<le> length (currentFactor s) then factors s @ [currentFactor s] else factors s),
      currentFactor = []\<rparr>"

fun visitNode :: "host \<Rightarrow> factor_collector \<Rightarrow> pattern_node \<Rightarrow> factor_collector" where
  "visitNode h s (Literal c) = s\<lparr>currentFactor := appendFoldedCodePoint h c (currentFactor s)\<rparr>"
| "visitNode h s (Assert_Node m) = s"
| "visitNode h s (Sequence items) = foldl (visitNode h) s items"
| "visitNode h s (Repeat body least most) =
     (if least = 1 \<and> most = Some 1 then visitNode h s body
      else let s = flushFactor s
           in if 1 \<le> least then flushFactor (visitNode h s body) else s)"
| "visitNode h s _ = flushFactor s"

section \<open>Spreading runs\<close>

text \<open>\<open>Math.max(0, length - 3 + 1)\<close> in natural numbers.\<close>

definition runsIn :: "code_point list \<Rightarrow> nat" where
  "runsIn factor = length factor + 1 - PATTERN_RUN_CODE_POINTS"

text \<open>
  \<open>Math.round\<close> of the quotient: the numerators are far below \<open>2^53\<close>, so the rounded quotient of the
  code falls on the same side of every half.
\<close>

definition pickTarget :: "nat \<Rightarrow> nat \<Rightarrow> nat \<Rightarrow> nat" where
  "pickTarget runTotal picks pick =
     (if picks = 1 then 0 else (2 * (pick * (runTotal - 1)) + (picks - 1)) div (2 * (picks - 1)))"

text \<open>The inner loop: on to the factor that holds the target. The targets stay below the runTotal.\<close>

function advanceFactor :: "code_point list list \<Rightarrow> nat \<Rightarrow> nat \<times> nat \<Rightarrow> nat \<times> nat" where
  "advanceFactor fs target (factorAt, factorStart) =
     (if factorAt < length fs \<and> factorStart + runsIn (fs ! factorAt) \<le> target
      then advanceFactor fs target (factorAt + 1, factorStart + runsIn (fs ! factorAt))
      else (factorAt, factorStart))"
  by pat_completeness auto
termination
  by (relation "measure (\<lambda>(fs, target, factorAt, factorStart). length fs - factorAt)") auto

declare advanceFactor.simps [simp del]

record spread_state =
  seenKeys :: "code_units set"
  spread :: "nat list"
  place :: "nat \<times> nat"

definition spreadPick :: "code_point list list \<Rightarrow> nat \<Rightarrow> nat \<Rightarrow> nat \<Rightarrow> spread_state \<Rightarrow> spread_state" where
  "spreadPick fs runTotal picks pick s =
     (let target = pickTarget runTotal picks pick;
          (factorAt, factorStart) = advanceFactor fs target (place s);
          factor = fs ! factorAt;
          at = target - factorStart;
          key = runKey (factor ! at) (factor ! (at + 1)) (factor ! (at + 2));
          s = s\<lparr>place := (factorAt, factorStart)\<rparr>
      in if key \<in> seenKeys s then s
         else s\<lparr>seenKeys := insert key (seenKeys s),
                spread := spread s @ [factor ! at, factor ! (at + 1), factor ! (at + 2)]\<rparr>)"

definition spreadRuns :: "code_point list list \<Rightarrow> nat list" where
  "spreadRuns fs =
     (let runTotal = sum_list (map runsIn fs)
      in if runTotal = 0 then NO_RUNS
         else let picks = min runTotal SHORTLIST_RUN_LOOKUPS
              in spread (fold (spreadPick fs runTotal picks) [0..<picks] \<lparr>seenKeys = {}, spread = [], place = (0, 0)\<rparr>))"

definition branchRuns :: "pattern_node \<Rightarrow> host \<Rightarrow> nat list" where
  "branchRuns node h = spreadRuns (factors (flushFactor (visitNode h newCollector node)))"

definition requiredRuns :: "pattern_node \<Rightarrow> host \<Rightarrow> run_query" where
  "requiredRuns node h =
     (case node of
        Choice nodes \<Rightarrow>
          let branches = map (\<lambda>branch. branchRuns branch h) nodes
          in if list_ex (\<lambda>runs. length runs = 0) branches then All_Runs NO_RUNS else Any_Runs branches
      | _ \<Rightarrow> All_Runs (branchRuns node h))"

section \<open>Runs come from factors\<close>

fun triplesOf :: "nat list \<Rightarrow> (nat \<times> nat \<times> nat) list" where
  "triplesOf (a # b # c # rest) = (a, b, c) # triplesOf rest"
| "triplesOf _ = []"

lemma triplesOf_append: "length xs mod 3 = 0 \<Longrightarrow> triplesOf (xs @ ys) = triplesOf xs @ triplesOf ys"
  by (induction xs rule: triplesOf.induct) auto

definition window_of :: "code_point list \<Rightarrow> nat \<times> nat \<times> nat \<Rightarrow> bool" where
  "window_of cs = (\<lambda>(a, b, c). \<exists>at. at + 3 \<le> length cs \<and> cs ! at = a \<and> cs ! (at + 1) = b \<and> cs ! (at + 2) = c)"

definition runs_before :: "code_point list list \<Rightarrow> nat \<Rightarrow> nat" where
  "runs_before fs i = sum_list (map runsIn (take i fs))"

lemma runs_before_Suc: "i < length fs \<Longrightarrow> runs_before fs (Suc i) = runs_before fs i + runsIn (fs ! i)"
  by (simp add: runs_before_def take_Suc_conv_app_nth)

lemma advanceFactor_found:
  assumes "i \<le> length fs" and "runs_before fs i \<le> target" and "target < sum_list (map runsIn fs)"
    and "advanceFactor fs target (i, runs_before fs i) = (j, start)"
  shows "j < length fs \<and> start = runs_before fs j \<and> start \<le> target \<and> target < start + runsIn (fs ! j)"
  using assms
proof (induction "length fs - i" arbitrary: i)
  case 0
  then have "runs_before fs i = sum_list (map runsIn fs)"
    by (simp add: runs_before_def)
  with 0 show ?case by simp
next
  case (Suc n)
  then have i: "i < length fs"
    by simp
  show ?case
  proof (cases "runs_before fs i + runsIn (fs ! i) \<le> target")
    case True
    then have "advanceFactor fs target (i, runs_before fs i) = advanceFactor fs target (Suc i, runs_before fs (Suc i))"
      using i by (subst advanceFactor.simps) (simp add: runs_before_Suc)
    moreover have "n = length fs - Suc i" "Suc i \<le> length fs" "runs_before fs (Suc i) \<le> target"
      using Suc(2) i True by (simp_all add: runs_before_Suc)
    ultimately show ?thesis
      using Suc(1) [of "Suc i"] Suc(5,6) by simp
  next
    case False
    then have "advanceFactor fs target (i, runs_before fs i) = (i, runs_before fs i)"
      by (subst advanceFactor.simps) simp
    with Suc(6) have "i = j" "runs_before fs i = start"
      by auto
    with Suc(4) False i show ?thesis by auto
  qed
qed

lemma pickTarget_less: "0 < runTotal \<Longrightarrow> picks \<le> runTotal \<Longrightarrow> pick < picks \<Longrightarrow> pickTarget runTotal picks pick < runTotal"
proof (cases "picks = 1")
  case False
  assume *: "0 < runTotal" "picks \<le> runTotal" "pick < picks"
  with False have p: "0 < picks - 1" "pick \<le> picks - 1"
    by auto
  have "2 * (pick * (runTotal - 1)) + (picks - 1) \<le> 2 * ((picks - 1) * (runTotal - 1)) + (picks - 1)"
    using p(2) by simp
  also have "\<dots> < 2 * ((picks - 1) * (runTotal - 1)) + 2 * (picks - 1)"
    using p(1) by simp
  also have "\<dots> = 2 * (picks - 1) * runTotal"
    using * by (cases runTotal) (simp_all add: algebra_simps)
  finally have "2 * (pick * (runTotal - 1)) + (picks - 1) < runTotal * (2 * (picks - 1))"
    by (simp add: mult.commute)
  then show ?thesis
    using p(1) False by (simp add: pickTarget_def less_mult_imp_div_less)
qed (simp add: pickTarget_def)

lemma pickTarget_mono: "pick \<le> pick' \<Longrightarrow> pickTarget runTotal picks pick \<le> pickTarget runTotal picks pick'"
  by (auto simp: pickTarget_def intro!: div_le_mono mult_le_mono1)

definition spread_ok :: "code_point list list \<Rightarrow> nat \<Rightarrow> spread_state \<Rightarrow> bool" where
  "spread_ok fs target s \<longleftrightarrow>
     length (spread s) mod 3 = 0 \<and> (\<forall>run \<in> set (triplesOf (spread s)). \<exists>f \<in> set fs. window_of f run) \<and>
     fst (place s) \<le> length fs \<and> snd (place s) = runs_before fs (fst (place s)) \<and> snd (place s) \<le> target"

lemma spreadPick_ok:
  assumes "spread_ok fs target s" and "target \<le> pickTarget runTotal picks pick"
    and "pickTarget runTotal picks pick < runTotal" and "runTotal = sum_list (map runsIn fs)"
  shows "spread_ok fs (pickTarget runTotal picks pick) (spreadPick fs runTotal picks pick s)"
proof -
  let ?t = "pickTarget runTotal picks pick"
  obtain i start where place: "place s = (i, start)"
    by (cases "place s")
  obtain j start' where adv: "advanceFactor fs ?t (i, start) = (j, start')"
    by (cases "advanceFactor fs ?t (i, start)")
  have i: "i \<le> length fs" "start = runs_before fs i" "start \<le> ?t"
    using assms(1,2) place by (auto simp: spread_ok_def)
  from advanceFactor_found [OF i(1) _ _ adv [unfolded i(2)]] i(2,3) assms(3,4)
  have j: "j < length fs" "start' = runs_before fs j" "start' \<le> ?t" "?t < start' + runsIn (fs ! j)"
    by simp_all
  let ?at = "?t - start'" and ?f = "fs ! j"
  have "?at + 3 \<le> length ?f"
    using j(3,4) by (simp add: runsIn_def PATTERN_RUN_CODE_POINTS_def)
  then have "window_of ?f (?f ! ?at, ?f ! (?at + 1), ?f ! (?at + 2))"
    unfolding window_of_def by blast
  with j(1) have "\<exists>f \<in> set fs. window_of f (?f ! ?at, ?f ! (?at + 1), ?f ! (?at + 2))"
    by (meson nth_mem)
  moreover have "spreadPick fs runTotal picks pick s \<in> {s\<lparr>place := (j, start')\<rparr>,
      s\<lparr>place := (j, start'), seenKeys := insert (runKey (?f ! ?at) (?f ! (?at + 1)) (?f ! (?at + 2))) (seenKeys s),
        spread := spread s @ [?f ! ?at, ?f ! (?at + 1), ?f ! (?at + 2)]\<rparr>}"
    by (auto simp: spreadPick_def place adv Let_def)
  ultimately show ?thesis
    using assms(1) j(1-3) by (auto simp: spread_ok_def triplesOf_append)
qed

lemma spreadRuns_windows:
  "run \<in> set (triplesOf (spreadRuns fs)) \<Longrightarrow> \<exists>f \<in> set fs. window_of f run"
  "length (spreadRuns fs) mod 3 = 0"
proof -
  define runTotal where "runTotal = sum_list (map runsIn fs)"
  define picks where "picks = min runTotal SHORTLIST_RUN_LOOKUPS"
  let ?start = "\<lparr>seenKeys = {}, spread = [], place = (0, 0)\<rparr>"
  have "\<exists>t. (n = 0 \<and> t = 0 \<or> 0 < n \<and> t = pickTarget runTotal picks (n - 1)) \<and>
      spread_ok fs t (fold (spreadPick fs runTotal picks) [0..<n] ?start)" if "n \<le> picks" "0 < runTotal" for n
    using that(1)
  proof (induction n)
    case 0
    then show ?case by (simp add: spread_ok_def runs_before_def)
  next
    case (Suc n)
    then obtain t where t: "n = 0 \<and> t = 0 \<or> 0 < n \<and> t = pickTarget runTotal picks (n - 1)"
      and ok: "spread_ok fs t (fold (spreadPick fs runTotal picks) [0..<n] ?start)"
      by auto
    have "t \<le> pickTarget runTotal picks n"
      using t pickTarget_mono [of "n - 1" n runTotal picks] by auto
    moreover have "pickTarget runTotal picks n < runTotal"
      using Suc.prems \<open>0 < runTotal\<close> by (intro pickTarget_less) (simp_all add: picks_def)
    ultimately show ?case
      using spreadPick_ok [OF ok _ _ runTotal_def] by simp
  qed
  from this [of picks] have "0 < runTotal \<Longrightarrow> length (spreadRuns fs) mod 3 = 0 \<and>
      (\<forall>run \<in> set (triplesOf (spreadRuns fs)). \<exists>f \<in> set fs. window_of f run)"
    by (auto simp: spreadRuns_def Let_def spread_ok_def simp flip: runTotal_def picks_def)
  then show "run \<in> set (triplesOf (spreadRuns fs)) \<Longrightarrow> \<exists>f \<in> set fs. window_of f run"
    "length (spreadRuns fs) mod 3 = 0"
    by (cases "0 < runTotal"; auto simp: spreadRuns_def NO_RUNS_def runTotal_def)+
qed

section \<open>Every match holds the factors\<close>

text \<open>Spans that stay within a value.\<close>

definition within_value :: "code_point list \<Rightarrow> spans \<Rightarrow> bool" where
  "within_value v R \<longleftrightarrow> (\<forall>(i, j) \<in> R. i \<le> length v \<longrightarrow> j \<le> length v)"

lemma within_valueD: "within_value v R \<Longrightarrow> (i, j) \<in> R \<Longrightarrow> i \<le> length v \<Longrightarrow> j \<le> length v"
  by (auto simp: within_value_def)

lemma within_basic:
  "within_value v Id" "within_value v (char_span v Q)" "within_value v (assert_span v m)"
  "within_value v R \<Longrightarrow> within_value v S \<Longrightarrow> within_value v (R O S)"
  "(\<And>x. x \<in> A \<Longrightarrow> within_value v (f x)) \<Longrightarrow> within_value v (\<Union>x \<in> A. f x)"
  "within_value v R \<Longrightarrow> within_value v S \<Longrightarrow> within_value v (R \<union> S)"
  by (auto simp: within_value_def char_span_def assert_span_def)

lemma within_relpow: "within_value v R \<Longrightarrow> within_value v (R ^^ n)"
  by (induction n) (auto intro: within_basic)

lemma within_word: "within_value v (word_span v ws)"
  by (induction ws) (auto simp: span_simps intro: within_basic)

lemma within_seq: "(\<And>R. R \<in> set Rs \<Longrightarrow> within_value v R) \<Longrightarrow> within_value v (seq_span Rs)"
  by (induction Rs) (auto simp: span_simps intro: within_basic)

lemma within_node: "within_value v (node_span h caseFold v node)"
proof (induction node)
  case (Set_Node negated items)
  then show ?case
    by (auto simp: set_span_def intro!: within_basic within_word)
next
  case (Repeat body least most)
  then show ?case
    by (auto simp: repeat_span_def intro!: within_basic within_relpow)
qed (auto intro!: within_basic within_word within_seq)

context folding_host
begin

text \<open>
  \<open>folded_upto caseFold v j\<close>: the folded text of the first \<open>j\<close> code points of the value that is matched.
  Under \<open>caseFold\<close> the value is folded already.
\<close>

definition folded_upto :: "bool \<Rightarrow> code_point list \<Rightarrow> nat \<Rightarrow> code_point list" where
  "folded_upto caseFold v j = (if caseFold then take j v else fold_text h (take j v))"

definition holds_upto :: "bool \<Rightarrow> code_point list \<Rightarrow> nat \<Rightarrow> factor_collector \<Rightarrow> bool" where
  "holds_upto caseFold v j s \<longleftrightarrow>
     (\<forall>f \<in> set (factors s). sublist f (folded_upto caseFold v (length v))) \<and>
     suffix (currentFactor s) (folded_upto caseFold v j)"

lemma folded_upto_prefix: "prefix (folded_upto caseFold v j) (folded_upto caseFold v (length v))"
proof -
  have "fold_text h v = fold_text h (take j v) @ fold_text h (drop j v)"
    by (simp add: fold_text_def flip: concat_append map_append)
  then show ?thesis
    by (auto simp: folded_upto_def intro: take_is_prefix prefixI)
qed

lemma flushFactor_holds: "holds_upto caseFold v j s \<Longrightarrow> holds_upto caseFold v k (flushFactor s)"
proof -
  assume s: "holds_upto caseFold v j s"
  have "sublist (currentFactor s) (folded_upto caseFold v (length v))"
    using s folded_upto_prefix [of caseFold v j] unfolding holds_upto_def
    by (meson prefix_imp_sublist sublist_order.order_trans suffix_imp_sublist)
  with s show ?thesis
    by (auto simp: holds_upto_def flushFactor_def)
qed

lemma literal_holds:
  assumes "(i, j) \<in> node_span h caseFold v (Literal c)" and "i \<le> length v" and "holds_upto caseFold v i s"
  shows "holds_upto caseFold v j (visitNode h s (Literal c))"
proof -
  have "folded_upto caseFold v j = folded_upto caseFold v i @ fold_cp h c"
  proof (cases caseFold)
    case True
    with assms(1) fold_nonempty have "j = i + length (fold_cp h c)" "take (length (fold_cp h c)) (drop i v) = fold_cp h c"
      by (auto simp: word_span_iff)
    with True show ?thesis
      by (simp add: folded_upto_def take_add)
  next
    case False
    with assms(1) have "j = Suc i" "take 1 (drop i v) = [c]"
      by (auto simp: word_span_iff)
    with False show ?thesis
      by (simp add: folded_upto_def fold_text_def take_add [of i 1, simplified])
  qed
  with assms(3) show ?thesis
    by (simp add: holds_upto_def append_fold)
qed

lemma visitNode_holds:
  "(i, j) \<in> node_span h caseFold v node \<Longrightarrow> i \<le> length v \<Longrightarrow> holds_upto caseFold v i s \<Longrightarrow>
     holds_upto caseFold v j (visitNode h s node)"
proof (induction node arbitrary: i j s)
  case (Literal c)
  then show ?case by (rule literal_holds)
next
  case (Assert_Node m)
  then show ?case by (simp add: assert_span_def)
next
  case (Sequence items)
  have "holds_upto caseFold v j (foldl (visitNode h) s items)"
    if "(i, j) \<in> seq_span (map (node_span h caseFold v) items)" "i \<le> length v" "holds_upto caseFold v i s"
      and "\<And>item i j s. item \<in> set items \<Longrightarrow> (i, j) \<in> node_span h caseFold v item \<Longrightarrow> i \<le> length v \<Longrightarrow>
        holds_upto caseFold v i s \<Longrightarrow> holds_upto caseFold v j (visitNode h s item)" for items
    using that
  proof (induction items arbitrary: i s)
    case (Cons item items)
    then obtain k where k: "(i, k) \<in> node_span h caseFold v item" "(k, j) \<in> seq_span (map (node_span h caseFold v) items)"
      by (auto simp: span_simps)
    have "k \<le> length v"
      by (rule within_valueD [OF within_node k(1) Cons.prems(2)])
    moreover have "holds_upto caseFold v k (visitNode h s item)"
      using Cons.prems(4) [OF _ k(1) Cons.prems(2,3)] by simp
    ultimately show ?case
      using Cons.IH [OF k(2)] Cons.prems(4) by simp
  qed (simp add: span_simps)
  from this [of items] Sequence show ?case by simp
next
  case (Repeat body least most)
  show ?case
  proof (cases "least = 1 \<and> most = Some 1")
    case True
    with Repeat show ?thesis by (simp add: repeat_span_1_1)
  next
    case False
    note flushed = flushFactor_holds [OF Repeat.prems(3)]
    show ?thesis
    proof (cases "1 \<le> least")
      case least: True
      from Repeat.prems(1) obtain n where "least \<le> n" "(i, j) \<in> node_span h caseFold v body ^^ n"
        by (auto simp: repeat_span_def)
      with least obtain m where "(i, j) \<in> node_span h caseFold v body ^^ Suc m"
        by (cases n) auto
      then obtain k where k: "(i, k) \<in> node_span h caseFold v body"
        by (rule relpow_Suc_E2)
      have "visitNode h s (Repeat body least most) = flushFactor (visitNode h (flushFactor s) body)"
        using False least by (auto simp: Let_def)
      with flushFactor_holds [OF Repeat.IH [OF k Repeat.prems(2) flushed]] show ?thesis
        by simp
    next
      case False
      with flushed show ?thesis by simp
    qed
  qed
qed (use flushFactor_holds in auto)

lemma sublist_window: "sublist f cs \<Longrightarrow> window_of f run \<Longrightarrow> window_of cs run"
proof -
  assume f: "sublist f cs" "window_of f run"
  then obtain xs ys at where cs: "cs = xs @ f @ ys" and at: "at + 3 \<le> length f"
    and run: "run = (f ! at, f ! (at + 1), f ! (at + 2))"
    by (cases run) (auto simp: sublist_def window_of_def)
  show ?thesis
    unfolding run window_of_def prod.case
    by (rule exI [of _ "length xs + at"]) (use at in \<open>simp add: cs nth_append\<close>)
qed

lemma branchRuns_sound:
  assumes "(i, j) \<in> node_span h caseFold v node" and "i \<le> length v" and "run \<in> set (triplesOf (branchRuns node h))"
  shows "window_of (folded_upto caseFold v (length v)) run"
proof -
  let ?s = "flushFactor (visitNode h newCollector node)"
  have "holds_upto caseFold v i newCollector"
    by (simp add: holds_upto_def newCollector_def)
  from flushFactor_holds [OF visitNode_holds [OF assms(1,2) this], of j]
  have "\<forall>f \<in> set (factors ?s). sublist f (folded_upto caseFold v (length v))"
    by (simp add: holds_upto_def)
  moreover obtain f where "f \<in> set (factors ?s)" "window_of f run"
    using spreadRuns_windows(1) [of run] assms(3) unfolding branchRuns_def by blast
  ultimately show ?thesis
    using sublist_window by blast
qed

definition needs :: "code_point list \<Rightarrow> run_query \<Rightarrow> bool" where
  "needs cs query \<longleftrightarrow>
     (case query of
        All_Runs runs \<Rightarrow> \<forall>run \<in> set (triplesOf runs). window_of cs run
      | Any_Runs branches \<Rightarrow> \<exists>runs \<in> set branches. \<forall>run \<in> set (triplesOf runs). window_of cs run)"

theorem requiredRuns_sound:
  assumes "span_in v (node_span h caseFold v node)"
  shows "needs (folded_upto caseFold v (length v)) (requiredRuns node h)"
proof -
  obtain i j where span: "(i, j) \<in> node_span h caseFold v node" "i \<le> length v"
    using assms by (auto simp: span_in_def)
  show ?thesis
  proof (cases "\<exists>branches. node = Choice branches")
    case True
    then obtain branches where node: "node = Choice branches" by blast
    with span obtain b where b: "b \<in> set branches" "(i, j) \<in> node_span h caseFold v b"
      by auto
    from branchRuns_sound [OF b(2) span(2)] b(1)
    have "\<exists>runs \<in> set (map (\<lambda>branch. branchRuns branch h) branches).
        \<forall>run \<in> set (triplesOf runs). window_of (folded_upto caseFold v (length v)) run"
      by (intro bexI [of _ "branchRuns b h"]) auto
    then show ?thesis
      by (simp add: requiredRuns_def node needs_def Let_def NO_RUNS_def)
  next
    case False
    then have "requiredRuns node h = All_Runs (branchRuns node h)"
      by (cases node) (simp_all add: requiredRuns_def)
    with branchRuns_sound [OF span] show ?thesis
      by (simp add: needs_def)
  qed
qed

end

end
