(* ===== verification/Pattern_Shortlist.thy ===== *)
theory Pattern_Shortlist
  imports Required_Runs Pattern_Matcher
begin

text \<open>
  \<open>pattern/shortlist.ts\<close>: the documents that hold the required runs of a pattern, found in an index
  of runs. A list is read through a typed array; here it is a list of ordinals. The interface
  \<open>PatternIndexReader\<close> of \<open>core/pattern-index/types.ts\<close> is the record \<open>index_reader\<close>: a reader may
  tidy up its own state when it is asked, so each question returns the reader as well.
  The locale \<open>run_index\<close> states what the questions promise, and the shortlist never loses a
  document that holds the runs.
\<close>

definition SHORTLIST_INTERSECT_RATIO :: nat where "SHORTLIST_INTERSECT_RATIO = 8"

record 'i index_reader =
  indexDocuments :: "'i \<Rightarrow> nat list \<times> 'i"
  indexPostings :: "code_point \<Rightarrow> code_point \<Rightarrow> code_point \<Rightarrow> 'i \<Rightarrow> nat list \<times> 'i"

section \<open>Intersections and unions of ascending lists\<close>

text \<open>
  The loop of \<open>intersect\<close>, with the unread rest of the second list instead of \<open>read\<close>. The array
  \<open>kept\<close> has room for the shorter list, which is enough for ascending lists.
\<close>

fun intersectFrom :: "nat list \<Rightarrow> nat list \<Rightarrow> nat list \<times> nat list" where
  "intersectFrom [] rest = ([], rest)"
| "intersectFrom (candidate # candidates) rest =
     (case dropWhile (\<lambda>r. r < candidate) rest of
        [] \<Rightarrow> ([], [])
      | r # rest \<Rightarrow>
          let (kept, unread) = intersectFrom candidates (r # rest)
          in (if r = candidate then candidate # kept else kept, unread))"

definition intersect :: "nat list \<Rightarrow> nat list \<Rightarrow> work_tally \<Rightarrow> work_error + (nat list \<times> work_tally)" where
  "intersect candidates list t =
     (let (kept, unread) = intersectFrom candidates list;
          read = length list - length unread
      in case tallyAdd (min (length list) (read + 1)) t of Inl e \<Rightarrow> Inl e | Inr t \<Rightarrow> Inr (kept, t))"

function unionFrom :: "nat list \<Rightarrow> nat list \<Rightarrow> nat list" where
  "unionFrom (l # left) (r # right) =
     (let smaller = min l r
      in smaller # unionFrom (if l = smaller then left else l # left) (if r = smaller then right else r # right))"
| "unionFrom [] right = right"
| "unionFrom (l # left) [] = l # left"
  by pat_completeness auto
termination
  by (relation "measure (\<lambda>(left, right). length left + length right)") (auto simp: min_def)

definition unionLists :: "nat list \<Rightarrow> nat list \<Rightarrow> nat list" where
  "unionLists left right = (if length left = 0 then right else if length right = 0 then left else unionFrom left right)"

section \<open>The shortlist\<close>

fun readPostings :: "'i index_reader \<Rightarrow> (nat \<times> nat \<times> nat) list \<Rightarrow> 'i \<Rightarrow> work_tally
    \<Rightarrow> work_error + (nat list list \<times> 'i \<times> work_tally)" where
  "readPostings ops [] index t = Inr ([], index, t)"
| "readPostings ops ((first, second, third) # runs) index t =
     (case tallyAdd 1 t of
        Inl e \<Rightarrow> Inl e
      | Inr t \<Rightarrow>
          let (list, index) = indexPostings ops first second third index
          in (case readPostings ops runs index t of
                Inl e \<Rightarrow> Inl e
              | Inr (asked, index, t) \<Rightarrow> Inr (list # asked, index, t)))"

fun narrow :: "nat list \<Rightarrow> nat list list \<Rightarrow> work_tally \<Rightarrow> work_error + (nat list \<times> work_tally)" where
  "narrow candidates [] t = Inr (candidates, t)"
| "narrow candidates (list # asked) t =
     (if \<not> 0 < length candidates then Inr (candidates, t)
      else if length candidates * SHORTLIST_INTERSECT_RATIO < length list then Inr (candidates, t)
      else case intersect candidates list t of
             Inl e \<Rightarrow> Inl e
           | Inr (candidates, t) \<Rightarrow> narrow candidates asked t)"

text \<open>\<open>lists[0]\<close> exists: \<open>shortlist\<close> asks for no branch without runs.\<close>

definition shortlistAll :: "'i index_reader \<Rightarrow> nat list \<Rightarrow> 'i \<Rightarrow> work_tally \<Rightarrow> work_error + (nat list \<times> 'i \<times> work_tally)" where
  "shortlistAll ops runs index t =
     (case readPostings ops (triplesOf runs) index t of
        Inl e \<Rightarrow> Inl e
      | Inr (asked, index, t) \<Rightarrow>
          let asked = sort_key length asked; candidates = hd asked
          in (case tallyAdd (length candidates) t of
                Inl e \<Rightarrow> Inl e
              | Inr t \<Rightarrow>
                  (case narrow candidates (tl asked) t of
                     Inl e \<Rightarrow> Inl e
                   | Inr (candidates, t) \<Rightarrow> Inr (candidates, index, t))))"

fun shortlistAny :: "'i index_reader \<Rightarrow> nat list list \<Rightarrow> nat list \<Rightarrow> 'i \<Rightarrow> work_tally
    \<Rightarrow> work_error + (nat list \<times> 'i \<times> work_tally)" where
  "shortlistAny ops [] candidates index t = Inr (candidates, index, t)"
| "shortlistAny ops (runs # branches) candidates index t =
     (case shortlistAll ops runs index t of
        Inl e \<Rightarrow> Inl e
      | Inr (found, index, t) \<Rightarrow> shortlistAny ops branches (unionLists candidates found) index t)"

definition shortlist :: "'i index_reader \<Rightarrow> run_query \<Rightarrow> 'i \<Rightarrow> work_tally
    \<Rightarrow> work_error + (nat list option \<times> 'i \<times> work_tally)" where
  "shortlist ops query index t =
     (case query of
        All_Runs runs \<Rightarrow>
          if length runs = 0 then Inr (None, index, t)
          else (case shortlistAll ops runs index t of
                  Inl e \<Rightarrow> Inl e
                | Inr (candidates, index, t) \<Rightarrow> Inr (Some candidates, index, t))
      | Any_Runs branches \<Rightarrow>
          (case shortlistAny ops branches [] index t of
             Inl e \<Rightarrow> Inl e
           | Inr (candidates, index, t) \<Rightarrow> Inr (Some candidates, index, t)))"

section \<open>The lists\<close>

lemma intersectFrom_set:
  assumes "sorted candidates" and "sorted list"
  shows "set (fst (intersectFrom candidates list)) = set candidates \<inter> set list"
  using assms
proof (induction candidates arbitrary: list)
  case (Cons c cs)
  have split: "set list = {x \<in> set (takeWhile (\<lambda>r. r < c) list). x < c} \<union> set (dropWhile (\<lambda>r. r < c) list)"
  proof -
    have "set list = set (takeWhile (\<lambda>r. r < c) list) \<union> set (dropWhile (\<lambda>r. r < c) list)"
      by (metis set_append takeWhile_dropWhile_id)
    moreover have "x < c" if "x \<in> set (takeWhile (\<lambda>r. r < c) list)" for x
      using that by (rule set_takeWhileD [THEN conjunct2])
    ultimately show ?thesis by auto
  qed
  show ?case
  proof (cases "dropWhile (\<lambda>r. r < c) list")
    case Nil
    with split Cons.prems(1) show ?thesis
      unfolding intersectFrom.simps Nil by auto
  next
    case (Cons r rest)
    have "sorted (r # rest)"
      using Cons.prems(2) Cons sorted_dropWhile [of list] by metis
    with Cons.IH [of "r # rest"] Cons.prems(1) have IH: "set (fst (intersectFrom cs (r # rest))) = set cs \<inter> set (r # rest)"
      by simp
    have "c \<le> r"
      using hd_dropWhile [of "\<lambda>r. r < c" list] Cons by auto
    with \<open>sorted (r # rest)\<close> have "c \<in> set (r # rest) \<longleftrightarrow> r = c"
      by auto
    moreover have "set cs \<inter> set list = set cs \<inter> set (r # rest)"
      using split Cons Cons.prems(1) by auto
    moreover have "c \<in> set list \<longleftrightarrow> c \<in> set (r # rest)"
      using split Cons by auto
    ultimately show ?thesis
      using IH Cons by (auto simp: Let_def case_prod_beta)
  qed
qed simp

lemma sorted_intersectFrom: "sorted_wrt (<) candidates \<Longrightarrow> sorted_wrt (<) (fst (intersectFrom candidates list))"
proof (induction candidates list rule: intersectFrom.induct)
  case (2 c cs rest)
  have "set (fst (intersectFrom cs xs)) \<subseteq> set cs" for xs
    by (induction cs xs rule: intersectFrom.induct) (auto simp: Let_def case_prod_beta split: list.splits)
  then have "x \<in> set cs" if "x \<in> set (fst (intersectFrom cs xs))" for x xs
    using that by blast
  with 2 show ?case
    by (auto simp: Let_def case_prod_beta split: list.splits)
qed simp

lemma unionFrom_set: "set (unionFrom left right) = set left \<union> set right"
  by (induction left right rule: unionFrom.induct) (auto simp: Let_def min_def split: if_splits)

lemma unionLists_set: "set (unionLists left right) = set left \<union> set right"
  by (simp add: unionLists_def unionFrom_set)

lemma unionFrom_sorted: "sorted_wrt (<) left \<Longrightarrow> sorted_wrt (<) right \<Longrightarrow> sorted_wrt (<) (unionFrom left right)"
proof (induction left right rule: unionFrom.induct)
  case (1 l left r right)
  from 1(1) [OF refl] 1(2,3)
  have "sorted_wrt (<) (unionFrom (if l = min l r then left else l # left) (if r = min l r then right else r # right))"
    by auto
  moreover have "min l r < x" if "x \<in> set (unionFrom (if l = min l r then left else l # left) (if r = min l r then right else r # right))" for x
    using that 1(2,3) by (auto simp: unionFrom_set min_def split: if_splits)
  ultimately show ?case
    by (simp add: Let_def)
qed simp_all

lemma unionLists_sorted: "sorted_wrt (<) left \<Longrightarrow> sorted_wrt (<) right \<Longrightarrow> sorted_wrt (<) (unionLists left right)"
  by (simp add: unionLists_def unionFrom_sorted)

section \<open>The interface\<close>

text \<open>Only runs of code points are asked for, and no branch is without runs.\<close>

definition is_run :: "nat \<times> nat \<times> nat \<Rightarrow> bool" where
  "is_run = (\<lambda>(a, b, c). a \<le> 0x10ffff \<and> b \<le> 0x10ffff \<and> c \<le> 0x10ffff)"

definition askable :: "nat list \<Rightarrow> bool" where
  "askable runs \<longleftrightarrow> triplesOf runs \<noteq> [] \<and> (\<forall>run \<in> set (triplesOf runs). is_run run)"

definition holds_runs :: "code_units set \<Rightarrow> nat list \<Rightarrow> bool" where
  "holds_runs ks runs \<longleftrightarrow> (\<forall>(a, b, c) \<in> set (triplesOf runs). runKey a b c \<in> ks)"

definition holders :: "(nat \<rightharpoonup> code_units set) \<Rightarrow> nat \<times> nat \<times> nat \<Rightarrow> nat set" where
  "holders keys = (\<lambda>(a, b, c). {d. \<exists>ks. keys d = Some ks \<and> runKey a b c \<in> ks})"

definition same_budget :: "work_tally \<Rightarrow> work_tally \<Rightarrow> bool" where
  "same_budget t t' \<longleftrightarrow> tally_ok t' \<and> tally_cap t' = tally_cap t"

lemma same_budget_add: "tally_ok t \<Longrightarrow> tallyAdd n t = Inr t' \<Longrightarrow> same_budget t t'"
  using tallyAdd_Inr [of t n t'] by (simp add: same_budget_def)

lemma same_budget_trans: "same_budget t t' \<Longrightarrow> same_budget t' t'' \<Longrightarrow> same_budget t t''"
  by (simp add: same_budget_def)

lemma same_budget_ok: "same_budget t t' \<Longrightarrow> tally_ok t'"
  by (simp add: same_budget_def)

lemma list_all2_in_left:
  assumes "list_all2 P xs ys" and "x \<in> set xs"
  shows "\<exists>y \<in> set ys. P x y"
  using assms by (induction xs ys rule: list_all2_induct) auto

definition query_ok :: "run_query \<Rightarrow> bool" where
  "query_ok query \<longleftrightarrow>
     (case query of
        All_Runs runs \<Rightarrow> runs = [] \<or> askable runs
      | Any_Runs branches \<Rightarrow> list_all askable branches)"

definition holds_query :: "code_units set \<Rightarrow> run_query \<Rightarrow> bool" where
  "holds_query ks query \<longleftrightarrow>
     (case query of
        All_Runs runs \<Rightarrow> holds_runs ks runs
      | Any_Runs branches \<Rightarrow> list_ex (holds_runs ks) branches)"

text \<open>What a shortlist costs at most among \<open>n\<close> documents.\<close>

definition all_work :: "nat \<Rightarrow> nat list \<Rightarrow> nat" where
  "all_work n runs = length (triplesOf runs) * (n + 1)"

definition query_work :: "nat \<Rightarrow> run_query \<Rightarrow> nat" where
  "query_work n query =
     (case query of All_Runs runs \<Rightarrow> all_work n runs | Any_Runs branches \<Rightarrow> sum_list (map (all_work n) branches))"

text \<open>\<open>represents index keys\<close>: the index holds the documents of \<open>keys\<close>, each with the keys of its runs.\<close>

locale run_index =
  fixes ops :: "'i index_reader"
    and represents :: "'i \<Rightarrow> (nat \<rightharpoonup> code_units set) \<Rightarrow> bool"
  assumes documents_law: "represents index keys \<Longrightarrow> indexDocuments ops index = (list, index') \<Longrightarrow>
      represents index' keys \<and> sorted_wrt (<) list \<and> set list = dom keys"
    and postings_law: "represents index keys \<Longrightarrow> is_run (a, b, c) \<Longrightarrow> indexPostings ops a b c index = (list, index') \<Longrightarrow>
      represents index' keys \<and> sorted_wrt (<) list \<and> set list = {d. \<exists>ks. keys d = Some ks \<and> runKey a b c \<in> ks}"
begin

lemma readPostings_lists:
  assumes "represents index keys" and "tally_ok t" and "\<forall>run \<in> set runs. is_run run"
    and "readPostings ops runs index t = Inr (found, index', t')"
  shows "represents index' keys \<and> same_budget t t' \<and> list_all2 (\<lambda>list run. sorted_wrt (<) list \<and> set list = holders keys run) found runs"
  using assms
proof (induction runs arbitrary: index t found)
  case Nil
  then show ?case by (auto simp: same_budget_def)
next
  case (Cons run runs)
  obtain a b c where run: "run = (a, b, c)"
    by (cases run)
  from Cons.prems(4) obtain t1 where t1: "tallyAdd 1 t = Inr t1"
    by (auto simp: run split: sum.splits)
  obtain list index1 where list: "indexPostings ops a b c index = (list, index1)"
    by (cases "indexPostings ops a b c index")
  have "is_run (a, b, c)" "\<forall>run \<in> set runs. is_run run"
    using Cons.prems(3) by (simp_all add: run)
  note law = postings_law [OF Cons.prems(1) this(1) list]
  from Cons.prems(4) t1 list obtain found1 where rest: "readPostings ops runs index1 t1 = Inr (found1, index', t')"
    and found: "found = list # found1"
    by (auto simp: run Let_def split: sum.splits)
  have "tally_ok t1"
    using same_budget_add [OF Cons.prems(2) t1] by (rule same_budget_ok)
  from Cons.IH [OF conjunct1 [OF law] this \<open>\<forall>run \<in> set runs. is_run run\<close> rest] law same_budget_add [OF Cons.prems(2) t1] show ?case
    by (auto simp: found run holders_def intro: same_budget_trans)
qed

lemma narrow_set:
  assumes "tally_ok t" and "sorted_wrt (<) candidates" and "\<forall>list \<in> set found. sorted list"
    and "narrow candidates found t = Inr (kept, t')"
  shows "same_budget t t' \<and> sorted_wrt (<) kept \<and> set kept \<subseteq> set candidates \<and> set candidates \<inter> (\<Inter>list \<in> set found. set list) \<subseteq> set kept"
  using assms
proof (induction found arbitrary: candidates t)
  case Nil
  then show ?case by (auto simp: same_budget_def)
next
  case (Cons list found)
  show ?case
  proof (cases "0 < length candidates \<and> \<not> length candidates * SHORTLIST_INTERSECT_RATIO < length list")
    case False
    with Cons.prems show ?thesis
      by (auto simp: same_budget_def split: if_splits)
  next
    case True
    with Cons.prems(4) obtain inner t1 where i: "intersect candidates list t = Inr (inner, t1)"
      and rest: "narrow inner found t1 = Inr (kept, t')"
      by (auto split: sum.splits)
    from i obtain units where "tallyAdd units t = Inr t1" and inner: "inner = fst (intersectFrom candidates list)"
      by (auto simp: intersect_def Let_def case_prod_beta split: sum.splits)
    then have b: "same_budget t t1"
      using same_budget_add Cons.prems(1) by blast
    have "sorted_wrt (<) inner" "set inner = set candidates \<inter> set list"
      using sorted_intersectFrom [OF Cons.prems(2)] intersectFrom_set [OF strict_sorted_imp_sorted [OF Cons.prems(2)], of list]
        Cons.prems(3) by (simp_all add: inner)
    with Cons.IH [OF same_budget_ok [OF b] _ _ rest] Cons.prems(3) b show ?thesis
      by (auto intro: same_budget_trans)
  qed
qed

lemma shortlistAll_sound:
  assumes "represents index keys" and "tally_ok t" and "askable runs"
    and "shortlistAll ops runs index t = Inr (candidates, index', t')"
  shows "represents index' keys \<and> same_budget t t' \<and> sorted_wrt (<) candidates \<and>
    set candidates \<subseteq> dom keys \<and> (\<forall>d ks. keys d = Some ks \<longrightarrow> holds_runs ks runs \<longrightarrow> d \<in> set candidates)"
proof -
  from assms(4) obtain found t1 where r: "readPostings ops (triplesOf runs) index t = Inr (found, index', t1)"
    by (auto simp: shortlistAll_def Let_def split: sum.splits)
  have runs: "triplesOf runs \<noteq> []" "\<forall>run \<in> set (triplesOf runs). is_run run"
    using assms(3) by (simp_all add: askable_def)
  note read = readPostings_lists [OF assms(1,2) runs(2) r]
  define ordered where "ordered = sort_key length found"
  from assms(4) r obtain t2 where t2: "tallyAdd (length (hd ordered)) t1 = Inr t2"
    and n: "narrow (hd ordered) (tl ordered) t2 = Inr (candidates, t')"
    by (auto simp: shortlistAll_def Let_def ordered_def split: sum.splits)
  have "found \<noteq> []"
    using read runs(1) by auto
  then have "ordered \<noteq> []" and set_ordered: "set ordered = set found"
    unfolding ordered_def by (metis length_0_conv length_sort, simp)
  then have parts: "hd ordered \<in> set found" "insert (hd ordered) (set (tl ordered)) = set found"
    by (metis list.set_sel(1), metis list.collapse list.simps(15))
  have lists: "\<exists>run \<in> set (triplesOf runs). sorted_wrt (<) list \<and> set list = holders keys run" if "list \<in> set found" for list
    using list_all2_in_left [OF conjunct2 [OF conjunct2 [OF read]] that] .
  have b: "same_budget t t2"
    using read same_budget_add [OF _ t2] same_budget_ok same_budget_trans by blast
  have "sorted_wrt (<) (hd ordered)" "\<forall>list \<in> set (tl ordered). sorted list"
    using lists parts by (auto dest!: strict_sorted_imp_sorted)
  note kept = narrow_set [OF same_budget_ok [OF b] this n]
  have "d \<in> set list" if "keys d = Some ks" "holds_runs ks runs" "list \<in> set found" for d ks list
    using lists [OF that(3)] that(1,2) by (auto simp: holders_def holds_runs_def)
  then have "d \<in> set candidates" if "keys d = Some ks" "holds_runs ks runs" for d ks
    using that kept parts by blast
  moreover have "set candidates \<subseteq> dom keys"
    using kept lists [OF parts(1)] by (auto simp: holders_def)
  ultimately show ?thesis
    using read kept b by (auto intro: same_budget_trans)
qed

lemma shortlistAny_sound:
  assumes "represents index keys" and "tally_ok t" and "list_all askable branches"
    and "sorted_wrt (<) candidates" and "set candidates \<subseteq> dom keys"
    and "shortlistAny ops branches candidates index t = Inr (kept, index', t')"
  shows "represents index' keys \<and> same_budget t t' \<and> sorted_wrt (<) kept \<and>
    set kept \<subseteq> dom keys \<and> set candidates \<subseteq> set kept \<and>
    (\<forall>d ks. keys d = Some ks \<longrightarrow> list_ex (holds_runs ks) branches \<longrightarrow> d \<in> set kept)"
  using assms
proof (induction branches arbitrary: index t candidates)
  case Nil
  then show ?case by (auto simp: same_budget_def)
next
  case (Cons runs branches)
  from Cons.prems(6) obtain found index1 t1 where s: "shortlistAll ops runs index t = Inr (found, index1, t1)"
    and rest: "shortlistAny ops branches (unionLists candidates found) index1 t1 = Inr (kept, index', t')"
    by (auto split: sum.splits)
  from Cons.prems(3) have "askable runs" "list_all askable branches"
    by simp_all
  note found = shortlistAll_sound [OF Cons.prems(1,2) this(1) s]
  then have "sorted_wrt (<) (unionLists candidates found)" "set (unionLists candidates found) \<subseteq> dom keys"
    "represents index1 keys" "tally_ok t1"
    using Cons.prems(4,5) same_budget_ok by (auto simp: unionLists_set unionLists_sorted)
  from Cons.IH [OF this(3,4) \<open>list_all askable branches\<close> this(1,2) rest] found show ?case
    unfolding unionLists_set by (auto intro: same_budget_trans)
qed

theorem shortlist_sound:
  assumes "represents index keys" and "tally_ok t" and "query_ok query"
    and "shortlist ops query index t = Inr (answer, index', t')"
  shows "represents index' keys \<and> same_budget t t' \<and>
    (case answer of
       None \<Rightarrow> True
     | Some candidates \<Rightarrow> sorted_wrt (<) candidates \<and> set candidates \<subseteq> dom keys \<and>
         (\<forall>d ks. keys d = Some ks \<longrightarrow> holds_query ks query \<longrightarrow> d \<in> set candidates))"
proof (cases query)
  case (All_Runs runs)
  show ?thesis
  proof (cases "runs = []")
    case True
    with All_Runs assms show ?thesis
      by (auto simp: shortlist_def same_budget_def)
  next
    case False
    with All_Runs assms(3) have "askable runs"
      by (simp add: query_ok_def)
    from assms(4) False All_Runs obtain candidates where "answer = Some candidates"
      "shortlistAll ops runs index t = Inr (candidates, index', t')"
      by (auto simp: shortlist_def split: sum.splits)
    with shortlistAll_sound [OF assms(1,2) \<open>askable runs\<close>] All_Runs show ?thesis
      by (simp add: holds_query_def)
  qed
next
  case (Any_Runs branches)
  with assms(4) obtain candidates where "answer = Some candidates"
    "shortlistAny ops branches [] index t = Inr (candidates, index', t')"
    by (auto simp: shortlist_def split: sum.splits)
  with shortlistAny_sound [OF assms(1,2) _ _ _ this(2)] assms(3) Any_Runs show ?thesis
    by (simp add: holds_query_def query_ok_def)
qed

section \<open>The work of a shortlist\<close>

lemma readPostings_work:
  assumes "represents index keys" and "tally_ok t" and "\<forall>run \<in> set runs. is_run run"
  shows "readPostings ops runs index t = Inr (found, index', t') \<Longrightarrow> spent t' = spent t + length runs"
    and "spent t + length runs \<le> tally_cap t \<Longrightarrow> \<exists>r. readPostings ops runs index t = Inr r"
proof -
  have "(\<forall>found index' t'. readPostings ops runs index t = Inr (found, index', t') \<longrightarrow> spent t' = spent t + length runs) \<and>
      (spent t + length runs \<le> tally_cap t \<longrightarrow> (\<exists>r. readPostings ops runs index t = Inr r))"
    using assms
  proof (induction runs arbitrary: index t)
    case (Cons run runs)
    obtain a b c where run: "run = (a, b, c)"
      by (cases run)
    show ?case
    proof (cases "tallyAdd 1 t")
      case (Inl e)
      with tallyAdd_fits [OF Cons.prems(2), of 1] show ?thesis by (auto simp: run)
    next
      case (Inr t1)
      note add = tallyAdd_Inr [OF Cons.prems(2) Inr]
      obtain list index1 where list: "indexPostings ops a b c index = (list, index1)"
        by (cases "indexPostings ops a b c index")
      have "is_run (a, b, c)" "\<forall>run \<in> set runs. is_run run"
        using Cons.prems(3) by (simp_all add: run)
      note IH = Cons.IH [OF conjunct1 [OF postings_law [OF Cons.prems(1) this(1) list]] add(1) this(2)]
      have "readPostings ops (run # runs) index t =
          (case readPostings ops runs index1 t1 of Inl e \<Rightarrow> Inl e | Inr (found, index', t') \<Rightarrow> Inr (list # found, index', t'))"
        using Inr by (simp add: run list)
      with IH add show ?thesis
        by (cases "readPostings ops runs index1 t1") auto
    qed
  qed simp
  then show "readPostings ops runs index t = Inr (found, index', t') \<Longrightarrow> spent t' = spent t + length runs"
    and "spent t + length runs \<le> tally_cap t \<Longrightarrow> \<exists>r. readPostings ops runs index t = Inr r"
    by blast+
qed

text \<open>No list is longer than the number \<open>n\<close> of the documents.\<close>

lemma narrow_work:
  assumes "tally_ok t" and "\<forall>list \<in> set found. length list \<le> n"
  shows "narrow candidates found t = Inr (kept, t') \<Longrightarrow> spent t' \<le> spent t + length found * n"
    and "spent t + length found * n \<le> tally_cap t \<Longrightarrow> \<exists>r. narrow candidates found t = Inr r"
proof -
  have "(\<forall>kept t'. narrow candidates found t = Inr (kept, t') \<longrightarrow> spent t' \<le> spent t + length found * n) \<and>
      (spent t + length found * n \<le> tally_cap t \<longrightarrow> (\<exists>r. narrow candidates found t = Inr r))"
    using assms
  proof (induction found arbitrary: candidates t)
    case (Cons list found)
    obtain kept unread where inner: "intersectFrom candidates list = (kept, unread)"
      by (cases "intersectFrom candidates list")
    define units where "units = min (length list) (length list - length unread + 1)"
    have units: "units \<le> n"
      using Cons.prems(2) by (auto simp: units_def intro: min.coboundedI1)
    have i: "intersect candidates list t = (case tallyAdd units t of Inl e \<Rightarrow> Inl e | Inr t \<Rightarrow> Inr (kept, t))"
      by (simp add: intersect_def inner Let_def units_def)
    show ?case
    proof (cases "tallyAdd units t")
      case (Inl e)
      with tallyAdd_fits [OF Cons.prems(1), of units] units show ?thesis
        by (auto simp: i)
    next
      case (Inr t1)
      note add = tallyAdd_Inr [OF Cons.prems(1) Inr]
      from Cons.IH [OF add(1)] Cons.prems(2) have "(\<forall>kept' t'. narrow kept found t1 = Inr (kept', t') \<longrightarrow> spent t' \<le> spent t1 + length found * n) \<and>
          (spent t1 + length found * n \<le> tally_cap t1 \<longrightarrow> (\<exists>r. narrow kept found t1 = Inr r))"
        by simp
      with add units show ?thesis
        by (auto simp: i Inr)
    qed
  qed auto
  then show "narrow candidates found t = Inr (kept, t') \<Longrightarrow> spent t' \<le> spent t + length found * n"
    and "spent t + length found * n \<le> tally_cap t \<Longrightarrow> \<exists>r. narrow candidates found t = Inr r"
    by blast+
qed

lemma shortlistAll_work:
  assumes "represents index keys" and "tally_ok t" and "askable runs" and "finite (dom keys)"
  shows "shortlistAll ops runs index t = Inr (candidates, index', t') \<Longrightarrow>
      spent t' \<le> spent t + all_work (card (dom keys)) runs"
    and "spent t + all_work (card (dom keys)) runs \<le> tally_cap t \<Longrightarrow> \<exists>r. shortlistAll ops runs index t = Inr r"
proof -
  let ?n = "card (dom keys)" and ?k = "length (triplesOf runs)"
  have runs: "triplesOf runs \<noteq> []" "\<forall>run \<in> set (triplesOf runs). is_run run"
    using assms(3) by (simp_all add: askable_def)
  then have k: "all_work ?n runs = ?k + ?n + (?k - 1) * ?n"
    by (cases "triplesOf runs") (auto simp: all_work_def)
  note read_work = readPostings_work [OF assms(1,2) runs(2)]
  have "(\<forall>candidates index' t'. shortlistAll ops runs index t = Inr (candidates, index', t') \<longrightarrow> spent t' \<le> spent t + all_work ?n runs) \<and>
      (spent t + all_work ?n runs \<le> tally_cap t \<longrightarrow> (\<exists>r. shortlistAll ops runs index t = Inr r))"
  proof (cases "readPostings ops (triplesOf runs) index t")
    case (Inl e)
    with read_work(2) show ?thesis
      by (auto simp: shortlistAll_def k)
  next
    case (Inr r)
    then obtain found index1 t1 where r: "readPostings ops (triplesOf runs) index t = Inr (found, index1, t1)"
      by (cases r) auto
    note read = readPostings_lists [OF assms(1,2) runs(2) r]
    define ordered where "ordered = sort_key length found"
    have len: "length ordered = ?k" "set ordered = set found"
      using read by (auto simp: ordered_def dest: list_all2_lengthD)
    then have "ordered \<noteq> []"
      using runs(1) by auto
    have short: "length list \<le> ?n" if "list \<in> set ordered" for list
    proof -
      from that list_all2_in_left [OF conjunct2 [OF conjunct2 [OF read]], of list] len(2) obtain run
        where "sorted_wrt (<) list" "set list = holders keys run"
        by auto
      then have "distinct list" "set list \<subseteq> dom keys"
        by (auto simp: strict_sorted_iff holders_def split: prod.splits)
      then show ?thesis
        using card_mono [OF assms(4)] by (metis distinct_card)
    qed
    have hd: "length (hd ordered) \<le> ?n" and tl: "\<forall>list \<in> set (tl ordered). length list \<le> ?n"
      using short \<open>ordered \<noteq> []\<close> by (auto dest: list.set_sel(2))
    have all: "shortlistAll ops runs index t = (case tallyAdd (length (hd ordered)) t1 of Inl e \<Rightarrow> Inl e
        | Inr t \<Rightarrow> (case narrow (hd ordered) (tl ordered) t of Inl e \<Rightarrow> Inl e
            | Inr (candidates, t) \<Rightarrow> Inr (candidates, index1, t)))"
      unfolding shortlistAll_def r sum.case prod.case Let_def ordered_def [symmetric] by (rule refl)
    have t1: "tally_ok t1" "spent t1 = spent t + ?k" "tally_cap t1 = tally_cap t"
      using read read_work(1) [OF r] by (auto simp: same_budget_def)
    show ?thesis
    proof (cases "tallyAdd (length (hd ordered)) t1")
      case (Inl e)
      with tallyAdd_fits [OF t1(1), of "length (hd ordered)"] t1 hd show ?thesis
        by (auto simp: all k)
    next
      case (Inr t2)
      note add = tallyAdd_Inr [OF t1(1) Inr]
      from narrow_work [OF add(1) tl, of "hd ordered"] add t1 hd len(1) show ?thesis
        by (fastforce simp: all k Inr split: sum.splits)
    qed
  qed
  then show "shortlistAll ops runs index t = Inr (candidates, index', t') \<Longrightarrow>
      spent t' \<le> spent t + all_work (card (dom keys)) runs"
    and "spent t + all_work (card (dom keys)) runs \<le> tally_cap t \<Longrightarrow> \<exists>r. shortlistAll ops runs index t = Inr r"
    by blast+
qed

lemma shortlistAny_work:
  assumes "represents index keys" and "tally_ok t" and "finite (dom keys)"
    and "list_all askable branches"
  shows "(\<forall>kept index' t'. shortlistAny ops branches candidates index t = Inr (kept, index', t') \<longrightarrow>
      spent t' \<le> spent t + sum_list (map (all_work (card (dom keys))) branches)) \<and>
    (spent t + sum_list (map (all_work (card (dom keys))) branches) \<le> tally_cap t \<longrightarrow>
      (\<exists>r. shortlistAny ops branches candidates index t = Inr r))"
  using assms
proof (induction branches arbitrary: index t candidates)
  case (Cons runs branches)
  from Cons.prems(4) have runs: "askable runs" and "list_all askable branches"
    by simp_all
  note first = shortlistAll_work [OF Cons.prems(1,2) runs Cons.prems(3)]
  show ?case
  proof (cases "shortlistAll ops runs index t")
    case (Inl e)
    with first(2) show ?thesis by auto
  next
    case (Inr r)
    then obtain found index1 t1 where s: "shortlistAll ops runs index t = Inr (found, index1, t1)"
      by (cases r) auto
    note found = shortlistAll_sound [OF Cons.prems(1,2) runs s]
    then have "represents index1 keys" "tally_ok t1" "tally_cap t1 = tally_cap t"
      by (simp_all add: same_budget_def)
    from Cons.IH [OF this(1,2) Cons.prems(3) \<open>list_all askable branches\<close>,
        of "unionLists candidates found"] first(1) [OF s] this(3)
    show ?thesis
      by (auto simp: s)
  qed
qed simp

lemma shortlist_work:
  assumes "represents index keys" and "tally_ok t" and "finite (dom keys)" and "query_ok query"
  shows "shortlist ops query index t = Inr (answer, index', t') \<Longrightarrow> spent t' \<le> spent t + query_work (card (dom keys)) query"
    and "spent t + query_work (card (dom keys)) query \<le> tally_cap t \<Longrightarrow> \<exists>r. shortlist ops query index t = Inr r"
proof -
  have "(\<forall>answer index' t'. shortlist ops query index t = Inr (answer, index', t') \<longrightarrow>
        spent t' \<le> spent t + query_work (card (dom keys)) query) \<and>
      (spent t + query_work (card (dom keys)) query \<le> tally_cap t \<longrightarrow> (\<exists>r. shortlist ops query index t = Inr r))"
  proof (cases query)
    case (All_Runs runs)
    show ?thesis
    proof (cases "runs = []")
      case True
      with All_Runs show ?thesis by (simp add: shortlist_def)
    next
      case False
      with All_Runs assms(4) have "askable runs"
        by (simp add: query_ok_def)
      from shortlistAll_work [OF assms(1,2) this assms(3)] False show ?thesis
        by (cases "shortlistAll ops runs index t") (auto simp: All_Runs shortlist_def query_work_def)
    qed
  next
    case (Any_Runs branches)
    with assms(4) shortlistAny_work [OF assms(1-3), of branches "[]"] show ?thesis
      by (cases "shortlistAny ops branches [] index t") (auto simp: shortlist_def query_work_def query_ok_def)
  qed
  then show "shortlist ops query index t = Inr (answer, index', t') \<Longrightarrow> spent t' \<le> spent t + query_work (card (dom keys)) query"
    and "spent t + query_work (card (dom keys)) query \<le> tally_cap t \<Longrightarrow> \<exists>r. shortlist ops query index t = Inr r"
    by blast+
qed

end

end
