(* ===== verification/Pattern_Classes.thy ===== *)
theory Pattern_Classes
  imports Pattern_Simulation
begin

text \<open>
  The classes of code points that a compiled program carries (\<open>planClasses\<close> of
  \<open>pattern/expression/compile.ts\<close>, \<open>classOf\<close> of \<open>pattern/automaton.ts\<close>): code points of one class are
  alike for the program. Every position accepts both or neither, and their kinds agree, so what
  was found for one code point may be kept and used for the other.
\<close>

section \<open>Code points that no edge separates\<close>

definition together :: "nat set \<Rightarrow> code_point \<Rightarrow> code_point \<Rightarrow> bool" where
  "together edges c d \<longleftrightarrow> (\<forall>e \<in> edges. e \<le> c \<longleftrightarrow> e \<le> d)"

lemma together_refl [simp]: "together edges c c"
  by (simp add: together_def)

lemma together_mono: "together edges c d \<Longrightarrow> edges' \<subseteq> edges \<Longrightarrow> together edges' c d"
  by (auto simp: together_def)

lemma together_kind: "together (set WORD_KIND_EDGES) c d \<Longrightarrow> kindOf c = kindOf d"
proof -
  assume alike: "together (set WORD_KIND_EDGES) c d"
  have word: "isWordCodePoint x \<longleftrightarrow> (48 \<le> x \<and> \<not> 58 \<le> x) \<or> (65 \<le> x \<and> \<not> 91 \<le> x) \<or> (95 \<le> x \<and> \<not> 96 \<le> x) \<or>
      (97 \<le> x \<and> \<not> 123 \<le> x)" for x
    unfolding isWordCodePoint_def by linarith
  from alike have "isWordCodePoint c = isWordCodePoint d"
    unfolding word together_def WORD_KIND_EDGES_def by simp
  then show ?thesis by (simp add: kindOf_def)
qed

text \<open>The binary search ends at the number of starts up to the code point.\<close>

lemma searchStarts_splits:
  assumes "sorted sts" and "low \<le> high" and "high \<le> length sts"
    and "\<forall>i < low. sts ! i \<le> c" and "\<forall>i. high \<le> i \<and> i < length sts \<longrightarrow> c < sts ! i"
  shows "\<forall>i < length sts. sts ! i \<le> c \<longleftrightarrow> i < searchStarts sts c low high"
  using assms
proof (induction sts c low high rule: searchStarts.induct)
  case (1 sts c low high)
  let ?mid = "(low + high) div 2"
  show ?case
  proof (cases "low < high")
    case False
    have "searchStarts sts c low high = low"
      using False by (subst searchStarts.simps) simp
    moreover have "low = high"
      using False 1(4) by simp
    moreover have "sts ! i \<le> c \<longleftrightarrow> i < low" if "i < length sts" for i
      using 1(6) [rule_format, of i] 1(7) [rule_format, of i] that \<open>low = high\<close> by linarith
    ultimately show ?thesis by simp
  next
    case True
    then have mid: "low \<le> ?mid" "?mid < high" "?mid < length sts"
      using 1(5) by auto
    show ?thesis
    proof (cases "sts ! ?mid \<le> c")
      case le: True
      have "\<forall>i < ?mid + 1. sts ! i \<le> c"
      proof (intro allI impI)
        fix i
        assume "i < ?mid + 1"
        with sorted_nth_mono [OF 1(3), of i ?mid] mid le show "sts ! i \<le> c"
          by linarith
      qed
      with 1(1) [OF True refl le 1(3)] 1(5,7) mid have
        "\<forall>i < length sts. sts ! i \<le> c \<longleftrightarrow> i < searchStarts sts c (?mid + 1) high"
        by simp
      moreover have "searchStarts sts c low high = searchStarts sts c (?mid + 1) high"
        using True le by (subst searchStarts.simps) (simp add: Let_def)
      ultimately show ?thesis by simp
    next
      case greater: False
      have "\<forall>i. ?mid \<le> i \<and> i < length sts \<longrightarrow> c < sts ! i"
      proof (intro allI impI)
        fix i
        assume "?mid \<le> i \<and> i < length sts"
        with sorted_nth_mono [OF 1(3), of ?mid i] greater show "c < sts ! i"
          by linarith
      qed
      with 1(2) [OF True refl greater 1(3)] 1(5,6) mid have
        "\<forall>i < length sts. sts ! i \<le> c \<longleftrightarrow> i < searchStarts sts c low ?mid"
        by simp
      moreover have "searchStarts sts c low high = searchStarts sts c low ?mid"
        using True greater by (subst searchStarts.simps) (simp add: Let_def)
      ultimately show ?thesis by simp
    qed
  qed
qed

lemma searchStarts_together:
  assumes "sorted sts" and "searchStarts sts c 0 (length sts) = searchStarts sts d 0 (length sts)"
  shows "together (set sts) c d"
  unfolding together_def
proof
  fix e
  assume "e \<in> set sts"
  then obtain i where "i < length sts" "e = sts ! i"
    by (auto simp: in_set_conv_nth)
  with searchStarts_splits [OF assms(1), of 0 "length sts"] assms(2) show "e \<le> c \<longleftrightarrow> e \<le> d"
    by simp
qed

definition is_target :: "(code_point \<Rightarrow> bool) option \<Rightarrow> code_point \<Rightarrow> bool" where
  "is_target check c \<longleftrightarrow> (case check of Some f \<Rightarrow> f c | None \<Rightarrow> False)"

text \<open>Equal classes: the same fold target, or no edge and no fold target in between.\<close>

lemma searchedClass_alike:
  assumes "sorted sts" and "searchedClass sts check c = searchedClass sts check d"
  shows "c = d \<or> (together (set sts) c d \<and> \<not> is_target check c \<and> \<not> is_target check d)"
  using assms searchStarts_together [of sts c d]
  by (auto simp: searchedClass_def is_target_def split: if_splits)

lemma classOf_searched:
  assumes "classes P = codePointClasses sts check"
  shows "classOf P c = searchedClass sts check c"
  using assms by (simp add: classOf_def codePointClasses_def Let_def)

section \<open>What the edges of a plan separate\<close>

definition test_edges :: "code_point_test \<Rightarrow> nat set" where
  "test_edges t = (\<Union>(low, high) \<in> set (pairsOf (ranges t)). {low, high + 1})"

definition consume_edges :: "int \<times> code_point_test option \<Rightarrow> nat set" where
  "consume_edges = (\<lambda>(literal, test).
     if 0 \<le> literal then {nat literal, nat literal + 1}
     else case test of Some t \<Rightarrow> test_edges t | None \<Rightarrow> {})"

lemma addRangeEdges_test: "addRangeEdges rs edges = edges \<union> (\<Union>(low, high) \<in> set (pairsOf rs). {low, high + 1})"
proof -
  have "foldl (\<lambda>edges (low, high). insert (high + 1) (insert low edges)) edges ps =
      edges \<union> (\<Union>(low, high) \<in> set ps. {low, high + 1})" for ps :: "(nat \<times> nat) list"
    by (induction ps arbitrary: edges) auto
  then show ?thesis by (simp add: addRangeEdges_def)
qed

text \<open>The tests that a plan looks at: those of its consuming parts without a literal.\<close>

definition plan_tests :: "plan \<Rightarrow> code_point_test set" where
  "plan_tests p = {t. \<exists>literal < 0. (literal, Some t) \<in> plan_consumes p}"

lemma plan_tests_simps [simp]:
  "plan_tests (Consume literal test) = (if 0 \<le> literal then {} else set_option test)"
  "plan_tests (Assert_Plan m) = {}"
  "plan_tests (Sequence_Plan items) = (\<Union>p \<in> set items. plan_tests p)"
  "plan_tests (Choice_Plan items) = (\<Union>p \<in> set items. plan_tests p)"
  "plan_tests (Repeat_Plan body least most) = plan_tests body"
  by (auto simp: plan_tests_def)

definition collected :: "plan \<Rightarrow> nat set \<times> code_point_test list \<Rightarrow> nat set \<times> code_point_test list \<Rightarrow> bool" where
  "collected p st st' \<longleftrightarrow>
     fst st' = fst st \<union> (\<Union>lt \<in> plan_consumes p. consume_edges lt) \<and> set (snd st') = set (snd st) \<union> plan_tests p"

lemma fold_collected:
  assumes "\<And>p st. p \<in> set ps \<Longrightarrow> collected p st (collectClassEdges p st)"
  shows "collected (Sequence_Plan ps) st (fold collectClassEdges ps st)"
  using assms
proof (induction ps arbitrary: st)
  case (Cons p ps)
  from Cons.prems [of p st] Cons.IH [of "collectClassEdges p st"] Cons.prems show ?case
    by (auto simp: collected_def)
qed (simp add: collected_def)

lemma collectClassEdges_collected: "collected p st (collectClassEdges p st)"
proof (induction p arbitrary: st)
  case (Consume literal test)
  then show ?case
    by (cases st) (auto simp: collected_def consume_edges_def addRangeEdges_test test_edges_def split: option.splits)
next
  case (Sequence_Plan items)
  with fold_collected show ?case by simp
next
  case (Choice_Plan items)
  with fold_collected [of items st] show ?case by (simp add: collected_def)
qed (auto simp: collected_def)

lemma finite_consumes: "finite (plan_consumes p)"
  by (induction p) auto

lemma finite_consume_edges: "finite (consume_edges lt)"
  by (auto simp: consume_edges_def test_edges_def split: prod.splits option.splits)

text \<open>All fold tests of a plan ask the same host for fold targets.\<close>

definition one_check :: "plan \<Rightarrow> bool" where
  "one_check p \<longleftrightarrow> (\<forall>t \<in> plan_tests p. \<forall>u \<in> plan_tests p. \<forall>f g. isFoldTarget t = Some f \<longrightarrow>
     isFoldTarget u = Some g \<longrightarrow> f = g)"

lemma firstFoldTarget_Some: "firstFoldTarget ts = Some f \<Longrightarrow> \<exists>t \<in> set ts. isFoldTarget t = Some f"
  by (induction ts) (auto split: option.splits)

lemma firstFoldTarget_None: "firstFoldTarget ts = None \<Longrightarrow> t \<in> set ts \<Longrightarrow> isFoldTarget t = None"
  by (induction ts) (auto split: option.splits)

lemma firstFoldTarget_check:
  assumes "one_check p" and "set ts = plan_tests p" and "t \<in> plan_tests p" and "isFoldTarget t = Some f"
  shows "firstFoldTarget ts = Some f"
proof (cases "firstFoldTarget ts")
  case None
  with firstFoldTarget_None [of ts t] assms show ?thesis by simp
next
  case (Some g)
  with firstFoldTarget_Some [of ts g] assms show ?thesis
    unfolding one_check_def by metis
qed

text \<open>A test decides by its ranges, apart from fold targets.\<close>

definition range_bound :: "code_point_test \<Rightarrow> bool" where
  "range_bound t \<longleftrightarrow> (\<forall>c d. together (test_edges t) c d \<longrightarrow> \<not> is_target (isFoldTarget t) c \<longrightarrow>
     \<not> is_target (isFoldTarget t) d \<longrightarrow> has t c = has t d)"

definition classed :: "plan \<Rightarrow> bool" where
  "classed p \<longleftrightarrow> one_check p \<and> (\<forall>t \<in> plan_tests p. range_bound t)"

lemma class_alike:
  assumes "classed p" and "classOf P c = classOf P d" and "classes P = planClasses p"
  shows "c = d \<or> (together (set WORD_KIND_EDGES \<union> (\<Union>lt \<in> plan_consumes p. consume_edges lt)) c d \<and>
    (\<forall>t \<in> plan_tests p. \<not> is_target (isFoldTarget t) c \<and> \<not> is_target (isFoldTarget t) d))"
proof -
  obtain edges seen where st: "collectClassEdges p (set WORD_KIND_EDGES, []) = (edges, seen)"
    by (cases "collectClassEdges p (set WORD_KIND_EDGES, [])")
  with collectClassEdges_collected [of p "(set WORD_KIND_EDGES, [])"]
  have edges: "edges = set WORD_KIND_EDGES \<union> (\<Union>lt \<in> plan_consumes p. consume_edges lt)"
    and seen: "set seen = plan_tests p"
    by (simp_all add: collected_def)
  have fin: "finite edges"
    unfolding edges using finite_consumes finite_consume_edges by auto
  let ?check = "firstFoldTarget seen"
  have "classes P = codePointClasses (sorted_list_of_set edges) ?check"
    using assms(3) st by (simp add: planClasses_def)
  with searchedClass_alike [of "sorted_list_of_set edges" ?check c d] assms(2) fin
  have alike: "c = d \<or> (together edges c d \<and> \<not> is_target ?check c \<and> \<not> is_target ?check d)"
    by (simp add: classOf_searched)
  have "is_target (isFoldTarget t) x \<Longrightarrow> is_target ?check x" if "t \<in> plan_tests p" for t x
    using firstFoldTarget_check [OF _ seen that] assms(1)
    by (cases "isFoldTarget t") (auto simp: classed_def is_target_def)
  with alike show ?thesis
    unfolding edges by blast
qed

lemma kind_alike: "classed p \<Longrightarrow> classOf P c = classOf P d \<Longrightarrow> classes P = planClasses p \<Longrightarrow> kindOf c = kindOf d"
  using class_alike [of p P c d] together_mono [OF _ Un_upper1] together_kind by metis

lemma consume_alike:
  assumes "classed p" and "classOf P c = classOf P d" and "classes P = planClasses p"
    and "(literal, test) \<in> plan_consumes p"
  shows "consume_holds literal test c = consume_holds literal test d"
proof (cases "c = d")
  case False
  with class_alike [OF assms(1-3)]
  have apart: "together (set WORD_KIND_EDGES \<union> (\<Union>lt \<in> plan_consumes p. consume_edges lt)) c d"
    "\<forall>t \<in> plan_tests p. \<not> is_target (isFoldTarget t) c \<and> \<not> is_target (isFoldTarget t) d"
    by simp_all
  have own: "together (consume_edges (literal, test)) c d"
    using apart(1) by (rule together_mono) (use assms(4) in auto)
  show ?thesis
  proof (cases "0 \<le> literal")
    case True
    with own have "nat literal \<le> c \<longleftrightarrow> nat literal \<le> d" "Suc (nat literal) \<le> c \<longleftrightarrow> Suc (nat literal) \<le> d"
      by (simp_all add: together_def consume_edges_def)
    then have "c = nat literal \<longleftrightarrow> d = nat literal"
      by linarith
    with True show ?thesis
      by (auto simp: consume_holds_def)
  next
    case neg: False
    show ?thesis
    proof (cases test)
      case (Some t)
      with neg assms(4) have t: "t \<in> plan_tests p"
        unfolding plan_tests_def by (auto intro: exI [of _ literal])
      with apart(2) assms(1) own neg Some have "has t c = has t d"
        by (auto simp: classed_def range_bound_def consume_edges_def)
      with Some neg show ?thesis by (simp add: consume_holds_def)
    qed (simp add: consume_holds_def neg)
  qed
qed simp

section \<open>Lowered patterns\<close>

text \<open>A property of parts that sequences and choices pass on to their parts survives flattening.\<close>

lemma visitSequence_parts:
  assumes "\<And>m. Q (Assert_Plan m)" and "\<And>items. Q (Sequence_Plan items) \<Longrightarrow> list_all Q items"
  shows "list_all Q (fst st) \<Longrightarrow> Q item \<Longrightarrow> list_all Q (fst (visitSequence st item))"
proof (induction item arbitrary: st)
  case (Sequence_Plan items)
  have "list_all Q (fst (foldl visitSequence st items))"
  proof (rule foldl_invariant)
    fix st' :: "plan list \<times> nat" and item
    assume item: "item \<in> set items" and st': "list_all Q (fst st')"
    have "Q item"
      using assms(2) [OF Sequence_Plan(3)] item by (simp add: list_all_iff)
    from Sequence_Plan(1) [OF item st' this] show "list_all Q (fst (visitSequence st' item))" .
  qed (rule Sequence_Plan(2))
  then show ?case by simp
qed (auto simp: flushMask_def case_prod_beta Let_def assms(1) split: prod.splits)

lemma visitChoice_parts:
  assumes "\<And>items. Q (Choice_Plan items) \<Longrightarrow> list_all Q items"
  shows "list_all Q (fst st) \<Longrightarrow> Q item \<Longrightarrow> list_all Q (fst (visitChoice st item))"
proof (induction item arbitrary: st)
  case (Choice_Plan items)
  have "list_all Q (fst (foldl visitChoice st items))"
  proof (rule foldl_invariant)
    fix st' :: "plan list \<times> nat \<times> bool" and item
    assume item: "item \<in> set items" and st': "list_all Q (fst st')"
    have "Q item"
      using assms [OF Choice_Plan(3)] item by (simp add: list_all_iff)
    from Choice_Plan(1) [OF item st' this] show "list_all Q (fst (visitChoice st' item))" .
  qed (rule Choice_Plan(2))
  then show ?case by simp
qed (auto split: prod.splits)

lemma plan_tests_UN: "plan_tests (Sequence_Plan items) \<subseteq> T \<longleftrightarrow> list_all (\<lambda>p. plan_tests p \<subseteq> T) items"
  "plan_tests (Choice_Plan items) \<subseteq> T \<longleftrightarrow> list_all (\<lambda>p. plan_tests p \<subseteq> T) items"
  by (simp_all add: list_all_iff UN_subset_iff)

lemma tests_sequenceOf:
  assumes "list_all (\<lambda>p. plan_tests p \<subseteq> T) items"
  shows "plan_tests (sequenceOf items) \<subseteq> T"
proof -
  let ?Q = "\<lambda>p. plan_tests p \<subseteq> T"
  have "list_all ?Q (fst (foldl visitSequence ([], ANY_CONTEXT_MASK) items))"
  proof (rule foldl_invariant)
    fix st :: "plan list \<times> nat" and item
    assume "item \<in> set items" "list_all ?Q (fst st)"
    with assms show "list_all ?Q (fst (visitSequence st item))"
      by (intro visitSequence_parts) (simp_all add: list_all_iff UN_subset_iff)
  qed simp
  then obtain kept msk where "foldl visitSequence ([], ANY_CONTEXT_MASK) items = (kept, msk)" "list_all ?Q kept"
    by (cases "foldl visitSequence ([], ANY_CONTEXT_MASK) items") simp
  then show ?thesis
    by (cases kept) (simp_all add: sequenceOf_def flushMask_def Let_def plan_tests_UN del: plan_tests_simps(3))
qed

lemma tests_choiceOf:
  assumes "list_all (\<lambda>p. plan_tests p \<subseteq> T) items"
  shows "plan_tests (choiceOf items) \<subseteq> T"
proof -
  let ?Q = "\<lambda>p. plan_tests p \<subseteq> T"
  have "list_all ?Q (fst (foldl visitChoice ([], 0, False) items))"
  proof (rule foldl_invariant)
    fix st :: "plan list \<times> nat \<times> bool" and item
    assume "item \<in> set items" "list_all ?Q (fst st)"
    with assms show "list_all ?Q (fst (visitChoice st item))"
      by (intro visitChoice_parts) (simp_all add: list_all_iff UN_subset_iff)
  qed simp
  then obtain kept msk e where "foldl visitChoice ([], 0, False) items = (kept, msk, e)" "list_all ?Q kept"
    by (cases "foldl visitChoice ([], 0, False) items") simp
  then show ?thesis
    by (cases kept) (simp_all add: choiceOf_def Let_def plan_tests_UN del: plan_tests_simps(4))
qed

lemma tests_repeatOf: "plan_tests (repeatOf body least most) \<subseteq> plan_tests body"
  by (cases body) (simp_all add: repeatOf_def EMPTY_PLAN_def Let_def)

lemma tests_literals: "list_all (\<lambda>p. plan_tests p \<subseteq> T) (map literalPlan cs)"
  by (simp add: list_all_iff literalPlan_def)

text \<open>Every test that lowering makes is decided by its ranges, and asks the one host.\<close>

definition lowered_tests :: "host \<Rightarrow> code_point_test set" where
  "lowered_tests h = {t. range_bound t \<and>
     isFoldTarget t \<in> {None, Some (\<lambda>folded. 0 < length (singleFoldSourcesOf h folded))}}"

lemma range_together:
  assumes "bounds_ok bounds" and "ranges t = mergedRanges bounds" and "together (test_edges t) c d"
  shows "inRanges (mergedRanges bounds) c = inRanges (mergedRanges bounds) d"
proof -
  obtain ps where ps: "mergedRanges bounds = flat ps" "ascending ps"
    using mergedRanges_ascending [OF assms(1)] by blast
  have pairs: "pairsOf (flat qs) = qs" for qs
    by (induction qs) (simp_all add: case_prod_beta)
  have "low \<le> c \<and> c \<le> high \<longleftrightarrow> low \<le> d \<and> d \<le> high" if "(low, high) \<in> set ps" for low high
  proof -
    have "low \<in> test_edges t" "high + 1 \<in> test_edges t"
      using that by (auto simp: test_edges_def assms(2) ps(1) pairs)
    with assms(3) have "low \<le> c \<longleftrightarrow> low \<le> d" "high + 1 \<le> c \<longleftrightarrow> high + 1 \<le> d"
      unfolding together_def by blast+
    then show ?thesis by linarith
  qed
  then have "covers ps c = covers ps d"
    by (auto simp: covers_def)
  then show ?thesis
    by (simp add: ps(1) inRanges_flat [OF ps(2)])
qed

lemma rangeTest_lowered: "bounds_ok bounds \<Longrightarrow> rangeTest (mergedRanges bounds) negated \<in> lowered_tests h"
  using range_together [of bounds "rangeTest (mergedRanges bounds) negated"]
  by (auto simp: lowered_tests_def range_bound_def rangeTest_def)

lemma foldedRangeTest_lowered:
  assumes "bounds_ok bounds"
  shows "foldedRangeTest (mergedRanges bounds) negated h \<in> lowered_tests h"
proof -
  let ?t = "foldedRangeTest (mergedRanges bounds) negated h"
  have "holdsFold h (mergedRanges bounds) c = inRanges (mergedRanges bounds) c" if "\<not> is_target (isFoldTarget ?t) c" for c
    using that by (simp add: holdsFold_def is_target_def foldedRangeTest_def)
  with range_together [OF assms, of ?t] have "range_bound ?t"
    unfolding range_bound_def by (simp add: foldedRangeTest_def)
  then show ?thesis
    by (simp add: lowered_tests_def foldedRangeTest_def)
qed

lemma lowerNode_tests: "wf_node node \<Longrightarrow> plan_tests (lowerNode node caseFold h) \<subseteq> lowered_tests h"
proof (induction node)
  case (Literal c)
  have "plan_tests (foldedLiteral c h) \<subseteq> lowered_tests h"
    unfolding foldedLiteral_def by (rule tests_sequenceOf [OF tests_literals])
  then show ?case by (simp add: literalPlan_def)
next
  case (Class_Node name)
  then show ?case
    by (simp add: testedPlan_def classTest_def TESTED_CODE_POINT_def rangeTest_lowered bounds_ok_class)
next
  case (Set_Node negated items)
  have "setTest items negated caseFold h \<in> lowered_tests h"
    using rangeTest_lowered foldedRangeTest_lowered bounds_ok_items [OF Set_Node] by (simp add: setTest_def Let_def)
  then have single: "plan_tests (testedPlan (setTest items negated caseFold h)) \<subseteq> lowered_tests h"
    by (simp add: testedPlan_def TESTED_CODE_POINT_def)
  have "list_all (\<lambda>p. plan_tests p \<subseteq> lowered_tests h) (map (\<lambda>fold. sequenceOf (map literalPlan fold)) folds)" for folds
    using tests_sequenceOf [OF tests_literals] by (simp add: list_all_iff)
  with single have "plan_tests (choiceOf (testedPlan (setTest items negated caseFold h) #
      map (\<lambda>fold. sequenceOf (map literalPlan fold)) folds)) \<subseteq> lowered_tests h" for folds
    by (intro tests_choiceOf) (simp del: map_map)
  with single show ?case
    by (cases caseFold; cases negated) (simp_all add: setPlan_def Let_def)
next
  case (Sequence items)
  have "list_all (\<lambda>p. plan_tests p \<subseteq> lowered_tests h) (map (\<lambda>item. lowerNode item caseFold h) items)"
    using Sequence by (simp add: list_all_iff)
  from tests_sequenceOf [OF this] show ?case by simp
next
  case (Choice branches)
  have "list_all (\<lambda>p. plan_tests p \<subseteq> lowered_tests h) (map (\<lambda>item. lowerNode item caseFold h) branches)"
    using Choice by (simp add: list_all_iff)
  from tests_choiceOf [OF this] show ?case by simp
next
  case (Repeat body least most)
  then have "plan_tests (lowerNode body caseFold h) \<subseteq> lowered_tests h"
    by simp
  with tests_repeatOf [of "lowerNode body caseFold h" least most] show ?case by simp
qed simp_all

lemma lowerPattern_classed:
  assumes "wf_node node"
  shows "classed (lowerPattern node caseFold h)"
proof -
  have "range_bound t \<and> (isFoldTarget t = None \<or>
      isFoldTarget t = Some (\<lambda>folded. 0 < length (singleFoldSourcesOf h folded)))"
    if "t \<in> plan_tests (lowerPattern node caseFold h)" for t
    using that lowerNode_tests [OF assms, of caseFold h] unfolding lowerPattern_def lowered_tests_def by blast
  then show ?thesis
    unfolding classed_def one_check_def by (metis option.distinct(1) option.inject)
qed

section \<open>The classes of a compiled program\<close>

definition classes_ok :: "program \<Rightarrow> bool" where
  "classes_ok P \<longleftrightarrow> (\<forall>c d. classOf P c = classOf P d \<longrightarrow> kindOf c = kindOf d \<and>
     (\<forall>position < positions P. accepts P position c = accepts P position d))"

lemma compileProgram_consumes:
  assumes wf: "wf_plan p" and "position < positions (compileProgram p)"
  shows "\<exists>(literal, test) \<in> plan_consumes p. accepts (compileProgram p) position = consume_holds literal test"
proof -
  let ?P = "compiled p" and ?b = "built p"
  have eq: "accepts (compileProgram p) = accepts ?P" "positions (compileProgram p) = positions ?P"
    by (simp_all add: compileProgram_eq accepts_def fun_eq_iff)
  have ok: "program_ok ?P"
    by (rule compiled_ok [OF wf])
  with assms(2) eq have "position < states ?P" and kind: "kinds ?P ! position = CONSUME_STATE"
    by (auto simp: program_ok_def)
  then obtain s where s: "s < size_of ?b" "position = new_number ?b s"
    using number_cases [OF wf] by blast
  with kind have consume: "kind_of (info ?b s) = CONSUME_STATE"
    using kind_at [OF wf s(1)] by simp
  then have "(literal_of (info ?b s), test_of (info ?b s)) \<in> plan_consumes p"
    using info_range [OF wf s(1)] by (simp add: info_ok_def state_kinds)
  with accepts_at [OF wf s(1) consume] show ?thesis
    unfolding eq s(2) by auto
qed

theorem compileProgram_classes:
  assumes "wf_node node"
  shows "classes_ok (compileProgram (lowerPattern node caseFold h))"
proof -
  let ?p = "lowerPattern node caseFold h"
  let ?P = "compileProgram ?p"
  have wf: "wf_plan ?p"
    using wf_lower [OF assms] by (simp add: lowerPattern_def)
  have cl: "classes ?P = planClasses ?p"
    by (simp add: compileProgram_eq compiled_def finishProgram_def Let_def)
  have "kindOf c = kindOf d" if "classOf ?P c = classOf ?P d" for c d
    by (rule kind_alike [OF lowerPattern_classed [OF assms] that cl])
  moreover have "accepts ?P position c = accepts ?P position d"
    if same: "classOf ?P c = classOf ?P d" and below: "position < positions ?P" for c d position
  proof -
    obtain literal test where "(literal, test) \<in> plan_consumes ?p"
      and accept: "accepts ?P position = consume_holds literal test"
      using compileProgram_consumes [OF wf below] by blast
    from consume_alike [OF lowerPattern_classed [OF assms] same cl this(1)] show ?thesis
      by (simp add: accept)
  qed
  ultimately show ?thesis
    unfolding classes_ok_def by blast
qed

end
