(* ===== verification/Code_Points.thy ===== *)
theory Code_Points
  imports Pattern_Text
begin

text \<open>
  \<open>core/ordering/code-points.ts\<close>: counting the code points of a string, repairing unpaired
  surrogates, and comparing two strings in code point order. Strings are lists of UTF-16 code
  units. Reading beyond the end of a string gives \<open>NaN\<close> in JavaScript, for which every
  comparison fails; the suffix of the string that a loop still has to read plays that role here.

  The lemmas show that the comparison is the lexicographic order of the code points, that the
  early exit of \<open>exceedsCodePoints\<close> changes nothing, and that a repaired string has no unpaired
  surrogate and is the string itself if there was none.
\<close>

section \<open>Counting\<close>

definition high_unit :: "nat \<Rightarrow> bool" where "high_unit u \<longleftrightarrow> 0xd800 \<le> u \<and> u < 0xdc00"
definition low_unit :: "nat \<Rightarrow> bool" where "low_unit u \<longleftrightarrow> 0xdc00 \<le> u \<and> u < 0xe000"

text \<open>Whether the next unit of the suffix is the second half of a pair.\<close>

definition low_next :: "code_units \<Rightarrow> bool" where
  "low_next us = (case us of [] \<Rightarrow> False | w # _ \<Rightarrow> low_unit w)"

function countLoop :: "nat \<Rightarrow> code_units \<Rightarrow> nat \<Rightarrow> bool" where
  "countLoop maximum [] counted = False"
| "countLoop maximum (u # us) counted =
     (let us = (if high_unit u \<and> low_next us then tl us else us); counted = counted + 1
      in if maximum < counted then True else countLoop maximum us counted)"
  by pat_completeness auto
termination by (relation "measure (\<lambda>(_, us, _). length us)") auto

definition exceedsCodePoints :: "code_units \<Rightarrow> nat \<Rightarrow> bool" where
  "exceedsCodePoints value maximum = (if length value \<le> maximum then False else countLoop maximum value 0)"

function codePointCount :: "code_units \<Rightarrow> nat" where
  "codePointCount [] = 0"
| "codePointCount (u # us) = Suc (codePointCount (if high_unit u \<and> low_next us then tl us else us))"
  by pat_completeness auto
termination by (relation "measure length") auto

lemma codePointCount_le: "codePointCount us \<le> length us"
proof (induction us rule: codePointCount.induct)
  case (2 u us)
  then show ?case by (cases us) (auto split: if_splits)
qed simp

lemma countLoop_count: "counted \<le> maximum \<Longrightarrow> countLoop maximum us counted \<longleftrightarrow> maximum < counted + codePointCount us"
  by (induction maximum us counted rule: countLoop.induct) (auto simp: Let_def)

lemma exceeds_count: "exceedsCodePoints us maximum \<longleftrightarrow> maximum < codePointCount us"
  using countLoop_count [of 0 maximum us] codePointCount_le [of us]
  by (auto simp: exceedsCodePoints_def)

section \<open>Unpaired surrogates\<close>

text \<open>The index of the first unpaired surrogate, counted from the unit at index \<open>i\<close>.\<close>

function firstUnpairedFrom :: "nat \<Rightarrow> code_units \<Rightarrow> nat option" where
  "firstUnpairedFrom i [] = None"
| "firstUnpairedFrom i (u # us) =
     (if u < 0xd800 \<or> 0xe000 \<le> u then firstUnpairedFrom (i + 1) us
      else if 0xdc00 \<le> u then Some i
      else if \<not> low_next us then Some i
      else firstUnpairedFrom (i + 2) (tl us))"
  by pat_completeness auto
termination by (relation "measure (\<lambda>(_, us). length us)") auto

definition firstUnpairedSurrogate :: "code_units \<Rightarrow> nat option" where
  "firstUnpairedSurrogate value = firstUnpairedFrom 0 value"

definition holdsUnpairedSurrogate :: "code_units \<Rightarrow> bool" where
  "holdsUnpairedSurrogate value \<longleftrightarrow>
     (\<exists>u\<in>set value. 0xd800 \<le> u \<and> u \<le> 0xdfff) \<and> firstUnpairedSurrogate value \<noteq> None"

definition REPLACEMENT_CHARACTER :: nat where "REPLACEMENT_CHARACTER = 0xfffd"

function repairFrom :: "code_units \<Rightarrow> code_units" where
  "repairFrom [] = []"
| "repairFrom (u # us) =
     (if u < 0xd800 \<or> 0xe000 \<le> u then u # repairFrom us
      else if u < 0xdc00 \<and> low_next us then u # hd us # repairFrom (tl us)
      else REPLACEMENT_CHARACTER # repairFrom us)"
  by pat_completeness auto
termination by (relation "measure length") auto

definition withUnpairedSurrogatesReplaced :: "code_units \<Rightarrow> code_units" where
  "withUnpairedSurrogatesReplaced value =
     (case firstUnpairedSurrogate value of
        None \<Rightarrow> value
      | Some first \<Rightarrow> take first value @ repairFrom (drop first value))"

section \<open>Comparing\<close>

definition adjustUtf16Unit :: "nat \<Rightarrow> int" where
  "adjustUtf16Unit u =
     (if u < 0xd800 then int u else if u < 0xe000 then int u + 0x2000 else int u - 0x800)"

text \<open>The loop over the common prefix, on the suffixes that are still to be compared.\<close>

fun compareCodePoints :: "code_units \<Rightarrow> code_units \<Rightarrow> int" where
  "compareCodePoints (u # us) (w # ws) =
     (if u = w then compareCodePoints us ws else adjustUtf16Unit u - adjustUtf16Unit w)"
| "compareCodePoints us ws = int (length us) - int (length ws)"

section \<open>The comparison is the order of the code points\<close>

definition scalar :: "code_point \<Rightarrow> bool" where
  "scalar c \<longleftrightarrow> c < 0xd800 \<or> 0xe000 \<le> c \<and> c \<le> 0x10ffff"

lemma compare_self: "compareCodePoints us us = 0"
  by (induction us) simp_all

lemma compare_append_same: "compareCodePoints (xs @ us) (xs @ ws) = compareCodePoints us ws"
  by (induction xs) simp_all

lemma adjust_basic:
  "scalar c \<Longrightarrow> scalar d \<Longrightarrow> c \<le> 0xffff \<Longrightarrow> d \<le> 0xffff \<Longrightarrow> adjustUtf16Unit c < adjustUtf16Unit d \<longleftrightarrow> c < d"
  by (auto simp: adjustUtf16Unit_def scalar_def)

lemma adjust_basic_less:
  "scalar c \<Longrightarrow> c \<le> 0xffff \<Longrightarrow> 0xd800 \<le> u \<Longrightarrow> u < 0xe000 \<Longrightarrow> adjustUtf16Unit c < adjustUtf16Unit u"
  by (auto simp: adjustUtf16Unit_def scalar_def)

lemma adjust_surrogate:
  "0xd800 \<le> u \<Longrightarrow> u < 0xe000 \<Longrightarrow> 0xd800 \<le> w \<Longrightarrow> w < 0xe000 \<Longrightarrow>
   adjustUtf16Unit u - adjustUtf16Unit w = int u - int w"
  by (auto simp: adjustUtf16Unit_def)

lemma compare_code_points_less:
  assumes "scalar c" and "scalar d" and "c < d"
  shows "compareCodePoints (fromCodePoint c @ us) (fromCodePoint d @ ws) < 0"
    and "0 < compareCodePoints (fromCodePoint d @ us) (fromCodePoint c @ ws)"
proof -
  let ?hi = "\<lambda>c. 0xd800 + (c - 0x10000) div 0x400" and ?lo = "\<lambda>c. 0xdc00 + (c - 0x10000) mod 0x400"
  have hi: "0xd800 \<le> ?hi x \<and> ?hi x < 0xe000" if "0x10000 \<le> x" "x \<le> 0x10ffff" for x :: nat
    using that by (simp add: div_less_iff_less_mult)
  consider "d \<le> 0xffff" | "c \<le> 0xffff" "0xffff < d" | "0xffff < c" using assms(3) by linarith
  then have "compareCodePoints (fromCodePoint c @ us) (fromCodePoint d @ ws) < 0 \<and>
      0 < compareCodePoints (fromCodePoint d @ us) (fromCodePoint c @ ws)"
  proof cases
    case 1
    then show ?thesis
      using assms adjust_basic [OF assms(1,2)] by (simp add: fromCodePoint_def BASIC_PLANE_LAST_def)
  next
    case 2
    then have "adjustUtf16Unit c < adjustUtf16Unit (?hi d)" "c \<noteq> ?hi d"
      using adjust_basic_less [OF assms(1) 2(1), of "?hi d"] hi [of d] assms(1,2)
      by (auto simp: scalar_def)
    then show ?thesis using 2 by (simp add: fromCodePoint_def BASIC_PLANE_LAST_def)
  next
    case 3
    let ?c = "c - 0x10000" and ?d = "d - 0x10000"
    have range: "0x10000 \<le> c" "c \<le> 0x10ffff" "0x10000 \<le> d" "d \<le> 0x10ffff" and less: "?c < ?d"
      using 3 assms by (auto simp: scalar_def)
    have "?c div 0x400 \<le> ?d div 0x400" using less by (simp add: div_le_mono)
    then consider "?c div 0x400 < ?d div 0x400" | "?c div 0x400 = ?d div 0x400" by linarith
    then consider "?c div 0x400 < ?d div 0x400"
      | "?c div 0x400 = ?d div 0x400" "?c mod 0x400 < ?d mod 0x400"
    proof cases
      case 2
      then have "?c mod 0x400 < ?d mod 0x400"
        using less div_mult_mod_eq [of ?c "0x400"] div_mult_mod_eq [of ?d "0x400"] by linarith
      then show ?thesis using 2 that(2) by blast
    qed (rule that(1))
    then show ?thesis
    proof cases
      case 1
      then show ?thesis
        using 3 assms(3) adjust_surrogate hi [OF range(1,2)] hi [OF range(3,4)]
        by (simp add: fromCodePoint_def BASIC_PLANE_LAST_def)
    next
      case 2
      then show ?thesis
        using 3 assms(3) by (simp add: fromCodePoint_def BASIC_PLANE_LAST_def adjustUtf16Unit_def)
    qed
  qed
  then show "compareCodePoints (fromCodePoint c @ us) (fromCodePoint d @ ws) < 0"
    "0 < compareCodePoints (fromCodePoint d @ us) (fromCodePoint c @ ws)" by blast+
qed

lemma encode_empty [simp]: "encode [] = []"
  by (simp add: encode_def)

lemma compare_Nil: "compareCodePoints [] us = - int (length us)" "compareCodePoints us [] = int (length us)"
  by (cases us; simp)+

lemma fromCodePoint_nonempty: "0 < length (fromCodePoint c)"
  by (simp add: fromCodePoint_def)

lemma compareCodePoints_lexord:
  "list_all scalar cs \<Longrightarrow> list_all scalar ds \<Longrightarrow>
   (compareCodePoints (encode cs) (encode ds) < 0 \<longleftrightarrow> (cs, ds) \<in> lexord {(c, d). c < d}) \<and>
   (compareCodePoints (encode cs) (encode ds) = 0 \<longleftrightarrow> cs = ds)"
proof (induction cs arbitrary: ds)
  case Nil
  show ?case
  proof (cases ds)
    case (Cons d es)
    then show ?thesis
      using fromCodePoint_nonempty [of d] by (cases "fromCodePoint d") (simp_all add: compare_Nil encode_Cons)
  qed simp
next
  case (Cons c cs)
  show ?case
  proof (cases ds)
    case Nil
    then show ?thesis
      using fromCodePoint_nonempty [of c] by (cases "fromCodePoint c") (simp_all add: compare_Nil encode_Cons)
  next
    case ds: (Cons d es)
    consider "c = d" | "c < d" | "d < c" by linarith
    then show ?thesis
    proof cases
      case 1
      then show ?thesis using Cons ds by (simp add: encode_Cons compare_append_same)
    next
      case 2
      then show ?thesis
        using compare_code_points_less(1) [of c d "encode cs" "encode es"] Cons.prems ds by (simp add: encode_Cons)
    next
      case 3
      then show ?thesis
        using compare_code_points_less(2) [of d c "encode cs" "encode es"] Cons.prems ds by (simp add: encode_Cons)
    qed
  qed
qed

section \<open>Repaired strings\<close>

lemma firstUnpairedFrom_shift: "firstUnpairedFrom (i + j) us = map_option ((+) j) (firstUnpairedFrom i us)"
  by (induction i us rule: firstUnpairedFrom.induct) (simp_all add: algebra_simps)

lemma firstUnpairedFrom_surrogate:
  "firstUnpairedFrom i us = Some k \<Longrightarrow> \<exists>u\<in>set us. 0xd800 \<le> u \<and> u \<le> 0xdfff"
proof (induction i us rule: firstUnpairedFrom.induct)
  case (2 i u us)
  then show ?case by (cases us) (fastforce simp: not_less split: if_splits)+
qed simp

lemma repairFrom_paired: "firstUnpairedFrom i us = None \<Longrightarrow> repairFrom us = us"
proof (induction i us rule: firstUnpairedFrom.induct)
  case (2 i u us)
  then show ?case by (cases us) (auto simp: low_next_def split: if_splits)
qed simp

lemma repairFrom_prefix:
  "firstUnpairedFrom i us = Some k \<Longrightarrow> i \<le> k \<and> repairFrom us = take (k - i) us @ repairFrom (drop (k - i) us)"
proof (induction i us rule: firstUnpairedFrom.induct)
  case (2 i u us)
  consider "u < 0xd800 \<or> 0xe000 \<le> u" | "0xd800 \<le> u" "u < 0xdc00" "low_next us" | "k = i"
    using "2.prems" by (auto split: if_splits simp: not_less not_le)
  then show ?case
  proof cases
    case 1
    then have "firstUnpairedFrom (i + 1) us = Some k" using "2.prems" by (simp split: if_splits)
    from "2.IH"(1) [OF 1 this] have "i + 1 \<le> k"
      "repairFrom us = take (k - (i + 1)) us @ repairFrom (drop (k - (i + 1)) us)" by simp_all
    moreover from this have "k - i = Suc (k - (i + 1))" by linarith
    ultimately show ?thesis using 1 by simp
  next
    case 3
    then show ?thesis by simp
  next
    case pair: 2
    then obtain w ws where us: "us = w # ws" by (cases us) (auto simp: low_next_def)
    have "firstUnpairedFrom (i + 2) ws = Some k" using "2.prems" pair us by (simp split: if_splits)
    then have "i + 2 \<le> k \<and> repairFrom ws = take (k - (i + 2)) ws @ repairFrom (drop (k - (i + 2)) ws)"
      using "2.IH"(2) pair us by simp
    moreover from this have "k - i = Suc (Suc (k - (i + 2)))" by linarith
    ultimately show ?thesis using pair us by simp
  qed
qed simp

lemma repaired_eq: "withUnpairedSurrogatesReplaced us = repairFrom us"
  using repairFrom_paired [of 0 us] repairFrom_prefix [of 0 us]
  by (auto simp: withUnpairedSurrogatesReplaced_def firstUnpairedSurrogate_def split: option.splits)

lemma repaired_paired: "firstUnpairedFrom i (repairFrom us) = None"
proof (induction us arbitrary: i rule: repairFrom.induct)
  case (2 u us)
  consider "u < 0xd800 \<or> 0xe000 \<le> u" | "0xd800 \<le> u" "u < 0xdc00" "low_next us"
    | "0xd800 \<le> u" "u < 0xe000" "\<not> (u < 0xdc00 \<and> low_next us)"
    by linarith
  then show ?case
  proof cases
    case 2
    then obtain w ws where "us = w # ws" "low_unit w" by (cases us) (auto simp: low_next_def)
    then show ?thesis using 2 "2.IH"(2) by (simp add: low_next_def)
  qed (use "2.IH" in \<open>auto simp: REPLACEMENT_CHARACTER_def\<close>)
qed simp

end
