(* ===== verification/Js_Values.thy ===== *)
theory Js_Values
  imports Complex_Main Code_Points "HOL-Library.AList" "HOL-Library.Multiset"
begin

text \<open>
  The JavaScript values that the cluster code computes with: numbers, strings in the order of
  \<open><\<close>, maps that iterate in insertion order, and the stable sort.

  A number is an exact rational, an infinity or \<open>NaN\<close>. Where the code divides or multiplies, the
  result is rounded to a double; the rounding is a parameter \<open>fl\<close>, so the lemmas hold for every
  rounding. Counts and byte counts stay far below \<open>2^53\<close>, where addition is exact.
\<close>

section \<open>Numbers\<close>

datatype jsnum = Num rat | PosInf | NegInf | NaN

type_synonym rounding = "rat \<Rightarrow> rat"

definition jsDiv :: "rounding \<Rightarrow> rat \<Rightarrow> rat \<Rightarrow> jsnum" where
  "jsDiv fl a b =
     (if b = 0 then (if a = 0 then NaN else if 0 < a then PosInf else NegInf) else Num (fl (a / b)))"

fun jsSub :: "rounding \<Rightarrow> jsnum \<Rightarrow> jsnum \<Rightarrow> jsnum" where
  "jsSub fl (Num a) (Num b) = Num (fl (a - b))"
| "jsSub fl NaN b = NaN"
| "jsSub fl a NaN = NaN"
| "jsSub fl PosInf PosInf = NaN"
| "jsSub fl NegInf NegInf = NaN"
| "jsSub fl PosInf b = PosInf"
| "jsSub fl NegInf b = NegInf"
| "jsSub fl a PosInf = NegInf"
| "jsSub fl a NegInf = PosInf"

fun jsAbs :: "jsnum \<Rightarrow> jsnum" where
  "jsAbs (Num a) = Num \<bar>a\<bar>"
| "jsAbs NegInf = PosInf"
| "jsAbs a = a"

fun jsLess :: "jsnum \<Rightarrow> jsnum \<Rightarrow> bool" where
  "jsLess (Num a) (Num b) \<longleftrightarrow> a < b"
| "jsLess NegInf (Num b) \<longleftrightarrow> True"
| "jsLess NegInf PosInf \<longleftrightarrow> True"
| "jsLess (Num a) PosInf \<longleftrightarrow> True"
| "jsLess _ _ \<longleftrightarrow> False"

definition jsEq :: "jsnum \<Rightarrow> jsnum \<Rightarrow> bool" where
  "jsEq a b \<longleftrightarrow> a = b \<and> a \<noteq> NaN"

section \<open>Strings\<close>

text \<open>The operator \<open><\<close> on strings compares code units.\<close>

fun stringLess :: "js_string \<Rightarrow> js_string \<Rightarrow> bool" where
  "stringLess [] us \<longleftrightarrow> us \<noteq> []"
| "stringLess (u # us) [] \<longleftrightarrow> False"
| "stringLess (u # us) (w # ws) \<longleftrightarrow> u < w \<or> u = w \<and> stringLess us ws"

section \<open>Sorting\<close>

text \<open>
  \<open>sort\<close> with a comparator, of which only the sign matters: \<open>precedes x y\<close> says that it is negative
  at \<open>x\<close> and \<open>y\<close>. The sort is stable; for a comparator that is not an order, where the result is
  up to the implementation, this is the insertion sort.
\<close>

definition insertBefore :: "('a \<Rightarrow> 'a \<Rightarrow> bool) \<Rightarrow> 'a \<Rightarrow> 'a list \<Rightarrow> 'a list" where
  "insertBefore precedes x ys =
     takeWhile (\<lambda>y. \<not> precedes x y) ys @ x # dropWhile (\<lambda>y. \<not> precedes x y) ys"

definition jsSort :: "('a \<Rightarrow> 'a \<Rightarrow> bool) \<Rightarrow> 'a list \<Rightarrow> 'a list" where
  "jsSort precedes xs = foldl (\<lambda>sorted x. insertBefore precedes x sorted) [] xs"

lemma mset_insertBefore [simp]: "mset (insertBefore precedes x ys) = add_mset x (mset ys)"
proof -
  let ?p = "\<lambda>y. \<not> precedes x y"
  have "mset (takeWhile ?p ys) + mset (dropWhile ?p ys) = mset ys"
    by (metis mset_append takeWhile_dropWhile_id)
  then show ?thesis by (simp add: insertBefore_def)
qed

lemma mset_jsSort [simp]: "mset (jsSort precedes xs) = mset xs"
proof -
  have "mset (foldl (\<lambda>sorted x. insertBefore precedes x sorted) ys xs) = mset xs + mset ys" for ys
    by (induction xs arbitrary: ys) auto
  then show ?thesis by (simp add: jsSort_def)
qed

lemma set_jsSort [simp]: "set (jsSort precedes xs) = set xs"
  by (metis mset_jsSort set_mset_mset)

lemma length_jsSort [simp]: "length (jsSort precedes xs) = length xs"
  by (metis mset_jsSort size_mset)

lemma distinct_jsSort [simp]: "distinct (jsSort precedes xs) = distinct xs"
  by (metis mset_jsSort mset_eq_imp_distinct_iff)

section \<open>Maps in insertion order\<close>

type_synonym ('k, 'v) js_map = "('k \<times> 'v) list"

abbreviation mapGet :: "('k, 'v) js_map \<Rightarrow> 'k \<Rightarrow> 'v option" where "mapGet \<equiv> map_of"
abbreviation mapSet :: "'k \<Rightarrow> 'v \<Rightarrow> ('k, 'v) js_map \<Rightarrow> ('k, 'v) js_map" where "mapSet \<equiv> AList.update"
abbreviation mapKeys :: "('k, 'v) js_map \<Rightarrow> 'k list" where "mapKeys m \<equiv> map fst m"

definition mapGetOr :: "'v \<Rightarrow> ('k, 'v) js_map \<Rightarrow> 'k \<Rightarrow> 'v" where
  "mapGetOr otherwise m k = (case mapGet m k of Some v \<Rightarrow> v | None \<Rightarrow> otherwise)"

lemma mapGet_set: "mapGet (mapSet k v m) k' = (if k' = k then Some v else mapGet m k')"
  by (simp add: AList.update_conv)

text \<open>
  \<open>for (const [key, value] of map)\<close> where the body rewrites the value under its key and may read
  the whole map, with some state of the loop. The keys never change during such a loop.
\<close>

primrec forKeys ::
  "(('k, 'v) js_map \<Rightarrow> 'k \<Rightarrow> 'v \<Rightarrow> 's \<Rightarrow> 'v \<times> 's) \<Rightarrow> 'k list \<Rightarrow> ('k, 'v) js_map \<Rightarrow> 's \<Rightarrow> ('k, 'v) js_map \<times> 's" where
  "forKeys body [] m s = (m, s)"
| "forKeys body (k # ks) m s =
     (case mapGet m k of
        Some v \<Rightarrow> (let (v, s) = body m k v s in forKeys body ks (mapSet k v m) s)
      | None \<Rightarrow> forKeys body ks m s)"

definition forEachEntry ::
  "(('k, 'v) js_map \<Rightarrow> 'k \<Rightarrow> 'v \<Rightarrow> 's \<Rightarrow> 'v \<times> 's) \<Rightarrow> ('k, 'v) js_map \<Rightarrow> 's \<Rightarrow> ('k, 'v) js_map \<times> 's" where
  "forEachEntry body m s = forKeys body (mapKeys m) m s"

lemma mapGet_key: "mapGet m k = Some v \<Longrightarrow> k \<in> set (mapKeys m)"
  by (metis list.set_map map_of_eq_None_iff option.discI)

lemma mapKeys_set_present: "mapGet m k = Some w \<Longrightarrow> mapKeys (mapSet k v m) = mapKeys m"
  using mapGet_key [of m k w] by (simp add: AList.update_keys)

lemma forKeys_keys: "mapKeys (fst (forKeys body ks m s)) = mapKeys m"
  by (induction ks arbitrary: m s)
    (auto split: option.splits prod.splits simp: mapKeys_set_present)

lemma forEachEntry_keys: "mapKeys (fst (forEachEntry body m s)) = mapKeys m"
  by (simp add: forEachEntry_def forKeys_keys)

lemma forKeys_other: "k \<notin> set ks \<Longrightarrow> mapGet (fst (forKeys body ks m s)) k = mapGet m k"
  by (induction ks arbitrary: m s) (auto split: option.splits prod.splits simp: mapGet_set)

text \<open>
  What the loop does to one value: the body runs once on it, on some map with the same keys and
  the original value under its key, in some state. What the body keeps of the map and the state
  may be assumed of them.
\<close>

lemma forKeys_value:
  assumes "distinct ks" and "k \<in> set ks" and "mapGet m k = Some v" and "I m s"
    and "\<And>m k v s. mapGet m k = Some v \<Longrightarrow> I m s \<Longrightarrow> I (mapSet k (fst (body m k v s)) m) (snd (body m k v s))"
  shows "\<exists>m' s'. mapKeys m' = mapKeys m \<and> mapGet m' k = Some v \<and> I m' s' \<and>
    mapGet (fst (forKeys body ks m s)) k = Some (fst (body m' k v s'))"
  using assms(1-4)
proof (induction ks arbitrary: m s)
  case (Cons j ks)
  show ?case
  proof (cases "j = k")
    case True
    then show ?thesis
      using Cons.prems by (auto simp: forKeys_other mapGet_set split: prod.splits intro!: exI [of _ m] exI [of _ s])
  next
    case False
    show ?thesis
    proof (cases "mapGet m j")
      case None
      then show ?thesis using Cons False by simp
    next
      case (Some w)
      obtain w' s2 where b: "body m j w s = (w', s2)" by (rule prod.exhaust)
      have keys: "mapKeys (mapSet j w' m) = mapKeys m" using Some by (rule mapKeys_set_present)
      have "\<exists>m' s'. mapKeys m' = mapKeys (mapSet j w' m) \<and> mapGet m' k = Some v \<and> I m' s' \<and>
          mapGet (fst (forKeys body ks (mapSet j w' m) s2)) k = Some (fst (body m' k v s'))"
        using Cons.prems False assms(5) [OF Some Cons.prems(4)] b
        by (intro Cons.IH) (auto simp: mapGet_set)
      then show ?thesis using Some b keys by simp
    qed
  qed
qed simp

lemma forEachEntry_value:
  assumes "distinct (mapKeys m)" and "mapGet m k = Some v" and "I m s"
    and "\<And>m k v s. mapGet m k = Some v \<Longrightarrow> I m s \<Longrightarrow> I (mapSet k (fst (body m k v s)) m) (snd (body m k v s))"
  shows "\<exists>m' s'. mapKeys m' = mapKeys m \<and> mapGet m' k = Some v \<and> I m' s' \<and>
    mapGet (fst (forEachEntry body m s)) k = Some (fst (body m' k v s'))"
  unfolding forEachEntry_def
  by (rule forKeys_value [where I = I, OF assms(1) mapGet_key [OF assms(2)] assms(2,3)]) (rule assms(4))

end
