(* ===== verification/Lazy_Dfa.thy ===== *)
theory Lazy_Dfa
  imports Pattern_Classes Pattern_Matcher Js_Values
begin

text \<open>
  \<open>pattern/lazy-dfa.ts\<close>: the matcher that remembers the steps of the simulation. A state of the
  automaton is a set of positions with the kind of the last code point; its edges, one for each
  class of code points, are filled in when they are first taken. The cache has a limit in bytes.
  When it is full it starts over, or, if it has been started over too recently, the matcher falls
  back to the simulation for the rest of the value.

  The objects of type \<open>DfaState\<close> are shared and updated in place, so they live in a list
  (\<open>objects\<close>) and are named by their index, the order of their creation. \<open>MATCHED\<close> and \<open>DEAD\<close>
  are not objects here but cases of \<open>dfa_target\<close>. The bytes of a program are a parameter.
\<close>

section \<open>Keys\<close>

definition digit :: "nat \<Rightarrow> char" where "digit d = char_of (48 + d)"

fun decimal :: "nat \<Rightarrow> string" where
  "decimal n = (if n < 10 then [digit n] else decimal (n div 10) @ [digit (n mod 10)])"

declare decimal.simps [simp del]

fun joined :: "nat list \<Rightarrow> string" where
  "joined [] = ''''"
| "joined [n] = decimal n"
| "joined (n # m # ns) = decimal n @ '','' @ joined (m # ns)"

definition stateKey :: "nat list \<Rightarrow> nat \<Rightarrow> string" where
  "stateKey ps previousKind = decimal previousKind @ '':'' @ joined ps"

section \<open>Sizes\<close>

definition MATCHER_STATE_OVERHEAD_BYTES :: int where "MATCHER_STATE_OVERHEAD_BYTES = 96"
definition MATCHER_KEY_CHARACTER_BYTES :: int where "MATCHER_KEY_CHARACTER_BYTES = 2"
definition MATCHER_TRANSITION_BYTES :: int where "MATCHER_TRANSITION_BYTES = 48"
definition MATCHER_EDGE_SLOT_BYTES :: int where "MATCHER_EDGE_SLOT_BYTES = 8"
definition MAX_DENSE_EDGE_CLASSES :: nat where "MAX_DENSE_EDGE_CLASSES = 64"
definition MATCHER_MIN_CODE_POINTS_PER_STATE :: nat where "MATCHER_MIN_CODE_POINTS_PER_STATE = 10"
definition SIMULATION_STATE_BYTES :: int where "SIMULATION_STATE_BYTES = 8"
definition SIMULATION_POSITION_BYTES :: int where "SIMULATION_POSITION_BYTES = 8"
definition BYTES_PER_ELEMENT :: int where "BYTES_PER_ELEMENT = 4"

definition simulationBytes :: "program \<Rightarrow> int" where
  "simulationBytes P =
     (let startClosureBytes = int CONTEXTS * BYTES_PER_ELEMENT
      in int (states P) * SIMULATION_STATE_BYTES + int (positions P) * (SIMULATION_POSITION_BYTES + startClosureBytes))"

definition stateBytes :: "nat list \<Rightarrow> string \<Rightarrow> int" where
  "stateBytes ps key =
     MATCHER_STATE_OVERHEAD_BYTES + int (length ps) * BYTES_PER_ELEMENT + int (length key) * MATCHER_KEY_CHARACTER_BYTES"

section \<open>States\<close>

datatype dfa_target = To_Matched | To_Dead | To_State nat

record dfa_edge =
  target :: dfa_target
  edgeSteps :: nat

record dfa_state =
  d_positions :: "nat list"
  d_previousKind :: nat
  d_generation :: int
  denseEdges :: "dfa_edge option list option"
  sparseEdges :: "(int, dfa_edge) js_map option"
  endMatch :: "bool option"

definition UNCACHED_GENERATION :: int where "UNCACHED_GENERATION = - 1"

definition freshState :: "nat list \<Rightarrow> nat \<Rightarrow> int \<Rightarrow> dfa_state" where
  "freshState ps previousKind generation =
     \<lparr>d_positions = ps, d_previousKind = previousKind, d_generation = generation,
      denseEdges = None, sparseEdges = None, endMatch = None\<rparr>"

record lazy_dfa =
  dfaProgram :: program
  objects :: "dfa_state list"
  dfaStates :: "(string, nat) js_map"
  generation :: int
  cachedBytes :: int
  codePointsSinceReset :: nat
  startObject :: nat
  stateObject :: nat
  simulating :: bool
  decidedAs :: "bool option"
  dfaSimulation :: simulation
  cacheLimitBytes :: int
  denseClasses :: nat

definition updateObject :: "nat \<Rightarrow> (dfa_state \<Rightarrow> dfa_state) \<Rightarrow> lazy_dfa \<Rightarrow> lazy_dfa" where
  "updateObject i f d = d\<lparr>objects := (objects d)[i := f (objects d ! i)]\<rparr>"

definition addObject :: "dfa_state \<Rightarrow> lazy_dfa \<Rightarrow> nat \<times> lazy_dfa" where
  "addObject s d = (length (objects d), d\<lparr>objects := objects d @ [s]\<rparr>)"

definition clearEdges :: "nat \<Rightarrow> lazy_dfa \<Rightarrow> lazy_dfa" where
  "clearEdges i = updateObject i (\<lambda>s. s\<lparr>denseEdges := None, sparseEdges := None\<rparr>)"

section \<open>The cache\<close>

definition dropCache :: "lazy_dfa \<Rightarrow> lazy_dfa" where
  "dropCache d =
     (let d = fold clearEdges (map snd (dfaStates d)) d;
          d = clearEdges (startObject d) d;
          d = clearEdges (stateObject d) d
      in d\<lparr>dfaStates := [], cachedBytes := 0\<rparr>)"

definition internWith :: "(int \<Rightarrow> lazy_dfa \<Rightarrow> bool \<times> lazy_dfa) \<Rightarrow> nat list \<Rightarrow> nat \<Rightarrow> lazy_dfa \<Rightarrow> nat \<times> lazy_dfa" where
  "internWith reserveBytes ps previousKind d =
     (let key = stateKey ps previousKind
      in case mapGet (dfaStates d) key of
           Some existing \<Rightarrow> (existing, d)
         | None \<Rightarrow>
             let (reserved, d) = reserveBytes (stateBytes ps key) d
             in if \<not> reserved then addObject (freshState ps previousKind UNCACHED_GENERATION) d
                else let (state, d) = addObject (freshState ps previousKind (generation d)) d
                     in (state, d\<lparr>dfaStates := mapSet key state (dfaStates d)\<rparr>))"

text \<open>
  \<open>reserve\<close>, \<open>restartCache\<close> and \<open>intern\<close> call each other. The inner calls cannot start the cache over
  again: in an empty cache \<open>reserve\<close> gives up, and right after a restart too few code points
  have been read. There \<open>reserve\<close> is \<open>reserveWithin\<close>; \<open>restartCache_calls\<close> and \<open>reserve_calls\<close>
  below are the equations of the code.
\<close>

definition reserveWithin :: "int \<Rightarrow> lazy_dfa \<Rightarrow> bool \<times> lazy_dfa" where
  "reserveWithin bytes d =
     (if cachedBytes d + bytes \<le> cacheLimitBytes d then (True, d\<lparr>cachedBytes := cachedBytes d + bytes\<rparr>)
      else (False, d))"

definition restartCache :: "lazy_dfa \<Rightarrow> lazy_dfa" where
  "restartCache d =
     (let d = dropCache d;
          d = d\<lparr>codePointsSinceReset := 0, generation := generation d + 1\<rparr>;
          old = objects d ! startObject d;
          (start, d) = internWith reserveWithin (d_positions old) (d_previousKind old) d
      in d\<lparr>startObject := start\<rparr>)"

definition mayRestart :: "lazy_dfa \<Rightarrow> bool" where
  "mayRestart d \<longleftrightarrow>
     \<not> (length (dfaStates d) = 0 \<or>
        codePointsSinceReset d < MATCHER_MIN_CODE_POINTS_PER_STATE * length (dfaStates d))"

definition reserve :: "int \<Rightarrow> lazy_dfa \<Rightarrow> bool \<times> lazy_dfa" where
  "reserve bytes d =
     (if cachedBytes d + bytes \<le> cacheLimitBytes d then (True, d\<lparr>cachedBytes := cachedBytes d + bytes\<rparr>)
      else if \<not> mayRestart d then (False, d)
      else let d = restartCache d
           in if d_generation (objects d ! startObject d) = UNCACHED_GENERATION then (False, d)
              else reserveWithin bytes d)"

definition intern :: "nat list \<Rightarrow> nat \<Rightarrow> lazy_dfa \<Rightarrow> nat \<times> lazy_dfa" where
  "intern = internWith reserve"

section \<open>Edges\<close>

definition cachedEdge :: "dfa_state \<Rightarrow> bool \<Rightarrow> int \<Rightarrow> dfa_edge option" where
  "cachedEdge s dense codePointClass =
     (if dense then (case denseEdges s of Some edges \<Rightarrow> edges ! nat codePointClass | None \<Rightarrow> None)
      else (case sparseEdges s of Some edges \<Rightarrow> mapGet edges codePointClass | None \<Rightarrow> None))"

definition targetCached :: "lazy_dfa \<Rightarrow> dfa_target \<Rightarrow> bool" where
  "targetCached d t \<longleftrightarrow> (case t of To_State j \<Rightarrow> d_generation (objects d ! j) = generation d | _ \<Rightarrow> True)"

definition storeSparse :: "int \<Rightarrow> dfa_edge \<Rightarrow> dfa_state \<Rightarrow> dfa_state" where
  "storeSparse codePointClass edge s =
     s\<lparr>sparseEdges := Some (mapSet codePointClass edge (case sparseEdges s of Some edges \<Rightarrow> edges | None \<Rightarrow> []))\<rparr>"

definition storeDense :: "nat \<Rightarrow> int \<Rightarrow> dfa_edge \<Rightarrow> dfa_state \<Rightarrow> dfa_state" where
  "storeDense classCount codePointClass edge s =
     (let edges = (case denseEdges s of Some edges \<Rightarrow> edges | None \<Rightarrow> replicate classCount None)
      in s\<lparr>denseEdges := Some (edges[nat codePointClass := Some edge])\<rparr>)"

text \<open>The second half of \<open>edge\<close>: keeping the edge that was found, where the cache has room for it.\<close>

definition keepEdge :: "nat \<Rightarrow> bool \<Rightarrow> bool \<Rightarrow> int \<Rightarrow> dfa_edge \<Rightarrow> lazy_dfa \<Rightarrow> lazy_dfa" where
  "keepEdge state current dense codePointClass edge d =
     (if \<not> current \<or> d_generation (objects d ! state) \<noteq> generation d \<or> \<not> targetCached d (target edge) then d
      else let (reserved, d) = reserve MATCHER_TRANSITION_BYTES d
           in if \<not> reserved \<or> d_generation (objects d ! state) \<noteq> generation d then d
              else if \<not> dense then updateObject state (storeSparse codePointClass edge) d
              else let (reserved, d) =
                         (if denseEdges (objects d ! state) = None
                          then reserve (int (denseClasses d) * MATCHER_EDGE_SLOT_BYTES) d else (True, d))
                   in if \<not> reserved \<or> d_generation (objects d ! state) \<noteq> generation d then d
                      else updateObject state (storeDense (denseClasses d) codePointClass edge) d)"

definition edgeFrom :: "nat \<Rightarrow> code_point \<Rightarrow> int \<Rightarrow> lazy_dfa \<Rightarrow> dfa_edge \<times> lazy_dfa" where
  "edgeFrom state codePoint codePointClass d =
     (let s = objects d ! state;
          current = (d_generation s = generation d);
          dense = (0 \<le> codePointClass \<and> codePointClass < int (denseClasses d))
      in case (if current then cachedEdge s dense codePointClass else None) of
           Some cached \<Rightarrow> (cached, d)
         | None \<Rightarrow>
             let (outcome, sim) =
                   stepSimulation codePoint (loadSimulation (d_positions s) (d_previousKind s) (dfaSimulation d));
                 d = d\<lparr>dfaSimulation := sim\<rparr>;
                 (found, d) =
                   (case outcome of
                      Step_Dead \<Rightarrow> (To_Dead, d)
                    | Step_Matched \<Rightarrow> (To_Matched, d)
                    | Step_Continues \<Rightarrow>
                        let (j, d) = intern (sortedAfter sim) (s_previousKind sim) d in (To_State j, d));
                 edge = \<lparr>target = found, edgeSteps = s_steps sim\<rparr>
             in (edge, keepEdge state current dense codePointClass edge d))"

section \<open>The matcher\<close>

definition wantsSimulation :: "lazy_dfa \<Rightarrow> bool" where
  "wantsSimulation d \<longleftrightarrow> \<not> simulating d \<and> d_generation (objects d ! stateObject d) = UNCACHED_GENERATION"

definition simulate :: "nat \<Rightarrow> lazy_dfa \<Rightarrow> lazy_dfa" where
  "simulate from d =
     (let origin = objects d ! from; d = restartCache d
      in d\<lparr>stateObject := startObject d,
           dfaSimulation := loadSimulation (d_positions origin) (d_previousKind origin) (dfaSimulation d),
           simulating := True\<rparr>)"

definition newLazyDfa :: "program \<Rightarrow> int \<Rightarrow> int \<Rightarrow> lazy_dfa" where
  "newLazyDfa P programBytes stateLimitBytes =
     (let classCount = length (classStarts (classes P)) + 1;
          d = \<lparr>dfaProgram = P, objects = [], dfaStates = [], generation = 0, cachedBytes = 0,
               codePointsSinceReset = 0, startObject = 0, stateObject = 0, simulating = False, decidedAs = None,
               dfaSimulation = newSimulation P,
               cacheLimitBytes = stateLimitBytes - programBytes - simulationBytes P,
               denseClasses = (if classCount \<le> MAX_DENSE_EDGE_CLASSES then classCount else 0)\<rparr>;
          (start, d) = intern [] BEFORE_VALUE_START d;
          d = d\<lparr>startObject := start, stateObject := start\<rparr>
      in if wantsSimulation d then simulate start d else d)"

definition heldBytes :: "int \<Rightarrow> lazy_dfa \<Rightarrow> int" where
  "heldBytes programBytes d = programBytes + simulationBytes (dfaProgram d) + cachedBytes d"

definition beginDfa :: "lazy_dfa \<Rightarrow> bool \<times> lazy_dfa" where
  "beginDfa d =
     (let d = d\<lparr>decidedAs := None, simulating := False, stateObject := startObject d\<rparr>
      in (True, if wantsSimulation d then simulate (startObject d) d else d))"

definition feedDfa :: "code_point \<Rightarrow> lazy_dfa \<Rightarrow> work_tally \<Rightarrow> lazy_dfa feed_result" where
  "feedDfa codePoint d t =
     (if simulating d then
        let (outcome, sim) = stepSimulation codePoint (dfaSimulation d);
            d = d\<lparr>dfaSimulation := sim\<rparr>
        in case tallyAdd (s_steps sim) t of
             Inl e \<Rightarrow> Inl e
           | Inr t \<Rightarrow>
               (case outcome of
                  Step_Matched \<Rightarrow> Inr (False, d\<lparr>decidedAs := Some True\<rparr>, t)
                | Step_Dead \<Rightarrow> Inr (False, d\<lparr>decidedAs := Some False\<rparr>, t)
                | Step_Continues \<Rightarrow> Inr (True, d, t))
      else
        let d = d\<lparr>codePointsSinceReset := codePointsSinceReset d + 1\<rparr>;
            (edge, d) = edgeFrom (stateObject d) codePoint (classOf (dfaProgram d) codePoint) d
        in case tallyAdd (edgeSteps edge) t of
             Inl e \<Rightarrow> Inl e
           | Inr t \<Rightarrow>
               (case target edge of
                  To_Matched \<Rightarrow> Inr (False, d\<lparr>decidedAs := Some True\<rparr>, t)
                | To_Dead \<Rightarrow> Inr (False, d\<lparr>decidedAs := Some False\<rparr>, t)
                | To_State j \<Rightarrow>
                    let d = d\<lparr>stateObject := j\<rparr>
                    in Inr (True, if wantsSimulation d then simulate j d else d, t)))"

definition matchedDfa :: "lazy_dfa \<Rightarrow> bool \<times> lazy_dfa" where
  "matchedDfa d =
     (case decidedAs d of
        Some answer \<Rightarrow> (answer, d)
      | None \<Rightarrow>
          if simulating d then
            let (answer, sim) = endMatches (dfaSimulation d) in (answer, d\<lparr>dfaSimulation := sim\<rparr>)
          else
            let s = objects d ! stateObject d
            in case endMatch s of
                 Some answer \<Rightarrow> (answer, d)
               | None \<Rightarrow>
                   let (answer, sim) =
                         endMatches (loadSimulation (d_positions s) (d_previousKind s) (dfaSimulation d))
                   in (answer,
                       updateObject (stateObject d) (\<lambda>s. s\<lparr>endMatch := Some answer\<rparr>) (d\<lparr>dfaSimulation := sim\<rparr>)))"

definition dfa_ops :: "lazy_dfa matcher_ops" where
  "dfa_ops = \<lparr>beginValue = beginDfa, feedValue = feedDfa, matchedValue = matchedDfa\<rparr>"

end
