(* ===== verification/Lazy_Dfa_Cache.thy ===== *)
theory Lazy_Dfa_Cache
  imports Lazy_Dfa
begin

text \<open>
  The cache of the lazy automaton: keys name states, the equations by which the operations of the
  cache call each other, what every operation of the cache keeps, and its limit.
\<close>

section \<open>Keys name states\<close>

definition is_digit :: "char \<Rightarrow> bool" where
  "is_digit c \<longleftrightarrow> c \<in> digit ` {..<10}"

lemma digit_code: "d < 10 \<Longrightarrow> of_char (digit d) = 48 + d"
  by (simp add: digit_def)

lemma digits_separate: "\<not> is_digit (CHR '':'')" "\<not> is_digit (CHR '','')"
proof -
  have "of_char (CHR '':'') = (58 :: nat)" "of_char (CHR '','') = (44 :: nat)"
    by simp_all
  then show "\<not> is_digit (CHR '':'')" "\<not> is_digit (CHR '','')"
    using digit_code unfolding is_digit_def by force+
qed

lemma digit_is_digit: "d < 10 \<Longrightarrow> is_digit (digit d)"
  by (auto simp: is_digit_def)

lemma decimal_digits: "list_all is_digit (decimal n)"
proof (induction n rule: decimal.induct)
  case (1 n)
  then show ?case
    by (subst decimal.simps) (auto simp: digit_is_digit)
qed

lemma decimal_nonempty: "decimal n \<noteq> []"
  by (subst decimal.simps) simp

fun value_of :: "string \<Rightarrow> nat" where
  "value_of s = foldl (\<lambda>v c. v * 10 + (of_char c - 48)) 0 s"

lemma value_of_decimal: "value_of (decimal n) = n"
proof (induction n rule: decimal.induct)
  case (1 n)
  show ?case
  proof (cases "n < 10")
    case True
    then show ?thesis
      by (subst decimal.simps) (simp add: digit_code)
  next
    case False
    with 1 show ?thesis
      by (subst decimal.simps) (simp add: digit_code)
  qed
qed

lemma decimal_inj: "decimal m = decimal n \<longleftrightarrow> m = n"
  by (metis value_of_decimal)

lemma digits_split:
  assumes "list_all is_digit xs" and "list_all is_digit ys" and "\<not> is_digit x" and "\<not> is_digit y"
    and "xs @ x # us = ys @ y # vs"
  shows "xs = ys \<and> us = vs"
proof -
  have "takeWhile is_digit (xs @ x # us) = xs" "takeWhile is_digit (ys @ y # vs) = ys"
    using assms(1-4) by (simp_all add: takeWhile_append list_all_iff)
  with assms(5) show ?thesis by auto
qed

lemma joined_inj: "joined ps = joined qs \<longleftrightarrow> ps = qs"
proof
  show "ps = qs" if "joined ps = joined qs"
    using that
  proof (induction ps arbitrary: qs rule: joined.induct)
    case 1
    then show ?case
      by (cases qs rule: joined.cases) (simp_all add: decimal_nonempty [symmetric])
  next
    case (2 n)
    have separated: "decimal n \<noteq> xs @ CHR '','' # ys" for xs ys
      using decimal_digits [of n] digits_separate(2) by (auto simp: list_all_iff)
    show ?case
      using 2 separated by (cases qs rule: joined.cases) (simp_all add: decimal_inj decimal_nonempty)
  next
    case (3 n m ns)
    have separated: "xs @ CHR '','' # ys \<noteq> decimal k" for xs ys k
      using decimal_digits [of k] digits_separate(2) by (metis in_set_conv_decomp list_all_iff)
    show ?case
    proof (cases qs rule: joined.cases)
      case (3 k l ls)
      with "3.prems" have "decimal n @ CHR '','' # joined (m # ns) = decimal k @ CHR '','' # joined (l # ls)"
        by simp
      from digits_split [OF decimal_digits decimal_digits digits_separate(2) digits_separate(2) this]
      show ?thesis
        using "3.IH" [of "l # ls"] 3 by (simp add: decimal_inj)
    qed (use "3.prems" separated in \<open>simp_all add: decimal_nonempty\<close>)
  qed
qed simp

lemma stateKey_inj: "stateKey ps k = stateKey qs l \<longleftrightarrow> ps = qs \<and> k = l"
  using digits_split [OF decimal_digits [of k] decimal_digits [of l] digits_separate(1) digits_separate(1),
      of "joined ps" "joined qs"]
  by (auto simp: stateKey_def joined_inj decimal_inj)

section \<open>What the cache keeps\<close>

text \<open>The fields that only the matcher itself changes.\<close>

definition same_run :: "lazy_dfa \<Rightarrow> lazy_dfa \<Rightarrow> bool" where
  "same_run d d' \<longleftrightarrow> dfaProgram d' = dfaProgram d \<and> dfaSimulation d' = dfaSimulation d \<and>
     simulating d' = simulating d \<and> decidedAs d' = decidedAs d \<and> stateObject d' = stateObject d \<and>
     denseClasses d' = denseClasses d \<and> cacheLimitBytes d' = cacheLimitBytes d"

lemma same_run_refl [simp]: "same_run d d"
  by (simp add: same_run_def)

lemma same_run_trans: "same_run d d' \<Longrightarrow> same_run d' d'' \<Longrightarrow> same_run d d''"
  by (simp add: same_run_def)

lemma same_run_updateObject [simp]: "same_run d (updateObject i f d)"
  by (simp add: same_run_def updateObject_def)

lemma updateObject_fields [simp]:
  "dfaStates (updateObject i f d) = dfaStates d" "generation (updateObject i f d) = generation d"
  "cachedBytes (updateObject i f d) = cachedBytes d" "startObject (updateObject i f d) = startObject d"
  "codePointsSinceReset (updateObject i f d) = codePointsSinceReset d"
  "cacheLimitBytes (updateObject i f d) = cacheLimitBytes d"
  "length (objects (updateObject i f d)) = length (objects d)"
  by (simp_all add: updateObject_def)

lemma clearEdges_fields [simp]:
  "dfaStates (clearEdges i d) = dfaStates d" "generation (clearEdges i d) = generation d"
  "cachedBytes (clearEdges i d) = cachedBytes d" "startObject (clearEdges i d) = startObject d"
  "stateObject (clearEdges i d) = stateObject d"
  "codePointsSinceReset (clearEdges i d) = codePointsSinceReset d"
  "cacheLimitBytes (clearEdges i d) = cacheLimitBytes d"
  by (simp_all add: clearEdges_def, simp add: updateObject_def)

lemma fold_clearEdges_fields [simp]:
  "dfaStates (fold clearEdges is d) = dfaStates d" "generation (fold clearEdges is d) = generation d"
  "cachedBytes (fold clearEdges is d) = cachedBytes d" "startObject (fold clearEdges is d) = startObject d"
  "stateObject (fold clearEdges is d) = stateObject d"
  "codePointsSinceReset (fold clearEdges is d) = codePointsSinceReset d"
  "cacheLimitBytes (fold clearEdges is d) = cacheLimitBytes d"
  by (induction "is" arbitrary: d) simp_all

lemma dropCache_fields [simp]:
  "dfaStates (dropCache d) = []" "generation (dropCache d) = generation d" "cachedBytes (dropCache d) = 0"
  "startObject (dropCache d) = startObject d" "codePointsSinceReset (dropCache d) = codePointsSinceReset d"
  "cacheLimitBytes (dropCache d) = cacheLimitBytes d"
  by (simp_all add: dropCache_def Let_def)

section \<open>The calls among the operations of the cache\<close>

lemma reserve_empty: "dfaStates d = [] \<Longrightarrow> reserve bytes d = reserveWithin bytes d"
  by (simp add: reserve_def reserveWithin_def mayRestart_def)

lemma internWith_empty: "dfaStates d = [] \<Longrightarrow> internWith reserveWithin ps k d = intern ps k d"
  by (simp add: intern_def internWith_def reserve_empty)

theorem restartCache_calls:
  "restartCache d =
     (let d = (dropCache d)\<lparr>codePointsSinceReset := 0, generation := generation d + 1\<rparr>;
          old = objects d ! startObject d;
          (start, d) = intern (d_positions old) (d_previousKind old) d
      in d\<lparr>startObject := start\<rparr>)"
  by (simp add: restartCache_def Let_def internWith_empty)

text \<open>A restarted cache holds at most its start.\<close>

lemma restartCache_start:
  assumes "d_generation (objects (restartCache d) ! startObject (restartCache d)) \<noteq> UNCACHED_GENERATION"
  shows "length (dfaStates (restartCache d)) = 1" and "codePointsSinceReset (restartCache d) = 0"
  using assms
  by (auto simp: restartCache_def internWith_def reserveWithin_def addObject_def freshState_def Let_def
      split: if_splits prod.splits)

theorem reserve_calls:
  "reserve bytes d =
     (if cachedBytes d + bytes \<le> cacheLimitBytes d then (True, d\<lparr>cachedBytes := cachedBytes d + bytes\<rparr>)
      else if length (dfaStates d) = 0 \<or>
          codePointsSinceReset d < MATCHER_MIN_CODE_POINTS_PER_STATE * length (dfaStates d) then (False, d)
      else let d = restartCache d
           in if d_generation (objects d ! startObject d) = UNCACHED_GENERATION then (False, d)
              else reserve bytes d)"
proof -
  have "reserveWithin bytes (restartCache d) = reserve bytes (restartCache d)"
    if "d_generation (objects (restartCache d) ! startObject (restartCache d)) \<noteq> UNCACHED_GENERATION"
    using restartCache_start [OF that]
    by (simp add: reserve_def reserveWithin_def mayRestart_def MATCHER_MIN_CODE_POINTS_PER_STATE_def)
  then show ?thesis
    by (subst reserve_def) (simp add: mayRestart_def Let_def)
qed

end
