(* ===== verification/Lazy_Dfa_Matcher.thy ===== *)
theory Lazy_Dfa_Matcher
  imports Lazy_Dfa_Cache
begin

text \<open>
  The lazy automaton answers like the simulation. Every object keeps its positions and kind for
  ever, whatever happens to the cache, so an edge once found stays right: it leads where the
  simulation leads from these positions, for every code point of its class. The automaton is an
  interpretation of \<open>value_matcher\<close>.
\<close>

section \<open>What objects and edges mean\<close>

type_synonym dfa_name = "nat list \<times> nat"

definition name_of :: "dfa_state \<Rightarrow> dfa_name" where
  "name_of s = (d_positions s, d_previousKind s)"

definition names :: "lazy_dfa \<Rightarrow> dfa_name list" where
  "names d = map name_of (objects d)"

lemma names_fields [simp]:
  "names (d\<lparr>dfaStates := m\<rparr>) = names d" "names (d\<lparr>cachedBytes := bytes\<rparr>) = names d"
  "names (d\<lparr>generation := g\<rparr>) = names d" "names (d\<lparr>codePointsSinceReset := n\<rparr>) = names d"
  "names (d\<lparr>startObject := i\<rparr>) = names d" "names (d\<lparr>stateObject := i\<rparr>) = names d"
  "names (d\<lparr>simulating := b\<rparr>) = names d" "names (d\<lparr>decidedAs := a\<rparr>) = names d"
  "names (d\<lparr>dfaSimulation := s\<rparr>) = names d"
  by (simp_all add: names_def)

lemma length_names [simp]: "length (names d) = length (objects d)"
  by (simp add: names_def)

lemma nth_names: "i < length (objects d) \<Longrightarrow> names d ! i = name_of (objects d ! i)"
  by (simp add: names_def)

definition name_ok :: "program \<Rightarrow> dfa_name \<Rightarrow> bool" where
  "name_ok P = (\<lambda>(ps, k). sorted ps \<and> distinct ps \<and> set ps \<subseteq> {..<positions P} \<and> k < 3)"

definition name_front :: "program \<Rightarrow> dfa_name \<Rightarrow> nat \<Rightarrow> nat set" where
  "name_front P = (\<lambda>(ps, k) following. front P (contextOf k following) (set ps))"

definition edge_right :: "program \<Rightarrow> dfa_name list \<Rightarrow> dfa_name \<Rightarrow> code_point \<Rightarrow> dfa_edge \<Rightarrow> bool" where
  "edge_right P ns n c e \<longleftrightarrow>
     (let F = name_front P n (kindOf c)
      in edgeSteps e = (if hits P F then 0 else card {p \<in> F. kinds P ! p = CONSUME_STATE}) \<and>
         (case target e of
            To_Matched \<Rightarrow> hits P F
          | To_Dead \<Rightarrow> \<not> hits P F \<and> anchoredStart P \<and> kept P c F = {}
          | To_State j \<Rightarrow> \<not> hits P F \<and> j < length ns \<and> set (fst (ns ! j)) = kept P c F \<and> snd (ns ! j) = kindOf c))"

definition right_for :: "program \<Rightarrow> dfa_name list \<Rightarrow> dfa_name \<Rightarrow> int \<Rightarrow> dfa_edge \<Rightarrow> bool" where
  "right_for P ns n codePointClass e \<longleftrightarrow> (\<forall>c. classOf P c = codePointClass \<longrightarrow> edge_right P ns n c e)"

definition object_ok :: "program \<Rightarrow> nat \<Rightarrow> dfa_name list \<Rightarrow> dfa_state \<Rightarrow> bool" where
  "object_ok P classCount ns s \<longleftrightarrow>
     name_ok P (name_of s) \<and>
     (\<forall>answer. endMatch s = Some answer \<longrightarrow> answer = hits P (name_front P (name_of s) AFTER_VALUE_END)) \<and>
     (\<forall>edges. denseEdges s = Some edges \<longrightarrow> length edges = classCount \<and>
        (\<forall>i < classCount. \<forall>e. edges ! i = Some e \<longrightarrow> right_for P ns (name_of s) (int i) e)) \<and>
     (\<forall>edges. sparseEdges s = Some edges \<longrightarrow>
        (\<forall>i e. mapGet edges i = Some e \<longrightarrow> right_for P ns (name_of s) i e))"

definition named_by :: "dfa_name list \<Rightarrow> string \<Rightarrow> nat \<Rightarrow> bool" where
  "named_by ns key i \<longleftrightarrow> i < length ns \<and> key = stateKey (fst (ns ! i)) (snd (ns ! i))"

definition store_ok :: "lazy_dfa \<Rightarrow> bool" where
  "store_ok d \<longleftrightarrow>
     (\<forall>s \<in> set (objects d). object_ok (dfaProgram d) (denseClasses d) (names d) s) \<and>
     (\<forall>key i. mapGet (dfaStates d) key = Some i \<longrightarrow> named_by (names d) key i) \<and>
     0 \<le> cachedBytes d \<and> cachedBytes d \<le> max 0 (cacheLimitBytes d)"

definition cache_ok :: "lazy_dfa \<Rightarrow> bool" where
  "cache_ok d \<longleftrightarrow> store_ok d \<and> startObject d < length (names d) \<and> names d ! startObject d = ([], BEFORE_VALUE_START)"

text \<open>Objects are never lost or renamed.\<close>

definition later :: "lazy_dfa \<Rightarrow> lazy_dfa \<Rightarrow> bool" where
  "later d d' \<longleftrightarrow> same_run d d' \<and> (\<exists>ns. names d' = names d @ ns)"

lemma later_refl [simp]: "later d d"
  by (simp add: later_def)

lemma later_trans: "later d d' \<Longrightarrow> later d' d'' \<Longrightarrow> later d d''"
  by (auto simp: later_def intro: same_run_trans)

lemma later_name: "later d d' \<Longrightarrow> i < length (names d) \<Longrightarrow> i < length (names d') \<and> names d' ! i = names d ! i"
  by (auto simp: later_def nth_append simp del: length_names)

lemma later_object: "later d d' \<Longrightarrow> i < length (objects d) \<Longrightarrow>
    i < length (objects d') \<and> name_of (objects d' ! i) = name_of (objects d ! i)"
  by (metis later_name length_names nth_names)

lemma later_program: "later d d' \<Longrightarrow> dfaProgram d' = dfaProgram d"
  by (simp add: later_def same_run_def)

lemma edge_right_append: "edge_right P ns n c e \<Longrightarrow> edge_right P (ns @ ms) n c e"
  by (auto simp: edge_right_def Let_def nth_append split: dfa_target.splits)

lemma object_ok_append: "object_ok P classCount ns s \<Longrightarrow> object_ok P classCount (ns @ ms) s"
  unfolding object_ok_def right_for_def using edge_right_append by blast

section \<open>Operations on objects\<close>

lemma names_updateObject:
  assumes "\<And>s. name_of (f s) = name_of s"
  shows "names (updateObject i f d) = names d"
  by (cases "i < length (objects d)")
    (simp_all add: names_def updateObject_def map_update assms list_update_same_conv list_update_beyond)

lemma updateObject_ok:
  assumes "\<And>s. name_of (f s) = name_of s" and "store_ok d"
    and "i < length (objects d) \<Longrightarrow> object_ok (dfaProgram d) (denseClasses d) (names d) (f (objects d ! i))"
  shows "store_ok (updateObject i f d)" and "later d (updateObject i f d)"
proof -
  have names: "names (updateObject i f d) = names d"
    by (rule names_updateObject [OF assms(1)])
  then show "later d (updateObject i f d)"
    by (simp add: later_def)
  have "object_ok (dfaProgram d) (denseClasses d) (names d) s" if "s \<in> set (objects (updateObject i f d))" for s
  proof -
    have "s \<in> set (objects d) \<or> (i < length (objects d) \<and> s = f (objects d ! i))"
      using that by (cases "i < length (objects d)") (auto simp: updateObject_def list_update_beyond dest: set_update_subset_insert [THEN subsetD])
    with assms(2,3) show ?thesis by (auto simp: store_ok_def)
  qed
  with assms(2) names show "store_ok (updateObject i f d)"
    by (simp add: store_ok_def) (simp add: updateObject_def)
qed

lemma updateObject_cache_ok:
  assumes "\<And>s. name_of (f s) = name_of s" and "cache_ok d"
    and "i < length (objects d) \<Longrightarrow> object_ok (dfaProgram d) (denseClasses d) (names d) (f (objects d ! i))"
  shows "cache_ok (updateObject i f d)"
  using assms(2) updateObject_ok(1) [OF assms(1) _ assms(3)] names_updateObject [OF assms(1)]
  by (simp add: cache_ok_def)

lemma store_ok_object: "store_ok d \<Longrightarrow> i < length (objects d) \<Longrightarrow>
    object_ok (dfaProgram d) (denseClasses d) (names d) (objects d ! i)"
  by (simp add: store_ok_def)

lemma clearEdges_ok: "store_ok d \<Longrightarrow> store_ok (clearEdges i d) \<and> later d (clearEdges i d)"
  using updateObject_ok [of "\<lambda>s. s\<lparr>denseEdges := None, sparseEdges := None\<rparr>" d i] store_ok_object [of d i]
  by (simp add: clearEdges_def name_of_def object_ok_def)

lemma fold_clearEdges_ok: "store_ok d \<Longrightarrow> store_ok (fold clearEdges is d) \<and> later d (fold clearEdges is d)"
proof (induction "is" arbitrary: d)
  case (Cons i "is")
  with clearEdges_ok [of d i] show ?case
    using later_trans by fastforce
qed simp

lemma dropCache_ok:
  assumes "store_ok d"
  shows "store_ok (dropCache d)" and "later d (dropCache d)"
proof -
  let ?e = "clearEdges (stateObject d) (clearEdges (startObject d) (fold clearEdges (map snd (dfaStates d)) d))"
  have "store_ok ?e" "later d ?e"
    using fold_clearEdges_ok [OF assms] clearEdges_ok later_trans by metis+
  moreover have "dropCache d = ?e\<lparr>dfaStates := [], cachedBytes := 0\<rparr>"
    by (simp add: dropCache_def Let_def)
  ultimately show "store_ok (dropCache d)" "later d (dropCache d)"
    by (simp_all add: store_ok_def later_def same_run_def)
qed

lemma freshState_ok: "name_ok P (ps, k) \<Longrightarrow> object_ok P classCount ns (freshState ps k g)"
  by (simp add: object_ok_def freshState_def name_of_def)

lemma addObject_ok:
  assumes "store_ok d" and "name_ok (dfaProgram d) (ps, k)" and "addObject (freshState ps k g) d = (i, d')"
  shows "store_ok d' \<and> later d d' \<and> i < length (names d') \<and> names d' ! i = (ps, k) \<and>
    d' = d\<lparr>objects := objects d @ [freshState ps k g]\<rparr>"
proof -
  have d': "i = length (objects d)" "d' = d\<lparr>objects := objects d @ [freshState ps k g]\<rparr>"
    using assms(3) by (simp_all add: addObject_def)
  then have names: "names d' = names d @ [(ps, k)]"
    by (simp add: names_def freshState_def name_of_def)
  have "object_ok (dfaProgram d) (denseClasses d) (names d') s" if "s \<in> set (objects d')" for s
    using that assms(1) freshState_ok [OF assms(2)] object_ok_append unfolding names
    by (auto simp: d' store_ok_def)
  moreover have "named_by (names d') key i" if "mapGet (dfaStates d') key = Some i" for key i
  proof -
    from that assms(1) have "named_by (names d) key i"
      by (simp add: d' store_ok_def)
    then show ?thesis
      unfolding names by (auto simp: named_by_def nth_append)
  qed
  ultimately have "store_ok d'"
    using assms(1) by (simp add: store_ok_def d')
  moreover have "names d' ! i = (ps, k)" "i < length (names d')"
    unfolding names by (simp_all add: d'(1) nth_append)
  moreover have "later d d'"
    unfolding later_def names by (simp add: d'(2) same_run_def)
  ultimately show ?thesis
    using d' by simp
qed

section \<open>Operations on the cache\<close>

definition reserves :: "(int \<Rightarrow> lazy_dfa \<Rightarrow> bool \<times> lazy_dfa) \<Rightarrow> lazy_dfa \<Rightarrow> bool" where
  "reserves r d \<longleftrightarrow> (\<forall>bytes reserved d'. 0 \<le> bytes \<longrightarrow> r bytes d = (reserved, d') \<longrightarrow> store_ok d' \<and> later d d')"

lemma stateBytes_nonneg: "0 \<le> stateBytes ps key"
  by (simp add: stateBytes_def MATCHER_STATE_OVERHEAD_BYTES_def BYTES_PER_ELEMENT_def MATCHER_KEY_CHARACTER_BYTES_def)

lemma internWith_ok:
  assumes "store_ok d" and "reserves r d" and "name_ok (dfaProgram d) (ps, k)" and "internWith r ps k d = (i, d')"
  shows "store_ok d' \<and> later d d' \<and> i < length (names d') \<and> names d' ! i = (ps, k)"
proof (cases "mapGet (dfaStates d) (stateKey ps k)")
  case (Some j)
  with assms(4) have "i = j" "d' = d"
    by (simp_all add: internWith_def)
  moreover from Some assms(1) have "named_by (names d) (stateKey ps k) j"
    by (auto simp: store_ok_def)
  ultimately show ?thesis
    using assms(1) by (simp add: named_by_def stateKey_inj prod_eq_iff)
next
  case None
  obtain reserved e where r: "r (stateBytes ps (stateKey ps k)) d = (reserved, e)"
    by (cases "r (stateBytes ps (stateKey ps k)) d")
  with assms(2) stateBytes_nonneg have e: "store_ok e" "later d e"
    by (auto simp: reserves_def)
  then have ok: "name_ok (dfaProgram e) (ps, k)"
    using assms(3) by (simp add: later_program)
  show ?thesis
  proof (cases reserved)
    case False
    with assms(4) None r have "addObject (freshState ps k UNCACHED_GENERATION) e = (i, d')"
      by (simp add: internWith_def)
    from addObject_ok [OF e(1) ok this] e(2) show ?thesis
      by (blast intro: later_trans)
  next
    case True
    obtain j f where a: "addObject (freshState ps k (generation e)) e = (j, f)"
      by (cases "addObject (freshState ps k (generation e)) e")
    note f = addObject_ok [OF e(1) ok a]
    from True assms(4) None r a have d': "i = j" "d' = f\<lparr>dfaStates := mapSet (stateKey ps k) j (dfaStates f)\<rparr>"
      by (auto simp: internWith_def)
    have "names d' = names f"
      by (simp add: d' names_def)
    moreover have "named_by (names f) (stateKey ps k) j"
    proof -
      from f have "j < length (names f)" "names f ! j = (ps, k)"
        by blast+
      then show ?thesis by (simp add: named_by_def)
    qed
    ultimately have "store_ok d'"
      using f by (auto simp: store_ok_def d'(2) update_conv')
    moreover have "later f d'"
      by (simp add: later_def same_run_def \<open>names d' = names f\<close>) (simp add: d')
    ultimately show ?thesis
      using f e(2) \<open>names d' = names f\<close> d'(1) by (auto intro: later_trans)
  qed
qed

lemma reserveWithin_reserves: "store_ok d \<Longrightarrow> reserves reserveWithin d"
  by (auto simp: reserves_def reserveWithin_def store_ok_def later_def same_run_def split: if_splits)

lemma start_name_ok: "name_ok P ([], BEFORE_VALUE_START)"
  by (simp add: name_ok_def BEFORE_VALUE_START_def)

lemma restartCache_ok:
  assumes "cache_ok d"
  shows "cache_ok (restartCache d)" and "later d (restartCache d)"
proof -
  define e where "e = (dropCache d)\<lparr>codePointsSinceReset := 0, generation := generation d + 1\<rparr>"
  have drop: "store_ok (dropCache d)" "later d (dropCache d)"
    using assms dropCache_ok by (simp_all add: cache_ok_def)
  then have e: "store_ok e" "later d e" "startObject e = startObject d"
    by (simp_all add: e_def store_ok_def later_def same_run_def)
  from later_name [OF e(2), of "startObject d"] assms
  have "startObject e < length (objects e)" "names e ! startObject e = ([], BEFORE_VALUE_START)"
    by (simp_all add: cache_ok_def e(3))
  then have "name_of (objects e ! startObject e) = ([], BEFORE_VALUE_START)"
    by (simp add: nth_names)
  then have old: "d_positions (objects e ! startObject e) = []" "d_previousKind (objects e ! startObject e) = BEFORE_VALUE_START"
    by (simp_all add: name_of_def)
  obtain i f where f: "internWith reserveWithin [] BEFORE_VALUE_START e = (i, f)"
    by (cases "internWith reserveWithin [] BEFORE_VALUE_START e")
  have "restartCache d = (case internWith reserveWithin (d_positions (objects e ! startObject e))
      (d_previousKind (objects e ! startObject e)) e of (start, d) \<Rightarrow> d\<lparr>startObject := start\<rparr>)"
    by (simp add: restartCache_def Let_def e_def)
  then have "restartCache d = f\<lparr>startObject := i\<rparr>"
    by (simp add: old f)
  with internWith_ok [OF e(1) reserveWithin_reserves [OF e(1)] start_name_ok f] e(2)
  show "cache_ok (restartCache d)" "later d (restartCache d)"
    by (auto simp: cache_ok_def store_ok_def later_def same_run_def)
qed

lemma reserve_ok:
  assumes "cache_ok d" and "0 \<le> bytes" and "reserve bytes d = (reserved, d')"
  shows "cache_ok d'" and "later d d'"
proof -
  have within: "cache_ok e'" "later e e'"
    if "cache_ok e" "reserveWithin bytes e = (r, e')" for e e' r
    using that assms(2)
    by (auto simp: reserveWithin_def cache_ok_def store_ok_def later_def same_run_def split: if_splits)
  note restart = restartCache_ok [OF assms(1)]
  show "cache_ok d'" "later d d'"
    using assms(3) within [OF assms(1)] within [OF restart(1)] restart assms(1) later_trans [OF restart(2)]
    by (auto simp: reserve_def reserveWithin_def [of bytes d] Let_def split: if_splits)
qed

lemma intern_ok:
  assumes "cache_ok d" and "name_ok (dfaProgram d) (ps, k)" and "intern ps k d = (i, d')"
  shows "cache_ok d' \<and> later d d' \<and> i < length (names d') \<and> names d' ! i = (ps, k)"
proof -
  have "reserves reserve d"
    using reserve_ok [OF assms(1)] by (auto simp: reserves_def cache_ok_def)
  moreover have "store_ok d"
    using assms(1) by (simp add: cache_ok_def)
  ultimately have i: "store_ok d' \<and> later d d' \<and> i < length (names d') \<and> names d' ! i = (ps, k)"
    using internWith_ok [OF _ _ assms(2)] assms(3) by (simp add: intern_def)
  moreover have "startObject d' < length (names d') \<and> names d' ! startObject d' = ([], BEFORE_VALUE_START)"
  proof (cases "mapGet (dfaStates d) (stateKey ps k)")
    case (Some j)
    with assms(1,3) show ?thesis
      by (simp add: intern_def internWith_def cache_ok_def)
  next
    case None
    obtain reserved e where r: "reserve (stateBytes ps (stateKey ps k)) d = (reserved, e)"
      by (cases "reserve (stateBytes ps (stateKey ps k)) d")
    from reserve_ok [OF assms(1) stateBytes_nonneg r] have "cache_ok e"
      by simp
    with None r assms(3) show ?thesis
      by (auto simp: intern_def internWith_def addObject_def cache_ok_def names_def nth_append split: if_splits)
  qed
  ultimately show ?thesis
    by (simp add: cache_ok_def)
qed

section \<open>Finding and keeping edges\<close>

definition dfa_ok :: "lazy_dfa \<Rightarrow> bool" where
  "dfa_ok d \<longleftrightarrow>
     cache_ok d \<and> stateObject d < length (objects d) \<and>
     program_ok (dfaProgram d) \<and> (anchoredStart (dfaProgram d) \<longrightarrow> only_at_start (dfaProgram d)) \<and>
     classes_ok (dfaProgram d) \<and> sim_ok (dfaSimulation d) \<and> s_program (dfaSimulation d) = dfaProgram d"

lemma name_front_below:
  assumes "program_ok P" and "name_ok P n"
  shows "name_front P n following \<subseteq> {..<states P}"
  using assms front_below [OF assms(1)] by (auto simp: name_front_def name_ok_def split: prod.splits)

text \<open>What holds for one code point of a class holds for all of them.\<close>

lemma edge_right_class:
  assumes "program_ok P" and "classes_ok P" and "name_ok P n" and "edge_right P ns n c e"
  shows "right_for P ns n (classOf P c) e"
  unfolding right_for_def
proof (intro allI impI)
  fix c'
  assume "classOf P c' = classOf P c"
  then have kind: "kindOf c' = kindOf c" and accept: "\<And>p. p < positions P \<Longrightarrow> accepts P p c' = accepts P p c"
    using assms(2) unfolding classes_ok_def by blast+
  have "kept P c' F = kept P c F" if "F \<subseteq> {..<states P}" for F
    unfolding kept_def using accept kept_positions [OF assms(1) _ that] by blast
  from this [OF name_front_below [OF assms(1,3)]] assms(4) kind show "edge_right P ns n c' e"
    by (simp add: edge_right_def Let_def split: dfa_target.splits)
qed

lemma right_for_later: "right_for P (names d) n i e \<Longrightarrow> later d d' \<Longrightarrow> right_for P (names d') n i e"
  unfolding right_for_def later_def using edge_right_append by fastforce

lemma storeSparse_ok:
  "object_ok P classCount ns s \<Longrightarrow> right_for P ns (name_of s) i e \<Longrightarrow> object_ok P classCount ns (storeSparse i e s)"
  by (auto simp: object_ok_def storeSparse_def name_of_def update_conv' split: option.splits if_splits)

lemma storeDense_ok:
  assumes "object_ok P classCount ns s" and "right_for P ns (name_of s) i e" and "0 \<le> i" and "i < int classCount"
  shows "object_ok P classCount ns (storeDense classCount i e s)"
proof -
  define edges where "edges = (case denseEdges s of Some edges \<Rightarrow> edges | None \<Rightarrow> replicate classCount None)"
  have edges: "length edges = classCount" "\<forall>j < classCount. \<forall>e. edges ! j = Some e \<longrightarrow> right_for P ns (name_of s) (int j) e"
    using assms(1) by (auto simp: edges_def object_ok_def split: option.splits)
  have "name_of (s\<lparr>denseEdges := x\<rparr>) = name_of s" for x
    by (simp add: name_of_def)
  with assms edges show ?thesis
    by (auto simp: object_ok_def storeDense_def nth_list_update simp flip: edges_def)
qed

lemma keepEdge_ok:
  assumes "cache_ok d" and "i < length (objects d)" and "dense \<longrightarrow> 0 \<le> cl \<and> cl < int (denseClasses d)"
    and "right_for (dfaProgram d) (names d) (name_of (objects d ! i)) cl e"
  shows "cache_ok (keepEdge i current dense cl e d)" and "later d (keepEdge i current dense cl e d)"
proof -
  have sparse: "cache_ok (updateObject i (storeSparse cl e) d') \<and> later d (updateObject i (storeSparse cl e) d')"
    if d': "cache_ok d'" "later d d'" for d'
  proof -
    have name: "name_of (storeSparse cl e s) = name_of s" for s
      by (simp add: storeSparse_def name_of_def)
    have "i < length (objects d')" "name_of (objects d' ! i) = name_of (objects d ! i)"
      using later_object [OF d'(2) assms(2)] by simp_all
    then have "object_ok (dfaProgram d') (denseClasses d') (names d') (storeSparse cl e (objects d' ! i))"
      using right_for_later [OF assms(4) d'(2)] later_program [OF d'(2)] store_ok_object [of d' i] d'(1)
      by (intro storeSparse_ok) (simp_all add: cache_ok_def)
    with updateObject_cache_ok [OF name d'(1)] updateObject_ok(2) [OF name] d' later_trans [OF d'(2)] show ?thesis
      by (simp add: cache_ok_def)
  qed
  have dense: "cache_ok (updateObject i (storeDense (denseClasses d') cl e) d') \<and>
      later d (updateObject i (storeDense (denseClasses d') cl e) d')"
    if d': "cache_ok d'" "later d d'" and "dense" for d'
  proof -
    have name: "name_of (storeDense n cl e s) = name_of s" for s n
      by (simp add: storeDense_def name_of_def Let_def)
    have "i < length (objects d')" "name_of (objects d' ! i) = name_of (objects d ! i)"
      using later_object [OF d'(2) assms(2)] by simp_all
    moreover have "denseClasses d' = denseClasses d"
      using d'(2) by (simp add: later_def same_run_def)
    ultimately have "object_ok (dfaProgram d') (denseClasses d') (names d') (storeDense (denseClasses d') cl e (objects d' ! i))"
      using right_for_later [OF assms(4) d'(2)] later_program [OF d'(2)] store_ok_object [of d' i] d'(1) assms(3) \<open>dense\<close>
      by (intro storeDense_ok) (simp_all add: cache_ok_def)
    with updateObject_cache_ok [OF name d'(1)] updateObject_ok(2) [OF name] d' later_trans [OF d'(2)] show ?thesis
      by (simp add: cache_ok_def)
  qed
  have "cache_ok (keepEdge i current dense cl e d) \<and> later d (keepEdge i current dense cl e d)"
  proof (cases "\<not> current \<or> d_generation (objects d ! i) \<noteq> generation d \<or> \<not> targetCached d (target e)")
    case True
    then have "keepEdge i current dense cl e d = d"
      by (simp add: keepEdge_def)
    with assms(1) show ?thesis by simp
  next
    case False
    obtain r d1 where r1: "reserve MATCHER_TRANSITION_BYTES d = (r, d1)"
      by (cases "reserve MATCHER_TRANSITION_BYTES d")
    have d1: "cache_ok d1" "later d d1"
      using reserve_ok [OF assms(1) _ r1] by (simp_all add: MATCHER_TRANSITION_BYTES_def)
    obtain q d2 where r2: "reserve (int (denseClasses d1) * MATCHER_EDGE_SLOT_BYTES) d1 = (q, d2)"
      by (cases "reserve (int (denseClasses d1) * MATCHER_EDGE_SLOT_BYTES) d1")
    have d2: "cache_ok d2" "later d d2"
      using reserve_ok [OF d1(1) _ r2] later_trans [OF d1(2)] by (simp_all add: MATCHER_EDGE_SLOT_BYTES_def)
    from False r1 r2 have
      "keepEdge i current dense cl e d \<in> {d1, d2, updateObject i (storeSparse cl e) d1} \<or>
       (dense \<and> keepEdge i current dense cl e d \<in>
          {updateObject i (storeDense (denseClasses d1) cl e) d1, updateObject i (storeDense (denseClasses d2) cl e) d2})"
      by (simp add: keepEdge_def)
    with d1 d2 sparse [OF d1] dense [OF d1] dense [OF d2] show ?thesis
      by auto
  qed
  then show "cache_ok (keepEdge i current dense cl e d)" "later d (keepEdge i current dense cl e d)"
    by simp_all
qed

text \<open>Loading the simulation with the positions of an object, and following an edge.\<close>

lemma load_ok:
  assumes "sim_ok sim" and "name_ok (s_program sim) n"
  shows "sim_ok (loadSimulation (fst n) (snd n) sim)"
  using assms by (auto simp: sim_ok_def loadSimulation_def name_ok_def split: prod.splits)

lemma object_name_ok: "cache_ok d \<Longrightarrow> i < length (objects d) \<Longrightarrow> name_ok (dfaProgram d) (name_of (objects d ! i))"
  using store_ok_object [of d i] by (simp add: cache_ok_def object_ok_def)

lemma cachedEdge_right:
  assumes "object_ok P classCount ns s" and "dense \<longrightarrow> 0 \<le> cl \<and> cl < int classCount" and "cachedEdge s dense cl = Some e"
  shows "right_for P ns (name_of s) cl e"
proof (cases dense)
  case True
  with assms(2) have cl: "nat cl < classCount" "int (nat cl) = cl"
    by (simp_all add: nat_less_iff)
  from True assms(3) obtain edges where "denseEdges s = Some edges" "edges ! nat cl = Some e"
    by (auto simp: cachedEdge_def split: option.splits)
  with assms(1) cl(1) have "right_for P ns (name_of s) (int (nat cl)) e"
    unfolding object_ok_def by blast
  with cl(2) show ?thesis by simp
next
  case False
  with assms(1,3) show ?thesis
    by (auto simp: object_ok_def cachedEdge_def split: option.splits)
qed

lemma edgeFrom_ok:
  assumes ok: "dfa_ok d" and i: "i < length (objects d)"
    and res: "edgeFrom i c (classOf (dfaProgram d) c) d = (e, d')"
  shows "\<exists>sim. sim_ok sim \<and> s_program sim = dfaProgram d \<and> later (d\<lparr>dfaSimulation := sim\<rparr>) d' \<and> cache_ok d' \<and>
    edge_right (dfaProgram d) (names d') (name_of (objects d ! i)) c e"
proof -
  let ?P = "dfaProgram d" and ?s = "objects d ! i" and ?n = "name_of (objects d ! i)"
  let ?cl = "classOf ?P c"
  define current where "current = (d_generation ?s = generation d)"
  define dense where "dense = (0 \<le> ?cl \<and> ?cl < int (denseClasses d))"
  have cache: "cache_ok d" and P: "program_ok ?P" "classes_ok ?P" and sim: "sim_ok (dfaSimulation d)" "s_program (dfaSimulation d) = ?P"
    using ok by (simp_all add: dfa_ok_def)
  note n = object_name_ok [OF cache i]
  show ?thesis
  proof (cases "if current then cachedEdge ?s dense ?cl else None")
    case (Some cached)
    with res have "e = cached" "d' = d"
      by (simp_all add: edgeFrom_def Let_def flip: current_def dense_def)
    moreover have "object_ok ?P (denseClasses d) (names d) ?s"
      using store_ok_object [OF _ i] cache by (simp add: cache_ok_def)
    from cachedEdge_right [OF this, of dense ?cl cached] Some have "right_for ?P (names d) ?n ?cl cached"
      by (auto simp: dense_def split: if_splits)
    ultimately show ?thesis
      using sim cache by (intro exI [of _ "dfaSimulation d"]) (simp add: right_for_def)
  next
    case None
    define loaded where "loaded = loadSimulation (d_positions ?s) (d_previousKind ?s) (dfaSimulation d)"
    obtain outcome sim' where step: "stepSimulation c loaded = (outcome, sim')"
      by (cases "stepSimulation c loaded")
    have "sim_ok loaded"
      using load_ok [OF sim(1), of ?n] n sim(2) by (simp add: loaded_def name_of_def)
    note front = stepSimulation_front [OF this step]
    have F: "front ?P (contextOf (s_previousKind loaded) (kindOf c)) (set (s_after loaded)) =
        name_front ?P ?n (kindOf c)"
      by (simp add: loaded_def loadSimulation_def sim(2) name_front_def name_of_def)
    have sP: "s_program loaded = ?P"
      by (simp add: loaded_def loadSimulation_def sim(2))
    note front = front [unfolded sP F]
    let ?F = "name_front ?P ?n (kindOf c)"
    define d0 where "d0 = d\<lparr>dfaSimulation := sim'\<rparr>"
    have d0: "cache_ok d0" "names d0 = names d" "dfaProgram d0 = ?P" "objects d0 = objects d" "denseClasses d0 = denseClasses d"
      using cache by (simp_all add: d0_def cache_ok_def store_ok_def)
    define found where "found = (case outcome of
        Step_Dead \<Rightarrow> (To_Dead, d0)
      | Step_Matched \<Rightarrow> (To_Matched, d0)
      | Step_Continues \<Rightarrow> (let (j, d) = intern (sortedAfter sim') (s_previousKind sim') d0 in (To_State j, d)))"
    obtain t d1 where td: "found = (t, d1)"
      by (cases found)
    have "edgeFrom i c ?cl d = (case found of (t, d1) \<Rightarrow>
        (\<lparr>target = t, edgeSteps = s_steps sim'\<rparr>, keepEdge i current dense ?cl \<lparr>target = t, edgeSteps = s_steps sim'\<rparr> d1))"
      unfolding edgeFrom_def Let_def current_def [symmetric] dense_def [symmetric] loaded_def [symmetric] found_def d0_def
      by (simp only: None step option.case prod.case)
    with res td have e: "e = \<lparr>target = t, edgeSteps = s_steps sim'\<rparr>" and d': "d' = keepEdge i current dense ?cl e d1"
      by auto
    have d1: "cache_ok d1 \<and> later d0 d1 \<and> edge_right ?P (names d1) ?n c e"
    proof (cases outcome)
      case Step_Continues
      obtain j d2 where j: "intern (sortedAfter sim') (s_previousKind sim') d0 = (j, d2)"
        by (cases "intern (sortedAfter sim') (s_previousKind sim') d0")
      with Step_Continues td have t: "t = To_State j" "d2 = d1"
        by (simp_all add: found_def)
      have "name_ok ?P (sortedAfter sim', s_previousKind sim')"
        using front by (auto simp: name_ok_def sortedAfter_def sim_ok_def)
      then have "cache_ok d1 \<and> later d0 d1 \<and> j < length (names d1) \<and> names d1 ! j = (sortedAfter sim', s_previousKind sim')"
        using intern_ok [OF d0(1)] j t(2) d0(3) by simp
      moreover have "\<not> hits ?P ?F" "set (sortedAfter sim') = kept ?P c ?F" "s_previousKind sim' = kindOf c"
        using front Step_Continues by (simp_all add: sortedAfter_def)
      ultimately show ?thesis
        unfolding edge_right_def Let_def e t(1) using front by simp
    next
      case Step_Matched
      with td have "t = To_Matched" "d1 = d0"
        by (simp_all add: found_def)
      moreover have "hits ?P ?F" "s_steps sim' = 0"
        using front Step_Matched by simp_all
      ultimately show ?thesis
        unfolding edge_right_def Let_def e using d0(1) by simp
    next
      case Step_Dead
      with td have "t = To_Dead" "d1 = d0"
        by (simp_all add: found_def)
      moreover have "\<not> hits ?P ?F" "anchoredStart ?P" "kept ?P c ?F = {}"
        using front Step_Dead by blast+
      moreover have "s_steps sim' = card {p \<in> ?F. kinds ?P ! p = CONSUME_STATE}"
        using front \<open>\<not> hits ?P ?F\<close> by simp
      ultimately show ?thesis
        unfolding edge_right_def Let_def e using d0(1) by simp
    qed
    then have later: "later d0 d1"
      by simp
    have i1: "i < length (objects d1)" "name_of (objects d1 ! i) = ?n"
      using later_object [OF later, of i] i by (simp_all add: d0(4))
    have i2: "dfaProgram d1 = ?P" "denseClasses d1 = denseClasses d"
      using later d0 by (simp_all add: later_def same_run_def)
    have "right_for (dfaProgram d1) (names d1) (name_of (objects d1 ! i)) ?cl e"
      using edge_right_class [OF P n] d1 unfolding i1(2) i2(1) by blast
    from keepEdge_ok [OF _ i1(1) _ this, of dense current] d1
    have keep: "cache_ok d'" "later d1 d'"
      by (simp_all add: d' dense_def i2(2))
    then have "edge_right ?P (names d') ?n c e"
      using d1 edge_right_append unfolding later_def by fastforce
    moreover have "later d0 d'"
      using d1 keep(2) by (blast intro: later_trans)
    ultimately show ?thesis
      using front keep(1) unfolding d0_def by blast
  qed
qed

section \<open>The interpretation\<close>

definition dfa_reading :: "lazy_dfa \<Rightarrow> code_point list \<Rightarrow> bool" where
  "dfa_reading d w \<longleftrightarrow>
     dfa_ok d \<and> decidedAs d = None \<and> unhit (dfaProgram d) w \<and>
     (if simulating d then sim_reads (dfaSimulation d) w
      else set (d_positions (objects d ! stateObject d)) = live (dfaProgram d) w \<and>
           d_previousKind (objects d ! stateObject d) = kind_before w (length w))"

definition dfa_decided :: "lazy_dfa \<Rightarrow> bool \<Rightarrow> bool" where
  "dfa_decided d answer \<longleftrightarrow> dfa_ok d \<and> decidedAs d = Some answer"

definition dfa_spec :: "lazy_dfa \<Rightarrow> code_point list \<Rightarrow> bool" where
  "dfa_spec d = value_hits (dfaProgram d)"

definition dfa_work :: "lazy_dfa \<Rightarrow> nat" where
  "dfa_work d = positions (dfaProgram d)"

lemma simulate_ok:
  assumes "dfa_ok d" and "i < length (objects d)"
  shows "dfa_ok (simulate i d)" and "dfaProgram (simulate i d) = dfaProgram d" and "simulating (simulate i d)"
    and "decidedAs (simulate i d) = decidedAs d"
    and "dfaSimulation (simulate i d) = loadSimulation (d_positions (objects d ! i)) (d_previousKind (objects d ! i)) (dfaSimulation d)"
    and "cacheLimitBytes (simulate i d) = cacheLimitBytes d"
proof -
  note r = restartCache_ok [of d]
  have d: "cache_ok d" "sim_ok (dfaSimulation d)" "s_program (dfaSimulation d) = dfaProgram d"
    using assms(1) by (simp_all add: dfa_ok_def)
  show fields: "dfaProgram (simulate i d) = dfaProgram d" "simulating (simulate i d)" "decidedAs (simulate i d) = decidedAs d"
    "dfaSimulation (simulate i d) = loadSimulation (d_positions (objects d ! i)) (d_previousKind (objects d ! i)) (dfaSimulation d)"
    "cacheLimitBytes (simulate i d) = cacheLimitBytes d"
    using r [OF d(1)] by (simp_all add: simulate_def Let_def later_def same_run_def)
  have "sim_ok (dfaSimulation (simulate i d))"
    using load_ok [OF d(2), of "name_of (objects d ! i)"] object_name_ok [OF d(1) assms(2)]
    by (simp add: fields d(3) name_of_def)
  moreover have "cache_ok (simulate i d) \<and> stateObject (simulate i d) < length (objects (simulate i d))"
    using r [OF d(1)] by (simp add: simulate_def Let_def cache_ok_def store_ok_def)
  ultimately show "dfa_ok (simulate i d)"
    using assms(1) by (simp add: dfa_ok_def fields(1)) (simp add: fields(4) loadSimulation_def)
qed

lemma simulate_reading:
  assumes "dfa_ok d" and "i < length (objects d)" and "decidedAs d = None" and "unhit (dfaProgram d) w"
    and "set (d_positions (objects d ! i)) = live (dfaProgram d) w"
    and "d_previousKind (objects d ! i) = kind_before w (length w)"
  shows "dfa_reading (simulate i d) w"
proof -
  note s = simulate_ok [OF assms(1,2)]
  have sim: "sim_ok (dfaSimulation d)" "s_program (dfaSimulation d) = dfaProgram d"
    using assms(1) by (simp_all add: dfa_ok_def)
  have "name_ok (dfaProgram d) (name_of (objects d ! i))"
    using object_name_ok assms(1,2) by (simp add: dfa_ok_def)
  then have "sim_reads (dfaSimulation (simulate i d)) w"
    using assms(5,6) sim unfolding s(5) by (intro loadSimulation_reads) (auto simp: name_ok_def name_of_def)
  with s assms(3,4) show ?thesis
    by (simp add: dfa_reading_def)
qed

lemma dfa_begin:
  assumes "dfa_ok d" and "beginDfa d = (goes_on, d')"
  shows "goes_on" and "dfaProgram d' = dfaProgram d" and "cacheLimitBytes d' = cacheLimitBytes d"
    and "dfa_reading d' []"
proof -
  let ?e = "d\<lparr>decidedAs := None, simulating := False, stateObject := startObject d\<rparr>"
  have start: "startObject d < length (objects d)" "name_of (objects d ! startObject d) = ([], BEFORE_VALUE_START)"
    using assms(1) by (auto simp: dfa_ok_def cache_ok_def nth_names)
  have e: "dfa_ok ?e"
    using assms(1) start(1) by (simp add: dfa_ok_def cache_ok_def store_ok_def)
  have at: "set (d_positions (objects ?e ! startObject d)) = live (dfaProgram ?e) []"
    "d_previousKind (objects ?e ! startObject d) = kind_before [] (length [])"
    using start(2) by (simp_all add: name_of_def live_def kind_before_def)
  have d': "goes_on" "d' = (if wantsSimulation ?e then simulate (startObject d) ?e else ?e)"
    using assms(2) by (auto simp: beginDfa_def Let_def)
  show "goes_on" "dfaProgram d' = dfaProgram d" "cacheLimitBytes d' = cacheLimitBytes d"
    using d' simulate_ok(2,6) [OF e] start(1) by simp_all
  show "dfa_reading d' []"
    using d'(2) simulate_reading [OF e _ _ _ at] start(1) e at by (simp add: dfa_reading_def)
qed

lemma decide_ok: "dfa_ok d \<Longrightarrow> dfa_decided (d\<lparr>decidedAs := Some answer\<rparr>) answer"
  by (simp add: dfa_decided_def dfa_ok_def cache_ok_def store_ok_def)

text \<open>A front is decided for good once it is hit or dead.\<close>

lemma front_decides:
  assumes "F = front_at P (w @ [c]) (length w)" and "unhit P w" and "anchoredStart P \<longrightarrow> only_at_start P"
  shows "hits P F \<Longrightarrow> value_hits P (w @ c # u)"
    and "\<not> hits P F \<Longrightarrow> unhit P (w @ [c])"
    and "\<not> hits P F \<Longrightarrow> anchoredStart P \<Longrightarrow> kept P c F = {} \<Longrightarrow> \<not> value_hits P (w @ c # u)"
proof -
  show hit: "value_hits P (w @ c # u)" if "hits P F"
    using value_hits_append [of P "w @ [c]" u] that assms(1) by (simp add: unhit_snoc)
  show unhit: "unhit P (w @ [c])" if "\<not> hits P F"
    using assms(1,2) that by (simp add: unhit_snoc)
  show "\<not> value_hits P (w @ c # u)" if "\<not> hits P F" "anchoredStart P" "kept P c F = {}"
    using dead_forever [of P "w @ [c]" u] unhit that assms(1,3) by (simp add: live_snoc)
qed

lemma front_card:
  assumes "program_ok P" and "F \<subseteq> {..<states P}"
  shows "card {p \<in> F. kinds P ! p = CONSUME_STATE} \<le> positions P"
proof -
  have "{p \<in> F. kinds P ! p = CONSUME_STATE} \<subseteq> {..<positions P}"
    using kept_positions [OF assms(1) _ assms(2)] by auto
  from card_mono [OF _ this] show ?thesis by simp
qed

definition fed_state :: "lazy_dfa \<Rightarrow> code_point list \<Rightarrow> code_point \<Rightarrow> bool \<Rightarrow> lazy_dfa \<Rightarrow> bool" where
  "fed_state d w c goes_on d' \<longleftrightarrow> dfaProgram d' = dfaProgram d \<and> cacheLimitBytes d' = cacheLimitBytes d \<and>
     (if goes_on then dfa_reading d' (w @ [c])
      else \<exists>b. dfa_decided d' b \<and> (\<forall>u. value_hits (dfaProgram d) (w @ c # u) = b))"

text \<open>One code point read by the simulation.\<close>

lemma feed_simulated:
  assumes reading: "dfa_reading d w" and sim: "simulating d"
    and step: "stepSimulation c (dfaSimulation d) = (outcome, sim')"
  shows "s_steps sim' \<le> positions (dfaProgram d)"
    and "outcome = Step_Matched \<Longrightarrow> fed_state d w c False (d\<lparr>dfaSimulation := sim', decidedAs := Some True\<rparr>)"
    and "outcome = Step_Dead \<Longrightarrow> fed_state d w c False (d\<lparr>dfaSimulation := sim', decidedAs := Some False\<rparr>)"
    and "outcome = Step_Continues \<Longrightarrow> fed_state d w c True (d\<lparr>dfaSimulation := sim'\<rparr>)"
proof -
  let ?P = "dfaProgram d" and ?F = "front_at (dfaProgram d) (w @ [c]) (length w)"
  have d: "dfa_ok d" "decidedAs d = None" "unhit ?P w" "sim_reads (dfaSimulation d) w"
    "s_program (dfaSimulation d) = ?P" "anchoredStart ?P \<longrightarrow> only_at_start ?P" "program_ok ?P"
    using reading sim by (simp_all add: dfa_reading_def dfa_ok_def)
  note reads = stepSimulation_reads [OF d(4) step, unfolded d(5)]
  note decides = front_decides [OF refl d(3,6)]
  have ok: "dfa_ok (d\<lparr>dfaSimulation := sim'\<rparr>)"
    using d(1) reads by (simp add: dfa_ok_def cache_ok_def store_ok_def)
  have "set (s_after (dfaSimulation d)) \<subseteq> {..<positions ?P}"
    using d(4,5) by (auto simp: sim_reads_def sim_ok_def)
  then have "?F \<subseteq> {..<states ?P}"
    using front_below [OF d(7)] front_at_next [of ?P w c "[]"] d(4,5) by (simp add: sim_reads_def)
  from front_card [OF d(7) this] reads show "s_steps sim' \<le> positions ?P"
    by (simp split: if_splits)
  show "fed_state d w c False (d\<lparr>dfaSimulation := sim', decidedAs := Some True\<rparr>)" if "outcome = Step_Matched"
    using decide_ok [OF ok, of True] decides(1) reads that by (auto simp: fed_state_def)
  show "fed_state d w c False (d\<lparr>dfaSimulation := sim', decidedAs := Some False\<rparr>)" if "outcome = Step_Dead"
    using decide_ok [OF ok, of False] decides(3) reads that by (auto simp: fed_state_def live_snoc)
  show "fed_state d w c True (d\<lparr>dfaSimulation := sim'\<rparr>)" if "outcome = Step_Continues"
    using ok d(2) decides(2) reads that sim by (simp add: fed_state_def dfa_reading_def)
qed

text \<open>One code point read by an edge.\<close>

lemma feed_edge:
  assumes reading: "dfa_reading d w" and auto: "\<not> simulating d"
    and edge: "edgeFrom (stateObject d) c (classOf (dfaProgram d) c) (d\<lparr>codePointsSinceReset := n\<rparr>) = (e, d')"
  shows "edgeSteps e \<le> positions (dfaProgram d)"
    and "target e = To_Matched \<Longrightarrow> fed_state d w c False (d'\<lparr>decidedAs := Some True\<rparr>)"
    and "target e = To_Dead \<Longrightarrow> fed_state d w c False (d'\<lparr>decidedAs := Some False\<rparr>)"
    and "target e = To_State j \<Longrightarrow> d1 = d'\<lparr>stateObject := j\<rparr> \<Longrightarrow>
      fed_state d w c True (if wantsSimulation d1 then simulate j d1 else d1)"
proof -
  let ?P = "dfaProgram d" and ?F = "front_at (dfaProgram d) (w @ [c]) (length w)"
  let ?d = "d\<lparr>codePointsSinceReset := n\<rparr>" and ?n = "name_of (objects d ! stateObject d)"
  have d: "dfa_ok d" "decidedAs d = None" "unhit ?P w" "set (fst ?n) = live ?P w" "snd ?n = kind_before w (length w)"
    "anchoredStart ?P \<longrightarrow> only_at_start ?P" "program_ok ?P" "stateObject d < length (objects d)"
    using reading auto by (simp_all add: dfa_reading_def dfa_ok_def name_of_def)
  have ok: "dfa_ok ?d"
    using d(1) by (simp add: dfa_ok_def cache_ok_def store_ok_def)
  from edgeFrom_ok [OF ok, of "stateObject d" c e d'] d(8) edge
  obtain sim where sim: "sim_ok sim" "s_program sim = ?P" and later: "later (?d\<lparr>dfaSimulation := sim\<rparr>) d'"
    and cache: "cache_ok d'" and right: "edge_right ?P (names d') ?n c e"
    by auto
  have F: "name_front ?P ?n (kindOf c) = ?F"
    using front_at_next [of ?P w c "[]"] d(4,5) by (simp add: name_front_def case_prod_beta)
  note right = right [unfolded edge_right_def Let_def F]
  have fields: "dfaProgram d' = ?P" "dfaSimulation d' = sim" "simulating d' = False" "decidedAs d' = None"
    "stateObject d' = stateObject d" "cacheLimitBytes d' = cacheLimitBytes d"
    using later d(2) auto by (simp_all add: later_def same_run_def)
  have "stateObject d < length (objects d')"
    using later_object [OF later, of "stateObject d"] d(8) by simp
  then have ok': "dfa_ok d'"
    using ok cache sim fields by (simp add: dfa_ok_def)
  have "?F \<subseteq> {..<states ?P}"
    using name_front_below [OF d(7), of ?n "kindOf c"] object_name_ok [of d] d(1,8) by (simp add: F dfa_ok_def)
  from front_card [OF d(7) this] right show "edgeSteps e \<le> positions ?P"
    by (simp split: if_splits)
  note decides = front_decides [OF refl d(3,6)]
  show "fed_state d w c False (d'\<lparr>decidedAs := Some True\<rparr>)" if "target e = To_Matched"
    using decide_ok [OF ok', of True] decides(1) right that by (auto simp: fed_state_def fields)
  show "fed_state d w c False (d'\<lparr>decidedAs := Some False\<rparr>)" if "target e = To_Dead"
    using decide_ok [OF ok', of False] decides(3) right that by (auto simp: fed_state_def fields)
  show "fed_state d w c True (if wantsSimulation d1 then simulate j d1 else d1)"
    if j: "target e = To_State j" and d1: "d1 = d'\<lparr>stateObject := j\<rparr>"
  proof -
    have at: "j < length (objects d')" "set (d_positions (objects d' ! j)) = kept ?P c ?F"
      "d_previousKind (objects d' ! j) = kindOf c" "\<not> hits ?P ?F"
    proof -
      from right j show "j < length (objects d')" "\<not> hits ?P ?F"
        by simp_all
      from nth_names [OF this(1)] right j show "set (d_positions (objects d' ! j)) = kept ?P c ?F"
        "d_previousKind (objects d' ! j) = kindOf c"
        by (simp_all add: name_of_def)
    qed
    then have next_state: "set (d_positions (objects d1 ! j)) = live (dfaProgram d1) (w @ [c])"
      "d_previousKind (objects d1 ! j) = kind_before (w @ [c]) (length (w @ [c]))" "unhit (dfaProgram d1) (w @ [c])"
      using decides(2) by (simp_all add: d1 fields live_snoc kind_before_def)
    have d1_ok: "dfa_ok d1" "j < length (objects d1)" "decidedAs d1 = None" "simulating d1 = False" "stateObject d1 = j"
      using ok' at(1) fields by (simp_all add: d1 dfa_ok_def cache_ok_def store_ok_def)
    have "dfaProgram d1 = ?P" "cacheLimitBytes d1 = cacheLimitBytes d"
      by (simp_all add: d1 fields)
    with simulate_reading [OF d1_ok(1-3) next_state(3,1,2)] simulate_ok(2,6) [OF d1_ok(1,2)] d1_ok next_state show ?thesis
      by (simp add: fed_state_def dfa_reading_def)
  qed
qed

text \<open>\<open>feed\<close> as one addition to the tally and one step.\<close>

lemma feedDfa_step:
  assumes "dfa_reading d w"
  shows "\<exists>units goes_on d'. units \<le> dfa_work d \<and> fed_state d w c goes_on d' \<and>
    feedDfa c d t = (case tallyAdd units t of Inl e \<Rightarrow> Inl e | Inr t' \<Rightarrow> Inr (goes_on, d', t'))"
proof (cases "simulating d")
  case True
  obtain outcome sim' where step: "stepSimulation c (dfaSimulation d) = (outcome, sim')"
    by (cases "stepSimulation c (dfaSimulation d)")
  note f = feed_simulated [OF assms True step]
  define d1 where "d1 = d\<lparr>dfaSimulation := sim'\<rparr>"
  define d2 where "d2 = (case outcome of Step_Matched \<Rightarrow> d1\<lparr>decidedAs := Some True\<rparr>
    | Step_Dead \<Rightarrow> d1\<lparr>decidedAs := Some False\<rparr> | Step_Continues \<Rightarrow> d1)"
  have "fed_state d w c (outcome = Step_Continues) d2"
    using f(2-4) by (cases outcome) (simp_all add: d2_def d1_def)
  moreover have "feedDfa c d t = (case tallyAdd (s_steps sim') t of Inl e \<Rightarrow> Inl e
      | Inr t' \<Rightarrow> Inr (outcome = Step_Continues, d2, t'))"
    using True step by (cases outcome) (simp_all add: feedDfa_def d2_def d1_def split: sum.split)
  ultimately show ?thesis
    using f(1) unfolding dfa_work_def by blast
next
  case False
  let ?d = "d\<lparr>codePointsSinceReset := codePointsSinceReset d + 1\<rparr>"
  obtain e d' where edge: "edgeFrom (stateObject d) c (classOf (dfaProgram d) c) ?d = (e, d')"
    by (cases "edgeFrom (stateObject d) c (classOf (dfaProgram d) c) ?d")
  note f = feed_edge [OF assms False edge]
  define moved_to where "moved_to = (\<lambda>j. d'\<lparr>stateObject := j\<rparr>)"
  define d2 where "d2 = (case target e of To_Matched \<Rightarrow> d'\<lparr>decidedAs := Some True\<rparr>
    | To_Dead \<Rightarrow> d'\<lparr>decidedAs := Some False\<rparr>
    | To_State j \<Rightarrow> if wantsSimulation (moved_to j) then simulate j (moved_to j) else moved_to j)"
  define goes_on where "goes_on = (case target e of To_State j \<Rightarrow> True | _ \<Rightarrow> False)"
  have "fed_state d w c goes_on d2"
    using f(2-4) by (cases "target e") (simp_all add: d2_def goes_on_def moved_to_def)
  moreover have "feedDfa c d t = (case tallyAdd (edgeSteps e) t of Inl e \<Rightarrow> Inl e
      | Inr t' \<Rightarrow> Inr (goes_on, d2, t'))"
    using False edge by (cases "target e") (simp_all add: feedDfa_def Let_def d2_def goes_on_def moved_to_def split: sum.split)
  ultimately show ?thesis
    using f(1) unfolding dfa_work_def by blast
qed

lemma dfa_matched_reading:
  assumes "dfa_reading d w" and "matchedDfa d = (answer, d')"
  shows "answer = value_hits (dfaProgram d) w" and "dfa_ok d'" and "dfaProgram d' = dfaProgram d"
    and "cacheLimitBytes d' = cacheLimitBytes d"
proof -
  let ?P = "dfaProgram d" and ?F = "front_at (dfaProgram d) w (length w)"
  have d: "dfa_ok d" "decidedAs d = None" "unhit ?P w" "s_program (dfaSimulation d) = ?P" "sim_ok (dfaSimulation d)"
    "stateObject d < length (objects d)" "cache_ok d" "store_ok d"
    using assms(1) by (simp_all add: dfa_reading_def dfa_ok_def cache_ok_def)
  have F: "value_hits ?P w = hits ?P ?F"
    by (rule value_hits_unhit [OF d(3)])
  have put: "dfa_ok (d\<lparr>dfaSimulation := sim\<rparr>)" if "sim_ok sim" "s_program sim = ?P" for sim
    using d(1) that by (simp add: dfa_ok_def cache_ok_def store_ok_def)
  have "answer = value_hits ?P w \<and> dfa_ok d' \<and> dfaProgram d' = ?P \<and> cacheLimitBytes d' = cacheLimitBytes d"
  proof (cases "simulating d")
    case True
    obtain b sim where e: "endMatches (dfaSimulation d) = (b, sim)"
      by (cases "endMatches (dfaSimulation d)")
    have "sim_reads (dfaSimulation d) w"
      using assms(1) True by (simp add: dfa_reading_def)
    from endMatches_reads [OF this e] assms(2) d True e put [of sim] F show ?thesis
      by (auto simp: matchedDfa_def sim_reads_def)
  next
    case False
    let ?s = "objects d ! stateObject d"
    let ?n = "name_of ?s"
    have n: "set (fst ?n) = live ?P w" "snd ?n = kind_before w (length w)"
      using assms(1) False by (simp_all add: dfa_reading_def name_of_def)
    have front: "name_front ?P ?n AFTER_VALUE_END = ?F"
      using n by (simp add: name_front_def case_prod_beta front_at_last)
    show ?thesis
    proof (cases "endMatch ?s")
      case (Some b)
      with store_ok_object [OF d(8,6)] have "b = hits ?P ?F"
        by (simp add: object_ok_def front)
      moreover have "answer = b" "d' = d"
        using Some False assms(2) d(2) by (simp_all add: matchedDfa_def)
      ultimately show ?thesis
        using d(1) F by simp
    next
      case None
      define loaded where "loaded = loadSimulation (d_positions ?s) (d_previousKind ?s) (dfaSimulation d)"
      obtain b sim where e: "endMatches loaded = (b, sim)"
        by (cases "endMatches loaded")
      have "sim_ok loaded"
        using load_ok [OF d(5), of ?n] object_name_ok [OF d(7,6)] d(4) by (simp add: loaded_def name_of_def)
      note ends = endMatches_front [OF this e]
      have "b = hits ?P ?F"
        using ends(1) front d(4) by (simp add: loaded_def loadSimulation_def name_front_def name_of_def)
      moreover have sim: "dfa_ok (d\<lparr>dfaSimulation := sim\<rparr>)"
        using ends(2,3) d(4) by (intro put) (simp_all add: same_reading_def loaded_def loadSimulation_def)
      moreover have res: "answer = b"
        "d' = updateObject (stateObject d) (\<lambda>s. s\<lparr>endMatch := Some answer\<rparr>) (d\<lparr>dfaSimulation := sim\<rparr>)"
        using assms(2) d(2) False None e by (auto simp: matchedDfa_def Let_def loaded_def)
      moreover have "cache_ok d'"
        unfolding res(2)
      proof (rule updateObject_cache_ok)
        show "name_of (s\<lparr>endMatch := Some answer\<rparr>) = name_of s" for s
          by (simp add: name_of_def)
        show "cache_ok (d\<lparr>dfaSimulation := sim\<rparr>)"
          using sim by (simp add: dfa_ok_def)
        show "object_ok (dfaProgram (d\<lparr>dfaSimulation := sim\<rparr>)) (denseClasses (d\<lparr>dfaSimulation := sim\<rparr>))
            (names (d\<lparr>dfaSimulation := sim\<rparr>)) ((objects (d\<lparr>dfaSimulation := sim\<rparr>) ! stateObject d)\<lparr>endMatch := Some answer\<rparr>)"
          using store_ok_object [OF d(8,6)] \<open>b = hits ?P ?F\<close> res(1) front
          by (simp add: object_ok_def name_of_def)
      qed
      ultimately show ?thesis
        using F by (simp add: dfa_ok_def) (simp add: updateObject_def)
    qed
  qed
  then show "answer = value_hits ?P w" "dfa_ok d'" "dfaProgram d' = ?P" "cacheLimitBytes d' = cacheLimitBytes d"
    by simp_all
qed

text \<open>The program and the limit stay with the automaton.\<close>

definition has_limit :: "program \<Rightarrow> int \<Rightarrow> lazy_dfa \<Rightarrow> bool" where
  "has_limit P limit d \<longleftrightarrow> dfaProgram d = P \<and> cacheLimitBytes d = limit"

definition dfa_ready :: "program \<Rightarrow> int \<Rightarrow> lazy_dfa \<Rightarrow> bool" where
  "dfa_ready P limit d \<longleftrightarrow> dfa_ok d \<and> has_limit P limit d"

interpretation dfa: value_matcher dfa_ops "dfa_ready P limit"
  "\<lambda>d w. dfa_reading d w \<and> has_limit P limit d" "\<lambda>d b. dfa_decided d b \<and> has_limit P limit d" dfa_spec dfa_work
  for P limit
proof
  show "dfa_spec m' = dfa_spec m \<and> dfa_work m' = dfa_work m \<and>
      (if goes_on then dfa_reading m' [] \<and> has_limit P limit m'
       else \<exists>b. (dfa_decided m' b \<and> has_limit P limit m') \<and> (\<forall>v. dfa_spec m v = b))"
    if "dfa_ready P limit m" "beginValue dfa_ops m = (goes_on, m')" for m goes_on m'
    using that dfa_begin [of m goes_on m'] by (simp add: dfa_ops_def dfa_spec_def dfa_work_def dfa_ready_def has_limit_def)
  show "dfa_spec m' = dfa_spec m \<and> dfa_work m' = dfa_work m \<and>
      (if goes_on then dfa_reading m' (w @ [c]) \<and> has_limit P limit m'
       else \<exists>b. (dfa_decided m' b \<and> has_limit P limit m') \<and> (\<forall>u. dfa_spec m (w @ c # u) = b))"
    if "dfa_reading m w \<and> has_limit P limit m" "feedValue dfa_ops c m t = Inr (goes_on, m', t')" for m w t c goes_on m' t'
  proof -
    from feedDfa_step [of m w c t] that(1) obtain units g d' where step: "fed_state m w c g d'"
      "feedDfa c m t = (case tallyAdd units t of Inl e \<Rightarrow> Inl e | Inr t' \<Rightarrow> Inr (g, d', t'))"
      by blast
    with that(2) have "fed_state m w c goes_on m'"
      by (cases "tallyAdd units t") (simp_all add: dfa_ops_def)
    with that(1) show ?thesis
      by (auto simp: fed_state_def dfa_spec_def dfa_work_def has_limit_def split: if_splits)
  qed
  show "tally_ok t' \<and> tally_cap t' = tally_cap t \<and> spent t' \<le> spent t + dfa_work m"
    if "dfa_reading m w \<and> has_limit P limit m" "tally_ok t" "feedValue dfa_ops c m t = Inr (goes_on, m', t')"
    for m w t c goes_on m' t'
  proof -
    from feedDfa_step [of m w c t] that(1) obtain units g d' where step: "units \<le> dfa_work m"
      "feedDfa c m t = (case tallyAdd units t of Inl e \<Rightarrow> Inl e | Inr t' \<Rightarrow> Inr (g, d', t'))"
      by blast
    with that(3) have "tallyAdd units t = Inr t'"
      by (cases "tallyAdd units t") (simp_all add: dfa_ops_def)
    with tallyAdd_Inr [OF that(2)] step(1) show ?thesis by simp
  qed
  show "\<exists>r. feedValue dfa_ops c m t = Inr r"
    if "dfa_reading m w \<and> has_limit P limit m" "tally_ok t" "spent t + dfa_work m \<le> tally_cap t" for m w t c
  proof -
    from feedDfa_step [of m w c t] that(1) obtain units goes_on d' where units: "units \<le> dfa_work m"
      and feed: "feedDfa c m t = (case tallyAdd units t of Inl e \<Rightarrow> Inl e | Inr t' \<Rightarrow> Inr (goes_on, d', t'))"
      by blast
    have "spent t + units \<le> tally_cap t"
      using units that(3) by simp
    from tallyAdd_fits [OF that(2) this] feed show ?thesis
      by (auto simp: dfa_ops_def)
  qed
  show "b = dfa_spec m w \<and> dfa_ready P limit m' \<and> dfa_spec m' = dfa_spec m \<and> dfa_work m' = dfa_work m"
    if "dfa_reading m w \<and> has_limit P limit m" "matchedValue dfa_ops m = (b, m')" for m w b m'
    using dfa_matched_reading [of m w b m'] that
    by (simp add: dfa_ops_def dfa_spec_def dfa_work_def dfa_ready_def has_limit_def)
  show "b' = b \<and> dfa_ready P limit m' \<and> dfa_spec m' = dfa_spec m \<and> dfa_work m' = dfa_work m"
    if "dfa_decided m b \<and> has_limit P limit m" "matchedValue dfa_ops m = (b', m')" for m b b' m'
    using that by (auto simp: dfa_ops_def dfa_decided_def matchedDfa_def dfa_ready_def)
qed

section \<open>A fresh automaton and its memory\<close>

lemma newLazyDfa_ok:
  assumes "program_ok P" and "anchoredStart P \<longrightarrow> only_at_start P" and "classes_ok P"
  shows "dfa_ok (newLazyDfa P programBytes limit)" and "dfaProgram (newLazyDfa P programBytes limit) = P"
    and "cacheLimitBytes (newLazyDfa P programBytes limit) = limit - programBytes - simulationBytes P"
proof -
  define classCount where "classCount = length (classStarts (classes P)) + 1"
  define d0 where "d0 = \<lparr>dfaProgram = P, objects = [], dfaStates = [], generation = 0, cachedBytes = 0,
    codePointsSinceReset = 0, startObject = 0, stateObject = 0, simulating = False, decidedAs = None,
    dfaSimulation = newSimulation P, cacheLimitBytes = limit - programBytes - simulationBytes P,
    denseClasses = (if classCount \<le> MAX_DENSE_EDGE_CLASSES then classCount else 0)\<rparr>"
  have d0: "store_ok d0" "dfaStates d0 = []" "name_ok (dfaProgram d0) ([], BEFORE_VALUE_START)"
    by (simp_all add: d0_def store_ok_def start_name_ok)
  obtain start d1 where i: "intern [] BEFORE_VALUE_START d0 = (start, d1)"
    by (cases "intern [] BEFORE_VALUE_START d0")
  from internWith_ok [OF d0(1) reserveWithin_reserves [OF d0(1)] d0(3)] i
  have d1: "store_ok d1" "later d0 d1" "start < length (objects d1)" "names d1 ! start = ([], BEFORE_VALUE_START)"
    by (simp_all add: internWith_empty [OF d0(2)])
  define d2 where "d2 = d1\<lparr>startObject := start, stateObject := start\<rparr>"
  have new: "newLazyDfa P programBytes limit = (if wantsSimulation d2 then simulate start d2 else d2)"
    unfolding newLazyDfa_def Let_def classCount_def [symmetric] d0_def [symmetric]
    by (simp only: i prod.case d2_def)
  have fields: "dfaProgram d2 = P" "dfaSimulation d2 = newSimulation P"
    "cacheLimitBytes d2 = limit - programBytes - simulationBytes P"
    using d1(2) by (simp_all add: d2_def later_def same_run_def d0_def)
  have "sim_ok (newSimulation P)"
    using newSimulation_ok [OF assms(1,2)] by (simp add: sim_reads_def)
  moreover have "cache_ok d2" "stateObject d2 = start" "start < length (objects d2)"
    using d1 by (simp_all add: d2_def cache_ok_def store_ok_def)
  ultimately have ok: "dfa_ok d2"
    using assms fields by (simp add: dfa_ok_def) (simp add: newSimulation_def)
  show "dfa_ok (newLazyDfa P programBytes limit)" "dfaProgram (newLazyDfa P programBytes limit) = P"
    "cacheLimitBytes (newLazyDfa P programBytes limit) = limit - programBytes - simulationBytes P"
    using ok simulate_ok [OF ok, of start] \<open>start < length (objects d2)\<close> fields by (simp_all add: new)
qed

lemma newLazyDfa_ready:
  assumes "program_ok P" and "anchoredStart P \<longrightarrow> only_at_start P" and "classes_ok P"
  shows "dfa_ready P (limit - programBytes - simulationBytes P) (newLazyDfa P programBytes limit)"
  using newLazyDfa_ok [OF assms] by (simp add: dfa_ready_def has_limit_def)

lemma dfa_held:
  assumes "dfa_ready P (limit - programBytes - simulationBytes P) d"
  shows "heldBytes programBytes d \<le> max limit (programBytes + simulationBytes P)"
  using assms by (auto simp: dfa_ready_def dfa_ok_def cache_ok_def store_ok_def has_limit_def heldBytes_def)

end
