(* ===== verification/Pattern_Search.thy ===== *)
theory Pattern_Search
  imports Pattern_Shortlist Literal_Matcher Lazy_Dfa_Matcher Bitset
begin

text \<open>
  \<open>matchPattern\<close> of \<open>pattern/evaluate.ts\<close>: the documents of an index whose values match a prepared
  test are added to a set of documents. The candidates come from the shortlist, or are all
  documents of the index; each candidate that is not in the set yet is tested.
  A request with a tolerance is answered by the typo tests, which are not modelled: here every
  request has the tolerance 0. The clock of the meter measures time and is left out.
\<close>

section \<open>Prepared tests\<close>

datatype pattern_operator = Eq_Text | Starts_With | Ends_With | Contains_Text | Wildcard | Regex

definition ANCHORED_START :: "pattern_operator list" where "ANCHORED_START = [Eq_Text, Starts_With]"
definition ANCHORED_END :: "pattern_operator list" where "ANCHORED_END = [Eq_Text, Ends_With]"

text \<open>\<open>testMatcher\<close> is what \<open>matcher()\<close> returns; a search asks for it once at most.\<close>

record 'm prepared_test =
  testRuns :: run_query
  testMatcher :: 'm

text \<open>The runs of a text are kept for the length of a search, in \<open>known\<close>.\<close>

definition literalRuns :: "code_units \<Rightarrow> host \<Rightarrow> (code_units \<times> run_query) list
    \<Rightarrow> run_query \<times> (code_units \<times> run_query) list" where
  "literalRuns txt h known =
     (case map_of known txt of
        Some runs \<Rightarrow> (runs, known)
      | None \<Rightarrow>
          let folded = appendTextCodePoints txt True h [];
              runs = All_Runs (spreadRuns [folded])
          in (runs, known @ [(txt, runs)]))"

definition literalTest :: "pattern_operator \<Rightarrow> code_units \<Rightarrow> bool \<Rightarrow> host \<Rightarrow> (code_units \<times> run_query) list
    \<Rightarrow> literal_matcher prepared_test \<times> (code_units \<times> run_query) list" where
  "literalTest operator txt caseFold h known =
     (let (runs, known) = literalRuns txt h known;
          testCodePoints = appendTextCodePoints txt caseFold h []
      in (\<lparr>testRuns = runs,
           testMatcher = newLiteralMatcher testCodePoints (operator \<in> set ANCHORED_START) (operator \<in> set ANCHORED_END)\<rparr>,
          known))"

section \<open>The search\<close>

fun testValues :: "'m matcher_ops \<Rightarrow> bool \<Rightarrow> host \<Rightarrow> code_units list \<Rightarrow> bool \<Rightarrow> 'm \<Rightarrow> work_tally \<Rightarrow> 'm feed_result" where
  "testValues ops caseFold h [] matched m t = Inr (matched, m, t)"
| "testValues ops caseFold h (txt # txts) matched m t =
     (if matched then testValues ops caseFold h txts matched m t
      else case matchesText ops m txt caseFold h t of
             Inl e \<Rightarrow> Inl e
           | Inr (matched, m, t) \<Rightarrow> testValues ops caseFold h txts matched m t)"

text \<open>The loop over the candidates; \<open>m\<close> is \<open>None\<close> until the first candidate is tested.\<close>

fun testCandidates :: "'m matcher_ops \<Rightarrow> 'm prepared_test \<Rightarrow> bool \<Rightarrow> host \<Rightarrow> (nat \<Rightarrow> field_value) \<Rightarrow> bool
    \<Rightarrow> nat list \<Rightarrow> bitset \<Rightarrow> 'm option \<Rightarrow> work_tally \<Rightarrow> work_error + (bitset \<times> 'm option \<times> work_tally)" where
  "testCandidates ops test caseFold h valueOf scanning [] matches m t = Inr (matches, m, t)"
| "testCandidates ops test caseFold h valueOf scanning (ordinal # ordinals) matches m t =
     (if length matches \<le> shift5 ordinal \<or> bitsetHas matches ordinal
      then testCandidates ops test caseFold h valueOf scanning ordinals matches m t
      else case (if scanning then tallyAdd 1 t else Inr t) of
             Inl e \<Rightarrow> Inl e
           | Inr t \<Rightarrow>
               let matcher = (case m of None \<Rightarrow> testMatcher test | Some matcher \<Rightarrow> matcher)
               in (case testValues ops caseFold h (forEachTextValue (valueOf ordinal)) False matcher t of
                     Inl e \<Rightarrow> Inl e
                   | Inr (matched, matcher, t) \<Rightarrow>
                       testCandidates ops test caseFold h valueOf scanning ordinals
                         (if matched then bitsetSet matches ordinal else matches) (Some matcher) t))"

definition matchPattern :: "'i index_reader \<Rightarrow> 'm matcher_ops \<Rightarrow> 'm prepared_test \<Rightarrow> bool \<Rightarrow> host
    \<Rightarrow> (nat \<Rightarrow> field_value) \<Rightarrow> 'i \<Rightarrow> bitset \<Rightarrow> work_meter
    \<Rightarrow> work_error + (bitset \<times> 'i \<times> 'm option \<times> work_meter)" where
  "matchPattern readers ops test caseFold h valueOf index matches meter =
     (case shortlist readers (testRuns test) index (newTally meter) of
        Inl e \<Rightarrow> Inl e
      | Inr (shortlisted, index, t) \<Rightarrow>
          let scanning = (shortlisted = None);
              (candidates, index) =
                (case shortlisted of Some candidates \<Rightarrow> (candidates, index) | None \<Rightarrow> indexDocuments readers index)
          in (case testCandidates ops test caseFold h valueOf scanning candidates matches None t of
                Inl e \<Rightarrow> Inl e
              | Inr (matches, m, t) \<Rightarrow>
                  (case tallyFlush t of
                     Inl e \<Rightarrow> Inl e
                   | Inr t \<Rightarrow> Inr (matches, index, m, t_meter t))))"

section \<open>Testing values\<close>

context value_matcher
begin

definition matches_value :: "'m \<Rightarrow> bool \<Rightarrow> host \<Rightarrow> field_value \<Rightarrow> bool" where
  "matches_value m caseFold h value \<longleftrightarrow> (\<exists>txt \<in> set (forEachTextValue value). spec m (fed_points h caseFold txt))"

definition fed_length :: "bool \<Rightarrow> host \<Rightarrow> code_units list \<Rightarrow> nat" where
  "fed_length caseFold h txts = (\<Sum>txt \<leftarrow> txts. length (fed_points h caseFold txt))"

lemma testValues_correct:
  assumes "ready m" and "tally_ok t" and "testValues ops caseFold h txts matched m t = Inr (answer, m', t')"
  shows "answer \<longleftrightarrow> matched \<or> (\<exists>txt \<in> set txts. spec m (fed_points h caseFold txt))"
    and "ready m'" and "spec m' = spec m" and "work m' = work m" and "same_budget t t'"
    and "spent t' \<le> spent t + work m * fed_length caseFold h txts"
proof -
  have "(answer \<longleftrightarrow> matched \<or> (\<exists>txt \<in> set txts. spec m (fed_points h caseFold txt))) \<and> ready m' \<and> spec m' = spec m \<and>
      work m' = work m \<and> same_budget t t' \<and> spent t' \<le> spent t + work m * fed_length caseFold h txts"
    using assms
  proof (induction txts arbitrary: matched m t)
    case Nil
    then show ?case by (simp add: same_budget_def fed_length_def)
  next
    case (Cons us uss)
    show ?case
    proof (cases matched)
      case True
      with Cons.prems(3) Cons.IH [OF Cons.prems(1,2), of True] show ?thesis
        by (simp add: fed_length_def add_mult_distrib2)
    next
      case False
      with Cons.prems(3) obtain b m1 t1 where one: "matchesText ops m us caseFold h t = Inr (b, m1, t1)"
        and rest: "testValues ops caseFold h uss b m1 t1 = Inr (answer, m', t')"
        by (auto split: sum.splits)
      note c = matchesText_correct [OF Cons.prems(1,2) one]
      with Cons.IH [OF _ _ rest] False show ?thesis
        by (auto simp: fed_length_def add_mult_distrib2 same_budget_def)
    qed
  qed
  then show "answer \<longleftrightarrow> matched \<or> (\<exists>txt \<in> set txts. spec m (fed_points h caseFold txt))"
    and "ready m'" and "spec m' = spec m" and "work m' = work m" and "same_budget t t'"
    and "spent t' \<le> spent t + work m * fed_length caseFold h txts"
    by simp_all
qed

text \<open>Enough of the budget is left, so testing gives an answer.\<close>

lemma testValues_fits:
  assumes "ready m" and "tally_ok t" and "spent t + work m * fed_length caseFold h uss \<le> tally_cap t"
  shows "\<exists>r. testValues ops caseFold h uss matched m t = Inr r"
  using assms
proof (induction uss arbitrary: matched m t)
  case (Cons us uss)
  have room: "spent t + work m * length (fed_points h caseFold us) + work m * fed_length caseFold h uss \<le> tally_cap t"
    using Cons.prems(3) by (simp add: fed_length_def add_mult_distrib2)
  show ?case
  proof (cases matched)
    case True
    with Cons.IH [OF Cons.prems(1,2), of True] room show ?thesis by simp
  next
    case False
    from matchesText_fits [OF Cons.prems(1,2)] room obtain b m1 t1
      where one: "matchesText ops m us caseFold h t = Inr (b, m1, t1)"
      by (metis le_add1 le_trans)
    note c = matchesText_correct [OF Cons.prems(1,2) one]
    with room Cons.IH [of m1 t1 b] False one show ?thesis by simp
  qed
qed simp

text \<open>The matcher of the loop, once it is there, is the one of the test.\<close>

definition loop_matcher :: "'m prepared_test \<Rightarrow> 'm option \<Rightarrow> bool" where
  "loop_matcher test m \<longleftrightarrow>
     (case m of None \<Rightarrow> ready (testMatcher test)
      | Some m \<Rightarrow> ready m \<and> spec m = spec (testMatcher test) \<and> work m = work (testMatcher test))"

definition tests_work :: "'m prepared_test \<Rightarrow> bool \<Rightarrow> host \<Rightarrow> (nat \<Rightarrow> field_value) \<Rightarrow> nat list \<Rightarrow> nat" where
  "tests_work test caseFold h valueOf ordinals =
     (\<Sum>d \<leftarrow> ordinals. 1 + work (testMatcher test) * fed_length caseFold h (forEachTextValue (valueOf d)))"

lemma loop_matcher_get:
  assumes "loop_matcher test m"
  shows "ready (case m of None \<Rightarrow> testMatcher test | Some matcher \<Rightarrow> matcher)"
    and "spec (case m of None \<Rightarrow> testMatcher test | Some matcher \<Rightarrow> matcher) = spec (testMatcher test)"
    and "work (case m of None \<Rightarrow> testMatcher test | Some matcher \<Rightarrow> matcher) = work (testMatcher test)"
  using assms by (auto simp: loop_matcher_def split: option.splits)

lemma testCandidates_correct:
  assumes "loop_matcher test m" and "tally_ok t" and "\<forall>d \<in> set ordinals. d < 2 ^ 32"
    and "testCandidates ops test caseFold h valueOf scanning ordinals matches m t = Inr (matches', m', t')"
  shows "members matches' = members matches \<union>
      {d \<in> set ordinals. shift5 d < length matches \<and> matches_value (testMatcher test) caseFold h (valueOf d)} \<and>
    length matches' = length matches \<and> loop_matcher test m' \<and> same_budget t t' \<and>
    spent t' \<le> spent t + tests_work test caseFold h valueOf ordinals"
  using assms
proof (induction ordinals arbitrary: matches m t)
  case Nil
  then show ?case by (simp add: same_budget_def tests_work_def)
next
  case (Cons d ordinals)
  have d: "d < 2 ^ 32" "\<forall>d \<in> set ordinals. d < 2 ^ 32"
    using Cons.prems(3) by simp_all
  show ?case
  proof (cases "length matches \<le> shift5 d \<or> bitsetHas matches d")
    case True
    then have "d \<in> members matches \<or> \<not> shift5 d < length matches"
      using d(1) by (auto simp: members_def)
    moreover from True Cons.prems(4) have
      "testCandidates ops test caseFold h valueOf scanning ordinals matches m t = Inr (matches', m', t')"
      by simp
    note Cons.IH [OF Cons.prems(1,2) d(2) this]
    ultimately show ?thesis
      by (auto simp: tests_work_def)
  next
    case False
    let ?m = "case m of None \<Rightarrow> testMatcher test | Some matcher \<Rightarrow> matcher"
    note get = loop_matcher_get [OF Cons.prems(1)]
    from False Cons.prems(4) obtain t1 where t1: "(if scanning then tallyAdd 1 t else Inr t) = Inr t1"
      by (auto split: sum.splits)
    have b1: "same_budget t t1" "spent t1 \<le> spent t + 1"
      using t1 tallyAdd_Inr [OF Cons.prems(2), of 1 t1] Cons.prems(2) by (auto simp: same_budget_def split: if_splits)
    obtain matched m2 t2 where tested: "testValues ops caseFold h (forEachTextValue (valueOf d)) False ?m t1 = Inr (matched, m2, t2)"
      using False Cons.prems(4) by (auto simp: t1 Let_def split: sum.splits)
    note one = testValues_correct [OF get(1) same_budget_ok [OF b1(1)] tested]
    from False Cons.prems(4) have rest: "testCandidates ops test caseFold h valueOf scanning ordinals
        (if matched then bitsetSet matches d else matches) (Some m2) t2 = Inr (matches', m', t')"
      by (simp add: t1 Let_def tested)
    have "loop_matcher test (Some m2)"
      using one get by (simp add: loop_matcher_def)
    from Cons.IH [OF this same_budget_ok [OF one(5)] d(2) rest] one get b1
    have IH: "members matches' = members (if matched then bitsetSet matches d else matches) \<union>
        {d \<in> set ordinals. shift5 d < length matches \<and> matches_value (testMatcher test) caseFold h (valueOf d)}"
      "length matches' = length matches" "loop_matcher test m'" "same_budget t t'"
      "spent t' \<le> spent t + tests_work test caseFold h valueOf (d # ordinals)"
      by (auto simp: tests_work_def intro: same_budget_trans)
    have "matched \<longleftrightarrow> matches_value (testMatcher test) caseFold h (valueOf d)"
      using one(1) get(2) by (simp add: matches_value_def)
    then have "members matches' = members matches \<union>
        {d' \<in> set (d # ordinals). shift5 d' < length matches \<and> matches_value (testMatcher test) caseFold h (valueOf d')}"
      using IH(1) False d(1) by (auto simp: members_set)
    with IH(2-5) show ?thesis by blast
  qed
qed

lemma testCandidates_fits:
  assumes "loop_matcher test m" and "tally_ok t"
    and "spent t + tests_work test caseFold h valueOf ordinals \<le> tally_cap t"
  shows "\<exists>r. testCandidates ops test caseFold h valueOf scanning ordinals matches m t = Inr r"
  using assms
proof (induction ordinals arbitrary: matches m t)
  case (Cons d ordinals)
  have room: "spent t + 1 + work (testMatcher test) * fed_length caseFold h (forEachTextValue (valueOf d)) +
      tests_work test caseFold h valueOf ordinals \<le> tally_cap t"
    using Cons.prems(3) by (simp add: tests_work_def)
  show ?case
  proof (cases "length matches \<le> shift5 d \<or> bitsetHas matches d")
    case True
    with Cons.IH [OF Cons.prems(1,2)] room show ?thesis by auto
  next
    case False
    let ?m = "case m of None \<Rightarrow> testMatcher test | Some matcher \<Rightarrow> matcher"
    note get = loop_matcher_get [OF Cons.prems(1)]
    obtain t1 where t1: "(if scanning then tallyAdd 1 t else Inr t) = Inr t1"
      using tallyAdd_fits [OF Cons.prems(2), of 1] room by (cases scanning) auto
    have b1: "same_budget t t1" "spent t1 \<le> spent t + 1"
      using t1 tallyAdd_Inr [OF Cons.prems(2), of 1 t1] Cons.prems(2) by (auto simp: same_budget_def split: if_splits)
    have "spent t1 + work ?m * fed_length caseFold h (forEachTextValue (valueOf d)) \<le> tally_cap t1"
      using room b1 get(3) by (simp add: same_budget_def)
    from testValues_fits [OF get(1) same_budget_ok [OF b1(1)] this] obtain matched m2 t2
      where tested: "testValues ops caseFold h (forEachTextValue (valueOf d)) False ?m t1 = Inr (matched, m2, t2)"
      by (metis prod.exhaust)
    note one = testValues_correct [OF get(1) same_budget_ok [OF b1(1)] tested]
    have "loop_matcher test (Some m2)"
      using one get by (simp add: loop_matcher_def)
    moreover have "spent t2 + tests_work test caseFold h valueOf ordinals \<le> tally_cap t2"
      using one(5,6) b1 get(3) room by (simp add: same_budget_def)
    ultimately have "\<exists>r. testCandidates ops test caseFold h valueOf scanning ordinals
        (if matched then bitsetSet matches d else matches) (Some m2) t2 = Inr r"
      using Cons.IH same_budget_ok [OF one(5)] by blast
    with False show ?thesis
      by (simp add: t1 Let_def tested)
  qed
qed simp

text \<open>
  The documents of the index have ordinals of 32 bits, and each document with a value that
  matches holds the runs of the test.
\<close>

definition searchable :: "(nat \<rightharpoonup> code_units set) \<Rightarrow> 'm prepared_test \<Rightarrow> bool \<Rightarrow> host \<Rightarrow> (nat \<Rightarrow> field_value) \<Rightarrow> bool" where
  "searchable keys test caseFold h valueOf \<longleftrightarrow>
     query_ok (testRuns test) \<and> ready (testMatcher test) \<and>
     (\<forall>d ks. keys d = Some ks \<longrightarrow> d < 2 ^ 32 \<and>
        (matches_value (testMatcher test) caseFold h (valueOf d) \<longrightarrow> holds_query ks (testRuns test)))"

definition document_work :: "(nat \<rightharpoonup> code_units set) \<Rightarrow> 'm prepared_test \<Rightarrow> bool \<Rightarrow> host \<Rightarrow> (nat \<Rightarrow> field_value) \<Rightarrow> nat" where
  "document_work keys test caseFold h valueOf =
     (\<Sum>d \<in> dom keys. 1 + work (testMatcher test) * fed_length caseFold h (forEachTextValue (valueOf d)))"

lemma candidates_work:
  assumes "sorted_wrt (<) candidates" and "set candidates \<subseteq> dom keys" and "finite (dom keys)"
  shows "tests_work test caseFold h valueOf candidates \<le> document_work keys test caseFold h valueOf"
proof -
  have "distinct candidates"
    using assms(1) by (simp add: strict_sorted_iff)
  then have "tests_work test caseFold h valueOf candidates =
      (\<Sum>d \<in> set candidates. 1 + work (testMatcher test) * fed_length caseFold h (forEachTextValue (valueOf d)))"
    unfolding tests_work_def by (rule sum_list_distinct_conv_sum_set)
  also have "\<dots> \<le> document_work keys test caseFold h valueOf"
    unfolding document_work_def by (rule sum_mono2) (use assms in auto)
  finally show ?thesis .
qed

end

section \<open>The whole search\<close>

locale pattern_search =
  run_index readers represents + value_matcher ops ready reading decided spec work
  for readers :: "'i index_reader" and represents :: "'i \<Rightarrow> (nat \<rightharpoonup> code_units set) \<Rightarrow> bool"
    and ops :: "'m matcher_ops" and ready reading decided spec work
begin

text \<open>The candidates: sorted documents of the index, among them every document that matches.\<close>

lemma candidates_of:
  assumes "represents index keys" and "searchable keys test caseFold h valueOf" and "tally_ok t"
    and "shortlist readers (testRuns test) index t = Inr (shortlisted, index1, t')"
    and "(case shortlisted of Some candidates \<Rightarrow> (candidates, index1) | None \<Rightarrow> indexDocuments readers index1) = (candidates, index')"
  shows "represents index' keys \<and> same_budget t t' \<and> sorted_wrt (<) candidates \<and> set candidates \<subseteq> dom keys \<and>
    (\<forall>d \<in> dom keys. matches_value (testMatcher test) caseFold h (valueOf d) \<longrightarrow> d \<in> set candidates)"
proof -
  from assms(2) have "query_ok (testRuns test)"
    by (simp add: searchable_def)
  note found = shortlist_sound [OF assms(1,3) this assms(4)]
  show ?thesis
  proof (cases shortlisted)
    case None
    with documents_law [of index1 keys candidates index'] assms(5) found show ?thesis
      by auto
  next
    case (Some list)
    with assms(2,5) found show ?thesis
      by (auto simp: searchable_def)
  qed
qed

theorem matchPattern_exact:
  assumes "represents index keys" and "searchable keys test caseFold h valueOf" and "m_total meter \<le> m_cap meter"
    and "matchPattern readers ops test caseFold h valueOf index matches meter = Inr (matches', index', m, meter')"
  shows "represents index' keys \<and> length matches' = length matches \<and> loop_matcher test m \<and>
    members matches' = members matches \<union>
      {d \<in> dom keys. shift5 d < length matches \<and> matches_value (testMatcher test) caseFold h (valueOf d)} \<and>
    m_cap meter' = m_cap meter \<and> m_total meter' \<le> m_cap meter"
proof -
  have t: "tally_ok (newTally meter)" "tally_cap (newTally meter) = m_cap meter"
    using assms(3) by (simp_all add: newTally_ok) (simp add: newTally_def tally_cap_def)
  from assms(4) obtain shortlisted index1 t1
    where s: "shortlist readers (testRuns test) index (newTally meter) = Inr (shortlisted, index1, t1)"
    by (auto simp: matchPattern_def split: sum.splits)
  obtain candidates index2 where c: "(case shortlisted of Some candidates \<Rightarrow> (candidates, index1)
      | None \<Rightarrow> indexDocuments readers index1) = (candidates, index2)"
    by (rule prod.exhaust)
  note cand = candidates_of [OF assms(1,2) t(1) s c]
  from assms(4) s c obtain t2 t3 where l: "testCandidates ops test caseFold h valueOf (shortlisted = None) candidates matches None t1 =
        Inr (matches', m, t2)"
    and fl: "tallyFlush t2 = Inr t3" and out: "index' = index2" "meter' = t_meter t3"
    by (auto simp: matchPattern_def Let_def split: sum.splits)
  have "loop_matcher test None"
    using assms(2) by (simp add: searchable_def loop_matcher_def)
  moreover have "tally_ok t1" "\<forall>d \<in> set candidates. d < 2 ^ 32"
    using cand assms(2) by (auto simp: same_budget_def searchable_def)
  ultimately have tested: "members matches' = members matches \<union>
      {d \<in> set candidates. shift5 d < length matches \<and> matches_value (testMatcher test) caseFold h (valueOf d)} \<and>
      length matches' = length matches \<and> loop_matcher test m \<and> same_budget t1 t2"
    using testCandidates_correct [OF _ _ _ l] by blast
  from tallyFlush_ok [of t2] fl tested t cand have "tally_ok t3" "tally_cap t3 = m_cap meter" "t_pending t3 = 0"
    by (auto simp: same_budget_def)
  then have "m_cap meter' = m_cap meter \<and> m_total meter' \<le> m_cap meter"
    by (simp add: out tally_ok_def tally_cap_def spent_def)
  with cand tested show ?thesis
    by (auto simp: out)
qed

theorem matchPattern_returns:
  assumes "represents index keys" and "searchable keys test caseFold h valueOf" and "finite (dom keys)"
    and "m_total meter + query_work (card (dom keys)) (testRuns test) + document_work keys test caseFold h valueOf \<le> m_cap meter"
  shows "\<exists>r. matchPattern readers ops test caseFold h valueOf index matches meter = Inr r"
proof -
  have t: "tally_ok (newTally meter)" "tally_cap (newTally meter) = m_cap meter" "spent (newTally meter) = m_total meter"
    using assms(4) by (simp_all add: newTally_ok) (simp_all add: newTally_def tally_cap_def spent_def)
  have q: "query_ok (testRuns test)"
    using assms(2) by (simp add: searchable_def)
  note work = shortlist_work [OF assms(1) t(1) assms(3) q]
  from work(2) t assms(4) obtain shortlisted index1 t1
    where s: "shortlist readers (testRuns test) index (newTally meter) = Inr (shortlisted, index1, t1)"
    by (auto simp: add.assoc)
  obtain candidates index2 where c: "(case shortlisted of Some candidates \<Rightarrow> (candidates, index1)
      | None \<Rightarrow> indexDocuments readers index1) = (candidates, index2)"
    by (rule prod.exhaust)
  note cand = candidates_of [OF assms(1,2) t(1) s c]
  have "loop_matcher test None"
    using assms(2) by (simp add: searchable_def loop_matcher_def)
  moreover have "tally_ok t1"
    using cand by (simp add: same_budget_def)
  moreover have "spent t1 + tests_work test caseFold h valueOf candidates \<le> tally_cap t1"
    using work(1) [OF s] candidates_work [of candidates keys test caseFold h valueOf] cand assms(3,4) t
    by (simp add: same_budget_def)
  ultimately obtain matches' m t2 where l: "testCandidates ops test caseFold h valueOf (shortlisted = None) candidates matches None t1 =
        Inr (matches', m, t2)"
    using testCandidates_fits by (metis prod.exhaust)
  have "\<forall>d \<in> set candidates. d < 2 ^ 32"
    using cand assms(2) by (auto simp: searchable_def)
  from testCandidates_correct [OF \<open>loop_matcher test None\<close> \<open>tally_ok t1\<close> this l] have "tally_ok t2"
    by (simp add: same_budget_def)
  then obtain t3 where "tallyFlush t2 = Inr t3"
    by (rule tallyFlush_ok)
  then show ?thesis
    by (simp add: matchPattern_def s c l Let_def)
qed

end

end
