(* ===== verification/Growing_Index.thy ===== *)
theory Growing_Index
  imports Pattern_Shortlist Js_Values
begin

text \<open>
  \<open>pattern/growing-index.ts\<close>: the index of runs that grows with the documents of a partition. A map
  from the key of a run to the list of the documents that hold it; a removal only marks the
  document, and a list is compacted once half of it is marked, or when it is read.
  An array of a list is its written prefix \<open>runIds\<close> with the capacity. The index is an
  interpretation of \<open>run_index\<close>: after any sequence of additions and removals its answers are those
  of the documents it holds.
\<close>

definition RUN_LIST_INITIAL_CAPACITY :: nat where "RUN_LIST_INITIAL_CAPACITY = 4"
definition RUN_LIST_COMPACTION_FRACTION :: rat where "RUN_LIST_COMPACTION_FRACTION = 1 / 2"
definition RUN_ENTRY_OVERHEAD_BYTES :: int where "RUN_ENTRY_OVERHEAD_BYTES = 140"
definition DOCUMENT_ENTRY_BYTES :: int where "DOCUMENT_ENTRY_BYTES = 24"
definition UINT32_BYTES :: int where "UINT32_BYTES = 4"

record run_list =
  runIds :: "nat list"
  runCapacity :: nat
  runRemoved :: "nat list option"
  runOrdered :: bool

record growing_index =
  growRuns :: "(code_units, run_list) js_map"
  growDocuments :: "nat list"
  documentsCache :: "nat list option"
  listBytes :: int

section \<open>Lists\<close>

definition createRunList :: run_list where
  "createRunList = \<lparr>runIds = [], runCapacity = RUN_LIST_INITIAL_CAPACITY, runRemoved = None, runOrdered = True\<rparr>"

definition compactRemoved :: "run_list \<Rightarrow> run_list" where
  "compactRemoved list =
     (case runRemoved list of
        None \<Rightarrow> list
      | Some removed \<Rightarrow> list\<lparr>runIds := filter (\<lambda>ordinal. ordinal \<notin> set removed) (runIds list), runRemoved := None\<rparr>)"

definition compactAndSort :: "run_list \<Rightarrow> run_list" where
  "compactAndSort list =
     (let list = compactRemoved list
      in if \<not> runOrdered list then list\<lparr>runIds := sort (runIds list), runOrdered := True\<rparr> else list)"

section \<open>Operations\<close>

definition createGrowingIndex :: growing_index where
  "createGrowingIndex = \<lparr>growRuns = [], growDocuments = [], documentsCache = None, listBytes = 0\<rparr>"

definition runKeysOf :: "host \<Rightarrow> field_value \<Rightarrow> code_units list" where
  "runKeysOf h value =
     foldl (\<lambda>keys txt. collectRunKeys (appendTextCodePoints txt True h []) keys) [] (forEachTextValue value)"

definition grow :: "run_list \<Rightarrow> growing_index \<Rightarrow> run_list \<times> growing_index" where
  "grow list index =
     (list\<lparr>runCapacity := runCapacity list * 2\<rparr>,
      index\<lparr>listBytes := listBytes index +
        (int (runCapacity list * 2) * UINT32_BYTES - int (runCapacity list) * UINT32_BYTES)\<rparr>)"

definition putList :: "code_units \<Rightarrow> run_list \<Rightarrow> growing_index \<Rightarrow> growing_index" where
  "putList key list index = index\<lparr>growRuns := mapSet key list (growRuns index)\<rparr>"

definition listFor :: "code_units \<Rightarrow> growing_index \<Rightarrow> run_list \<times> growing_index" where
  "listFor key index =
     (case mapGet (growRuns index) key of
        None \<Rightarrow>
          let list = createRunList;
              index = index\<lparr>listBytes := listBytes index + int (runCapacity list) * UINT32_BYTES\<rparr>
          in (list, putList key list index)
      | Some list \<Rightarrow> (list, index))"

definition appendOrdinal :: "run_list \<Rightarrow> nat \<Rightarrow> growing_index \<Rightarrow> run_list \<times> growing_index" where
  "appendOrdinal list ordinal index =
     (if (case runRemoved list of None \<Rightarrow> False | Some removed \<Rightarrow> ordinal \<in> set removed)
      then (list\<lparr>runRemoved := map_option (removeAll ordinal) (runRemoved list)\<rparr>, index)
      else
        let (list, index) = (if length (runIds list) = runCapacity list then grow list index else (list, index));
            list = (if 0 < length (runIds list) \<and> ordinal < runIds list ! (length (runIds list) - 1)
                    then list\<lparr>runOrdered := False\<rparr> else list)
        in (list\<lparr>runIds := runIds list @ [ordinal mod 2 ^ 32]\<rparr>, index))"

definition dropIfEmpty :: "code_units \<Rightarrow> run_list \<Rightarrow> growing_index \<Rightarrow> growing_index" where
  "dropIfEmpty key list index =
     (if 0 < length (runIds list) then index
      else index\<lparr>listBytes := listBytes index - int (runCapacity list) * UINT32_BYTES,
                 growRuns := AList.delete key (growRuns index)\<rparr>)"

definition markRemoved :: "code_units \<Rightarrow> run_list \<Rightarrow> nat \<Rightarrow> growing_index \<Rightarrow> growing_index" where
  "markRemoved key list ordinal index =
     (let removed = keyAdd ordinal (case runRemoved list of None \<Rightarrow> [] | Some removed \<Rightarrow> removed);
          list = list\<lparr>runRemoved := Some removed\<rparr>
      in if of_nat (length removed) < of_nat (length (runIds list)) * RUN_LIST_COMPACTION_FRACTION
         then putList key list index
         else let list = compactRemoved list in dropIfEmpty key list (putList key list index))"

definition settledPostings :: "code_units \<Rightarrow> growing_index \<Rightarrow> nat list \<times> growing_index" where
  "settledPostings key index =
     (case mapGet (growRuns index) key of
        None \<Rightarrow> ([], index)
      | Some list \<Rightarrow>
          let list = compactAndSort list; index = putList key list index
          in if length (runIds list) = 0 then ([], dropIfEmpty key list index) else (runIds list, index))"

definition sortedDocuments :: "growing_index \<Rightarrow> nat list \<times> growing_index" where
  "sortedDocuments index =
     (case documentsCache index of
        None \<Rightarrow> let cache = sort (growDocuments index) in (cache, index\<lparr>documentsCache := Some cache\<rparr>)
      | Some cache \<Rightarrow> (cache, index))"

definition addDocument :: "nat \<Rightarrow> growing_index \<Rightarrow> growing_index" where
  "addDocument ordinal index =
     index\<lparr>growDocuments := keyAdd ordinal (growDocuments index), documentsCache := None\<rparr>"

definition appendKey :: "nat \<Rightarrow> code_units \<Rightarrow> growing_index \<Rightarrow> growing_index" where
  "appendKey ordinal key index =
     (let (list, index) = listFor key index; (list, index) = appendOrdinal list ordinal index
      in putList key list index)"

definition indexAdd :: "host \<Rightarrow> nat \<Rightarrow> field_value \<Rightarrow> growing_index \<Rightarrow> growing_index" where
  "indexAdd h ordinal value index =
     (if \<not> holdsTextValue value then index
      else fold (appendKey ordinal) (runKeysOf h value) (addDocument ordinal index))"

definition removeKey :: "nat \<Rightarrow> code_units \<Rightarrow> growing_index \<Rightarrow> growing_index" where
  "removeKey ordinal key index =
     (case mapGet (growRuns index) key of None \<Rightarrow> index | Some list \<Rightarrow> markRemoved key list ordinal index)"

definition indexRemove :: "host \<Rightarrow> nat \<Rightarrow> field_value \<Rightarrow> growing_index \<Rightarrow> growing_index" where
  "indexRemove h ordinal value index =
     (if \<not> holdsTextValue value then index
      else
        let index = (if ordinal \<in> set (growDocuments index)
              then index\<lparr>growDocuments := removeAll ordinal (growDocuments index), documentsCache := None\<rparr> else index)
        in fold (removeKey ordinal) (runKeysOf h value) index)"

definition indexClear :: "growing_index \<Rightarrow> growing_index" where
  "indexClear index = index\<lparr>growRuns := [], growDocuments := [], documentsCache := None, listBytes := 0\<rparr>"

definition growingBytes :: "growing_index \<Rightarrow> int" where
  "growingBytes index =
     listBytes index + int (length (growRuns index)) * RUN_ENTRY_OVERHEAD_BYTES +
     int (length (growDocuments index)) * DOCUMENT_ENTRY_BYTES +
     (case documentsCache index of None \<Rightarrow> 0 | Some cache \<Rightarrow> int (length cache) * UINT32_BYTES)"

definition growing_reader :: "growing_index index_reader" where
  "growing_reader =
     \<lparr>indexDocuments = sortedDocuments,
      indexPostings = (\<lambda>first second third. settledPostings (runKey first second third))\<rparr>"

section \<open>One list\<close>

definition marked :: "run_list \<Rightarrow> nat set" where
  "marked list = (case runRemoved list of None \<Rightarrow> {} | Some removed \<Rightarrow> set removed)"

definition live_ids :: "run_list \<Rightarrow> nat set" where
  "live_ids list = set (runIds list) - marked list"

definition list_ok :: "run_list \<Rightarrow> bool" where
  "list_ok list \<longleftrightarrow>
     distinct (runIds list) \<and> marked list \<subseteq> set (runIds list) \<and> length (runIds list) \<le> runCapacity list \<and>
     (case runRemoved list of None \<Rightarrow> True | Some removed \<Rightarrow> distinct removed) \<and>
     0 < runCapacity list \<and> (runOrdered list \<longrightarrow> sorted (runIds list)) \<and> (\<forall>d \<in> set (runIds list). d < 2 ^ 32)"

lemma createRunList_ok: "list_ok createRunList" "live_ids createRunList = {}"
  by (simp_all add: list_ok_def live_ids_def marked_def createRunList_def RUN_LIST_INITIAL_CAPACITY_def)

lemma compactRemoved_ok:
  "list_ok list \<Longrightarrow> list_ok (compactRemoved list) \<and> live_ids (compactRemoved list) = live_ids list \<and>
     set (runIds (compactRemoved list)) = live_ids list \<and> runCapacity (compactRemoved list) = runCapacity list"
  by (auto simp: compactRemoved_def list_ok_def live_ids_def marked_def sorted_filter [where f = id, simplified]
      intro: le_trans [OF length_filter_le] split: option.splits)

lemma compactAndSort_ok:
  assumes "list_ok list"
  shows "list_ok (compactAndSort list)" and "live_ids (compactAndSort list) = live_ids list"
    and "set (runIds (compactAndSort list)) = live_ids list" and "sorted_wrt (<) (runIds (compactAndSort list))"
    and "runCapacity (compactAndSort list) = runCapacity list"
proof -
  let ?l = "compactRemoved list"
  have l: "list_ok ?l" "live_ids ?l = live_ids list" "set (runIds ?l) = live_ids list" "runCapacity ?l = runCapacity list"
    using compactRemoved_ok [OF assms] by simp_all
  then show "list_ok (compactAndSort list)" "live_ids (compactAndSort list) = live_ids list"
    "set (runIds (compactAndSort list)) = live_ids list" "sorted_wrt (<) (runIds (compactAndSort list))"
    "runCapacity (compactAndSort list) = runCapacity list"
    by (auto simp: compactAndSort_def Let_def list_ok_def live_ids_def marked_def strict_sorted_iff)
qed

lemma appendOrdinal_ok:
  assumes "list_ok list" and "ordinal < 2 ^ 32" and "ordinal \<notin> live_ids list"
    and "appendOrdinal list ordinal index = (list', index')"
  shows "list_ok list' \<and> live_ids list' = insert ordinal (live_ids list) \<and>
    index' = index\<lparr>listBytes := listBytes index + (int (runCapacity list') - int (runCapacity list)) * UINT32_BYTES\<rparr>"
proof (cases "ordinal \<in> marked list")
  case True
  then obtain removed where removed: "runRemoved list = Some removed" "ordinal \<in> set removed"
    by (auto simp: marked_def split: option.splits)
  with assms(4) have "list' = list\<lparr>runRemoved := Some (removeAll ordinal removed)\<rparr>" "index' = index"
    by (auto simp: appendOrdinal_def)
  with assms(1) removed show ?thesis
    by (auto simp: list_ok_def live_ids_def marked_def distinct_removeAll)
next
  case False
  then have new: "ordinal \<notin> set (runIds list)"
    using assms(3) by (auto simp: live_ids_def)
  define room where "room = (if length (runIds list) = runCapacity list then runCapacity list * 2 else runCapacity list)"
  define inOrder where "inOrder \<longleftrightarrow> runOrdered list \<and>
    \<not> (0 < length (runIds list) \<and> ordinal < runIds list ! (length (runIds list) - 1))"
  from False have "\<not> (case runRemoved list of None \<Rightarrow> False | Some removed \<Rightarrow> ordinal \<in> set removed)"
    by (auto simp: marked_def split: option.splits)
  with assms(2,4) have l: "list' = list\<lparr>runCapacity := room, runOrdered := inOrder, runIds := runIds list @ [ordinal]\<rparr>"
    and i: "index' = index\<lparr>listBytes := listBytes index + (int room - int (runCapacity list)) * UINT32_BYTES\<rparr>"
    by (auto simp: appendOrdinal_def grow_def room_def inOrder_def Let_def left_diff_distrib split: if_splits)
  have "sorted (runIds list @ [ordinal])" if inOrder
  proof -
    have s: "sorted (runIds list)"
      using assms(1) that by (simp add: list_ok_def inOrder_def)
    have "d \<le> ordinal" if d: "d \<in> set (runIds list)" for d
    proof -
      from d obtain n where n: "n < length (runIds list)" "runIds list ! n = d"
        by (auto simp: in_set_conv_nth)
      with s have "d \<le> runIds list ! (length (runIds list) - 1)"
        by (auto intro: sorted_nth_mono)
      with n \<open>inOrder\<close> show ?thesis
        by (auto simp: inOrder_def)
    qed
    with s show ?thesis by (simp add: sorted_append)
  qed
  moreover have "length (runIds list) < room"
    using assms(1) by (auto simp: list_ok_def room_def)
  ultimately show ?thesis
    using assms(1,2) new False by (auto simp: l i list_ok_def live_ids_def marked_def split: option.splits)
qed

section \<open>The whole index\<close>

definition capacities :: "(code_units, run_list) js_map \<Rightarrow> int" where
  "capacities m = (\<Sum>(key, list) \<leftarrow> m. int (runCapacity list))"

lemma capacities_set: "capacities (mapSet key list m) =
    capacities m - (case mapGet m key of None \<Rightarrow> 0 | Some old \<Rightarrow> int (runCapacity old)) + int (runCapacity list)"
  by (induction m) (auto simp: capacities_def)

lemma capacities_delete: "distinct (mapKeys m) \<Longrightarrow> capacities (AList.delete key m) =
    capacities m - (case mapGet m key of None \<Rightarrow> 0 | Some old \<Rightarrow> int (runCapacity old))"
proof (induction m)
  case (Cons entry m)
  have "key \<notin> set (mapKeys m) \<Longrightarrow> AList.delete key m = m"
    by (simp add: delete_id)
  with Cons show ?case
    by (cases entry) (auto simp: capacities_def split: option.splits dest: map_of_SomeD)
qed (simp add: capacities_def)

definition live_of :: "growing_index \<Rightarrow> code_units \<Rightarrow> nat set" where
  "live_of index key = (case mapGet (growRuns index) key of None \<Rightarrow> {} | Some list \<Rightarrow> live_ids list)"

text \<open>Every list that is kept, those of \<open>holes\<close> aside, has a live document; the bytes are counted exactly.\<close>

definition runs_ok :: "code_units set \<Rightarrow> (code_units, run_list) js_map \<Rightarrow> bool" where
  "runs_ok holes runs \<longleftrightarrow>
     (\<forall>key. case mapGet runs key of None \<Rightarrow> True
        | Some list \<Rightarrow> list_ok list \<and> (key \<notin> holes \<longrightarrow> live_ids list \<noteq> {}))"

lemma runs_okI:
  "(\<And>key list. mapGet runs key = Some list \<Longrightarrow> list_ok list \<and> (key \<notin> holes \<longrightarrow> live_ids list \<noteq> {})) \<Longrightarrow> runs_ok holes runs"
  by (simp add: runs_ok_def split: option.split)

lemma runs_okD:
  "runs_ok holes runs \<Longrightarrow> mapGet runs key = Some list \<Longrightarrow> list_ok list \<and> (key \<notin> holes \<longrightarrow> live_ids list \<noteq> {})"
  unfolding runs_ok_def by (drule spec [of _ key]) simp

lemma runs_ok_set:
  assumes "runs_ok holes runs" and "list_ok list" and "live_ids list = {} \<Longrightarrow> key \<in> holes'" and "holes - {key} \<subseteq> holes'"
  shows "runs_ok holes' (mapSet key list runs)"
proof (rule runs_okI)
  fix k l
  assume "mapGet (mapSet key list runs) k = Some l"
  with assms runs_okD [OF assms(1), of k l] show "list_ok l \<and> (k \<notin> holes' \<longrightarrow> live_ids l \<noteq> {})"
    by (cases "k = key") (auto simp: mapGet_set)
qed

lemma mapGet_delete: "mapGet (AList.delete key runs) k = (if k = key then None else mapGet runs k)"
  by (simp add: delete_conv')

lemma runs_ok_delete:
  assumes "runs_ok holes runs"
  shows "runs_ok (holes - {key}) (AList.delete key runs)"
proof (rule runs_okI)
  fix k l
  assume "mapGet (AList.delete key runs) k = Some l"
  with runs_okD [OF assms, of k l] show "list_ok l \<and> (k \<notin> holes - {key} \<longrightarrow> live_ids l \<noteq> {})"
    by (cases "k = key") (auto simp: mapGet_delete)
qed

lemma runs_ok_weaken:
  assumes "runs_ok holes runs" and "\<And>key list. key \<in> holes - holes' \<Longrightarrow> mapGet runs key = Some list \<Longrightarrow> live_ids list \<noteq> {}"
  shows "runs_ok holes' runs"
proof (rule runs_okI)
  fix k l
  assume "mapGet runs k = Some l"
  with runs_okD [OF assms(1) this] assms(2) show "list_ok l \<and> (k \<notin> holes' \<longrightarrow> live_ids l \<noteq> {})"
    by blast
qed

definition growing_ok :: "code_units set \<Rightarrow> growing_index \<Rightarrow> bool" where
  "growing_ok holes index \<longleftrightarrow>
     distinct (mapKeys (growRuns index)) \<and>
     runs_ok holes (growRuns index) \<and>
     listBytes index = capacities (growRuns index) * UINT32_BYTES \<and>
     distinct (growDocuments index) \<and> (\<forall>d \<in> set (growDocuments index). d < 2 ^ 32) \<and>
     (\<forall>cache. documentsCache index = Some cache \<longrightarrow> cache = sort (growDocuments index))"

definition growing_represents :: "growing_index \<Rightarrow> (nat \<rightharpoonup> code_units set) \<Rightarrow> bool" where
  "growing_represents index keys \<longleftrightarrow>
     growing_ok {} index \<and> set (growDocuments index) = dom keys \<and>
     (\<forall>key. live_of index key = {d. \<exists>ks. keys d = Some ks \<and> key \<in> ks})"

lemma growing_ok_docs: "growing_ok holes index \<Longrightarrow> distinct (growDocuments index) \<and> (\<forall>d \<in> set (growDocuments index). d < 2 ^ 32)"
  by (simp add: growing_ok_def)

lemma growing_ok_list: "growing_ok holes index \<Longrightarrow> mapGet (growRuns index) key = Some list \<Longrightarrow>
    list_ok list \<and> (key \<notin> holes \<longrightarrow> live_ids list \<noteq> {}) \<and> live_of index key = live_ids list"
  unfolding growing_ok_def by (metis live_of_def option.case(2) runs_okD)

text \<open>What an operation on the lists leaves alone.\<close>

definition same_documents :: "growing_index \<Rightarrow> growing_index \<Rightarrow> bool" where
  "same_documents index index' \<longleftrightarrow> growDocuments index' = growDocuments index \<and> documentsCache index' = documentsCache index"

lemma same_documents_trans: "same_documents a b \<Longrightarrow> same_documents b c \<Longrightarrow> same_documents a c"
  by (simp add: same_documents_def)

lemma putList_ok:
  assumes "growing_ok holes index" and "mapGet (growRuns index) key = Some old" and "list_ok list"
    and "live_ids list = {} \<Longrightarrow> key \<in> holes'" and "holes - {key} \<subseteq> holes'"
    and "index' = index\<lparr>listBytes := listBytes index + (int (runCapacity list) - int (runCapacity old)) * UINT32_BYTES\<rparr>"
  shows "growing_ok holes' (putList key list index') \<and>
    live_of (putList key list index') = (live_of index)(key := live_ids list) \<and>
    same_documents index (putList key list index') \<and> mapGet (growRuns (putList key list index')) key = Some list"
proof -
  have "runs_ok holes' (mapSet key list (growRuns index))"
    by (rule runs_ok_set [OF _ assms(3,4,5)]) (use assms(1) in \<open>simp add: growing_ok_def\<close>)
  with assms(1,2,6) show ?thesis
    by (simp add: growing_ok_def putList_def capacities_set mapGet_set live_of_def same_documents_def fun_eq_iff
        distinct_update ring_distribs)
qed

lemma listFor_ok:
  assumes "growing_ok holes index" and "listFor key index = (list, index')"
  shows "growing_ok (insert key holes) index' \<and> mapGet (growRuns index') key = Some list \<and> list_ok list \<and>
    live_of index' = live_of index \<and> live_ids list = live_of index key \<and> same_documents index index' \<and>
    (live_ids list = {} \<longrightarrow> key \<in> holes \<or> runIds list = [])"
proof (cases "mapGet (growRuns index) key")
  case None
  with assms have l: "list = createRunList"
    and i: "index' = putList key list (index\<lparr>listBytes := listBytes index + int (runCapacity list) * UINT32_BYTES\<rparr>)"
    by (auto simp: listFor_def Let_def)
  have "growing_ok (insert key holes) index'"
    using assms(1) None createRunList_ok runs_ok_set [of holes "growRuns index" createRunList key "insert key holes"]
    by (auto simp: i l growing_ok_def putList_def capacities_set distinct_update ring_distribs)
  moreover have "live_of index' = live_of index"
    using None createRunList_ok by (auto simp: i l live_of_def putList_def mapGet_set fun_eq_iff)
  ultimately show ?thesis
    using None createRunList_ok
    by (simp add: i l live_of_def putList_def mapGet_set same_documents_def) (simp add: createRunList_def)
next
  case (Some old)
  with assms(2) have "list = old" "index' = index"
    by (simp_all add: listFor_def)
  moreover have "growing_ok (insert key holes) index"
    using assms(1) runs_ok_weaken [of holes "growRuns index" "insert key holes"] by (auto simp: growing_ok_def)
  ultimately show ?thesis
    using Some growing_ok_list [OF assms(1) Some] by (auto simp: same_documents_def)
qed

lemma dropIfEmpty_ok:
  assumes "growing_ok holes index" and "mapGet (growRuns index) key = Some list"
    and "live_ids list = {} \<Longrightarrow> runIds list = []" and "holes \<subseteq> {key}"
  shows "growing_ok {} (dropIfEmpty key list index) \<and> live_of (dropIfEmpty key list index) = live_of index \<and>
    same_documents index (dropIfEmpty key list index)"
proof (cases "runIds list = []")
  case False
  then have "live_ids list \<noteq> {}"
    using assms(3) by blast
  then have "runs_ok {} (growRuns index)"
    using assms(1,2,4) by (intro runs_ok_weaken [of holes "growRuns index" "{}"]) (auto simp: growing_ok_def simp del: map_of_eq_Some_iff)
  with False assms(1) show ?thesis
    by (simp add: dropIfEmpty_def growing_ok_def same_documents_def)
next
  case True
  then have live: "live_ids list = {}"
    by (simp add: live_ids_def)
  have "holes - {key} = {}"
    using assms(4) by blast
  with assms(1) runs_ok_delete [of holes "growRuns index" key] have "runs_ok {} (AList.delete key (growRuns index))"
    by (simp add: growing_ok_def)
  with assms(1,2) True have "growing_ok {} (dropIfEmpty key list index)"
    by (simp add: dropIfEmpty_def growing_ok_def capacities_delete distinct_delete left_diff_distrib)
  moreover have "live_of (dropIfEmpty key list index) = live_of index"
    using assms(2) True live by (auto simp: dropIfEmpty_def live_of_def mapGet_delete fun_eq_iff)
  ultimately show ?thesis
    by (simp add: dropIfEmpty_def same_documents_def)
qed

section \<open>Every operation\<close>

lemma appendKey_ok:
  assumes "growing_ok {} index" and "ordinal < 2 ^ 32" and "ordinal \<notin> live_of index key"
  shows "growing_ok {} (appendKey ordinal key index) \<and>
    live_of (appendKey ordinal key index) = (live_of index)(key := insert ordinal (live_of index key)) \<and>
    same_documents index (appendKey ordinal key index)"
proof -
  obtain list index1 where l: "listFor key index = (list, index1)"
    by (cases "listFor key index")
  note found = listFor_ok [OF assms(1) l]
  obtain list' index2 where a: "appendOrdinal list ordinal index1 = (list', index2)"
    by (cases "appendOrdinal list ordinal index1")
  from found assms(3) have "list_ok list" "ordinal \<notin> live_ids list"
    by simp_all
  note app = appendOrdinal_ok [OF this(1) assms(2) this(2) a]
  from found have ok: "growing_ok {key} index1" "mapGet (growRuns index1) key = Some list"
    by simp_all
  have "growing_ok {} (putList key list' index2) \<and> live_of (putList key list' index2) = (live_of index1)(key := live_ids list') \<and>
    same_documents index1 (putList key list' index2) \<and> mapGet (growRuns (putList key list' index2)) key = Some list'"
    by (rule putList_ok [OF ok]) (use app in auto)
  with app found show ?thesis
    by (auto simp: appendKey_def l a intro: same_documents_trans)
qed

lemma removeKey_ok:
  assumes "growing_ok {} index" and "ordinal \<in> live_of index key"
  shows "growing_ok {} (removeKey ordinal key index) \<and>
    live_of (removeKey ordinal key index) = (live_of index)(key := live_of index key - {ordinal}) \<and>
    same_documents index (removeKey ordinal key index)"
proof -
  from assms(2) obtain list where list: "mapGet (growRuns index) key = Some list"
    by (auto simp: live_of_def split: option.splits)
  note l = growing_ok_list [OF assms(1) list]
  define removed where "removed = keyAdd ordinal (case runRemoved list of None \<Rightarrow> [] | Some removed \<Rightarrow> removed)"
  define list1 where "list1 = list\<lparr>runRemoved := Some removed\<rparr>"
  have set_removed: "set removed = insert ordinal (marked list)"
    by (auto simp: removed_def marked_def split: option.splits)
  have ord: "ordinal \<in> set (runIds list)"
    using assms(2) l by (auto simp: live_ids_def)
  have "distinct removed"
    using l by (auto simp: removed_def list_ok_def split: option.splits)
  then have ok1: "list_ok list1"
    using l ord by (auto simp: list1_def list_ok_def marked_def set_removed split: option.splits)
  have live1: "live_ids list1 = live_of index key - {ordinal}"
    using l by (auto simp: list1_def live_ids_def marked_def set_removed split: option.splits)
  show ?thesis
  proof (cases "(of_nat (length removed) :: rat) < of_nat (length (runIds list)) * RUN_LIST_COMPACTION_FRACTION")
    case True
    then have "(of_nat (2 * length removed) :: rat) < of_nat (length (runIds list))"
      by (simp add: RUN_LIST_COMPACTION_FRACTION_def)
    then have "2 * length removed < length (runIds list)"
      using of_nat_less_iff by blast
    then have "card (set removed) < card (set (runIds list))"
      using \<open>distinct removed\<close> l by (simp add: distinct_card list_ok_def)
    then have "\<not> set (runIds list) \<subseteq> set removed"
      using card_mono [of "set removed" "set (runIds list)"] by auto
    then have "live_ids list1 \<noteq> {}"
      by (auto simp: list1_def live_ids_def marked_def)
    moreover have "removeKey ordinal key index = putList key list1 index"
      using True by (simp add: removeKey_def list markRemoved_def Let_def removed_def list1_def)
    ultimately show ?thesis
      using putList_ok [OF assms(1) list ok1, of "{}" index] live1 by (simp add: list1_def)
  next
    case False
    let ?l = "compactRemoved list1"
    note c = compactRemoved_ok [OF ok1]
    have "removeKey ordinal key index = dropIfEmpty key ?l (putList key ?l index)"
      using False by (simp add: removeKey_def list markRemoved_def Let_def removed_def list1_def)
    moreover have "growing_ok {key} (putList key ?l index) \<and> live_of (putList key ?l index) = (live_of index)(key := live_ids ?l) \<and>
        same_documents index (putList key ?l index) \<and> mapGet (growRuns (putList key ?l index)) key = Some ?l"
      by (rule putList_ok [OF assms(1) list]) (use c in \<open>auto simp: list1_def\<close>)
    moreover from this have "growing_ok {} (dropIfEmpty key ?l (putList key ?l index)) \<and>
        live_of (dropIfEmpty key ?l (putList key ?l index)) = live_of (putList key ?l index) \<and>
        same_documents (putList key ?l index) (dropIfEmpty key ?l (putList key ?l index))"
      by (intro dropIfEmpty_ok [of "{key}"]) (use c in auto)
    ultimately show ?thesis
      using c live1 by (auto intro: same_documents_trans)
  qed
qed

text \<open>The loops over the keys of a value.\<close>

lemma fold_appendKey_ok:
  assumes "growing_ok {} index" and "ordinal < 2 ^ 32" and "distinct ks" and "\<forall>k \<in> set ks. ordinal \<notin> live_of index k"
  shows "growing_ok {} (fold (appendKey ordinal) ks index) \<and> same_documents index (fold (appendKey ordinal) ks index) \<and>
    live_of (fold (appendKey ordinal) ks index) =
      (\<lambda>k. if k \<in> set ks then insert ordinal (live_of index k) else live_of index k)"
  using assms
proof (induction ks arbitrary: index)
  case Nil
  then show ?case by (simp add: same_documents_def)
next
  case (Cons key ks)
  from Cons.prems(3,4) have ks: "key \<notin> set ks" "distinct ks" "ordinal \<notin> live_of index key" "\<forall>k \<in> set ks. ordinal \<notin> live_of index k"
    by simp_all
  note one = appendKey_ok [OF Cons.prems(1,2) ks(3)]
  then have "growing_ok {} (appendKey ordinal key index)" "\<forall>k \<in> set ks. ordinal \<notin> live_of (appendKey ordinal key index) k"
    using ks by auto
  from Cons.IH [OF this(1) Cons.prems(2) ks(2) this(2)] one ks(1) show ?case
    by (auto simp: fun_eq_iff intro: same_documents_trans)
qed

lemma fold_removeKey_ok:
  assumes "growing_ok {} index" and "distinct ks" and "\<forall>k \<in> set ks. ordinal \<in> live_of index k"
  shows "growing_ok {} (fold (removeKey ordinal) ks index) \<and> same_documents index (fold (removeKey ordinal) ks index) \<and>
    live_of (fold (removeKey ordinal) ks index) =
      (\<lambda>k. if k \<in> set ks then live_of index k - {ordinal} else live_of index k)"
  using assms
proof (induction ks arbitrary: index)
  case Nil
  then show ?case by (simp add: same_documents_def)
next
  case (Cons key ks)
  from Cons.prems(2,3) have ks: "key \<notin> set ks" "distinct ks" "ordinal \<in> live_of index key" "\<forall>k \<in> set ks. ordinal \<in> live_of index k"
    by simp_all
  note one = removeKey_ok [OF Cons.prems(1) ks(3)]
  then have "growing_ok {} (removeKey ordinal key index)" "\<forall>k \<in> set ks. ordinal \<in> live_of (removeKey ordinal key index) k"
    using ks by auto
  from Cons.IH [OF this(1) ks(2) this(2)] one ks(1) show ?case
    by (auto simp: fun_eq_iff intro: same_documents_trans)
qed

lemma distinct_runKeysOf: "distinct (runKeysOf h value)"
  unfolding runKeysOf_def by (rule foldl_invariant) (simp_all add: collectRunKeys_eq(2))

text \<open>The key set that a document with a value contributes.\<close>

definition with_document :: "host \<Rightarrow> nat \<Rightarrow> field_value \<Rightarrow> (nat \<rightharpoonup> code_units set) \<Rightarrow> nat \<rightharpoonup> code_units set" where
  "with_document h ordinal value keys =
     (if holdsTextValue value then keys(ordinal \<mapsto> set (runKeysOf h value)) else keys)"

lemma create_represents: "growing_represents createGrowingIndex Map.empty"
  by (simp add: growing_represents_def growing_ok_def createGrowingIndex_def live_of_def runs_ok_def capacities_def)

lemma indexClear_represents: "growing_represents (indexClear index) Map.empty"
  by (simp add: growing_represents_def growing_ok_def indexClear_def live_of_def runs_ok_def capacities_def)

lemma growing_ok_documents:
  assumes "growing_ok {} index" and "growRuns index' = growRuns index" and "listBytes index' = listBytes index"
    and "distinct (growDocuments index')" and "\<forall>d \<in> set (growDocuments index'). d < 2 ^ 32"
    and "documentsCache index' = None \<or> documentsCache index' = Some (sort (growDocuments index'))"
  shows "growing_ok {} index' \<and> live_of index' = live_of index"
  using assms by (auto simp: growing_ok_def live_of_def fun_eq_iff)

lemma indexAdd_represents:
  assumes "growing_represents index keys" and "keys ordinal = None" and "ordinal < 2 ^ 32"
  shows "growing_represents (indexAdd h ordinal value index) (with_document h ordinal value keys)"
proof (cases "holdsTextValue value")
  case True
  from assms(1) have ok: "growing_ok {} index" and docs: "set (growDocuments index) = dom keys"
    and live: "live_of index k = {d. \<exists>ks. keys d = Some ks \<and> k \<in> ks}" for k
    by (simp_all add: growing_represents_def)
  have "distinct (growDocuments index)" "\<forall>d \<in> set (growDocuments index). d < 2 ^ 32"
    using growing_ok_docs [OF ok] by simp_all
  then have "growing_ok {} (addDocument ordinal index) \<and> live_of (addDocument ordinal index) = live_of index"
    using assms(3) by (intro growing_ok_documents [OF ok]) (simp_all add: addDocument_def)
  then have added: "growing_ok {} (addDocument ordinal index)" "live_of (addDocument ordinal index) = live_of index"
    by simp_all
  have "\<forall>k \<in> set (runKeysOf h value). ordinal \<notin> live_of (addDocument ordinal index) k"
    using assms(2) by (simp add: added live)
  from fold_appendKey_ok [OF added(1) assms(3) distinct_runKeysOf this]
  have "growing_ok {} (indexAdd h ordinal value index)"
    and "same_documents (addDocument ordinal index) (indexAdd h ordinal value index)"
    and "live_of (indexAdd h ordinal value index) =
      (\<lambda>k. if k \<in> set (runKeysOf h value) then insert ordinal (live_of index k) else live_of index k)"
    using True by (simp_all add: indexAdd_def added fun_eq_iff)
  with True docs assms(2) show ?thesis
    by (auto simp: growing_represents_def with_document_def same_documents_def addDocument_def live)
next
  case False
  with assms(1) show ?thesis
    by (simp add: indexAdd_def with_document_def)
qed

lemma indexRemove_represents:
  assumes "growing_represents index keys" and "with_document h ordinal value keys = keys"
  shows "growing_represents (indexRemove h ordinal value index) (if holdsTextValue value then keys(ordinal := None) else keys)"
proof (cases "holdsTextValue value")
  case True
  with assms(2) have mine: "keys ordinal = Some (set (runKeysOf h value))"
    by (metis fun_upd_same with_document_def)
  from assms(1) have ok: "growing_ok {} index" and docs: "set (growDocuments index) = dom keys"
    and live: "live_of index k = {d. \<exists>ks. keys d = Some ks \<and> k \<in> ks}" for k
    by (simp_all add: growing_represents_def)
  define index1 where "index1 = index\<lparr>growDocuments := removeAll ordinal (growDocuments index), documentsCache := None\<rparr>"
  have "distinct (growDocuments index)" "\<forall>d \<in> set (growDocuments index). d < 2 ^ 32"
    using growing_ok_docs [OF ok] by simp_all
  then have "growing_ok {} index1 \<and> live_of index1 = live_of index"
    by (intro growing_ok_documents [OF ok]) (simp_all add: index1_def distinct_removeAll)
  then have removed: "growing_ok {} index1" "live_of index1 = live_of index"
    by simp_all
  have "indexRemove h ordinal value index = fold (removeKey ordinal) (runKeysOf h value) index1"
    using True docs mine by (auto simp: indexRemove_def index1_def Let_def)
  moreover have "\<forall>k \<in> set (runKeysOf h value). ordinal \<in> live_of index1 k"
    using mine by (simp add: removed live)
  note fold_removeKey_ok [OF removed(1) distinct_runKeysOf this]
  ultimately have "growing_ok {} (indexRemove h ordinal value index)"
    and "same_documents index1 (indexRemove h ordinal value index)"
    and "live_of (indexRemove h ordinal value index) =
      (\<lambda>k. if k \<in> set (runKeysOf h value) then live_of index k - {ordinal} else live_of index k)"
    by (simp_all add: removed fun_eq_iff)
  with True docs mine show ?thesis
    by (auto simp: growing_represents_def same_documents_def index1_def live)
next
  case False
  with assms(1) show ?thesis
    by (simp add: indexRemove_def)
qed

section \<open>The questions\<close>

lemma settledPostings_ok:
  assumes "growing_ok {} index" and "settledPostings key index = (list, index')"
  shows "growing_ok {} index' \<and> live_of index' = live_of index \<and> same_documents index index' \<and>
    sorted_wrt (<) list \<and> set list = live_of index key"
proof (cases "mapGet (growRuns index) key")
  case None
  with assms show ?thesis
    by (auto simp: settledPostings_def live_of_def same_documents_def)
next
  case (Some old)
  note l = growing_ok_list [OF assms(1) Some]
  note c = compactAndSort_ok [OF conjunct1 [OF l]]
  let ?l = "compactAndSort old"
  have "growing_ok {} (putList key ?l index) \<and> live_of (putList key ?l index) = (live_of index)(key := live_ids ?l) \<and>
      same_documents index (putList key ?l index) \<and> mapGet (growRuns (putList key ?l index)) key = Some ?l"
    by (rule putList_ok [OF assms(1) Some]) (use c l in auto)
  moreover have "runIds ?l \<noteq> []"
    using c(3) l by auto
  ultimately show ?thesis
    using assms(2) Some c l by (auto simp: settledPostings_def Let_def fun_eq_iff)
qed

lemma sortedDocuments_ok:
  assumes "growing_ok {} index" and "sortedDocuments index = (list, index')"
  shows "growing_ok {} index' \<and> live_of index' = live_of index \<and> growDocuments index' = growDocuments index \<and>
    sorted_wrt (<) list \<and> set list = set (growDocuments index)"
proof (cases "documentsCache index")
  case None
  with assms(2) have i: "index' = index\<lparr>documentsCache := Some list\<rparr>" and l: "list = sort (growDocuments index)"
    by (auto simp: sortedDocuments_def Let_def)
  have "growing_ok {} index' \<and> live_of index' = live_of index"
    using growing_ok_docs [OF assms(1)] by (intro growing_ok_documents [OF assms(1)]) (simp_all add: i l)
  then show ?thesis
    using growing_ok_docs [OF assms(1)] by (simp add: i l strict_sorted_iff)
next
  case (Some cache)
  with assms have "index' = index" "list = sort (growDocuments index)"
    by (auto simp: sortedDocuments_def growing_ok_def)
  then show ?thesis
    using assms(1) growing_ok_docs [OF assms(1)] by (simp add: strict_sorted_iff)
qed

interpretation growing: run_index growing_reader growing_represents
proof
  fix index keys list index'
  assume "growing_represents index keys" and "indexDocuments growing_reader index = (list, index')"
  with sortedDocuments_ok [of index list index'] show
    "growing_represents index' keys \<and> sorted_wrt (<) list \<and> set list = dom keys"
    by (simp add: growing_represents_def growing_reader_def)
next
  fix index keys a b c list index'
  assume "growing_represents index keys" and "is_run (a, b, c)"
    and "indexPostings growing_reader a b c index = (list, index')"
  with settledPostings_ok [of index "runKey a b c" list index'] show "growing_represents index' keys \<and> sorted_wrt (<) list \<and>
      set list = {d. \<exists>ks. keys d = Some ks \<and> runKey a b c \<in> ks}"
    by (simp add: growing_represents_def growing_reader_def same_documents_def)
qed

end
