(* ===== verification/Search_Tests.thy ===== *)
theory Search_Tests
  imports Pattern_Search Growing_Index Lazy_Dfa_Matcher Pattern_Classes
begin

text \<open>
  The prepared tests of \<open>pattern/evaluate.ts\<close> and the index fit together: a value that a literal or
  an expression matches holds the runs that the test asks for, so \<open>matchPattern\<close> finds exactly the
  documents that match, whichever index it reads.
\<close>

section \<open>The keys of a value\<close>

text \<open>An index of the values \<open>valueOf\<close>: its documents have 32-bit ordinals and the keys of their values.\<close>

definition indexes :: "host \<Rightarrow> (nat \<Rightarrow> field_value) \<Rightarrow> (nat \<rightharpoonup> code_units set) \<Rightarrow> bool" where
  "indexes h valueOf keys \<longleftrightarrow>
     (\<forall>d ks. keys d = Some ks \<longrightarrow> d < 2 ^ 32 \<and> set (runKeysOf h (valueOf d)) \<subseteq> ks)"

text \<open>The runs that a kept query was made of.\<close>

definition known_ok :: "host \<Rightarrow> (code_units \<times> run_query) list \<Rightarrow> bool" where
  "known_ok h known \<longleftrightarrow>
     (\<forall>(txt, runs) \<in> set known. runs = All_Runs (spreadRuns [appendTextCodePoints txt True h []]))"

lemma literalRuns_known:
  assumes "known_ok h known" and "literalRuns us h known = (runs, known')"
  shows "runs = All_Runs (spreadRuns [appendTextCodePoints us True h []])" and "known_ok h known'"
  using assms by (auto simp: literalRuns_def known_ok_def Let_def dest: map_of_SomeD split: option.splits)

definition text_answer :: "pattern_operator \<Rightarrow> code_point list \<Rightarrow> code_point list \<Rightarrow> bool" where
  "text_answer operator literal v \<longleftrightarrow>
     (case operator of
        Eq_Text \<Rightarrow> v = literal
      | Starts_With \<Rightarrow> prefix literal v
      | Ends_With \<Rightarrow> suffix literal v
      | _ \<Rightarrow> sublist literal v)"

definition node_answer :: "host \<Rightarrow> pattern_node \<Rightarrow> bool \<Rightarrow> code_point list \<Rightarrow> bool" where
  "node_answer h node caseFold v \<longleftrightarrow> span_in v (node_span h caseFold v node)"

text \<open>The code points of the literals of a pattern, and of the factors gathered so far.\<close>

fun node_points :: "pattern_node \<Rightarrow> code_point set" where
  "node_points (Literal c) = {c}"
| "node_points (Sequence items) = (\<Union>item \<in> set items. node_points item)"
| "node_points (Choice branches) = (\<Union>branch \<in> set branches. node_points branch)"
| "node_points (Repeat body least most) = node_points body"
| "node_points (Number_Range expansion) = node_points expansion"
| "node_points _ = {}"

definition gathered :: "factor_collector \<Rightarrow> code_point set" where
  "gathered s = \<Union> (set ` set (factors s)) \<union> set (currentFactor s)"

context folding_host
begin

lemma collect_windows: "set (collectRunKeys cs out) = set out \<union> {runKey a b c | a b c. window_of cs (a, b, c)}"
  by (auto simp: collectRunKeys_eq(1) window_of_def)

lemma set_runKeysOf: "set (runKeysOf h value) =
    (\<Union>us \<in> set (forEachTextValue value). {runKey a b c | a b c. window_of (fold_text h (code_points us)) (a, b, c)})"
proof -
  have "set (foldl (\<lambda>keys us. collectRunKeys (appendTextCodePoints us True h []) keys) out uss) =
      set out \<union> (\<Union>us \<in> set uss. {runKey a b c | a b c. window_of (fold_text h (code_points us)) (a, b, c)})" for out uss
    by (induction uss arbitrary: out) (simp_all add: collect_windows appendTextCodePoints_folded Un_assoc)
  then show ?thesis by (simp add: runKeysOf_def)
qed

lemma needs_holds:
  assumes "needs (fold_text h (code_points us)) query" and "us \<in> set (forEachTextValue value)"
    and "set (runKeysOf h value) \<subseteq> ks"
  shows "holds_query ks query"
proof -
  have one: "holds_runs ks runs" if "\<forall>run \<in> set (triplesOf runs). window_of (fold_text h (code_points us)) run" for runs
    unfolding holds_runs_def
  proof clarify
    fix a b c
    assume "(a, b, c) \<in> set (triplesOf runs)"
    with that assms(2) have "runKey a b c \<in> set (runKeysOf h value)"
      unfolding set_runKeysOf by blast
    with assms(3) show "runKey a b c \<in> ks" by blast
  qed
  from assms(1) show ?thesis
    unfolding needs_def holds_query_def list_ex_iff by (cases query) (use one in auto)
qed

lemma triples_spread:
  assumes "spreadRuns fs \<noteq> []"
  shows "triplesOf (spreadRuns fs) \<noteq> []"
proof (cases "spreadRuns fs" rule: triplesOf.cases)
  case (1 a b c rest)
  then show ?thesis by simp
qed (use assms spreadRuns_windows(2) [of fs] in simp_all)

lemma window_is_run: "window_of f run \<Longrightarrow> \<forall>c \<in> set f. c \<le> 0x10ffff \<Longrightarrow> is_run run"
  by (auto simp: window_of_def is_run_def)

lemma askable_spread:
  assumes "spreadRuns fs \<noteq> []" and "\<forall>f \<in> set fs. \<forall>c \<in> set f. c \<le> 0x10ffff"
  shows "askable (spreadRuns fs)"
  unfolding askable_def
proof
  show "\<forall>run \<in> set (triplesOf (spreadRuns fs)). is_run run"
    using spreadRuns_windows(1) window_is_run assms(2) by metis
qed (rule triples_spread [OF assms(1)])

lemma folded_fed: "folded_upto caseFold (fed_points h caseFold us) (length (fed_points h caseFold us)) =
    fold_text h (code_points us)"
  by (simp add: folded_upto_def fed_points_def)

section \<open>Literals\<close>

lemma text_answer_sublist: "text_answer operator literal v \<Longrightarrow> sublist literal v"
  by (auto simp: text_answer_def split: pattern_operator.splits)

lemma fold_text_sublist: "sublist us vs \<Longrightarrow> sublist (fold_text h us) (fold_text h vs)"
  unfolding sublist_def by (elim exE) (simp add: fold_text_def, blast)

lemma fold_fed: "fold_text h (fed_points h caseFold us) = fold_text h (code_points us)"
  by (simp add: fed_points_def fold_text_idem)

lemma literalTest_searchable:
  assumes "known_ok h known" and "literalTest operator us caseFold h known = (test, known')"
    and "indexes h valueOf keys" and "units_ok us"
  shows "literal.searchable keys test caseFold h valueOf" and "known_ok h known'"
    and "literal.matches_value (testMatcher test) caseFold h value \<longleftrightarrow>
      (\<exists>v \<in> set (forEachTextValue value). text_answer operator (fed_points h caseFold us) (fed_points h caseFold v))"
    and "literal_work (testMatcher test) = length (fed_points h caseFold us) + 1"
proof -
  obtain runs where runs: "literalRuns us h known = (runs, known')"
    and test: "test = \<lparr>testRuns = runs, testMatcher = newLiteralMatcher (fed_points h caseFold us)
      (operator \<in> set ANCHORED_START) (operator \<in> set ANCHORED_END)\<rparr>"
    using assms(2) by (cases "literalRuns us h known")
      (auto simp: literalTest_def fed_points_def appendTextCodePoints_plain appendTextCodePoints_folded)
  note known = literalRuns_known [OF assms(1) runs]
  then show "known_ok h known'" by simp
  have spec: "literal_spec (testMatcher test) v \<longleftrightarrow> text_answer operator (fed_points h caseFold us) v" for v
    by (cases operator) (simp_all add: test literal_new_spec text_answer_def ANCHORED_START_def ANCHORED_END_def)
  then show matches: "literal.matches_value (testMatcher test) caseFold h x \<longleftrightarrow>
      (\<exists>v \<in> set (forEachTextValue x). text_answer operator (fed_points h caseFold us) (fed_points h caseFold v))" for x
    by (simp add: literal.matches_value_def)
  show "literal_work (testMatcher test) = length (fed_points h caseFold us) + 1"
    by (simp add: test literal_new_work)
  have "\<forall>c \<in> set (appendTextCodePoints us True h []). c \<le> 0x10ffff"
    using fold_bounded unpaired_bounded encode_code_points [OF assms(4)] by (auto simp: appendTextCodePoints_folded)
  then have "query_ok runs"
    using askable_spread [of "[appendTextCodePoints us True h []]"] by (auto simp: known(1) query_ok_def)
  moreover have "holds_query ks runs"
    if "keys d = Some ks" "literal.matches_value (testMatcher test) caseFold h (valueOf d)" for d ks
  proof -
    from that(2) obtain v where v_in: "v \<in> set (forEachTextValue (valueOf d))"
      and "text_answer operator (fed_points h caseFold us) (fed_points h caseFold v)"
      unfolding matches by blast
    then have "sublist (fold_text h (code_points us)) (fold_text h (code_points v))"
      using fold_text_sublist [OF text_answer_sublist] fold_fed by metis
    then have "needs (fold_text h (code_points v)) runs"
      using spreadRuns_windows(1) [of _ "[appendTextCodePoints us True h []]"] sublist_window
      by (fastforce simp: known(1) needs_def appendTextCodePoints_folded)
    then show ?thesis
      by (rule needs_holds [OF _ v_in]) (use assms(3) that(1) in \<open>auto simp: indexes_def\<close>)
  qed
  ultimately show "literal.searchable keys test caseFold h valueOf"
    using assms(3) literal_new_ready by (auto simp: literal.searchable_def test indexes_def)
qed

section \<open>Expressions\<close>

lemma flushFactor_points: "gathered s \<subseteq> C \<Longrightarrow> gathered (flushFactor s) \<subseteq> C"
  by (auto simp: gathered_def flushFactor_def split: if_splits)

lemma visitNode_points:
  "g = h \<Longrightarrow> gathered s \<union> \<Union> (set ` fold_cp g ` node_points node) \<subseteq> C \<Longrightarrow> gathered (visitNode g s node) \<subseteq> C"
proof (induction g s node rule: visitNode.induct)
  case (1 g s c)
  then show ?case
    by (auto simp: gathered_def append_fold [of c "currentFactor s"])
next
  case (3 g s items)
  have "gathered (foldl (visitNode g) s items) \<subseteq> C"
  proof (rule foldl_invariant)
    show "gathered (visitNode g s item) \<subseteq> C" if "item \<in> set items" "gathered s \<subseteq> C" for s item
      using 3(3) that by (intro 3(1) [OF that(1) 3(2)]) (simp, blast)
  qed (use 3(3) in simp)
  then show ?case by simp
qed (simp_all add: flushFactor_points Let_def)

lemma branchRuns_askable:
  assumes "branchRuns node h \<noteq> []" and "\<forall>c \<in> node_points node. c \<le> 0x10ffff"
  shows "askable (branchRuns node h)"
proof -
  have "gathered (visitNode h newCollector node) \<subseteq> {c. c \<le> 0x10ffff}"
    using assms(2) fold_cp_bounded by (intro visitNode_points [OF refl]) (auto simp: gathered_def newCollector_def)
  then have "\<forall>f \<in> set (factors (flushFactor (visitNode h newCollector node))). \<forall>c \<in> set f. c \<le> 0x10ffff"
    using flushFactor_points unfolding gathered_def by blast
  with askable_spread assms(1) show ?thesis
    by (simp add: branchRuns_def)
qed

lemma requiredRuns_query_ok:
  assumes "\<forall>c \<in> node_points node. c \<le> 0x10ffff"
  shows "query_ok (requiredRuns node h)"
proof (cases "\<exists>branches. node = Choice branches")
  case True
  then obtain branches where node: "node = Choice branches" by blast
  with assms have "branchRuns b h \<noteq> [] \<Longrightarrow> askable (branchRuns b h)" if "b \<in> set branches" for b
    using that branchRuns_askable by auto
  then show ?thesis
    by (auto simp: node requiredRuns_def query_ok_def Let_def NO_RUNS_def list_all_iff list_ex_iff image_iff)
next
  case False
  then have "requiredRuns node h = All_Runs (branchRuns node h)"
    by (cases node) (simp_all add: requiredRuns_def)
  with branchRuns_askable [of node] assms show ?thesis
    by (auto simp: query_ok_def)
qed

lemma fed_fixed: "caseFold \<Longrightarrow> \<forall>c \<in> set (fed_points h caseFold us). fold_cp h c = [c]"
  using fold_text_fixed by (simp add: fed_points_def)

lemma compiled_answer:
  assumes "wf_node node"
  shows "value_hits (compileProgram (lowerPattern node caseFold h)) (fed_points h caseFold us) \<longleftrightarrow>
    node_answer h node caseFold (fed_points h caseFold us)"
  using plan_span_lower [OF assms fed_fixed] value_hits_span [OF wf_lower [OF assms]]
  by (simp add: lowerPattern_def node_answer_def)

lemma dfa_test_searchable:
  assumes "wf_node node" and "\<forall>c \<in> node_points node. c \<le> 0x10ffff" and "testRuns test = requiredRuns node h"
    and "dfa_ready (compileProgram (lowerPattern node caseFold h)) limit (testMatcher test)" and "indexes h valueOf keys"
  shows "dfa.searchable (compileProgram (lowerPattern node caseFold h)) limit keys test caseFold h valueOf"
    and "dfa.matches_value (testMatcher test) caseFold h value \<longleftrightarrow>
      (\<exists>v \<in> set (forEachTextValue value). node_answer h node caseFold (fed_points h caseFold v))"
proof -
  have "dfaProgram (testMatcher test) = compileProgram (lowerPattern node caseFold h)"
    using assms(4) by (simp add: dfa_ready_def has_limit_def)
  then show matches: "dfa.matches_value (testMatcher test) caseFold h x \<longleftrightarrow>
      (\<exists>v \<in> set (forEachTextValue x). node_answer h node caseFold (fed_points h caseFold v))" for x
    by (simp add: dfa.matches_value_def dfa_spec_def compiled_answer [OF assms(1)])
  have "holds_query ks (requiredRuns node h)"
    if "keys d = Some ks" "dfa.matches_value (testMatcher test) caseFold h (valueOf d)" for d ks
  proof -
    from that(2) obtain v where v_in: "v \<in> set (forEachTextValue (valueOf d))"
      and "node_answer h node caseFold (fed_points h caseFold v)"
      unfolding matches by blast
    then have "needs (fold_text h (code_points v)) (requiredRuns node h)"
      using requiredRuns_sound folded_fed by (metis node_answer_def)
    then show ?thesis
      by (rule needs_holds [OF _ v_in]) (use assms(5) that(1) in \<open>auto simp: indexes_def\<close>)
  qed
  then show "dfa.searchable (compileProgram (lowerPattern node caseFold h)) limit keys test caseFold h valueOf"
    using assms requiredRuns_query_ok [OF assms(2)] by (auto simp: dfa.searchable_def indexes_def)
qed

end

end
