(* ===== verification/Frozen_Index.thy ===== *)
theory Frozen_Index
  imports Growing_Index "HOL-Library.Product_Lexorder"
begin

text \<open>
  The frozen form of an index of runs: flat arrays of runs, offsets and postings
  (\<open>pattern/runs-arrays.ts\<close>), read by bisection (\<open>pattern/frozen-index.ts\<close>). The entries that the
  arrays lay out are a list of runs with their documents; an array of documents read through
  \<open>GrowableUint32\<close> is a list. The frozen reader is the second interpretation of \<open>run_index\<close>.
\<close>

record pattern_arrays =
  fieldPath :: js_string
  docIds :: "nat list"
  runPoints :: "nat list"
  offsets :: "nat list"
  postings :: "nat list"

record run_source =
  sourceCount :: nat
  sourceCodePoints :: "nat list"
  sourcePostings :: "nat \<Rightarrow> nat list"

section \<open>Building arrays\<close>

text \<open>\<open>remap\<close> maps an ordinal to its new one, or to a negative number to leave it out.\<close>

definition remapped :: "int list option \<Rightarrow> nat \<Rightarrow> int" where
  "remapped remap ordinal =
     (case remap of None \<Rightarrow> int ordinal | Some table \<Rightarrow> if ordinal < length table then table ! ordinal else - 1)"

definition remapAscending :: "nat list \<Rightarrow> int list option \<Rightarrow> nat list \<Rightarrow> nat list" where
  "remapAscending source remap out =
     (let (added, ordered) =
        foldl (\<lambda>(added, ordered) ordinal.
          let mapped = remapped remap ordinal
          in if mapped < 0 then (added, ordered)
             else (added @ [nat mapped], ordered \<and> \<not> (added \<noteq> [] \<and> nat mapped < last added)))
          ([], True) source
      in out @ (if \<not> ordered then sort added else added))"

definition sortedRunOrder :: "nat list \<Rightarrow> nat \<Rightarrow> nat list" where
  "sortedRunOrder codePoints n =
     jsSort (\<lambda>left right. compareRuns codePoints (left * PATTERN_RUN_CODE_POINTS) codePoints (right * PATTERN_RUN_CODE_POINTS) < 0)
       [0..<n]"

definition buildRun :: "run_source \<Rightarrow> int list option \<Rightarrow> nat \<Rightarrow> nat list \<times> nat list \<times> nat list
    \<Rightarrow> nat list \<times> nat list \<times> nat list" where
  "buildRun source remap run = (\<lambda>(runs, offs, posts).
     let grown = remapAscending (sourcePostings source run) remap posts
     in if length grown = length posts then (runs, offs, grown)
        else
          let first = run * PATTERN_RUN_CODE_POINTS
          in (runs @ [sourceCodePoints source ! first, sourceCodePoints source ! (first + 1), sourceCodePoints source ! (first + 2)],
              offs @ [length grown], grown))"

definition buildArrays :: "js_string \<Rightarrow> nat list \<Rightarrow> run_source \<Rightarrow> nat list option \<Rightarrow> int list option \<Rightarrow> pattern_arrays" where
  "buildArrays field documents source order remap =
     (let (runs, offs, posts) =
        foldl (\<lambda>out position. buildRun source remap (case order of None \<Rightarrow> position | Some order \<Rightarrow> order ! position) out)
          ([], [0], []) [0..<sourceCount source]
      in \<lparr>fieldPath = field, docIds = remapAscending documents remap [], runPoints = runs, offsets = offs, postings = posts\<rparr>)"

section \<open>Reading arrays\<close>

definition orDifference :: "int \<Rightarrow> int \<Rightarrow> int" where "orDifference a b = (if a \<noteq> 0 then a else b)"

function findRunFrom :: "nat list \<Rightarrow> nat \<Rightarrow> nat \<Rightarrow> nat \<Rightarrow> nat \<Rightarrow> nat \<Rightarrow> int" where
  "findRunFrom runs first second third low high =
     (if low < high then
        let middle = (low + high) div 2;
            here = middle * PATTERN_RUN_CODE_POINTS;
            difference = orDifference (orDifference (int (runs ! here) - int first) (int (runs ! (here + 1)) - int second))
              (int (runs ! (here + 2)) - int third)
        in if difference = 0 then int middle
           else if difference < 0 then findRunFrom runs first second third (middle + 1) high
           else findRunFrom runs first second third low middle
      else - 1)"
  by pat_completeness auto
termination
  by (relation "measure (\<lambda>(runs, first, second, third, low, high). high - low)") (auto simp: Let_def)

declare findRunFrom.simps [simp del]

definition findRun :: "nat list \<Rightarrow> nat \<Rightarrow> nat \<Rightarrow> nat \<Rightarrow> int" where
  "findRun runs first second third = findRunFrom runs first second third 0 (length runs div PATTERN_RUN_CODE_POINTS)"

definition postingsAt :: "pattern_arrays \<Rightarrow> nat \<Rightarrow> nat list" where
  "postingsAt arrays run =
     take (offsets arrays ! (run + 1) - offsets arrays ! run) (drop (offsets arrays ! run) (postings arrays))"

definition frozenSource :: "pattern_arrays \<Rightarrow> run_source" where
  "frozenSource arrays =
     \<lparr>sourceCount = length (offsets arrays) - 1, sourceCodePoints = runPoints arrays, sourcePostings = postingsAt arrays\<rparr>"

definition frozenPostings :: "nat \<Rightarrow> nat \<Rightarrow> nat \<Rightarrow> pattern_arrays \<Rightarrow> nat list" where
  "frozenPostings first second third arrays =
     (let run = findRun (runPoints arrays) first second third
      in if run < 0 then [] else postingsAt arrays (nat run))"

definition frozenToArrays :: "js_string \<Rightarrow> int list option \<Rightarrow> pattern_arrays \<Rightarrow> pattern_arrays" where
  "frozenToArrays field remap arrays = buildArrays field (docIds arrays) (frozenSource arrays) None remap"

definition frozenBytes :: "pattern_arrays \<Rightarrow> int" where
  "frozenBytes arrays =
     int (length (docIds arrays)) * UINT32_BYTES + int (length (runPoints arrays)) * UINT32_BYTES +
     int (length (offsets arrays)) * UINT32_BYTES + int (length (postings arrays)) * UINT32_BYTES"

definition frozen_reader :: "pattern_arrays index_reader" where
  "frozen_reader =
     \<lparr>indexDocuments = (\<lambda>arrays. (docIds arrays, arrays)),
      indexPostings = (\<lambda>first second third arrays. (frozenPostings first second third arrays, arrays))\<rparr>"

section \<open>Runs in order\<close>

definition triple_at :: "nat list \<Rightarrow> nat \<Rightarrow> nat \<times> nat \<times> nat" where
  "triple_at points run = (points ! (3 * run), points ! (3 * run + 1), points ! (3 * run + 2))"

definition flat_runs :: "(nat \<times> nat \<times> nat) list \<Rightarrow> nat list" where
  "flat_runs runs = concat (map (\<lambda>(a, b, c). [a, b, c]) runs)"

lemma length_flat_runs [simp]: "length (flat_runs runs) = 3 * length runs"
  by (induction runs) (auto simp: flat_runs_def)

lemma triple_at_flat: "run < length runs \<Longrightarrow> triple_at (flat_runs runs) run = runs ! run"
proof (induction runs arbitrary: run)
  case (Cons r runs)
  obtain a b c where r: "r = (a, b, c)" by (cases r)
  show ?case
  proof (cases run)
    case 0
    then show ?thesis by (simp add: r flat_runs_def triple_at_def)
  next
    case (Suc n)
    with Cons show ?thesis
      by (simp add: r flat_runs_def triple_at_def)
  qed
qed simp

lemma compareRuns_triple:
  "compareRuns xs (i * 3) ys (j * 3) < 0 \<longleftrightarrow> triple_at xs i < triple_at ys j"
  by (auto simp: compareRuns_def PATTERN_RUN_CODE_POINTS_def Let_def numeral_3_eq_3 upt_rec triple_at_def mult.commute
      less_prod_def')

lemma orDifference_triple:
  fixes t :: "nat \<times> nat \<times> nat"
  assumes "t = (a, b, c)" and "triple_at xs i = (x, y, z)"
  shows "orDifference (orDifference (int x - int a) (int y - int b)) (int z - int c) = 0 \<longleftrightarrow> triple_at xs i = t"
    and "orDifference (orDifference (int x - int a) (int y - int b)) (int z - int c) < 0 \<longleftrightarrow> triple_at xs i < t"
  by (auto simp: orDifference_def assms less_prod_def')

definition found_at :: "(nat \<times> nat \<times> nat) list \<Rightarrow> nat \<times> nat \<times> nat \<Rightarrow> int \<Rightarrow> bool" where
  "found_at runs t r \<longleftrightarrow> (if r < 0 then t \<notin> set runs else nat r < length runs \<and> runs ! nat r = t)"

lemma findRunFrom_correct:
  assumes "sorted_wrt (<) runs" and "high \<le> length runs"
    and "\<And>i. i < low \<Longrightarrow> i < length runs \<Longrightarrow> runs ! i < t" and "\<And>i. i < length runs \<Longrightarrow> high \<le> i \<Longrightarrow> t < runs ! i"
    and t: "t = (a, b, c)"
  shows "found_at runs t (findRunFrom (flat_runs runs) a b c low high)"
  using assms(2-4)
proof (induction "high - low" arbitrary: low high rule: less_induct)
  case less
  show ?case
  proof (cases "low < high")
    case False
    have "t \<noteq> runs ! i" if "i < length runs" for i
      using less.prems(2,3) [of i] that False by (cases "i < low") force+
    then have "t \<notin> set runs"
      by (metis in_set_conv_nth)
    with False show ?thesis
      by (simp add: found_at_def findRunFrom.simps [of _ _ _ _ low high])
  next
    case True
    define middle where "middle = (low + high) div 2"
    have m: "low \<le> middle" "middle < high" "middle < length runs"
      using True less.prems(1) by (auto simp: middle_def)
    obtain x y z where here: "triple_at (flat_runs runs) middle = (x, y, z)"
      by (cases "triple_at (flat_runs runs) middle")
    then have run: "runs ! middle = (x, y, z)"
      using triple_at_flat m(3) by metis
    from here have xyz: "flat_runs runs ! (middle * 3) = x" "flat_runs runs ! (middle * 3 + 1) = y" "flat_runs runs ! (middle * 3 + 2) = z"
      by (simp_all add: triple_at_def mult.commute)
    define difference where "difference = orDifference (orDifference (int x - int a) (int y - int b)) (int z - int c)"
    note d = orDifference_triple [OF t here, folded difference_def, unfolded here run [symmetric]]
    have step: "findRunFrom (flat_runs runs) a b c low high =
        (if difference = 0 then int middle
         else if difference < 0 then findRunFrom (flat_runs runs) a b c (middle + 1) high
         else findRunFrom (flat_runs runs) a b c low middle)"
      unfolding findRunFrom.simps [of _ _ _ _ low high] Let_def middle_def [symmetric] PATTERN_RUN_CODE_POINTS_def xyz
        difference_def [symmetric]
      using True by simp
    have before: "runs ! i < runs ! middle" if "i < middle" for i
      using sorted_wrt_nth_less [OF assms(1) that m(3)] .
    have after: "runs ! middle < runs ! i" if "middle < i" "i < length runs" for i
      using sorted_wrt_nth_less [OF assms(1) that] .
    consider "difference = 0" | "difference < 0" | "0 < difference" by linarith
    then show ?thesis
    proof cases
      case 1
      with d m show ?thesis by (simp add: step found_at_def)
    next
      case 2
      with d have below: "runs ! middle < t" by simp
      have "runs ! i < t" if "i < middle + 1" for i
        using below before [of i] that by (cases "i = middle") auto
      with less.hyps [of high "middle + 1"] less.prems m
      have "found_at runs t (findRunFrom (flat_runs runs) a b c (middle + 1) high)"
        by simp
      with 2 show ?thesis
        unfolding step by simp
    next
      case 3
      with d have above: "t < runs ! middle" by auto
      have "t < runs ! i" if "i < length runs" "middle \<le> i" for i
        using above after [of i] that by (cases "i = middle") auto
      with less.hyps [of middle low] less.prems m
      have "found_at runs t (findRunFrom (flat_runs runs) a b c low middle)"
        by simp
      with 3 show ?thesis
        unfolding step by simp
    qed
  qed
qed

lemma findRun_correct:
  assumes "sorted_wrt (<) runs"
  shows "findRun (flat_runs runs) a b c < 0 \<Longrightarrow> (a, b, c) \<notin> set runs"
    and "0 \<le> findRun (flat_runs runs) a b c \<Longrightarrow>
      nat (findRun (flat_runs runs) a b c) < length runs \<and> runs ! nat (findRun (flat_runs runs) a b c) = (a, b, c)"
  using findRunFrom_correct [OF assms order_refl _ _ refl, of 0 a b c]
  by (auto simp: findRun_def found_at_def PATTERN_RUN_CODE_POINTS_def split: if_splits)

section \<open>What the arrays lay out\<close>

type_synonym run_entries = "((nat \<times> nat \<times> nat) \<times> nat list) list"

definition all_postings :: "run_entries \<Rightarrow> nat list" where
  "all_postings entries = concat (map snd entries)"

definition offsets_of :: "run_entries \<Rightarrow> nat list" where
  "offsets_of entries = map (\<lambda>n. length (all_postings (take n entries))) [0..<Suc (length entries)]"

definition lays_out :: "run_entries \<Rightarrow> nat list \<times> nat list \<times> nat list \<Rightarrow> bool" where
  "lays_out entries = (\<lambda>(runs, offs, posts).
     runs = flat_runs (map fst entries) \<and> offs = offsets_of entries \<and> posts = all_postings entries)"

lemma lays_out_Nil: "lays_out [] ([], [0], [])"
  by (simp add: lays_out_def flat_runs_def offsets_of_def all_postings_def)

lemma lays_out_snoc:
  assumes "lays_out entries (runs, offs, posts)"
  shows "lays_out (entries @ [((a, b, c), list)]) (runs @ [a, b, c], offs @ [length (posts @ list)], posts @ list)"
  using assms by (simp add: lays_out_def flat_runs_def offsets_of_def all_postings_def)

lemma postings_of_entry:
  assumes "lays_out entries (runPoints arrays, offsets arrays, postings arrays)" and "run < length entries"
  shows "postingsAt arrays run = snd (entries ! run)"
proof -
  from assms(1) have offs: "offsets arrays = offsets_of entries" and posts: "postings arrays = all_postings entries"
    by (simp_all add: lays_out_def)
  have o: "offsets arrays ! n = length (all_postings (take n entries))" if "n \<le> length entries" for n
  proof -
    have "[0..<Suc (length entries)] ! n = n"
      using that by (intro nth_upt [where i = 0, simplified]) simp
    with that show ?thesis by (simp add: offs offsets_of_def del: upt_Suc)
  qed
  have split: "all_postings entries = all_postings (take run entries) @ snd (entries ! run) @ all_postings (drop (Suc run) entries)"
    unfolding all_postings_def by (subst id_take_nth_drop [OF assms(2)]) simp
  have "all_postings (take (run + 1) entries) = all_postings (take run entries) @ snd (entries ! run)"
    using assms(2) by (simp add: take_Suc_conv_app_nth all_postings_def)
  with o [of run] o [of "run + 1"] assms(2) split show ?thesis
    by (simp add: postingsAt_def posts)
qed

lemma length_offsets_of [simp]: "length (offsets_of entries) = Suc (length entries)"
  by (simp add: offsets_of_def)

text \<open>The entries hold the documents of \<open>keys\<close>: each run has its documents, and each key is the key of a run.\<close>

definition key_of :: "nat \<times> nat \<times> nat \<Rightarrow> code_units" where
  "key_of = (\<lambda>(a, b, c). runKey a b c)"

definition entries_hold :: "run_entries \<Rightarrow> (nat \<rightharpoonup> code_units set) \<Rightarrow> bool" where
  "entries_hold entries keys \<longleftrightarrow>
     distinct (map fst entries) \<and>
     (\<forall>((a, b, c), list) \<in> set entries. unpaired [a, b, c] \<and> list \<noteq> [] \<and> sorted_wrt (<) list \<and> set list = holders keys (a, b, c)) \<and>
     (\<forall>d ks. keys d = Some ks \<longrightarrow> ks \<subseteq> key_of ` fst ` set entries)"

lemma entries_holdI:
  assumes "distinct (map fst entries)"
    and "\<And>a b c list. ((a, b, c), list) \<in> set entries \<Longrightarrow>
      unpaired [a, b, c] \<and> list \<noteq> [] \<and> sorted_wrt (<) list \<and> set list = holders keys (a, b, c)"
    and "\<And>d ks. keys d = Some ks \<Longrightarrow> ks \<subseteq> key_of ` fst ` set entries"
  shows "entries_hold entries keys"
  unfolding entries_hold_def
proof (intro conjI ballI)
  fix entry
  assume "entry \<in> set entries"
  moreover obtain a b c list where "entry = ((a, b, c), list)"
    by (metis prod.exhaust)
  ultimately show "(\<lambda>((a, b, c), list). unpaired [a, b, c] \<and> list \<noteq> [] \<and> sorted_wrt (<) list \<and>
      set list = holders keys (a, b, c)) entry"
    using assms(2) [of a b c list] by simp
qed (use assms(1,3) in auto)

lemma entries_hold_entry:
  "entries_hold entries keys \<Longrightarrow> ((a, b, c), list) \<in> set entries \<Longrightarrow>
     unpaired [a, b, c] \<and> list \<noteq> [] \<and> sorted_wrt (<) list \<and> set list = holders keys (a, b, c)"
  by (auto simp: entries_hold_def)

lemma entries_hold_key:
  assumes "entries_hold entries keys" and "keys d = Some ks" and "k \<in> ks"
  obtains a b c list where "((a, b, c), list) \<in> set entries" and "k = runKey a b c"
proof -
  from assms have "k \<in> key_of ` fst ` set entries"
    unfolding entries_hold_def by blast
  then obtain e where "e \<in> set entries" "k = key_of (fst e)"
    by blast
  moreover obtain a b c list where "e = ((a, b, c), list)"
    by (metis prod.exhaust)
  ultimately show ?thesis
    using that by (simp add: key_of_def)
qed

definition frozen_represents :: "pattern_arrays \<Rightarrow> (nat \<rightharpoonup> code_units set) \<Rightarrow> bool" where
  "frozen_represents arrays keys \<longleftrightarrow>
     (\<exists>entries. lays_out entries (runPoints arrays, offsets arrays, postings arrays) \<and>
        sorted_wrt (<) (map fst entries) \<and> entries_hold entries keys) \<and>
     sorted_wrt (<) (docIds arrays) \<and> set (docIds arrays) = dom keys"

interpretation frozen: run_index frozen_reader frozen_represents
proof
  fix arrays keys list arrays'
  assume "frozen_represents arrays keys" and "indexDocuments frozen_reader arrays = (list, arrays')"
  then show "frozen_represents arrays' keys \<and> sorted_wrt (<) list \<and> set list = dom keys"
    by (auto simp: frozen_reader_def frozen_represents_def)
next
  fix arrays keys a b c list arrays'
  assume rep: "frozen_represents arrays keys" and run: "is_run (a, b, c)"
    and asked: "indexPostings frozen_reader a b c arrays = (list, arrays')"
  from rep obtain entries where lay: "lays_out entries (runPoints arrays, offsets arrays, postings arrays)"
    and s: "sorted_wrt (<) (map fst entries)" and hold: "entries_hold entries keys"
    unfolding frozen_represents_def by blast
  let ?r = "findRun (flat_runs (map fst entries)) a b c"
  have r: "runPoints arrays = flat_runs (map fst entries)"
    using lay by (simp add: lays_out_def)
  have goal: "sorted_wrt (<) list \<and> set list = holders keys (a, b, c)"
  proof (cases "?r < 0")
    case True
    with findRun_correct(1) [OF s] have new: "(a, b, c) \<notin> fst ` set entries"
      by auto
    have "holders keys (a, b, c) = {}"
    proof (rule ccontr)
      assume "holders keys (a, b, c) \<noteq> {}"
      then obtain d ks where "keys d = Some ks" "runKey a b c \<in> ks"
        by (auto simp: holders_def)
      then obtain x y z l where e: "((x, y, z), l) \<in> set entries" "runKey a b c = runKey x y z"
        using entries_hold_key [OF hold] by metis
      then have "unpaired [x, y, z]"
        using entries_hold_entry [OF hold] by blast
      with runKey_unpaired [OF e(2)] run have "(a, b, c) = (x, y, z)"
        by (simp add: is_run_def)
      with e(1) new show False by force
    qed
    with True asked show ?thesis
      by (auto simp: frozen_reader_def frozenPostings_def r)
  next
    case False
    with findRun_correct(2) [OF s, of a b c] have found: "nat ?r < length entries" "fst (entries ! nat ?r) = (a, b, c)"
      by auto
    then have "((a, b, c), snd (entries ! nat ?r)) \<in> set entries"
      by (metis nth_mem prod.collapse)
    with entries_hold_entry [OF hold] have "sorted_wrt (<) (snd (entries ! nat ?r)) \<and> set (snd (entries ! nat ?r)) = holders keys (a, b, c)"
      by blast
    with False asked postings_of_entry [OF lay found(1)] show ?thesis
      by (auto simp: frozen_reader_def frozenPostings_def r)
  qed
  moreover have "arrays' = arrays"
    using asked by (simp add: frozen_reader_def)
  ultimately show "frozen_represents arrays' keys \<and> sorted_wrt (<) list \<and>
      set list = {d. \<exists>ks. keys d = Some ks \<and> runKey a b c \<in> ks}"
    using rep by (simp add: holders_def)
qed

end
