(* ===== verification/Index_Arrays.thy ===== *)
theory Index_Arrays
  imports Frozen_Index
begin

text \<open>
  Between the two forms of an index of runs: \<open>toArrays\<close> of both readers and \<open>addArrays\<close> of the growing
  index. Whatever is written down and read back, with documents renumbered or left out on the way,
  the index represents the same runs of the same documents.
\<close>

section \<open>Writing a growing index down\<close>

definition runSource :: "growing_index \<Rightarrow> run_source \<times> growing_index" where
  "runSource index =
     (let (keys, lists, index) =
        foldl (\<lambda>(keys, lists, index) key.
          let (list, index) = settledPostings key index
          in if length list = 0 then (keys, lists, index) else (keys @ [key], lists @ [list], index))
          ([], [], index) (mapKeys (growRuns index));
        codePoints = concat (map (\<lambda>key. let slots = runKeyCodePoints key
          in slots @ replicate (PATTERN_RUN_CODE_POINTS - length slots) 0) keys)
      in (\<lparr>sourceCount = length keys, sourceCodePoints = codePoints, sourcePostings = (\<lambda>run. lists ! run)\<rparr>, index))"

definition growingToArrays :: "js_string \<Rightarrow> int list option \<Rightarrow> growing_index \<Rightarrow> pattern_arrays \<times> growing_index" where
  "growingToArrays field remap index =
     (let (source, index) = runSource index;
          (documents, index) = sortedDocuments index
      in (buildArrays field documents source (Some (sortedRunOrder (sourceCodePoints source) (sourceCount source))) remap,
          index))"

section \<open>Reading arrays into a growing index\<close>

definition addRun :: "pattern_arrays \<Rightarrow> (nat \<Rightarrow> int) \<Rightarrow> growing_index \<Rightarrow> nat \<Rightarrow> growing_index" where
  "addRun arrays mapOrdinal index run =
     (let first = run * PATTERN_RUN_CODE_POINTS;
          key = runKey (runPoints arrays ! first) (runPoints arrays ! (first + 1)) (runPoints arrays ! (first + 2));
          (list, index) = listFor key index;
          (list, index) =
            foldl (\<lambda>(list, index) posting.
              let mapped = mapOrdinal (postings arrays ! posting)
              in if 0 \<le> mapped then appendOrdinal list (nat mapped) index else (list, index))
              (list, index) [offsets arrays ! run..<offsets arrays ! (run + 1)]
      in dropIfEmpty key list (putList key list index))"

definition addArrays :: "pattern_arrays \<Rightarrow> (nat \<Rightarrow> int) \<Rightarrow> growing_index \<Rightarrow> growing_index" where
  "addArrays arrays mapOrdinal index =
     (let index =
        foldl (\<lambda>index ordinal.
          let mapped = mapOrdinal ordinal in if mapped < 0 then index else addDocument (nat mapped) index)
          index (docIds arrays);
        runCount = length (offsets arrays) - 1
      in foldl (addRun arrays mapOrdinal) index [0..<runCount])"

section \<open>Renumbered documents\<close>

definition renames :: "(nat \<Rightarrow> int) \<Rightarrow> (nat \<rightharpoonup> code_units set) \<Rightarrow> (nat \<rightharpoonup> code_units set) \<Rightarrow> bool" where
  "renames f keys keys' \<longleftrightarrow>
     inj_on f {d \<in> dom keys. 0 \<le> f d} \<and>
     (\<forall>d' ks. keys' d' = Some ks \<longleftrightarrow> (\<exists>d. keys d = Some ks \<and> f d = int d'))"

definition mapped_ids :: "(nat \<Rightarrow> int) \<Rightarrow> nat list \<Rightarrow> nat list" where
  "mapped_ids f source = map nat (filter (\<lambda>m. 0 \<le> m) (map f source))"

lemma remapAscending_eq: "remapAscending source remap out = out @ sort (mapped_ids (remapped remap) source)"
proof -
  let ?step = "\<lambda>(added, ordered) ordinal. let mapped = remapped remap ordinal
      in if mapped < 0 then (added, ordered)
         else (added @ [nat mapped], ordered \<and> \<not> (added \<noteq> [] \<and> nat mapped < last added))"
  have "\<exists>ordered. foldl ?step ([], True) source = (mapped_ids (remapped remap) source, ordered) \<and>
      (ordered \<longrightarrow> sorted (mapped_ids (remapped remap) source))" for source
  proof (induction source rule: rev_induct)
    case (snoc x xs)
    then obtain ordered where IH: "foldl ?step ([], True) xs = (mapped_ids (remapped remap) xs, ordered)"
      "ordered \<longrightarrow> sorted (mapped_ids (remapped remap) xs)"
      by blast
    have "y \<le> last ys" if "sorted ys" "y \<in> set ys" for y :: nat and ys
      using that by (induction ys) auto
    then have "sorted (ys @ [z])" if "sorted ys" "\<not> (ys \<noteq> [] \<and> z < last ys)" for z :: nat and ys
      using that by (fastforce simp: sorted_append)
    with IH show ?case
      by (simp add: mapped_ids_def Let_def)
  qed (auto simp: mapped_ids_def)
  then obtain ordered where "foldl ?step ([], True) source = (mapped_ids (remapped remap) source, ordered)"
    "ordered \<longrightarrow> sorted (mapped_ids (remapped remap) source)"
    by blast
  then show ?thesis
    by (simp add: remapAscending_def sorted_sort_id)
qed

lemma mapped_ids_set: "set (mapped_ids f source) = {d'. \<exists>d \<in> set source. f d = int d'}"
proof -
  have "0 \<le> m \<and> nat m = d' \<longleftrightarrow> m = int d'" for m d'
    by auto
  moreover have "d' \<in> set (mapped_ids f source) \<longleftrightarrow> (\<exists>d \<in> set source. 0 \<le> f d \<and> nat (f d) = d')" for d'
    by (auto simp: mapped_ids_def)
  ultimately show ?thesis
    by auto
qed

lemma mapped_ids_distinct:
  assumes "distinct source" and "inj_on f {d \<in> set source. 0 \<le> f d}"
  shows "distinct (mapped_ids f source)"
proof -
  have "distinct (map f (filter (\<lambda>d. 0 \<le> f d) source))"
    using assms by (simp add: distinct_map)
  moreover have "inj_on nat {m. 0 \<le> m}"
    by (rule inj_onI) simp
  then have "inj_on nat (set (map f (filter (\<lambda>d. 0 \<le> f d) source)))"
    by (rule inj_on_subset) auto
  ultimately have "distinct (map nat (map f (filter (\<lambda>d. 0 \<le> f d) source)))"
    by (subst distinct_map) simp
  then show ?thesis
    by (simp add: mapped_ids_def filter_map comp_def)
qed

lemma renames_inj: "renames f keys keys' \<Longrightarrow> D \<subseteq> dom keys \<Longrightarrow> inj_on f {d \<in> D. 0 \<le> f d}"
  unfolding renames_def by (rule inj_on_subset [of f "{d \<in> dom keys. 0 \<le> f d}"]) auto

lemma renames_iff: "renames f keys keys' \<Longrightarrow> keys' d' = Some ks \<longleftrightarrow> (\<exists>d. keys d = Some ks \<and> f d = int d')"
  by (simp add: renames_def)

lemma renames_mapped:
  assumes "renames f keys keys'" and "sorted_wrt (<) list" and "set list \<subseteq> dom keys"
  shows "sorted_wrt (<) (sort (mapped_ids f list))" and "distinct (mapped_ids f list)"
proof -
  show "distinct (mapped_ids f list)"
    using assms(2) renames_inj [OF assms(1,3)] by (intro mapped_ids_distinct) (simp_all add: strict_sorted_iff)
  then show "sorted_wrt (<) (sort (mapped_ids f list))"
    by (simp add: strict_sorted_iff)
qed

lemma renames_dom:
  assumes "renames f keys keys'" and "set list = dom keys"
  shows "set (mapped_ids f list) = dom keys'"
proof -
  have "d' \<in> dom keys' \<longleftrightarrow> (\<exists>d \<in> dom keys. f d = int d')" for d'
    unfolding domIff not_None_eq Bex_def by (subst renames_iff [OF assms(1)]) blast
  then show ?thesis
    unfolding mapped_ids_set assms(2) by blast
qed

lemma renames_holders:
  assumes "renames f keys keys'" and "set list = holders keys run"
  shows "set (mapped_ids f list) = holders keys' run"
proof -
  obtain a b c where run: "run = (a, b, c)" by (cases run)
  have "d' \<in> holders keys' run \<longleftrightarrow> (\<exists>d \<in> holders keys run. f d = int d')" for d'
    unfolding run holders_def prod.case mem_Collect_eq Bex_def renames_iff [OF assms(1)] by blast
  then show ?thesis
    unfolding mapped_ids_set assms(2) by blast
qed

section \<open>What is built\<close>

definition source_entries :: "run_source \<Rightarrow> nat list \<Rightarrow> run_entries" where
  "source_entries source runs = map (\<lambda>run. (triple_at (sourceCodePoints source) run, sourcePostings source run)) runs"

definition renamed_entries :: "(nat \<Rightarrow> int) \<Rightarrow> run_entries \<Rightarrow> run_entries" where
  "renamed_entries f entries = filter (\<lambda>entry. snd entry \<noteq> []) (map (\<lambda>(run, list). (run, sort (mapped_ids f list))) entries)"

lemma sort_Nil_iff: "sort (xs :: nat list) = [] \<longleftrightarrow> xs = []"
  by (metis length_0_conv length_sort)

lemma foldl_buildRun:
  assumes "lays_out entries (runs, offs, posts)"
  shows "lays_out (entries @ renamed_entries (remapped remap) (source_entries source order))
    (foldl (\<lambda>out run. buildRun source remap run out) (runs, offs, posts) order)"
  using assms
proof (induction order arbitrary: entries runs offs posts)
  case Nil
  then show ?case by (simp add: source_entries_def renamed_entries_def)
next
  case (Cons run order)
  define list where "list = sort (mapped_ids (remapped remap) (sourcePostings source run))"
  obtain a b c where abc: "triple_at (sourceCodePoints source) run = (a, b, c)"
    by (metis prod.exhaust)
  have step: "buildRun source remap run (runs, offs, posts) =
      (if list = [] then (runs, offs, posts) else (runs @ [a, b, c], offs @ [length (posts @ list)], posts @ list))"
    using abc by (simp add: buildRun_def remapAscending_eq list_def [symmetric] Let_def triple_at_def
        PATTERN_RUN_CODE_POINTS_def mult.commute)
  show ?case
  proof (cases "list = []")
    case True
    with Cons.IH [OF Cons.prems] abc show ?thesis
      by (simp add: step source_entries_def renamed_entries_def list_def [symmetric])
  next
    case False
    with Cons.IH [OF lays_out_snoc [OF Cons.prems, of a b c list]] abc show ?thesis
      by (simp add: step source_entries_def renamed_entries_def list_def [symmetric])
  qed
qed

lemma renamed_entries_hold:
  assumes "entries_hold entries keys" and "renames f keys keys'"
  shows "entries_hold (renamed_entries f entries) keys'"
    and "sorted_wrt (<) (map fst entries) \<Longrightarrow> sorted_wrt (<) (map fst (renamed_entries f entries))"
proof -
  have fsts: "map fst (renamed_entries f entries) =
      map fst (filter (\<lambda>(run, list). sort (mapped_ids f list) \<noteq> []) entries)"
    by (induction entries) (auto simp: renamed_entries_def)
  show "sorted_wrt (<) (map fst entries) \<Longrightarrow> sorted_wrt (<) (map fst (renamed_entries f entries))"
    unfolding fsts sorted_wrt_map by (rule sorted_wrt_filter)
  have keep: "unpaired [a, b, c] \<and> list \<noteq> [] \<and> sorted_wrt (<) list \<and> set list = holders keys' (a, b, c)"
    if member: "((a, b, c), list) \<in> set (renamed_entries f entries)" for a b c list
  proof -
    from member obtain old where old: "((a, b, c), old) \<in> set entries" "list = sort (mapped_ids f old)" "list \<noteq> []"
      by (auto simp: renamed_entries_def)
    note e = entries_hold_entry [OF assms(1) old(1)]
    then have "set old \<subseteq> dom keys"
      by (auto simp: holders_def)
    with renames_mapped [OF assms(2), of old] renames_holders [OF assms(2), of old "(a, b, c)"] e old(2,3) show ?thesis
      by simp
  qed
  have "ks \<subseteq> key_of ` fst ` set (renamed_entries f entries)" if doc: "keys' d' = Some ks" for d' ks
  proof
    fix k
    assume "k \<in> ks"
    from doc obtain d where d: "keys d = Some ks"
      using renames_iff [OF assms(2)] by blast
    obtain a b c list where e: "((a, b, c), list) \<in> set entries" "k = runKey a b c"
      using entries_hold_key [OF assms(1) d \<open>k \<in> ks\<close>] .
    have "d' \<in> holders keys' (a, b, c)"
      using doc \<open>k \<in> ks\<close> by (simp add: holders_def e(2))
    then have "mapped_ids f list \<noteq> []"
      using renames_holders [OF assms(2), of list "(a, b, c)"] entries_hold_entry [OF assms(1) e(1)] by auto
    then have "((a, b, c), sort (mapped_ids f list)) \<in> set (renamed_entries f entries)"
      using e(1) by (force simp: renamed_entries_def sort_Nil_iff)
    then have "key_of (a, b, c) \<in> key_of ` fst ` set (renamed_entries f entries)"
      by (intro imageI) (force simp: image_iff)
    then show "k \<in> key_of ` fst ` set (renamed_entries f entries)"
      by (simp add: key_of_def e(2))
  qed
  moreover have "distinct (map fst (renamed_entries f entries))"
    using assms(1) unfolding fsts by (intro distinct_map_filter) (simp add: entries_hold_def)
  ultimately show "entries_hold (renamed_entries f entries) keys'"
    using keep by (intro entries_holdI)
qed

lemma buildArrays_represents:
  assumes "entries_hold (source_entries source (case order of None \<Rightarrow> [0..<sourceCount source] | Some order \<Rightarrow> order)) keys"
    and "sorted_wrt (<) (map fst (source_entries source (case order of None \<Rightarrow> [0..<sourceCount source] | Some order \<Rightarrow> order)))"
    and "\<And>runs. order = Some runs \<Longrightarrow> length runs = sourceCount source"
    and "sorted_wrt (<) documents" and "set documents = dom keys" and "renames (remapped remap) keys keys'"
  shows "frozen_represents (buildArrays field documents source order remap) keys'"
proof -
  define runs where "runs = (case order of None \<Rightarrow> [0..<sourceCount source] | Some order \<Rightarrow> order)"
  define entries where "entries = renamed_entries (remapped remap) (source_entries source runs)"
  have "map (\<lambda>position. case order of None \<Rightarrow> position | Some order \<Rightarrow> order ! position) [0..<sourceCount source] = runs"
  proof (cases order)
    case None
    then show ?thesis by (simp add: runs_def)
  next
    case (Some given)
    with assms(3) have "length given = sourceCount source" by simp
    with Some map_nth [of given] show ?thesis by (simp add: runs_def)
  qed
  then have loop: "foldl (\<lambda>out position. buildRun source remap (case order of None \<Rightarrow> position | Some order \<Rightarrow> order ! position) out)
      start [0..<sourceCount source] = foldl (\<lambda>out run. buildRun source remap run out) start runs" for start
    by (simp add: foldl_map flip: \<open>_ = runs\<close>)
  obtain rs os ps where built: "foldl (\<lambda>out run. buildRun source remap run out) ([], [0], []) runs = (rs, os, ps)"
    by (rule prod_cases3)
  with foldl_buildRun [OF lays_out_Nil, of remap source runs] have lay: "lays_out entries (rs, os, ps)"
    by (simp add: entries_def)
  have arrays: "buildArrays field documents source order remap =
      \<lparr>fieldPath = field, docIds = sort (mapped_ids (remapped remap) documents), runPoints = rs, offsets = os, postings = ps\<rparr>"
    by (simp add: buildArrays_def loop built remapAscending_eq)
  have "entries_hold entries keys'" "sorted_wrt (<) (map fst entries)"
    unfolding entries_def using renamed_entries_hold [OF assms(1,6)] assms(2) by (simp_all add: runs_def)
  moreover have "sorted_wrt (<) (sort (mapped_ids (remapped remap) documents))"
    using renames_mapped(1) [OF assms(6,4)] assms(5) by simp
  ultimately show ?thesis
    unfolding frozen_represents_def arrays
    by (intro conjI exI [of _ entries]) (simp_all add: lay renames_dom [OF assms(6,5)])
qed

text \<open>A frozen index writes itself down again.\<close>

theorem frozenToArrays_represents:
  assumes "frozen_represents arrays keys" and "renames (remapped remap) keys keys'"
  shows "frozen_represents (frozenToArrays field remap arrays) keys'"
proof -
  from assms(1) obtain entries where lay: "lays_out entries (runPoints arrays, offsets arrays, postings arrays)"
    and s: "sorted_wrt (<) (map fst entries)" and hold: "entries_hold entries keys"
    and docs: "sorted_wrt (<) (docIds arrays)" "set (docIds arrays) = dom keys"
    unfolding frozen_represents_def by blast
  have n: "sourceCount (frozenSource arrays) = length entries" and points: "runPoints arrays = flat_runs (map fst entries)"
    using lay by (simp_all add: lays_out_def frozenSource_def)
  have "source_entries (frozenSource arrays) [0..<length entries] = map (\<lambda>run. entries ! run) [0..<length entries]"
    unfolding source_entries_def
    by (rule map_cong) (simp_all add: frozenSource_def points triple_at_flat postings_of_entry [OF lay])
  then have "source_entries (frozenSource arrays) [0..<sourceCount (frozenSource arrays)] = entries"
    by (simp add: map_nth n)
  then show ?thesis
    unfolding frozenToArrays_def
    by (intro buildArrays_represents [OF _ _ _ docs assms(2)]) (simp_all add: hold s)
qed

section \<open>A growing index is written down in order\<close>

lemma insertBefore_sorted:
  fixes key :: "'a \<Rightarrow> 'b :: linorder"
  assumes "\<And>x y. precedes x y \<longleftrightarrow> key x < key y" and "sorted (map key ys)"
  shows "sorted (map key (insertBefore precedes x ys))"
proof -
  let ?p = "\<lambda>y. \<not> precedes x y"
  have parts: "ys = takeWhile ?p ys @ dropWhile ?p ys"
    by simp
  have "key y \<le> key x" if "y \<in> set (takeWhile ?p ys)" for y
    using set_takeWhileD [OF that] assms(1) by auto
  moreover have "key x \<le> key y" if y: "y \<in> set (dropWhile ?p ys)" for y
  proof -
    obtain z zs where z: "dropWhile ?p ys = z # zs"
      using y by (cases "dropWhile ?p ys") auto
    have "precedes x z"
      using hd_dropWhile [of ?p ys] z by auto
    moreover have "sorted (map key (z # zs))"
      using assms(2) unfolding z [symmetric] by (metis map_append parts sorted_append)
    ultimately show ?thesis
      using y z assms(1) by force
  qed
  moreover have "sorted (map key (takeWhile ?p ys))" "sorted (map key (dropWhile ?p ys))"
    using assms(2) by (metis map_append parts sorted_append)+
  moreover have "key y \<le> key z" if "y \<in> set (takeWhile ?p ys)" "z \<in> set (dropWhile ?p ys)" for y z
    using calculation(1) [OF that(1)] calculation(2) [OF that(2)] by (rule order_trans)
  ultimately show ?thesis
    by (auto simp: insertBefore_def sorted_append)
qed

lemma jsSort_sorted:
  fixes key :: "'a \<Rightarrow> 'b :: linorder"
  assumes "\<And>x y. precedes x y \<longleftrightarrow> key x < key y"
  shows "sorted (map key (jsSort precedes xs))"
  unfolding jsSort_def by (rule foldl_invariant) (simp_all add: insertBefore_sorted [where key = key, OF assms])

lemma sortedRunOrder_sorted:
  assumes "distinct (map (triple_at points) [0..<n])"
  shows "sorted_wrt (<) (map (triple_at points) (sortedRunOrder points n))"
    and "mset (sortedRunOrder points n) = mset [0..<n]"
proof -
  show m: "mset (sortedRunOrder points n) = mset [0..<n]"
    by (simp add: sortedRunOrder_def)
  have "sorted (map (triple_at points) (sortedRunOrder points n))"
    unfolding sortedRunOrder_def by (rule jsSort_sorted) (simp add: PATTERN_RUN_CODE_POINTS_def compareRuns_triple)
  moreover have "distinct (map (triple_at points) (sortedRunOrder points n))"
    using assms m by (metis mset_eq_imp_distinct_iff mset_map)
  ultimately show "sorted_wrt (<) (map (triple_at points) (sortedRunOrder points n))"
    by (simp add: strict_sorted_iff)
qed

text \<open>Every key is the key of a run that stands in a text.\<close>

definition run_keys :: "(nat \<rightharpoonup> code_units set) \<Rightarrow> bool" where
  "run_keys keys \<longleftrightarrow> (\<forall>d ks. keys d = Some ks \<longrightarrow> ks \<subseteq> key_of ` {(a, b, c). unpaired [a, b, c]})"

lemma run_keysD:
  assumes "run_keys keys" and "keys d = Some ks" and "k \<in> ks"
  obtains a b c where "unpaired [a, b, c]" and "k = runKey a b c"
proof -
  from assms have "k \<in> key_of ` {(a, b, c). unpaired [a, b, c]}"
    unfolding run_keys_def by blast
  then obtain t where "t \<in> {(a, b, c). unpaired [a, b, c]}" "k = key_of t"
    by blast
  moreover obtain a b c where "t = (a, b, c)"
    by (metis prod.exhaust)
  ultimately show ?thesis
    using that by (simp add: key_of_def)
qed

text \<open>The loop of \<open>runSource\<close>: each key that is live brings its list.\<close>

lemma runSource_loop:
  assumes "growing_represents index keys" and "\<forall>k \<in> set ks. live_of index k \<noteq> {}"
  shows "\<exists>index' found. foldl (\<lambda>(keys, lists, index) key.
      let (list, index) = settledPostings key index
      in if length list = 0 then (keys, lists, index) else (keys @ [key], lists @ [list], index)) (ks0, lists0, index) ks =
        (ks0 @ ks, lists0 @ found, index') \<and> growing_represents index' keys \<and>
      list_all2 (\<lambda>key list. list \<noteq> [] \<and> sorted_wrt (<) list \<and> set list = live_of index key) ks found"
  using assms
proof (induction ks arbitrary: index ks0 lists0)
  case (Cons key ks)
  obtain list index1 where p: "settledPostings key index = (list, index1)"
    by (metis prod.exhaust)
  note settled = settledPostings_ok [OF _ p]
  from Cons.prems(1) have "growing_ok {} index"
    by (simp add: growing_represents_def)
  note settled = settled [OF this]
  then have "growing_represents index1 keys" and live: "live_of index1 = live_of index"
    using Cons.prems(1) by (simp_all add: growing_represents_def same_documents_def)
  moreover have "list \<noteq> []"
    using settled Cons.prems(2) by auto
  moreover have "\<forall>k \<in> set ks. live_of index1 k \<noteq> {}"
    using Cons.prems(2) by (simp add: live)
  note Cons.IH [OF \<open>growing_represents index1 keys\<close> this, of "ks0 @ [key]" "lists0 @ [list]"]
  ultimately show ?case
    using settled by (fastforce simp: p)
qed simp

lemma concat_runs: "concat (map (\<lambda>key. let slots = runKeyCodePoints key
      in slots @ replicate (PATTERN_RUN_CODE_POINTS - length slots) 0) (map key_of runs)) = flat_runs runs"
  if "\<forall>(a, b, c) \<in> set runs. unpaired [a, b, c]"
  using that
proof (induction runs)
  case (Cons run runs)
  obtain a b c where run: "run = (a, b, c)" by (cases run)
  with Cons.prems have "unpaired [a, b, c]" by simp
  from runKey_round [OF this] Cons show ?case
    by (simp add: run key_of_def flat_runs_def PATTERN_RUN_CODE_POINTS_def)
qed (simp add: flat_runs_def)

lemma runSource_entries:
  assumes "growing_represents index keys" and "run_keys keys" and "runSource index = (source, index')"
  shows "growing_represents index' keys"
    and "entries_hold (source_entries source [0..<sourceCount source]) keys"
proof -
  let ?ks = "mapKeys (growRuns index)"
  from assms(1) have ok: "growing_ok {} index"
    and live: "live_of index k = {d. \<exists>ks. keys d = Some ks \<and> k \<in> ks}" for k
    by (simp_all add: growing_represents_def)
  have present: "live_of index k \<noteq> {} \<longleftrightarrow> k \<in> set ?ks" for k
  proof (cases "mapGet (growRuns index) k")
    case None
    then have "live_of index k = {}" "k \<notin> set ?ks"
      by (simp add: live_of_def) (use None in \<open>simp add: map_of_eq_None_iff\<close>)
    then show ?thesis by simp
  next
    case (Some list)
    with growing_ok_list [OF ok Some] mapGet_key [OF Some] show ?thesis by simp
  qed
  obtain index1 found where loop: "foldl (\<lambda>(keys, lists, index) key.
      let (list, index) = settledPostings key index
      in if length list = 0 then (keys, lists, index) else (keys @ [key], lists @ [list], index)) ([], [], index) ?ks =
        (?ks, found, index1)" and rep: "growing_represents index1 keys"
    and found: "list_all2 (\<lambda>key list. list \<noteq> [] \<and> sorted_wrt (<) list \<and> set list = live_of index key) ?ks found"
    using runSource_loop [OF assms(1), of ?ks "[]" "[]"] present by auto
  have "\<exists>run. (case run of (a, b, c) \<Rightarrow> unpaired [a, b, c]) \<and> k = key_of run" if "k \<in> set ?ks" for k
  proof -
    from that present obtain d where "d \<in> live_of index k" by blast
    then obtain ks where "keys d = Some ks" "k \<in> ks"
      by (auto simp: live)
    from run_keysD [OF assms(2) this] obtain a b c where "unpaired [a, b, c]" "k = runKey a b c" .
    then show ?thesis
      by (intro exI [of _ "(a, b, c)"]) (simp add: key_of_def)
  qed
  then obtain g where g: "\<And>k. k \<in> set ?ks \<Longrightarrow> (case g k of (a, b, c) \<Rightarrow> unpaired [a, b, c]) \<and> k = key_of (g k)"
    by metis
  define runs where "runs = map g ?ks"
  have runs: "map key_of runs = ?ks" "\<forall>(a, b, c) \<in> set runs. unpaired [a, b, c]"
    using g by (auto simp: runs_def intro!: map_idI)
  have "runSource index =
      (\<lparr>sourceCount = length ?ks, sourceCodePoints = flat_runs runs, sourcePostings = (\<lambda>run. found ! run)\<rparr>, index1)"
    unfolding runSource_def loop concat_runs [OF runs(2), unfolded runs(1), symmetric] by (simp only: Let_def prod.case)
  with assms(3) have points: "sourceCodePoints source = flat_runs runs" and n: "sourceCount source = length runs"
    and lists: "sourcePostings source = (\<lambda>run. found ! run)" and "index' = index1"
    by (auto simp: runs_def)
  with rep show "growing_represents index' keys" by simp
  have len: "length found = length runs"
    using list_all2_lengthD [OF found] by (simp add: runs_def)
  have "source_entries source [0..<length runs] = map (\<lambda>i. (runs ! i, found ! i)) [0..<length runs]"
    unfolding source_entries_def by (rule map_cong) (simp_all add: points lists triple_at_flat)
  also have "\<dots> = zip runs found"
    by (rule nth_equalityI) (simp_all add: len)
  finally have entries: "source_entries source [0..<sourceCount source] = zip runs found"
    by (simp add: n)
  show "entries_hold (source_entries source [0..<sourceCount source]) keys"
    unfolding entries
  proof (rule entries_holdI)
    have "distinct (map key_of runs)"
      using ok by (simp add: runs(1) growing_ok_def)
    then show "distinct (map fst (zip runs found))"
      by (simp add: len distinct_map)
    show "unpaired [a, b, c] \<and> list \<noteq> [] \<and> sorted_wrt (<) list \<and> set list = holders keys (a, b, c)"
      if "((a, b, c), list) \<in> set (zip runs found)" for a b c list
    proof -
      from that obtain i where i: "i < length runs" "runs ! i = (a, b, c)" "found ! i = list"
        by (auto simp: in_set_zip len)
      have "?ks ! i = key_of (runs ! i)"
        using i(1) runs(1) by (metis nth_map)
      then have "?ks ! i = runKey a b c"
        by (simp add: i(2) key_of_def)
      with list_all2_nthD [OF found, of i] i live have "list \<noteq> [] \<and> sorted_wrt (<) list \<and> set list = holders keys (a, b, c)"
        by (simp add: runs_def holders_def)
      moreover have "unpaired [a, b, c]"
        using runs(2) nth_mem [OF i(1)] by (metis (mono_tags, lifting) case_prodD i(2))
      ultimately show ?thesis by simp
    qed
    show "ks \<subseteq> key_of ` fst ` set (zip runs found)" if "keys d = Some ks" for d ks
    proof
      fix k
      assume "k \<in> ks"
      with that have "d \<in> live_of index k"
        by (auto simp: live)
      then have "k \<in> set ?ks"
        using present by blast
      then have "k \<in> key_of ` set runs"
        unfolding runs(1) [symmetric] by simp
      moreover have "fst ` set (zip runs found) = set runs"
        using len by (metis list.set_map map_fst_zip)
      ultimately show "k \<in> key_of ` fst ` set (zip runs found)"
        by simp
    qed
  qed
qed

lemma entries_hold_mset:
  assumes "entries_hold entries keys" and "mset entries' = mset entries"
  shows "entries_hold entries' keys"
proof -
  have "set entries' = set entries"
    using assms(2) by (rule mset_eq_setD)
  moreover have "distinct (map fst entries') = distinct (map fst entries)"
    using assms(2) by (metis mset_eq_imp_distinct_iff mset_map)
  ultimately show ?thesis
    using assms(1) by (simp add: entries_hold_def)
qed

theorem growingToArrays_represents:
  assumes "growing_represents index keys" and "run_keys keys" and "renames (remapped remap) keys keys'"
    and "growingToArrays field remap index = (arrays, index')"
  shows "growing_represents index' keys \<and> frozen_represents arrays keys'"
proof -
  obtain source index1 where s: "runSource index = (source, index1)"
    by (metis prod.exhaust)
  obtain documents index2 where d: "sortedDocuments index1 = (documents, index2)"
    by (metis prod.exhaust)
  note src = runSource_entries [OF assms(1,2) s]
  have "growing_ok {} index1"
    using src(1) by (simp add: growing_represents_def)
  note docs = sortedDocuments_ok [OF this d]
  then have rep: "growing_represents index2 keys" and documents: "sorted_wrt (<) documents" "set documents = dom keys"
    using src(1) by (simp_all add: growing_represents_def)
  let ?n = "sourceCount source" and ?points = "sourceCodePoints source"
  let ?order = "sortedRunOrder ?points ?n"
  have fsts: "map fst (source_entries source runs) = map (triple_at ?points) runs" for runs
    by (simp add: source_entries_def comp_def)
  have "distinct (map fst (source_entries source [0..<?n]))"
    using src(2) by (simp add: entries_hold_def)
  note order = sortedRunOrder_sorted [OF this [unfolded fsts]]
  then have "mset (source_entries source ?order) = mset (source_entries source [0..<?n])"
    by (simp add: source_entries_def)
  then have "entries_hold (source_entries source ?order) keys"
    by (rule entries_hold_mset [OF src(2)])
  moreover have "length ?order = ?n"
    using order(2) by (metis diff_zero length_upt size_mset)
  ultimately have "frozen_represents (buildArrays field documents source (Some ?order) remap) keys'"
    using order(1) documents assms(3) by (intro buildArrays_represents [where keys = keys]) (simp_all add: fsts)
  with rep assms(4) show ?thesis
    by (auto simp: growingToArrays_def s d)
qed

section \<open>Arrays are added to a growing index\<close>

lemma map_nth_upt: "j \<le> length xs \<Longrightarrow> map (\<lambda>n. xs ! n) [i..<j] = take (j - i) (drop i xs)"
  by (rule nth_equalityI) auto

lemma offsets_within:
  assumes "lays_out entries (runPoints arrays, offsets arrays, postings arrays)" and "n \<le> length entries"
  shows "offsets arrays ! n \<le> length (postings arrays)"
proof -
  have "offsets arrays ! n = length (all_postings (take n entries))"
    using assms by (simp add: lays_out_def offsets_of_def del: upt_Suc)
  also have "\<dots> \<le> length (all_postings entries)"
    by (metis all_postings_def append_take_drop_id concat_append le_add1 length_append map_append)
  finally show ?thesis
    using assms(1) by (simp add: lays_out_def)
qed

definition appendMapped :: "(nat \<Rightarrow> int) \<Rightarrow> run_list \<times> growing_index \<Rightarrow> nat \<Rightarrow> run_list \<times> growing_index" where
  "appendMapped f = (\<lambda>(list, index) ordinal.
     let mapped = f ordinal in if 0 \<le> mapped then appendOrdinal list (nat mapped) index else (list, index))"

lemma appendMapped_ok:
  assumes "list_ok list" and "distinct (mapped_ids f ids)" and "\<forall>d \<in> set (mapped_ids f ids). d < 2 ^ 32 \<and> d \<notin> live_ids list"
    and "foldl (appendMapped f) (list, index) ids = (list', index')"
  shows "list_ok list' \<and> live_ids list' = live_ids list \<union> set (mapped_ids f ids) \<and>
    index' = index\<lparr>listBytes := listBytes index + (int (runCapacity list') - int (runCapacity list)) * UINT32_BYTES\<rparr> \<and>
    (mapped_ids f ids = [] \<longrightarrow> list' = list)"
  using assms
proof (induction ids arbitrary: list index)
  case Nil
  then show ?case by (simp add: mapped_ids_def)
next
  case (Cons ordinal ids)
  show ?case
  proof (cases "0 \<le> f ordinal")
    case False
    then have "mapped_ids f (ordinal # ids) = mapped_ids f ids"
      by (simp add: mapped_ids_def)
    with False Cons show ?thesis
      by (simp add: appendMapped_def Let_def)
  next
    case True
    then have ids: "mapped_ids f (ordinal # ids) = nat (f ordinal) # mapped_ids f ids"
      by (simp add: mapped_ids_def)
    obtain list1 index1 where a: "appendOrdinal list (nat (f ordinal)) index = (list1, index1)"
      by (metis prod.exhaust)
    note one = appendOrdinal_ok [OF Cons.prems(1) _ _ a]
    have "nat (f ordinal) < 2 ^ 32" "nat (f ordinal) \<notin> live_ids list"
      using Cons.prems(3) unfolding ids by simp_all
    note one = one [OF this]
    have "foldl (appendMapped f) (list1, index1) ids = (list', index')"
      using Cons.prems(4) True a by (simp add: appendMapped_def)
    moreover have "distinct (mapped_ids f ids)" "\<forall>d \<in> set (mapped_ids f ids). d < 2 ^ 32 \<and> d \<notin> live_ids list1"
      using Cons.prems(2,3) one unfolding ids by auto
    ultimately show ?thesis
      using Cons.IH [of list1 index1] one by (auto simp: ids left_diff_distrib)
  qed
qed

lemma addRun_ok:
  assumes "growing_ok {} index" and lay: "lays_out entries (runPoints arrays, offsets arrays, postings arrays)"
    and run: "run < length entries" and entry: "entries ! run = ((a, b, c), ids)"
    and "distinct (mapped_ids f ids)" and "\<forall>d \<in> set (mapped_ids f ids). d < 2 ^ 32 \<and> d \<notin> live_of index (runKey a b c)"
  shows "growing_ok {} (addRun arrays f index run) \<and> same_documents index (addRun arrays f index run) \<and>
    live_of (addRun arrays f index run) =
      (live_of index)(runKey a b c := live_of index (runKey a b c) \<union> set (mapped_ids f ids))"
proof -
  let ?key = "runKey a b c"
  have "triple_at (runPoints arrays) run = (a, b, c)"
    using lay run entry by (simp add: lays_out_def triple_at_flat)
  then have key: "runKey (runPoints arrays ! (run * PATTERN_RUN_CODE_POINTS)) (runPoints arrays ! (run * PATTERN_RUN_CODE_POINTS + 1))
      (runPoints arrays ! (run * PATTERN_RUN_CODE_POINTS + 2)) = ?key"
    by (simp add: triple_at_def PATTERN_RUN_CODE_POINTS_def mult.commute)
  have posts: "map (\<lambda>posting. postings arrays ! posting) [offsets arrays ! run..<offsets arrays ! (run + 1)] = ids"
  proof -
    have "postingsAt arrays run = ids"
      using postings_of_entry [OF lay run] entry by simp
    moreover have "offsets arrays ! (run + 1) \<le> length (postings arrays)"
      using offsets_within [OF lay, of "run + 1"] run by simp
    ultimately show ?thesis
      by (simp add: postingsAt_def map_nth_upt)
  qed
  obtain list index1 where l: "listFor ?key index = (list, index1)"
    by (metis prod.exhaust)
  note got = listFor_ok [OF assms(1) l]
  obtain list' index2 where ap: "foldl (appendMapped f) (list, index1) ids = (list', index2)"
    by (metis prod.exhaust)
  have loop: "foldl (\<lambda>(list, index) posting. let mapped = f (postings arrays ! posting)
      in if 0 \<le> mapped then appendOrdinal list (nat mapped) index else (list, index)) (list, index1)
      [offsets arrays ! run..<offsets arrays ! (run + 1)] = (list', index2)"
    using ap unfolding posts [symmetric] foldl_map by (simp add: appendMapped_def case_prod_beta')
  have "\<forall>d \<in> set (mapped_ids f ids). d < 2 ^ 32 \<and> d \<notin> live_ids list"
    using assms(6) got by simp
  note app = appendMapped_ok [OF _ assms(5) this ap]
  have ok: "growing_ok {?key} index1" "mapGet (growRuns index1) ?key = Some list" "list_ok list"
    using got by simp_all
  note app = app [OF ok(3)]
  have put: "growing_ok {?key} (putList ?key list' index2) \<and> live_of (putList ?key list' index2) = (live_of index1)(?key := live_ids list') \<and>
    same_documents index1 (putList ?key list' index2) \<and> mapGet (growRuns (putList ?key list' index2)) ?key = Some list'"
    by (rule putList_ok [OF ok(1,2)]) (use app in auto)
  have "runIds list' = []" if "live_ids list' = {}"
  proof -
    from that app have "live_ids list = {}" "mapped_ids f ids = []"
      by simp_all
    with app got show ?thesis by simp
  qed
  with put have "growing_ok {} (dropIfEmpty ?key list' (putList ?key list' index2)) \<and>
      live_of (dropIfEmpty ?key list' (putList ?key list' index2)) = live_of (putList ?key list' index2) \<and>
      same_documents (putList ?key list' index2) (dropIfEmpty ?key list' (putList ?key list' index2))"
    by (intro dropIfEmpty_ok [of "{?key}"]) auto
  moreover have "addRun arrays f index run = dropIfEmpty ?key list' (putList ?key list' index2)"
    unfolding addRun_def key Let_def l prod.case loop [unfolded Let_def] by (rule refl)
  ultimately show ?thesis
    using put got app by (auto intro: same_documents_trans)
qed

lemma addDocuments_ok:
  assumes "growing_ok {} index" and "\<forall>d \<in> set (mapped_ids f ids). d < 2 ^ 32"
  defines "index' \<equiv> foldl (\<lambda>index ordinal.
    let mapped = f ordinal in if mapped < 0 then index else addDocument (nat mapped) index) index ids"
  shows "growing_ok {} index' \<and> live_of index' = live_of index \<and>
    set (growDocuments index') = set (growDocuments index) \<union> set (mapped_ids f ids)"
  using assms(1,2) unfolding index'_def
proof (induction ids arbitrary: index)
  case Nil
  then show ?case by (simp add: mapped_ids_def)
next
  case (Cons ordinal ids)
  show ?case
  proof (cases "f ordinal < 0")
    case True
    then have "mapped_ids f (ordinal # ids) = mapped_ids f ids"
      by (simp add: mapped_ids_def)
    with True Cons show ?thesis by simp
  next
    case False
    then have ids: "mapped_ids f (ordinal # ids) = nat (f ordinal) # mapped_ids f ids"
      by (simp add: mapped_ids_def)
    let ?index = "addDocument (nat (f ordinal)) index"
    have "growing_ok {} ?index \<and> live_of ?index = live_of index"
      using Cons.prems growing_ok_docs [OF Cons.prems(1)]
      by (intro growing_ok_documents [OF Cons.prems(1)]) (auto simp: addDocument_def ids)
    then have added: "growing_ok {} ?index" "live_of ?index = live_of index"
      by simp_all
    with Cons.IH [OF added(1)] Cons.prems(2) False show ?thesis
      by (simp add: ids addDocument_def)
  qed
qed

theorem addArrays_represents:
  assumes "growing_represents index keys"
    and lay: "lays_out entries (runPoints arrays, offsets arrays, postings arrays)" and hold: "entries_hold entries akeys"
    and docs: "sorted_wrt (<) (docIds arrays)" "set (docIds arrays) = dom akeys"
    and ren: "renames f akeys new" and fresh: "dom new \<inter> dom keys = {}" "\<forall>d \<in> dom new. d < 2 ^ 32"
  shows "growing_represents (addArrays arrays f index) (keys ++ new)"
proof -
  from assms(1) have ok: "growing_ok {} index" and documents: "set (growDocuments index) = dom keys"
    and live: "live_of index k = {d. \<exists>ks. keys d = Some ks \<and> k \<in> ks}" for k
    by (simp_all add: growing_represents_def)
  define index1 where "index1 = foldl (\<lambda>index ordinal.
    let mapped = f ordinal in if mapped < 0 then index else addDocument (nat mapped) index) index (docIds arrays)"
  have mapped_docs: "set (mapped_ids f (docIds arrays)) = dom new"
    by (rule renames_dom [OF ren docs(2)])
  have one: "growing_ok {} index1" "live_of index1 = live_of index" "set (growDocuments index1) = dom keys \<union> dom new"
    using addDocuments_ok [OF ok, of f "docIds arrays"] fresh(2) documents mapped_docs by (simp_all add: index1_def)
  have mapped: "set (mapped_ids f ids) = {d. \<exists>ks. new d = Some ks \<and> runKey a b c \<in> ks}" "distinct (mapped_ids f ids)"
    if "((a, b, c), ids) \<in> set entries" for a b c ids
  proof -
    note e = entries_hold_entry [OF hold that]
    then have "set ids \<subseteq> dom akeys"
      by (auto simp: holders_def)
    with renames_mapped(2) [OF ren, of ids] renames_holders [OF ren, of ids "(a, b, c)"] e
    show "set (mapped_ids f ids) = {d. \<exists>ks. new d = Some ks \<and> runKey a b c \<in> ks}" "distinct (mapped_ids f ids)"
      by (simp_all add: holders_def)
  qed
  have keys_distinct: "key_of (fst (entries ! i)) \<noteq> key_of (fst (entries ! j))" if "i < j" "j < length entries" for i j
  proof
    assume same: "key_of (fst (entries ! i)) = key_of (fst (entries ! j))"
    obtain a b c l where i: "entries ! i = ((a, b, c), l)" by (metis prod.exhaust)
    obtain x y z m where j: "entries ! j = ((x, y, z), m)" by (metis prod.exhaust)
    have "unpaired [a, b, c]" "unpaired [x, y, z]"
      using entries_hold_entry [OF hold, of a b c l] entries_hold_entry [OF hold, of x y z m] that nth_mem [of i entries]
        nth_mem [of j entries] by (simp_all add: i j)
    with same have "fst (entries ! i) = fst (entries ! j)"
      using runKey_inj by (simp add: i j key_of_def)
    moreover have "distinct (map fst entries)"
      using hold by (simp add: entries_hold_def)
    ultimately show False
      using that by (simp add: distinct_conv_nth)
  qed
  define added where "added n k = (if k \<in> key_of ` fst ` set (take n entries) then {d. \<exists>ks. new d = Some ks \<and> k \<in> ks} else {})" for n k
  have loop: "n \<le> length entries \<Longrightarrow> growing_ok {} (foldl (addRun arrays f) index1 [0..<n]) \<and>
      same_documents index1 (foldl (addRun arrays f) index1 [0..<n]) \<and>
      live_of (foldl (addRun arrays f) index1 [0..<n]) = (\<lambda>k. live_of index k \<union> added n k)" for n
  proof (induction n)
    case 0
    then show ?case by (simp add: one added_def same_documents_def)
  next
    case (Suc n)
    let ?index = "foldl (addRun arrays f) index1 [0..<n]"
    from Suc have n: "n < length entries" and IH: "growing_ok {} ?index" "same_documents index1 ?index"
      "live_of ?index = (\<lambda>k. live_of index k \<union> added n k)"
      by simp_all
    obtain a b c ids where e: "entries ! n = ((a, b, c), ids)" by (metis prod.exhaust)
    have member: "((a, b, c), ids) \<in> set entries"
      using nth_mem [OF n] by (simp add: e)
    have "runKey a b c \<notin> key_of ` fst ` set (take n entries)"
    proof
      assume "runKey a b c \<in> key_of ` fst ` set (take n entries)"
      then obtain i where "i < n" "key_of (fst (entries ! i)) = runKey a b c"
        using n by (auto simp: in_set_conv_nth)
      with keys_distinct [OF _ n] show False
        by (simp add: e key_of_def)
    qed
    then have none: "added n (runKey a b c) = {}"
      by (simp add: added_def)
    have "d < 2 ^ 32 \<and> d \<notin> live_of ?index (runKey a b c)" if "d \<in> set (mapped_ids f ids)" for d
    proof -
      from that mapped(1) [OF member] have "d \<in> dom new" by blast
      with fresh show ?thesis
        by (auto simp: IH none live)
    qed
    then have "\<forall>d \<in> set (mapped_ids f ids). d < 2 ^ 32 \<and> d \<notin> live_of ?index (runKey a b c)"
      by blast
    note step = addRun_ok [OF IH(1) lay n e mapped(2) [OF member] this]
    have "(live_of ?index)(runKey a b c := live_of ?index (runKey a b c) \<union> set (mapped_ids f ids)) =
        (\<lambda>k. live_of index k \<union> added (Suc n) k)"
      using none n by (auto simp: fun_eq_iff IH added_def mapped(1) [OF member] take_Suc_conv_app_nth e key_of_def)
    with step IH(2) show ?case
      by (auto intro: same_documents_trans)
  qed
  have "length (offsets arrays) - 1 = length entries"
    using lay by (simp add: lays_out_def)
  then have result: "addArrays arrays f index = foldl (addRun arrays f) index1 [0..<length entries]"
    by (simp add: addArrays_def index1_def)
  have all: "added (length entries) k = {d. \<exists>ks. new d = Some ks \<and> k \<in> ks}" for k
  proof (cases "k \<in> key_of ` fst ` set entries")
    case False
    have "k \<notin> ks" if "new d = Some ks" for d ks
    proof
      assume "k \<in> ks"
      from that obtain d0 where "akeys d0 = Some ks"
        using renames_iff [OF ren] by blast
      with hold \<open>k \<in> ks\<close> False show False
        unfolding entries_hold_def by blast
    qed
    with False show ?thesis
      by (simp add: added_def)
  qed (simp add: added_def)
  have "(keys ++ new) d = Some ks \<longleftrightarrow> keys d = Some ks \<or> new d = Some ks" for d ks
    using fresh(1) by (auto simp: map_add_Some_iff)
  with loop [OF order_refl] one show ?thesis
    unfolding result growing_represents_def by (auto simp: all live same_documents_def)
qed

end
