(* ===== verification/Index_History.thy ===== *)
theory Index_History
  imports Search_Tests Index_Arrays
begin

text \<open>
  The life of an index of runs: whatever documents were added to it, removed from it or asked for,
  a growing index represents exactly its present documents. The searches over both forms of the
  index and with both matchers are interpretations of \<open>pattern_search\<close>.
\<close>

definition keys_of :: "host \<Rightarrow> (nat \<rightharpoonup> field_value) \<Rightarrow> nat \<rightharpoonup> code_units set" where
  "keys_of h docs d = map_option (\<lambda>v. set (runKeysOf h v)) (docs d)"

text \<open>
  \<open>grown h docs index\<close>: the index after some operations, with the documents \<open>docs\<close> that are in it. A
  caller adds an ordinal that is not in the index, and removes a document under the value it has;
  ordinals fit into 32 bits.
\<close>

inductive grown :: "host \<Rightarrow> (nat \<rightharpoonup> field_value) \<Rightarrow> growing_index \<Rightarrow> bool" for h where
  grown_new: "grown h Map.empty createGrowingIndex"
| grown_add: "grown h docs index \<Longrightarrow> docs d = None \<Longrightarrow> d < 2 ^ 32 \<Longrightarrow>
    grown h (if holdsTextValue v then docs(d \<mapsto> v) else docs) (indexAdd h d v index)"
| grown_remove: "grown h docs index \<Longrightarrow> docs d = Some v \<Longrightarrow> grown h (docs(d := None)) (indexRemove h d v index)"
| grown_clear: "grown h docs index \<Longrightarrow> grown h Map.empty (indexClear index)"
| grown_postings: "grown h docs index \<Longrightarrow> settledPostings key index = (list, index') \<Longrightarrow> grown h docs index'"
| grown_documents: "grown h docs index \<Longrightarrow> sortedDocuments index = (list, index') \<Longrightarrow> grown h docs index'"

lemma dom_keys_of [simp]: "dom (keys_of h docs) = dom docs"
  by (auto simp: keys_of_def)

lemma grown_ok:
  "grown h docs index \<Longrightarrow> growing_represents index (keys_of h docs) \<and>
     (\<forall>d v. docs d = Some v \<longrightarrow> holdsTextValue v \<and> d < 2 ^ 32) \<and> finite (dom docs)"
proof (induction rule: grown.induct)
  case grown_new
  have "keys_of h Map.empty = Map.empty"
    by (simp add: keys_of_def fun_eq_iff)
  then show ?case
    by (simp add: create_represents)
next
  case (grown_add docs index d v)
  then have "growing_represents index (keys_of h docs)" by blast
  moreover have "keys_of h docs d = None"
    using grown_add.hyps(2) by (simp add: keys_of_def)
  ultimately have "growing_represents (indexAdd h d v index) (with_document h d v (keys_of h docs))"
    using indexAdd_represents grown_add.hyps(3) by blast
  moreover have "with_document h d v (keys_of h docs) = keys_of h (if holdsTextValue v then docs(d \<mapsto> v) else docs)"
    by (simp add: with_document_def keys_of_def fun_eq_iff)
  moreover have "finite (dom (if holdsTextValue v then docs(d \<mapsto> v) else docs))"
    using grown_add.IH by simp
  ultimately show ?case
    using grown_add by (auto split: if_splits)
next
  case (grown_remove docs index d v)
  then have v: "holdsTextValue v" "growing_represents index (keys_of h docs)"
    by simp_all
  have "with_document h d v (keys_of h docs) = keys_of h docs"
    using grown_remove.hyps by (simp add: with_document_def keys_of_def fun_eq_iff)
  from indexRemove_represents [OF v(2) this] v(1)
  have "growing_represents (indexRemove h d v index) ((keys_of h docs)(d := None))"
    by simp
  moreover have "(keys_of h docs)(d := None) = keys_of h (docs(d := None))"
    by (simp add: keys_of_def fun_eq_iff)
  moreover have "finite (dom (docs(d := None)))"
    using grown_remove.IH by simp
  moreover have "\<forall>d' v'. (docs(d := None)) d' = Some v' \<longrightarrow> holdsTextValue v' \<and> d' < 2 ^ 32"
    using grown_remove.IH by (simp add: fun_upd_def)
  ultimately show ?case
    by metis
next
  case (grown_clear docs index)
  have "keys_of h Map.empty = Map.empty"
    by (simp add: keys_of_def fun_eq_iff)
  then show ?case
    by (simp add: indexClear_represents)
next
  case (grown_postings docs index key list index')
  with settledPostings_ok [of index key list index'] show ?case
    by (simp add: growing_represents_def same_documents_def)
next
  case (grown_documents docs index list index')
  with sortedDocuments_ok [of index list index'] show ?case
    by (simp add: growing_represents_def)
qed

lemma grown_indexes:
  assumes "grown h docs index" and "\<And>d v. docs d = Some v \<Longrightarrow> valueOf d = v"
  shows "indexes h valueOf (keys_of h docs)"
  using grown_ok [OF assms(1)] assms(2) by (auto simp: indexes_def keys_of_def)

section \<open>Searches\<close>

interpretation growing_literal: pattern_search growing_reader growing_represents
  literal_ops literal_ready literal_reading literal_decided literal_spec literal_work ..

interpretation growing_dfa: pattern_search growing_reader growing_represents
  dfa_ops "dfa_ready P limit" "\<lambda>d w. dfa_reading d w \<and> has_limit P limit d"
  "\<lambda>d b. dfa_decided d b \<and> has_limit P limit d" dfa_spec dfa_work for P limit ..

interpretation frozen_literal: pattern_search frozen_reader frozen_represents
  literal_ops literal_ready literal_reading literal_decided literal_spec literal_work ..

interpretation frozen_dfa: pattern_search frozen_reader frozen_represents
  dfa_ops "dfa_ready P limit" "\<lambda>d w. dfa_reading d w \<and> has_limit P limit d"
  "\<lambda>d b. dfa_decided d b \<and> has_limit P limit d" dfa_spec dfa_work for P limit ..

text \<open>The texts of a document are JavaScript strings, so its keys are those of runs in a text.\<close>

definition texts_ok :: "(nat \<rightharpoonup> field_value) \<Rightarrow> bool" where
  "texts_ok docs \<longleftrightarrow> (\<forall>d v us. docs d = Some v \<longrightarrow> us \<in> set (forEachTextValue v) \<longrightarrow> units_ok us)"

lemma unpaired_drop: "unpaired cs \<Longrightarrow> unpaired (drop n cs)"
proof (induction cs arbitrary: n)
  case (Cons c cs)
  then show ?case by (cases n) (auto simp: unpaired_Cons)
qed simp

lemma unpaired_window: "unpaired cs \<Longrightarrow> window_of cs (a, b, c) \<Longrightarrow> unpaired [a, b, c]"
proof -
  assume cs: "unpaired cs" and "window_of cs (a, b, c)"
  then obtain n where n: "n + 3 \<le> length cs" "a = cs ! n" "b = cs ! (n + 1)" "c = cs ! (n + 2)"
    by (auto simp: window_of_def)
  then have "drop n cs = a # b # c # drop (n + 3) cs"
    by (intro nth_equalityI) (auto simp: nth_Cons nth_append numeral_eq_Suc split: nat.splits)
  with unpaired_drop [OF cs, of n] show ?thesis
    by (simp add: unpaired_Cons)
qed

context folding_host
begin

lemma keys_of_run_keys:
  assumes "texts_ok docs"
  shows "run_keys (keys_of h docs)"
  unfolding run_keys_def
proof (intro allI impI subsetI)
  fix d ks k
  assume "keys_of h docs d = Some ks" and "k \<in> ks"
  then obtain v where v: "docs d = Some v" "k \<in> set (runKeysOf h v)"
    by (auto simp: keys_of_def)
  then obtain us a b c where us: "us \<in> set (forEachTextValue v)" "k = runKey a b c"
    and w: "window_of (fold_text h (code_points us)) (a, b, c)"
    unfolding set_runKeysOf by blast
  from assms v(1) us(1) have "units_ok us"
    unfolding texts_ok_def by blast
  then have "unpaired (fold_text h (code_points us))"
    using encode_code_points fold_unpaired by blast
  from unpaired_window [OF this w] us(2) show "k \<in> key_of ` {(a, b, c). unpaired [a, b, c]}"
    by (intro image_eqI [of _ _ "(a, b, c)"]) (simp_all add: key_of_def)
qed

end

text \<open>Written down without renumbering, an index keeps its documents.\<close>

lemma renames_same: "renames (remapped None) keys keys"
  by (auto simp: renames_def remapped_def inj_on_def)

lemma grown_frozen:
  assumes "grown (host_of t) docs index" and "texts_ok docs" and "growingToArrays field None index = (arrays, index')"
  shows "frozen_represents arrays (keys_of (host_of t) docs)" and "growing_represents index' (keys_of (host_of t) docs)"
  using growingToArrays_represents [OF _ engine.keys_of_run_keys [OF assms(2)] renames_same assms(3)] grown_ok [OF assms(1)]
  by blast+

end
