(* ===== verification/Search_Properties.thy ===== *)
theory Search_Properties
  imports Pattern_Properties Index_History
begin

text \<open>
  What a pattern search promises as a whole: the right documents, within the budget and the memory
  it was given, over a growing index and over its frozen form.
\<close>

text \<open>An automaton made for a program and used for any number of values.\<close>

inductive dfa_life :: "program \<Rightarrow> int \<Rightarrow> int \<Rightarrow> lazy_dfa \<Rightarrow> bool" for P programBytes limit where
  dfa_fresh: "dfa_life P programBytes limit (newLazyDfa P programBytes limit)"
| dfa_used: "dfa_life P programBytes limit d \<Longrightarrow> tally_ok tally \<Longrightarrow>
    matchesText dfa_ops d us caseFold h tally = Inr (answer, d', tally') \<Longrightarrow> dfa_life P programBytes limit d'"

definition program_of :: "fold_tables \<Rightarrow> pattern_node \<Rightarrow> bool \<Rightarrow> program" where
  "program_of t node caseFold = compileProgram (lowerPattern node caseFold (host_of t))"

lemma program_of_ok:
  assumes "wf_node node"
  shows "program_ok (program_of t node caseFold)" and "classes_ok (program_of t node caseFold)"
    and "anchoredStart (program_of t node caseFold) \<longrightarrow> only_at_start (program_of t node caseFold)"
  using compileProgram_ok [OF wf_lower [OF assms]] compileProgram_classes [OF assms]
    compileProgram_anchored [OF wf_lower [OF assms]]
  by (simp_all add: program_of_def lowerPattern_def)

lemma dfa_life_ready:
  assumes "dfa_life (program_of t node caseFold) programBytes limit d" and "wf_node node"
  shows "dfa_ready (program_of t node caseFold)
    (limit - programBytes - simulationBytes (program_of t node caseFold)) d"
  using assms(1)
proof (induction rule: dfa_life.induct)
  case dfa_fresh
  show ?case
    by (rule newLazyDfa_ready [OF program_of_ok(1,3,2) [OF assms(2)]])
next
  case (dfa_used d tally us caseFold h answer d' tally')
  with dfa.matchesText_correct show ?case by blast
qed

section \<open>A search returns\<close>

lemma literal_returns:
  assumes "grown (host_of t) docs index" and "\<forall>d v. docs d = Some v \<longrightarrow> valueOf d = v"
    and "known_ok (host_of t) known" and "units_ok us"
    and "literalTest operator us caseFold (host_of t) known = (test, known')"
    and "m_total meter + query_work (card (dom docs)) (testRuns test) +
      (\<Sum>d \<in> dom docs. 1 + (length (fed_points (host_of t) caseFold us) + 1) *
         (\<Sum>v \<leftarrow> forEachTextValue (valueOf d). length (fed_points (host_of t) caseFold v))) \<le> m_cap meter"
  shows "\<exists>r. matchPattern growing_reader literal_ops test caseFold (host_of t) valueOf index matches meter = Inr r"
proof -
  have ix: "indexes (host_of t) valueOf (keys_of (host_of t) docs)"
    by (rule grown_indexes [OF assms(1)]) (use assms(2) in blast)
  note test = engine.literalTest_searchable [OF assms(3,5) ix assms(4)]
  from grown_ok [OF assms(1)] have "growing_represents index (keys_of (host_of t) docs)" "finite (dom (keys_of (host_of t) docs))"
    by simp_all
  from growing_literal.matchPattern_returns [OF this(1) test(1) this(2)] assms(6) show ?thesis
    by (simp add: literal.document_work_def literal.fed_length_def test(4))
qed

section \<open>A small index\<close>

text \<open>The index, the test and the budgets of the instances.\<close>

definition sample_docs :: "nat \<rightharpoonup> field_value" where
  "sample_docs = [3 \<mapsto> Text_Value [97, 98, 99, 100]]"

definition sample_index :: growing_index where
  "sample_index = indexAdd ascii_host 3 (Text_Value [97, 98, 99, 100]) createGrowingIndex"

lemma sample_grown: "grown ascii_host sample_docs sample_index"
proof -
  have "grown ascii_host (if holdsTextValue (Text_Value [97, 98, 99, 100]) then [3 \<mapsto> Text_Value [97, 98, 99, 100]] else Map.empty) sample_index"
    unfolding sample_index_def by (rule grown_add [OF grown_new]) simp_all
  then show ?thesis
    by (simp add: sample_docs_def holdsTextValue_def)
qed

definition sample_value :: "nat \<Rightarrow> field_value" where
  "sample_value d = Text_Value [97, 98, 99, 100]"

lemma sample_values: "\<forall>d v. sample_docs d = Some v \<longrightarrow> sample_value d = v"
  by (simp add: sample_docs_def sample_value_def)

lemma sample_points: "code_points [97, 98, 99, 100] = [97, 98, 99, 100]" "code_points [98, 99, 100] = [98, 99, 100]"
  "code_points [97] = [97]"
  by (simp_all add: code_points_Cons BASIC_PLANE_LAST_def is_high_def)

definition sample_tree :: pattern_node where
  "sample_tree = Sequence [Literal 97, Any_Node]"

definition sample_dfa :: lazy_dfa where
  "sample_dfa = newLazyDfa (program_of (Abs_fold_tables ascii_tables) sample_tree False) 0 0"

lemma sample_tree_ok: "wf_node sample_tree" "\<forall>c \<in> node_points sample_tree. c \<le> 0x10ffff"
  by (simp_all add: sample_tree_def)

lemma sample_life: "dfa_life (program_of (Abs_fold_tables ascii_tables) sample_tree False) 0 0 sample_dfa"
  unfolding sample_dfa_def by (rule dfa_fresh)

lemmas sample_ready = dfa_life_ready [OF sample_life sample_tree_ok(1)]

text \<open>The test of the search for \<open>bcd\<close> anywhere, and a search for it with just enough budget.\<close>

definition sample_test :: "literal_matcher prepared_test" where
  "sample_test = fst (literalTest Contains_Text [98, 99, 100] False ascii_host [])"

definition enough :: work_meter where
  "enough = createPatternWorkMeter (query_work 1 (testRuns sample_test) + 17)"

definition sample_search :: "work_error + (bitset \<times> growing_index \<times> literal_matcher option \<times> work_meter)" where
  "sample_search = matchPattern growing_reader literal_ops sample_test False ascii_host sample_value sample_index [0] enough"

lemma sample_test_made: "literalTest Contains_Text [98, 99, 100] False (host_of (Abs_fold_tables ascii_tables)) [] =
    (sample_test, snd (literalTest Contains_Text [98, 99, 100] False (host_of (Abs_fold_tables ascii_tables)) []))"
  by (simp add: sample_test_def ascii_host_def)

lemma sample_known: "known_ok (host_of (Abs_fold_tables ascii_tables)) []" "units_ok [98, 99, 100]"
  by (simp_all add: known_ok_def units_ok_def)

lemma sample_budget:
  "m_total enough + query_work (card (dom sample_docs)) (testRuns sample_test) +
    (\<Sum>d \<in> dom sample_docs. 1 + (length (fed_points (host_of (Abs_fold_tables ascii_tables)) False [98, 99, 100]) + 1) *
       (\<Sum>v \<leftarrow> forEachTextValue (sample_value d). length (fed_points (host_of (Abs_fold_tables ascii_tables)) False v)))
    \<le> m_cap enough"
  by (simp add: enough_def createPatternWorkMeter_def sample_docs_def sample_value_def forEachTextValue_def
      fed_points_def sample_points)

lemma sample_meter: "m_total enough \<le> m_cap enough"
  by (simp add: enough_def createPatternWorkMeter_def)

text \<open>The same for the tree, with an automaton that simulates from its first code point on.\<close>

definition tree_test :: "lazy_dfa prepared_test" where
  "tree_test = \<lparr>testRuns = requiredRuns sample_tree (host_of (Abs_fold_tables ascii_tables)), testMatcher = sample_dfa\<rparr>"

definition plenty :: work_meter where
  "plenty = createPatternWorkMeter (query_work 1 (testRuns tree_test) + (1 + dfa_work sample_dfa * 4))"

lemma tree_meter: "m_total plenty \<le> m_cap plenty"
  by (simp add: plenty_def createPatternWorkMeter_def)

lemma tree_searchable:
  "dfa.searchable (compileProgram (lowerPattern sample_tree False (host_of (Abs_fold_tables ascii_tables))))
    (0 - 0 - simulationBytes (program_of (Abs_fold_tables ascii_tables) sample_tree False))
    (keys_of ascii_host sample_docs) tree_test False ascii_host sample_value"
  unfolding ascii_host_def
proof (rule engine.dfa_test_searchable(1) [OF sample_tree_ok])
  show "indexes (host_of (Abs_fold_tables ascii_tables)) sample_value (keys_of (host_of (Abs_fold_tables ascii_tables)) sample_docs)"
    by (rule grown_indexes [OF sample_grown [unfolded ascii_host_def]]) (use sample_values in blast)
qed (use sample_ready in \<open>simp_all add: tree_test_def program_of_def\<close>)

lemma tree_budget: "m_total plenty + query_work (card (dom (keys_of ascii_host sample_docs))) (testRuns tree_test) +
    dfa.document_work (keys_of ascii_host sample_docs) tree_test False ascii_host sample_value \<le> m_cap plenty"
  by (simp add: dfa.document_work_def dfa.fed_length_def plenty_def createPatternWorkMeter_def sample_docs_def
      sample_value_def forEachTextValue_def fed_points_def sample_points tree_test_def)

lemma tree_search_returns:
  "\<exists>r. matchPattern growing_reader dfa_ops tree_test False ascii_host sample_value sample_index [0] plenty = Inr r"
  "frozen_represents arrays (keys_of ascii_host sample_docs) \<Longrightarrow>
    \<exists>r. matchPattern frozen_reader dfa_ops tree_test False ascii_host sample_value arrays [0] plenty = Inr r"
  using growing_dfa.matchPattern_returns [OF _ tree_searchable _ tree_budget, of sample_index "[0]"]
    frozen_dfa.matchPattern_returns [OF _ tree_searchable _ tree_budget, of arrays "[0]"] grown_ok [OF sample_grown]
  by auto

section \<open>The lazy automaton\<close>

text \<open>
  C6: the automaton that determinises a program while it reads gives the answer of the pattern for
  every value, whatever it has read before, however often its cache was dropped and whether it
  follows edges or simulates; it charges at most the positions of the program for a code point.
\<close>

theorem lazy_dfa_answers:
  assumes "wf_node node" and "dfa_life (program_of t node caseFold) programBytes limit d" and "tally_ok tally"
    and "matchesText dfa_ops d us caseFold (host_of t) tally = Inr (answer, d', tally')"
  shows "answer = span_in (fed_points (host_of t) caseFold us)
      (node_span (host_of t) caseFold (fed_points (host_of t) caseFold us) node) \<and>
    tally_ok tally' \<and>
    spent tally' \<le> spent tally + positions (program_of t node caseFold) * length (fed_points (host_of t) caseFold us)"
proof -
  note ready = dfa_life_ready [OF assms(2,1)]
  then have "dfa_spec d = value_hits (program_of t node caseFold)" "dfa_work d = positions (program_of t node caseFold)"
    by (auto simp: dfa_ready_def has_limit_def dfa_spec_def dfa_work_def)
  with dfa.matchesText_correct [OF ready assms(3,4)] engine.compiled_answer [OF assms(1)] show ?thesis
    by (simp add: program_of_def node_answer_def)
qed

lemma lazy_dfa_answers_witness:
  "\<exists>answer. matchesText dfa_ops sample_dfa [97] False ascii_host
      (newTally (createPatternWorkMeter (dfa_work sample_dfa))) = Inr answer \<and>
    fst answer = span_in [97] (node_span ascii_host False [97] sample_tree)"
proof -
  let ?tally = "newTally (createPatternWorkMeter (dfa_work sample_dfa))"
  have tally: "tally_ok ?tally"
    by (simp add: newTally_ok createPatternWorkMeter_def)
  have points: "fed_points ascii_host False [97] = [97]"
    by (simp add: fed_points_def sample_points)
  have "spent ?tally + dfa_work sample_dfa * length (fed_points ascii_host False [97]) \<le> tally_cap ?tally"
    unfolding points by (simp add: newTally_def spent_def tally_cap_def createPatternWorkMeter_def)
  from dfa.matchesText_fits [OF sample_ready tally this] obtain answer d' tally'
    where r: "matchesText dfa_ops sample_dfa [97] False ascii_host ?tally = Inr (answer, d', tally')"
    by blast
  from lazy_dfa_answers [OF sample_tree_ok(1) sample_life tally r [unfolded ascii_host_def]]
  have "answer = span_in [97] (node_span ascii_host False [97] sample_tree)"
    by (simp add: points flip: ascii_host_def)
  with r show ?thesis by auto
qed



section \<open>Runs\<close>

text \<open>
  C15: a value that a pattern matches holds the runs that are required of it, so a shortlist of the
  documents that hold them leaves no match out.
\<close>

theorem required_runs_lose_no_match:
  assumes "span_in (fed_points (host_of t) caseFold us)
    (node_span (host_of t) caseFold (fed_points (host_of t) caseFold us) node)"
  shows "holds_query (set (runKeysOf (host_of t) (Text_Value us))) (requiredRuns node (host_of t))"
proof (rule engine.needs_holds)
  show "engine.needs (fold_text (host_of t) (code_points us)) (requiredRuns node (host_of t))"
    using engine.requiredRuns_sound [OF assms] by (simp add: engine.folded_fed)
  show "us \<in> set (forEachTextValue (Text_Value us))"
    by (simp add: forEachTextValue_def)
qed simp

lemma required_runs_lose_no_match_witness:
  "holds_query (set (runKeysOf ascii_host (Text_Value [97, 98, 99, 100])))
     (requiredRuns (Sequence [Literal 97, Literal 98, Literal 99]) ascii_host)"
proof -
  have points: "fed_points ascii_host False [97, 98, 99, 100] = [97, 98, 99, 100]"
    by (simp add: fed_points_def sample_points)
  have "(0, 1) \<in> word_span [97, 98, 99, 100] [97]" "(1, 2) \<in> word_span [97, 98, 99, 100] [98]"
    "(2, 3) \<in> word_span [97, 98, 99, 100 :: nat] [99]"
    by (simp_all add: word_span_def char_span_def)
  then have "(0, 3) \<in> node_span ascii_host False [97, 98, 99, 100] (Sequence [Literal 97, Literal 98, Literal 99])"
    by (simp add: seq_span_def relcomp_unfold) blast
  then have "span_in (fed_points ascii_host False [97, 98, 99, 100])
      (node_span ascii_host False (fed_points ascii_host False [97, 98, 99, 100]) (Sequence [Literal 97, Literal 98, Literal 99]))"
    unfolding points span_in_def by (intro exI [of _ 0] exI [of _ 3]) simp
  from required_runs_lose_no_match [OF this [unfolded ascii_host_def]] show ?thesis
    by (simp add: ascii_host_def)
qed

section \<open>The index\<close>





section \<open>Searches\<close>

text \<open>
  C5: a search for a text adds to the result exactly the documents of the index with a value that is,
  begins with, ends with or contains the text, folded or not, among those that have a place in it.
\<close>

theorem literal_search_finds_matches:
  assumes "grown (host_of t) docs index" and "\<forall>d v. docs d = Some v \<longrightarrow> valueOf d = v"
    and "known_ok (host_of t) known" and "units_ok us"
    and "literalTest operator us caseFold (host_of t) known = (test, known')" and "m_total meter \<le> m_cap meter"
    and "matchPattern growing_reader literal_ops test caseFold (host_of t) valueOf index matches meter =
      Inr (matches', index', m, meter')"
  shows "members matches' = members matches \<union> {d \<in> dom docs. shift5 d < length matches \<and>
      (\<exists>v \<in> set (forEachTextValue (valueOf d)).
         text_answer operator (fed_points (host_of t) caseFold us) (fed_points (host_of t) caseFold v))} \<and>
    m_total meter' \<le> m_cap meter"
proof -
  have ix: "indexes (host_of t) valueOf (keys_of (host_of t) docs)"
    by (rule grown_indexes [OF assms(1)]) (use assms(2) in blast)
  from grown_ok [OF assms(1)] have "growing_represents index (keys_of (host_of t) docs)" by blast
  from growing_literal.matchPattern_exact [OF this engine.literalTest_searchable(1) [OF assms(3,5) ix assms(4)] assms(6,7)]
    engine.literalTest_searchable(3) [OF assms(3,5) ix assms(4)]
  show ?thesis by simp
qed

lemma literal_search_finds_matches_witness: "members (fst (projr sample_search)) = {3}"
proof -
  have "\<exists>r. sample_search = Inr r"
    unfolding sample_search_def ascii_host_def
    by (rule literal_returns [OF sample_grown [unfolded ascii_host_def] sample_values sample_known sample_test_made sample_budget])
  then obtain matches' index' m meter' where r: "sample_search = Inr (matches', index', m, meter')"
    by (metis prod.exhaust)
  have "text_answer Contains_Text [98, 99, 100] [97, 98, 99, 100]"
    by (auto simp: text_answer_def sublist_def intro: exI [of _ "[97]"])
  moreover have "members [0] = {}"
    by (auto simp: members_def has_iff less_Suc_eq nth_Cons')
  moreover have "shift5 3 < length [0 :: u32]"
    by (simp add: shift5_div)
  moreover note literal_search_finds_matches [OF sample_grown [unfolded ascii_host_def] sample_values sample_known sample_test_made
      sample_meter r [unfolded sample_search_def ascii_host_def]]
  ultimately show ?thesis
    by (auto simp: r sample_docs_def sample_value_def forEachTextValue_def fed_points_def sample_points split: if_splits)
qed

text \<open>
  C2: a search for an expression adds to the result exactly the documents of the index with a value
  that the pattern matches, among those that have a place in it.
\<close>

theorem expression_search_finds_matches:
  assumes "grown (host_of t) docs index" and "\<forall>d v. docs d = Some v \<longrightarrow> valueOf d = v"
    and "wf_node node" and "\<forall>c \<in> node_points node. c \<le> 0x10ffff"
    and "dfa_life (program_of t node caseFold) programBytes limit d" and "m_total meter \<le> m_cap meter"
    and "matchPattern growing_reader dfa_ops \<lparr>testRuns = requiredRuns node (host_of t), testMatcher = d\<rparr> caseFold
      (host_of t) valueOf index matches meter = Inr (matches', index', m, meter')"
  shows "members matches' = members matches \<union> {d \<in> dom docs. shift5 d < length matches \<and>
      (\<exists>v \<in> set (forEachTextValue (valueOf d)). span_in (fed_points (host_of t) caseFold v)
         (node_span (host_of t) caseFold (fed_points (host_of t) caseFold v) node))} \<and>
    m_total meter' \<le> m_cap meter"
proof -
  let ?test = "\<lparr>testRuns = requiredRuns node (host_of t), testMatcher = d\<rparr>"
  have ix: "indexes (host_of t) valueOf (keys_of (host_of t) docs)"
    by (rule grown_indexes [OF assms(1)]) (use assms(2) in blast)
  have runs: "testRuns ?test = requiredRuns node (host_of t)"
    by simp
  have ready: "dfa_ready (compileProgram (lowerPattern node caseFold (host_of t)))
      (limit - programBytes - simulationBytes (program_of t node caseFold)) (testMatcher ?test)"
    using dfa_life_ready [OF assms(5,3)] by (simp add: program_of_def)
  note test = engine.dfa_test_searchable [OF assms(3,4) runs ready ix]
  from grown_ok [OF assms(1)] have "growing_represents index (keys_of (host_of t) docs)" by blast
  from growing_dfa.matchPattern_exact [OF this test(1) assms(6,7)] test(2) show ?thesis
    by (simp add: node_answer_def)
qed

lemma expression_search_finds_matches_witness:
  "\<exists>r. matchPattern growing_reader dfa_ops tree_test False ascii_host sample_value sample_index [0] plenty = Inr r \<and>
    m_total (snd (snd (snd r))) \<le> m_cap plenty"
proof -
  obtain matches' index' m meter' where r: "matchPattern growing_reader dfa_ops tree_test False ascii_host sample_value
      sample_index [0] plenty = Inr (matches', index', m, meter')"
    using tree_search_returns(1) by (metis prod.exhaust)
  from expression_search_finds_matches [OF sample_grown [unfolded ascii_host_def] sample_values sample_tree_ok sample_life
      tree_meter r [unfolded tree_test_def ascii_host_def]]
  show ?thesis by (simp add: r)
qed





end
