(* ===== verification/Crc32.thy ===== *)
theory Crc32
  imports Prelude
begin

text \<open>
  The checksum of replication entries and archives, \<open>serialization/crc32.ts\<close>: the table of the
  IEEE polynomial, the update over bytes, and the choice between the table and the routine of the
  platform. The platform's routine is not in the repository, so it is a parameter
  \<open>native\<close>; what the code relies on is that it continues the same checksum.

  The lemmas show that the table computes the bitwise division, which is a reference definition
  here, and that a checksum step is injective, so a changed byte always changes the checksum.
\<close>

type_synonym byte = "8 word"
type_synonym bytes = "byte list"

definition IEEE_POLYNOMIAL :: u32 where "IEEE_POLYNOMIAL = 0xedb88320"
definition ALL_BITS :: u32 where "ALL_BITS = 0xffffffff"
definition NATIVE_CRC32_MIN_BYTES :: nat where "NATIVE_CRC32_MIN_BYTES = 16"

section \<open>The code\<close>

definition crcBit :: "u32 \<Rightarrow> u32" where
  "crcBit crc = (if crc AND 1 \<noteq> 0 then drop_bit 1 crc XOR IEEE_POLYNOMIAL else drop_bit 1 crc)"

definition buildTable :: "u32 list" where
  "buildTable = map (\<lambda>i. (crcBit ^^ 8) (of_nat i)) [0..<256]"

definition tableStep :: "u32 \<Rightarrow> byte \<Rightarrow> u32" where
  "tableStep crc b = drop_bit 8 crc XOR buildTable ! unat ((crc XOR ucast b) AND 0xff)"

definition crc32Init :: u32 where "crc32Init = ALL_BITS"

definition crc32Update :: "(bytes \<Rightarrow> u32 \<Rightarrow> u32) option \<Rightarrow> u32 \<Rightarrow> bytes \<Rightarrow> u32" where
  "crc32Update native state data =
     (case native of
        Some routine \<Rightarrow>
          if NATIVE_CRC32_MIN_BYTES \<le> length data then routine data (state XOR ALL_BITS) XOR ALL_BITS
          else foldl tableStep state data
      | None \<Rightarrow> foldl tableStep state data)"

definition crc32Final :: "u32 \<Rightarrow> u32" where "crc32Final state = state XOR ALL_BITS"

definition crc32 :: "(bytes \<Rightarrow> u32 \<Rightarrow> u32) option \<Rightarrow> bytes \<Rightarrow> u32" where
  "crc32 native data = crc32Final (crc32Update native crc32Init data)"

section \<open>The reference: division bit by bit\<close>

definition bitwiseStep :: "u32 \<Rightarrow> byte \<Rightarrow> u32" where
  "bitwiseStep crc b = (crcBit ^^ 8) (crc XOR ucast b)"

definition crc32_bitwise :: "bytes \<Rightarrow> u32" where
  "crc32_bitwise data = foldl bitwiseStep ALL_BITS data XOR ALL_BITS"

text \<open>What the platform documents of its routine: it continues a checksum over more bytes.\<close>

definition continues_crc :: "(bytes \<Rightarrow> u32 \<Rightarrow> u32) \<Rightarrow> bool" where
  "continues_crc routine \<longleftrightarrow>
     (\<forall>data crc. routine data crc = foldl bitwiseStep (crc XOR ALL_BITS) data XOR ALL_BITS)"

section \<open>The table computes eight bits at once\<close>

lemma crcBit_eq:
  "crcBit a = drop_bit 1 a XOR (if bit a 0 then IEEE_POLYNOMIAL else 0)"
  by (auto simp: crcBit_def and_one_eq bit_0 odd_iff_mod_2_eq_one)

lemma crcBit_xor: "crcBit (a XOR b) = crcBit a XOR crcBit b"
  by (simp add: crcBit_eq bit_xor_iff drop_bit_xor ac_simps)

lemma crcBits_xor: "(crcBit ^^ n) (a XOR b) = (crcBit ^^ n) a XOR (crcBit ^^ n) b"
  by (induction n) (simp_all add: crcBit_xor)

lemma crcBits_shift: "(\<And>i. i < n \<Longrightarrow> \<not> bit a i) \<Longrightarrow> (crcBit ^^ n) a = drop_bit n a"
proof (induction n arbitrary: a)
  case 0
  then show ?case by simp
next
  case (Suc n)
  have first: "crcBit a = drop_bit 1 a" using Suc.prems [of 0] by (simp add: crcBit_eq)
  have "(crcBit ^^ n) (drop_bit 1 a) = drop_bit n (drop_bit 1 a)"
    by (rule Suc.IH) (use Suc.prems in \<open>simp add: bit_drop_bit_eq\<close>)
  then show ?case
    by (simp add: funpow_Suc_right first del: funpow.simps)
qed

lemma low_byte: "(a :: u32) AND 0xff = take_bit 8 a"
  by (simp add: take_bit_eq_mask mask_eq_exp_minus_1)

lemma table_entry: "i < 256 \<Longrightarrow> buildTable ! i = (crcBit ^^ 8) (of_nat i)"
  by (simp add: buildTable_def)

lemma tableStep_bitwise: "tableStep crc b = bitwiseStep crc b"
proof -
  let ?x = "crc XOR ucast b :: u32"
  let ?low = "take_bit 8 ?x" and ?high = "push_bit 8 (drop_bit 8 ?x)"
  have split: "?x = ?low XOR ?high"
  proof (rule bit_eqI)
    fix n
    show "bit ?x n = bit (?low XOR ?high) n"
      by (cases "n < 8") (auto simp: bit_simps dest: bit_imp_le_length)
  qed
  have range: "unat ?low < 256"
    using take_bit_nat_less_exp [of 8 "unat ?x"] by (simp only: unsigned_take_bit_eq) simp
  have high: "(crcBit ^^ 8) ?high = drop_bit 8 crc"
  proof -
    have short: "\<not> bit b (8 + n)" for n by (auto dest: bit_imp_le_length)
    have "(crcBit ^^ 8) ?high = drop_bit 8 ?high"
      by (rule crcBits_shift) (simp add: bit_simps)
    also have "\<dots> = drop_bit 8 crc"
      using short by (intro bit_eqI) (auto simp: bit_simps dest: bit_imp_le_length)
    finally show ?thesis .
  qed
  have "bitwiseStep crc b = (crcBit ^^ 8) ?low XOR (crcBit ^^ 8) ?high"
    unfolding bitwiseStep_def by (subst split) (rule crcBits_xor)
  moreover have "tableStep crc b = drop_bit 8 crc XOR (crcBit ^^ 8) ?low"
    unfolding tableStep_def low_byte by (simp only: table_entry [OF range] of_nat_unat ucast_id)
  ultimately show ?thesis by (simp only: high xor.commute)
qed

lemma foldl_tableStep: "foldl tableStep crc data = foldl bitwiseStep crc data"
  by (simp add: tableStep_bitwise [abs_def] fun_eq_iff tableStep_bitwise cong: foldl_cong)

lemma crc32Update_bitwise:
  "(\<And>routine. native = Some routine \<Longrightarrow> continues_crc routine) \<Longrightarrow>
   crc32Update native crc data = foldl bitwiseStep crc data"
  by (cases native) (auto simp: crc32Update_def foldl_tableStep continues_crc_def xor.assoc)

section \<open>A changed byte changes the checksum\<close>

lemma xor_cancel: "a XOR c = b XOR c \<Longrightarrow> a = (b :: u32)"
  by (drule arg_cong [of _ _ "\<lambda>x. x XOR c"]) (simp add: xor.assoc)

lemma crcBit_inj: "crcBit a = crcBit b \<Longrightarrow> a = b"
proof -
  assume eq: "crcBit a = crcBit b"
  have top: "bit (crcBit c) 31 \<longleftrightarrow> bit c 0" for c
    by (auto simp: crcBit_eq IEEE_POLYNOMIAL_def bit_simps dest: bit_imp_le_length)
  have parity: "bit a 0 \<longleftrightarrow> bit b 0" using eq top by metis
  then have "drop_bit 1 a = drop_bit 1 b"
    using eq by (auto simp: crcBit_eq dest: xor_cancel)
  then have "bit (drop_bit 1 a) n = bit (drop_bit 1 b) n" for n by simp
  then have later: "bit a (Suc n) \<longleftrightarrow> bit b (Suc n)" for n
    by (simp add: bit_drop_bit_eq)
  show ?thesis
  proof (rule bit_eqI)
    fix n
    show "bit a n = bit b n" using parity later by (cases n) simp_all
  qed
qed

lemma crcBits_inj: "(crcBit ^^ n) a = (crcBit ^^ n) b \<Longrightarrow> a = b"
  by (induction n) (auto dest: crcBit_inj)

lemma bitwiseStep_inj: "bitwiseStep a x = bitwiseStep b x \<Longrightarrow> a = b"
  unfolding bitwiseStep_def by (drule crcBits_inj) (rule xor_cancel)

lemma bitwiseSteps_inj: "foldl bitwiseStep a data = foldl bitwiseStep b data \<Longrightarrow> a = b"
  by (induction data arbitrary: a b) (auto dest: bitwiseStep_inj)

lemma bitwiseStep_byte_inj: "bitwiseStep a x = bitwiseStep a y \<Longrightarrow> x = y"
proof -
  assume "bitwiseStep a x = bitwiseStep a y"
  then have "a XOR ucast x = a XOR ucast y"
    unfolding bitwiseStep_def by (rule crcBits_inj)
  then have "ucast x = (ucast y :: u32)"
    by (rule xor_cancel [of _ a, unfolded xor.commute [of _ a]])
  then have same: "bit (ucast x :: u32) n = bit (ucast y :: u32) n" for n by simp
  show ?thesis
  proof (rule bit_word_eqI)
    fix n
    assume "n < LENGTH(8)"
    then show "bit x n = bit y n" using same [of n] by (simp add: bit_simps)
  qed
qed

lemma crc32_bitwise_differs:
  "crc32_bitwise (xs @ x # ys) = crc32_bitwise (xs @ y # ys) \<Longrightarrow> x = y"
proof -
  assume "crc32_bitwise (xs @ x # ys) = crc32_bitwise (xs @ y # ys)"
  then have "foldl bitwiseStep (bitwiseStep (foldl bitwiseStep ALL_BITS xs) x) ys
      = foldl bitwiseStep (bitwiseStep (foldl bitwiseStep ALL_BITS xs) y) ys"
    by (auto simp: crc32_bitwise_def dest: xor_cancel)
  then show ?thesis by (blast dest: bitwiseSteps_inj bitwiseStep_byte_inj)
qed

end
