(* ===== verification/Replication_History.thy ===== *)
theory Replication_History
  imports Replication_Log
begin

text \<open>
  The replication log as a refinement of the history of all entries written since its seed: the
  invariant that ties the two together, its preservation by every operation, and what a reader
  of the log may conclude about the history.
\<close>

section \<open>The retained entries\<close>

definition live :: "rlog \<Rightarrow> log_entry list" where
  "live L = map the (drop (headIndex L) (entries L))"

definition array_ok :: "rlog \<Rightarrow> bool" where
  "array_ok L \<longleftrightarrow> headIndex L \<le> length (entries L) \<and> None \<notin> set (drop (headIndex L) (entries L))"

definition log_bytes :: "log_entry list \<Rightarrow> nat" where
  "log_bytes es = sum_list (map estimateEntrySize es)"

lemma log_bytes_simps [simp]:
  "log_bytes [] = 0"
  "log_bytes (e # es) = estimateEntrySize e + log_bytes es"
  "log_bytes (es @ fs) = log_bytes es + log_bytes fs"
  by (simp_all add: log_bytes_def)

lemma live_length: "length (live L) = liveCount L"
  by (simp add: live_def liveCount_def)

lemma live_nth: "i < liveCount L \<Longrightarrow> live L ! i = entryAt L (headIndex L + i)"
  by (simp add: live_def liveCount_def entryAt_def)

lemma live_Nil: "live L = [] \<longleftrightarrow> liveCount L = 0"
  by (simp flip: live_length)

text \<open>\<open>evicted k L L'\<close>: the first \<open>k\<close> retained entries are dropped and nothing else changes.\<close>

definition evicted :: "nat \<Rightarrow> rlog \<Rightarrow> rlog \<Rightarrow> bool" where
  "evicted k L L' \<longleftrightarrow>
     (\<exists>es h t. L' = L\<lparr>entries := es, headIndex := h, totalSizeBytes := t\<rparr>) \<and>
     array_ok L' \<and> live L' = drop k (live L) \<and> totalSizeBytes L' = int (log_bytes (live L')) \<and>
     (\<forall>j<k. retentionBytes L < log_bytes (drop j (live L)))"

lemma live_head:
  "0 < liveCount L \<Longrightarrow> live L = entryAt L (headIndex L) # tl (live L)"
  by (cases "live L") (use live_nth [of 0 L] live_length [of L] in auto)

lemma evict_one:
  assumes "array_ok L" and "totalSizeBytes L = int (log_bytes (live L))" and "0 < liveCount L"
  defines "L' \<equiv> L\<lparr>totalSizeBytes := totalSizeBytes L - int (estimateEntrySize (entryAt L (headIndex L))),
                   entries := (entries L)[headIndex L := None], headIndex := headIndex L + 1\<rparr>"
  shows "array_ok L'" and "totalSizeBytes L' = int (log_bytes (live L'))" and "live L' = tl (live L)"
proof -
  have rest: "drop (headIndex L + 1) (entries L') = tl (drop (headIndex L) (entries L))"
    using drop_Suc [of "headIndex L" "entries L"] by (simp add: L'_def tl_drop)
  then show tail: "live L' = tl (live L)"
    by (simp add: live_def L'_def map_tl)
  have "None \<notin> set (tl (drop (headIndex L) (entries L)))"
    using assms(1) by (metis array_ok_def list.sel(2) list.set_sel(2))
  then show "array_ok L'"
    using assms(3) rest by (simp add: array_ok_def L'_def liveCount_def)
  show "totalSizeBytes L' = int (log_bytes (live L'))"
    using assms(2) arg_cong [OF live_head [OF assms(3)], of log_bytes] by (simp add: tail) (simp add: L'_def)
qed

lemma evicted_refl: "array_ok L \<Longrightarrow> totalSizeBytes L = int (log_bytes (live L)) \<Longrightarrow> evicted 0 L L"
  unfolding evicted_def
  by (intro conjI exI [of _ "entries L"] exI [of _ "headIndex L"] exI [of _ "totalSizeBytes L"]) simp_all

lemma evictLoop_evicted:
  assumes "array_ok L" and "totalSizeBytes L = int (log_bytes (live L))"
  shows "\<exists>k. evicted k L (evictLoop L) \<and> log_bytes (live (evictLoop L)) \<le> retentionBytes L"
  using assms
proof (induction L rule: evictLoop.induct)
  case (1 L)
  show ?case
  proof (cases "0 < liveCount L \<and> int (retentionBytes L) < totalSizeBytes L")
    case stop: False
    then have "log_bytes (live L) \<le> retentionBytes L"
      using 1(3) live_Nil [of L] by (cases "live L") auto
    then show ?thesis
      using stop evicted_refl [OF 1(2,3)] by (subst (1 2) evictLoop.simps) auto
  next
    case go: True
    let ?L = "L\<lparr>totalSizeBytes := totalSizeBytes L - int (estimateEntrySize (entryAt L (headIndex L))),
                entries := (entries L)[headIndex L := None], headIndex := headIndex L + 1\<rparr>"
    note one = evict_one [OF 1(2,3) conjunct1 [OF go]]
    from 1(1) [OF go one(1,2)] obtain k where
      k: "evicted k ?L (evictLoop ?L)" "log_bytes (live (evictLoop ?L)) \<le> retentionBytes L" by auto
    have "retentionBytes L < log_bytes (live L)" using go 1(3) by simp
    then have "evicted (Suc k) L (evictLoop ?L)"
      using k(1) one(3) by (auto simp: evicted_def drop_Suc less_Suc_eq_0_disj)
    moreover have "evictLoop L = evictLoop ?L" using go by (subst evictLoop.simps) simp
    ultimately show ?thesis using k(2) by auto
  qed
qed

lemma live_compact: "live (compact L) = live L"
  by (simp add: compact_def live_def)

lemma array_ok_compact: "array_ok L \<Longrightarrow> array_ok (compact L)"
  by (auto simp: compact_def array_ok_def)

lemma compact_evicted: "evicted k L L' \<Longrightarrow> evicted k L (compact L')"
proof -
  assume e: "evicted k L L'"
  then obtain es h t where "L' = L\<lparr>entries := es, headIndex := h, totalSizeBytes := t\<rparr>"
    by (auto simp: evicted_def)
  then have "\<exists>es h t. compact L' = L\<lparr>entries := es, headIndex := h, totalSizeBytes := t\<rparr>"
    by (intro exI [of _ "entries (compact L')"] exI [of _ "headIndex (compact L')"]
        exI [of _ "totalSizeBytes (compact L')"]) (simp add: compact_def)
  moreover have "totalSizeBytes (compact L') = totalSizeBytes L'" by (simp add: compact_def)
  ultimately show ?thesis using e by (simp add: evicted_def live_compact array_ok_compact)
qed

lemma evictOldEntries_evicted:
  assumes "array_ok L" and "totalSizeBytes L = int (log_bytes (live L))"
  shows "\<exists>k. evicted k L (evictOldEntries L) \<and> log_bytes (live (evictOldEntries L)) \<le> retentionBytes L"
proof -
  from evictLoop_evicted [OF assms] obtain k where
    k: "evicted k L (evictLoop L)" "log_bytes (live (evictLoop L)) \<le> retentionBytes L" by blast
  then have "\<not> totalSizeBytes (evictLoop L) < 0" by (auto simp: evicted_def)
  then show ?thesis
    using k compact_evicted [OF k(1)] by (auto simp: evictOldEntries_def Let_def live_compact)
qed

section \<open>The history\<close>

text \<open>
  \<open>numbered first es\<close>: the entries carry consecutive sequence numbers from \<open>first\<close> on.
  \<open>keeps env h L\<close>: the log holds what its retention allows of the history \<open>h\<close>, the entries
  written since the seed.
\<close>

definition numbered :: "int \<Rightarrow> log_entry list \<Rightarrow> bool" where
  "numbered first es \<longleftrightarrow> (\<forall>i<length es. seqNo (es ! i) = first + int i)"

definition keeps :: "log_env \<Rightarrow> log_entry list \<Rightarrow> rlog \<Rightarrow> bool" where
  "keeps env h L \<longleftrightarrow>
     array_ok L \<and> totalSizeBytes L = int (log_bytes (live L)) \<and> log_bytes (live L) \<le> retentionBytes L \<and>
     (\<exists>k. live L = drop k h) \<and> (h \<noteq> [] \<longrightarrow> live L \<noteq> []) \<and>
     numbered (seedSeqNo L + 1) h \<and>
     localLogEnd L = seedSeqNo L + int (length h) \<and> nextSeqNo L = localLogEnd L + 1 \<and>
     localLogEndPrimaryTerm L = (if h = [] then seedPrimaryTerm L else primaryTerm (last h)) \<and>
     logCommitPoint L \<le> localLogEnd L \<and>
     (\<forall>e\<in>set h. partitionId e = logPartitionId L \<and> verifyEntryChecksum env e)"

lemma numbered_simps [simp]:
  "numbered first []"
  "numbered first (es @ [e]) \<longleftrightarrow> numbered first es \<and> seqNo e = first + int (length es)"
  by (auto simp: numbered_def nth_append less_Suc_eq)

lemma numbered_drop: "numbered first es \<Longrightarrow> numbered (first + int (min k (length es))) (drop k es)"
  by (auto simp: numbered_def min_def)

text \<open>The retained entries are the history from one sequence number on.\<close>

lemma keeps_live:
  assumes "keeps env h L"
  obtains k where "k \<le> length h" "live L = drop k h" "numbered (seedSeqNo L + 1 + int k) (live L)"
    "int (liveCount L) = localLogEnd L - seedSeqNo L - int k" "h \<noteq> [] \<Longrightarrow> k < length h"
proof -
  from assms obtain k where k: "live L = drop k h" and n: "numbered (seedSeqNo L + 1) h"
    by (auto simp: keeps_def)
  let ?k = "min k (length h)"
  have "live L = drop ?k h" using k by (simp add: min_def)
  moreover have "numbered (seedSeqNo L + 1 + int ?k) (live L)"
    using numbered_drop [OF n, of k] k by simp
  moreover have "int (liveCount L) = localLogEnd L - seedSeqNo L - int ?k"
    using k assms by (simp add: keeps_def min_def flip: live_length)
  moreover have "?k < length h" if "h \<noteq> []" using that assms k by (auto simp: keeps_def min_def)
  ultimately show ?thesis using that [of ?k] by simp
qed

lemma keeps_created:
  "keeps env [] (createReplicationLog pid retention first lastTerm)"
  by (simp add: keeps_def createReplicationLog_def array_ok_def live_def Let_def)

lemma keeps_cleared: "keeps env h L \<Longrightarrow> keeps env [] (clearLog L)"
  by (auto simp: keeps_def clearLog_def array_ok_def live_def)

lemma keeps_advanced: "keeps env h L \<Longrightarrow> keeps env h (advanceCommitPoint n L)"
  by (auto simp: keeps_def advanceCommitPoint_def array_ok_def live_def Let_def)

lemma storeEntry_keeps:
  assumes "keeps env h L" and "seqNo e = nextSeqNo L" and "partitionId e = logPartitionId L"
    and "verifyEntryChecksum env e" and "estimateEntrySize e \<le> retentionBytes L"
  shows "keeps env (h @ [e]) (snd (storeEntry e (L\<lparr>nextSeqNo := nextSeqNo L + 1\<rparr>)))"
proof -
  let ?L = "L\<lparr>nextSeqNo := nextSeqNo L + 1, entries := entries L @ [Some e], localLogEnd := seqNo e,
              localLogEndPrimaryTerm := primaryTerm e,
              totalSizeBytes := totalSizeBytes L + int (estimateEntrySize e)\<rparr>"
  have stored: "snd (storeEntry e (L\<lparr>nextSeqNo := nextSeqNo L + 1\<rparr>)) = evictOldEntries ?L"
    using assms(1,2) by (simp add: storeEntry_def Let_def keeps_def)
  have lv: "live ?L = live L @ [e]" using assms(1) by (simp add: live_def keeps_def array_ok_def)
  from evictOldEntries_evicted [of ?L] obtain j where
    j: "evicted j ?L (evictOldEntries ?L)" and fits: "log_bytes (live (evictOldEntries ?L)) \<le> retentionBytes L"
    using assms(1) lv by (auto simp: keeps_def array_ok_def)
  have "j \<le> length (live L)"
  proof (rule ccontr)
    assume "\<not> ?thesis"
    moreover have "\<forall>i<j. retentionBytes L < log_bytes (drop i (live L @ [e]))"
      using j unfolding evicted_def lv by simp
    ultimately have "retentionBytes L < log_bytes (drop (length (live L)) (live L @ [e]))"
      by (meson not_le)
    then show False using assms(5) by simp
  qed
  moreover from assms(1) obtain k where k: "k \<le> length h" "live L = drop k h" by (rule keeps_live)
  ultimately have "live (evictOldEntries ?L) = drop (j + k) (h @ [e])" "j + k \<le> length h"
    using j lv by (auto simp: evicted_def)
  then have suffix: "\<exists>k. live (evictOldEntries ?L) = drop k (h @ [e])" "live (evictOldEntries ?L) \<noteq> []"
    by (blast, simp)
  show ?thesis
    using j fits suffix assms unfolding stored evicted_def by (auto simp: keeps_def)
qed

section \<open>Finding a sequence number\<close>

lemma bisect_clamps:
  assumes "0 \<le> low" "low \<le> high + 1" "\<And>i. low \<le> i \<Longrightarrow> i \<le> high \<Longrightarrow> seqNo (entryAt L (nat i)) = i + c"
  shows "bisect L n low high = max low (min (high + 1) (n - c))"
  using assms
proof (induction L n low high rule: bisect.induct)
  case (1 L n low high)
  let ?mid = "(low + high) div 2"
  show ?case
  proof (cases "low \<le> high")
    case False
    then show ?thesis using 1(4) by (subst bisect.simps) simp
  next
    case True
    then have mid: "low \<le> ?mid" "?mid \<le> high" by linarith+
    then have at: "seqNo (entryAt L (nat ?mid)) = ?mid + c" using 1(5) by blast
    consider "?mid + c < n" | "n < ?mid + c" | "n = ?mid + c" by linarith
    then show ?thesis
    proof cases
      case 1
      then show ?thesis
        using "1.IH"(1) [OF True refl refl] "1.prems" True mid at by (subst bisect.simps) (simp add: Let_def)
    next
      case 2
      then show ?thesis
        using "1.IH"(2) [OF True refl refl] "1.prems" True mid at by (subst bisect.simps) (simp add: Let_def)
    next
      case 3
      then show ?thesis using True mid at by (subst bisect.simps) (simp add: Let_def)
    qed
  qed
qed

lemma findIndex_live:
  assumes "array_ok L" and "numbered first (live L)"
  shows "findIndexBySeqNo L n = headIndex L + nat (max 0 (min (int (liveCount L)) (n - first)))"
proof -
  have "bisect L n (int (headIndex L)) (int (length (entries L)) - 1)
      = max (int (headIndex L)) (min (int (length (entries L)) - 1 + 1) (n - (first - int (headIndex L))))"
  proof (rule bisect_clamps)
    fix i
    assume i: "int (headIndex L) \<le> i" "i \<le> int (length (entries L)) - 1"
    then have "nat i - headIndex L < liveCount L" by (auto simp: liveCount_def)
    then show "seqNo (entryAt L (nat i)) = i + (first - int (headIndex L))"
      using live_nth [of "nat i - headIndex L" L] assms(2) i
      by (auto simp: numbered_def live_length)
  qed (use assms(1) in \<open>auto simp: array_ok_def\<close>)
  then show ?thesis
    using assms(1) by (auto simp: findIndexBySeqNo_def array_ok_def liveCount_def)
qed

lemma drop_live: "headIndex L \<le> i \<Longrightarrow> map the (drop i (entries L)) = drop (i - headIndex L) (live L)"
  by (simp add: live_def drop_map)

lemma getEntriesFrom_live:
  assumes "array_ok L" and "numbered first (live L)"
  shows "getEntriesFrom L n = drop (nat (n - first)) (live L)"
proof (cases "liveCount L = 0")
  case True
  then show ?thesis using live_Nil [of L] by (simp add: getEntriesFrom_def)
next
  case False
  let ?i = "findIndexBySeqNo L n"
  have i: "?i = headIndex L + nat (max 0 (min (int (liveCount L)) (n - first)))"
    by (rule findIndex_live [OF assms])
  have len: "length (entries L) = headIndex L + liveCount L"
    using assms(1) by (simp add: array_ok_def liveCount_def)
  show ?thesis
  proof (cases "length (entries L) \<le> ?i")
    case True
    then have "liveCount L \<le> nat (n - first)" using i len by linarith
    then show ?thesis using True False by (simp add: getEntriesFrom_def live_length)
  next
    case inside: False
    then have "?i - headIndex L = nat (n - first)" using i len by linarith
    then show ?thesis
      using inside False i drop_live [of L ?i] by (simp only: getEntriesFrom_def Let_def) simp
  qed
qed

lemma readEntry_live:
  assumes "array_ok L" and "numbered first (live L)"
  shows "readEntry L n =
    (if first \<le> n \<and> n < first + int (liveCount L) then Some (live L ! nat (n - first)) else None)"
proof (cases "liveCount L = 0")
  case True
  then show ?thesis by (simp add: readEntry_def)
next
  case False
  let ?i = "findIndexBySeqNo L n"
  have i: "?i = headIndex L + nat (max 0 (min (int (liveCount L)) (n - first)))"
    by (rule findIndex_live [OF assms])
  have len: "length (entries L) = headIndex L + liveCount L"
    using assms(1) by (simp add: array_ok_def liveCount_def)
  have at: "entryAt L (headIndex L + j) = live L ! j" "seqNo (live L ! j) = first + int j"
    if "j < liveCount L" for j
    using that live_nth assms(2) by (auto simp: numbered_def live_length)
  show ?thesis
  proof (cases "first \<le> n \<and> n < first + int (liveCount L)")
    case True
    then have "?i = headIndex L + nat (n - first)" "nat (n - first) < liveCount L" using i by linarith+
    then show ?thesis using True False len at [of "nat (n - first)"] by (simp add: readEntry_def Let_def)
  next
    case outside: False
    have "seqNo (entryAt L ?i) \<noteq> n" if "?i < length (entries L)"
    proof -
      from that have j: "?i - headIndex L < liveCount L" "headIndex L + (?i - headIndex L) = ?i"
        using i len by linarith+
      then show ?thesis using at [OF j(1)] outside by (simp, linarith)
    qed
    then show ?thesis using outside by (auto simp: readEntry_def Let_def)
  qed
qed

lemma numbered_Cons: "numbered first (e # es) \<longleftrightarrow> seqNo e = first \<and> numbered (first + 1) es"
  by (auto simp: numbered_def less_Suc_eq_0_disj)

lemma numbered_from:
  "numbered first es \<Longrightarrow> filter (\<lambda>e. n \<le> seqNo e) es = drop (nat (n - first)) es"
proof (induction es arbitrary: first)
  case (Cons e es)
  then have IH: "filter (\<lambda>e. n \<le> seqNo e) es = drop (nat (n - (first + 1))) es" and e: "seqNo e = first"
    by (simp_all add: numbered_Cons)
  show ?case
  proof (cases "n \<le> first")
    case True
    then have "nat (n - first) = 0" "nat (n - (first + 1)) = 0" by simp_all
    then show ?thesis using IH e True by simp
  next
    case False
    then have "nat (n - first) = Suc (nat (n - (first + 1)))" by linarith
    then show ?thesis using IH e False by simp
  qed
qed simp

lemma numbered_member:
  "numbered first es \<Longrightarrow> first \<le> n \<Longrightarrow> n < first + int (length es) \<Longrightarrow>
   e \<in> set es \<and> seqNo e = n \<longleftrightarrow> e = es ! nat (n - first)"
  by (auto simp: numbered_def in_set_conv_nth nat_less_iff intro!: exI [of _ "nat (n - first)"])

lemma readEntry_iff:
  assumes "array_ok L" and "numbered first (live L)"
  shows "readEntry L n = Some e \<longleftrightarrow> e \<in> set (live L) \<and> seqNo e = n"
proof (cases "first \<le> n \<and> n < first + int (liveCount L)")
  case True
  then show ?thesis
    using numbered_member [OF assms(2), of n e] readEntry_live [OF assms, of n] by (auto simp: live_length)
next
  case False
  then show ?thesis
    using assms(2) readEntry_live [OF assms, of n] by (auto simp: numbered_def in_set_conv_nth live_length)
qed

section \<open>What a reader may conclude\<close>

text \<open>The term the history gives a sequence number: that of the seed, or of the entry there.\<close>

definition history_term :: "int \<Rightarrow> int \<Rightarrow> log_entry list \<Rightarrow> int \<Rightarrow> int option" where
  "history_term seed seedTerm h n =
     (if n = seed then Some seedTerm
      else if seed < n \<and> n \<le> seed + int (length h) then Some (primaryTerm (h ! nat (n - seed - 1)))
      else None)"

lemma readEntry_history:
  assumes "keeps env h L" and "readEntry L n = Some e"
  shows "seedSeqNo L < n" and "n \<le> localLogEnd L" and "e = h ! nat (n - seedSeqNo L - 1)" and "seqNo e = n"
proof -
  from assms(1) obtain k where k: "k \<le> length h" "live L = drop k h"
    "numbered (seedSeqNo L + 1 + int k) (live L)" "int (liveCount L) = localLogEnd L - seedSeqNo L - int k"
    by (rule keeps_live)
  have "array_ok L" using assms(1) by (simp add: keeps_def)
  from readEntry_live [OF this k(3), of n] assms(2)
  have n: "seedSeqNo L + 1 + int k \<le> n" "n < seedSeqNo L + 1 + int k + int (liveCount L)"
    and e: "e = live L ! nat (n - (seedSeqNo L + 1 + int k))" by (auto split: if_splits)
  then show "seedSeqNo L < n" "n \<le> localLogEnd L" using k(4) by linarith+
  have "k + nat (n - (seedSeqNo L + 1 + int k)) = nat (n - seedSeqNo L - 1)" using n by linarith
  then show "e = h ! nat (n - seedSeqNo L - 1)" using e k(1,2) by simp
  have "nat (n - (seedSeqNo L + 1 + int k)) < length (live L)" using n by (simp add: live_length)
  then show "seqNo e = n" using k(3) e n(1) unfolding numbered_def by simp
qed

lemma termAt_history:
  assumes "keeps env h L" and "termAt L n = Some tm"
  shows "history_term (seedSeqNo L) (seedPrimaryTerm L) h n = Some tm"
proof (cases "readEntry L n")
  case (Some e)
  then show ?thesis
    using assms(2) readEntry_history [OF assms(1) Some] assms(1)
    by (auto simp: termAt_def history_term_def keeps_def)
next
  case None
  have "localLogEnd L = seedSeqNo L + int (length h)"
    "localLogEndPrimaryTerm L = (if h = [] then seedPrimaryTerm L else primaryTerm (last h))"
    using assms(1) by (auto simp: keeps_def)
  then show ?thesis
    using None assms(2)
    by (auto simp: termAt_def history_term_def last_conv_nth nat_diff_distrib split: if_splits)
qed

text \<open>The entries that follow a known sequence number are all there.\<close>

lemma nothing_gone:
  assumes "keeps env h L" and "termAt L n = Some tm" and "n \<noteq> localLogEnd L"
  shows "getEntriesFrom L (n + 1) = drop (nat (n - seedSeqNo L)) h"
proof -
  from assms(1) obtain k where k: "k \<le> length h" "live L = drop k h"
    "numbered (seedSeqNo L + 1 + int k) (live L)" "int (liveCount L) = localLogEnd L - seedSeqNo L - int k"
    by (rule keeps_live)
  have ok: "array_ok L" using assms(1) by (simp add: keeps_def)
  have from_n: "getEntriesFrom L (n + 1) = drop (nat (n - seedSeqNo L - int k)) (drop k h)"
    using getEntriesFrom_live [OF ok k(3), of "n + 1"] k(2) by (simp add: algebra_simps)
  have "int k \<le> n - seedSeqNo L"
  proof (cases "readEntry L n")
    case (Some e)
    then show ?thesis using readEntry_live [OF ok k(3), of n] by (auto split: if_splits)
  next
    case None
    then have seed: "n = seedSeqNo L" "liveCount L = 0 \<or> seqNo (entryAt L (headIndex L)) = seedSeqNo L + 1"
      using assms(2,3) by (auto simp: termAt_def split: if_splits)
    show ?thesis
    proof (cases "liveCount L = 0")
      case True
      then have "h = []" using assms(1) live_Nil [of L] by (auto simp: keeps_def)
      then show ?thesis using seed(1) k(1) by simp
    next
      case False
      then have "seqNo (live L ! 0) = seedSeqNo L + 1 + int k"
        using k(3) unfolding numbered_def by (simp add: live_length)
      then show ?thesis using False live_nth [of 0 L] seed by simp
    qed
  qed
  then have "nat (n - seedSeqNo L - int k) + k = nat (n - seedSeqNo L)" by linarith
  then show ?thesis using from_n by (simp add: drop_drop)
qed

section \<open>The operations on the history\<close>

lemma buildEntry_fields [simp]:
  "seqNo (buildEntry env w) = seqNo w" "partitionId (buildEntry env w) = partitionId w"
  "estimateEntrySize (buildEntry env w) = estimateEntrySize w" "primaryTerm (buildEntry env w) = primaryTerm w"
  "verifyEntryChecksum env (buildEntry env w)" "indexName (buildEntry env w) = indexName w"
  by (cases w, simp_all add: buildEntry_def entry_fields.defs estimateEntrySize_def verifyEntryChecksum_def)+

lemma estimateEntrySize_numbered [simp]:
  "estimateEntrySize (w\<lparr>seqNo := n, partitionId := p\<rparr>) = estimateEntrySize w"
  by (simp add: estimateEntrySize_def)

lemma storeEntry_entry [simp]: "fst (storeEntry e L) = e"
  by (simp add: storeEntry_def Let_def)

text \<open>The fields that no append touches.\<close>

definition same_place :: "rlog \<Rightarrow> rlog \<Rightarrow> bool" where
  "same_place L L' \<longleftrightarrow> logPartitionId L' = logPartitionId L \<and> retentionBytes L' = retentionBytes L \<and>
     seedSeqNo L' = seedSeqNo L \<and> seedPrimaryTerm L' = seedPrimaryTerm L \<and> logCommitPoint L' = logCommitPoint L"

lemma evictLoop_same_place: "same_place L (evictLoop L)"
proof (induction L rule: evictLoop.induct)
  case (1 L)
  show ?case
  proof (cases "0 < liveCount L \<and> int (retentionBytes L) < totalSizeBytes L")
    case True
    let ?L = "L\<lparr>totalSizeBytes := totalSizeBytes L - int (estimateEntrySize (entryAt L (headIndex L))),
                entries := (entries L)[headIndex L := None], headIndex := headIndex L + 1\<rparr>"
    have "evictLoop L = evictLoop ?L" using True by (subst evictLoop.simps) simp
    then show ?thesis using 1 [OF True] unfolding same_place_def by simp
  next
    case False
    have "evictLoop L = L" using False by (subst evictLoop.simps) (simp only: if_False)
    then show ?thesis by (simp add: same_place_def)
  qed
qed

lemma evictOldEntries_same_place: "same_place L (evictOldEntries L)"
  using evictLoop_same_place [of L]
  by (simp add: evictOldEntries_def Let_def compact_def same_place_def)

lemma storeEntry_same_place: "same_place L (snd (storeEntry e (L\<lparr>nextSeqNo := n\<rparr>)))"
  by (simp add: storeEntry_def Let_def same_place_def
      evictOldEntries_same_place [unfolded same_place_def])

lemma appendEntry_keeps:
  assumes "keeps env h L" and "appendEntry env w L = Inr (e, L')"
  shows "keeps env (h @ [e]) L'" and "e = buildEntry env (w\<lparr>seqNo := nextSeqNo L, partitionId := logPartitionId L\<rparr>)"
    and "same_place L L'"
proof -
  from assms(2) have fits: "estimateEntrySize w \<le> retentionBytes L"
    and st: "(e, L') = storeEntry (buildEntry env (w\<lparr>seqNo := nextSeqNo L, partitionId := logPartitionId L\<rparr>))
                        (L\<lparr>nextSeqNo := nextSeqNo L + 1\<rparr>)"
    by (auto simp: appendEntry_def assertEntryFitsRetention_def Let_def split: if_splits)
  from arg_cong [OF st, of fst]
  show e: "e = buildEntry env (w\<lparr>seqNo := nextSeqNo L, partitionId := logPartitionId L\<rparr>)" by simp
  from arg_cong [OF st, of snd] have L': "L' = snd (storeEntry e (L\<lparr>nextSeqNo := nextSeqNo L + 1\<rparr>))"
    using e by simp
  show "keeps env (h @ [e]) L'"
    unfolding L' by (rule storeEntry_keeps [OF assms(1)]) (use e fits in auto)
  show "same_place L L'" unfolding L' by (rule storeEntry_same_place)
qed

text \<open>The outcome of \<open>appendCommitted\<close>: an entry already retained, or the next one.\<close>

lemma appendCommitted_cases:
  assumes "keeps env h L" and "appendCommitted env e L = Inr (e', L')"
  obtains (present) "readEntry L (seqNo e) = Some e'" "checksum e' = checksum e" "L' = L"
    | (stored) "e' = e" "seqNo e = nextSeqNo L" "keeps env (h @ [e]) L'" "same_place L L'"
proof (cases "readEntry L (seqNo e)")
  case (Some x)
  then show ?thesis using assms(2) present by (auto simp: appendCommitted_def split: if_splits)
next
  case None
  with assms(2) have e: "seqNo e = nextSeqNo L" "verifyEntryChecksum env e" "partitionId e = logPartitionId L"
    "estimateEntrySize e \<le> retentionBytes L" and st: "(e', L') = storeEntry e (L\<lparr>nextSeqNo := nextSeqNo L + 1\<rparr>)"
    by (auto simp: appendCommitted_def assertEntryFitsRetention_def Let_def split: if_splits)
  from arg_cong [OF st, of fst] arg_cong [OF st, of snd]
  have "e' = e" "L' = snd (storeEntry e (L\<lparr>nextSeqNo := nextSeqNo L + 1\<rparr>))" by simp_all
  then show ?thesis
    using stored e storeEntry_keeps [OF assms(1) e(1,3,2,4)] storeEntry_same_place by simp
qed

lemma readEntry_after_end: "keeps env h L \<Longrightarrow> localLogEnd L < n \<Longrightarrow> readEntry L n = None"
  using readEntry_history(2) by (cases "readEntry L n") fastforce+

lemma appendCommitted_next:
  assumes "keeps env h L" and "seqNo e = nextSeqNo L" and "1 \<le> seqNo e" and "seqNo e \<le> MAX_SAFE_INTEGER"
    and "partitionId e = logPartitionId L" and "verifyEntryChecksum env e"
    and "estimateEntrySize e \<le> retentionBytes L"
  shows "\<exists>L'. appendCommitted env e L = Inr (e, L') \<and> keeps env (h @ [e]) L' \<and> same_place L L'"
proof -
  have "readEntry L (seqNo e) = None"
    using readEntry_after_end [OF assms(1)] assms(1,2) by (auto simp: keeps_def)
  then have "appendCommitted env e L = Inr (storeEntry e (L\<lparr>nextSeqNo := nextSeqNo L + 1\<rparr>))"
    using assms by (simp add: appendCommitted_def isSafeInteger_def assertEntryFitsRetention_def MAX_SAFE_INTEGER_def)
  moreover have "storeEntry e (L\<lparr>nextSeqNo := nextSeqNo L + 1\<rparr>)
      = (e, snd (storeEntry e (L\<lparr>nextSeqNo := nextSeqNo L + 1\<rparr>)))"
    by (metis prod.collapse storeEntry_entry)
  ultimately show ?thesis
    using storeEntry_keeps [OF assms(1,2,5-7)] storeEntry_same_place by metis
qed

text \<open>Every log that the operations can make keeps its history.\<close>

inductive logged :: "log_env \<Rightarrow> log_entry list \<Rightarrow> rlog \<Rightarrow> bool" for env :: log_env where
  created: "logged env [] (createReplicationLog pid retention first lastTerm)"
| appended: "logged env h L \<Longrightarrow> appendEntry env w L = Inr (e, L') \<Longrightarrow> logged env (h @ [e]) L'"
| received: "logged env h L \<Longrightarrow> appendCommitted env e L = Inr (e', L') \<Longrightarrow>
     logged env (if readEntry L (seqNo e) = None then h @ [e'] else h) L'"
| committed: "logged env h L \<Longrightarrow> logged env h (advanceCommitPoint n L)"
| cleared: "logged env h L \<Longrightarrow> logged env [] (clearLog L)"

inductive_cases logged_empty: "logged env [] L"

lemma logged_keeps: "logged env h L \<Longrightarrow> keeps env h L"
proof (induction rule: logged.induct)
  case (received h L e e' L')
  from received(3,2) show ?case
  proof (cases rule: appendCommitted_cases)
    case present
    then show ?thesis using received(3) by simp
  next
    case stored
    then have "readEntry L (seqNo e) = None"
      using readEntry_after_end [OF received(3)] received(3) by (auto simp: keeps_def)
    then show ?thesis using stored by simp
  qed
qed (auto intro: keeps_created keeps_cleared keeps_advanced dest: appendEntry_keeps(1))

end
