(* ===== verification/Replica_Apply.thy ===== *)
theory Replica_Apply
  imports Replication_History
begin

text \<open>
  How a replica takes over the entries of its primary: \<open>replication/sync-primary.ts\<close>,
  \<open>replication/primary.ts\<close> (the previous term), \<open>replication/replica.ts\<close> (the validation), the
  handler of entry batches in \<open>cluster-node/message-handler/writes.ts\<close>, the bootstrap entries of
  \<open>cluster-node/bootstrap-sync/entries.ts\<close> and the known terms of \<open>cluster-node/led-term.ts\<close>.

  Applying a run of entries to the documents is the work of the engine, a parameter here: it
  answers how many leading entries of the run it applied. A handler returns the error it throws,
  if any, with the state it leaves.

  The lemmas show the log matching of two histories: if both hold an entry of the same number
  and term, they hold the same entries up to it. Every batch a replica applies keeps it.
\<close>

section \<open>What a primary sends\<close>

datatype sync_tier = Incremental | Snapshot

definition decideSyncTier :: "rlog \<Rightarrow> int \<Rightarrow> int \<Rightarrow> sync_tier" where
  "decideSyncTier L replicaLastSeqNo replicaLastPrimaryTerm =
     (if replicaLastSeqNo = 0
      then (if localLogEnd L = 0 \<or> oldestSeqNo L = Some 1 then Incremental else Snapshot)
      else case termAt L replicaLastSeqNo of
             Some primTerm \<Rightarrow> if primTerm = replicaLastPrimaryTerm then Incremental else Snapshot
           | None \<Rightarrow> Snapshot)"

definition previousTermOf :: "rlog \<Rightarrow> int \<Rightarrow> int option" where
  "previousTermOf L n = (if n \<le> 1 then Some 0 else termAt L (n - 1))"

section \<open>The terms a node knows\<close>

record known_terms =
  led :: int
  accepted :: int

definition termsOf :: "known_terms option \<Rightarrow> known_terms" where
  "termsOf known = (case known of Some terms \<Rightarrow> terms | None \<Rightarrow> \<lparr>led = 0, accepted = 0\<rparr>)"

definition noteLedTerm :: "int \<Rightarrow> known_terms option \<Rightarrow> known_terms option" where
  "noteLedTerm tm known =
     (let terms = termsOf known in Some (if led terms < tm then terms\<lparr>led := tm\<rparr> else terms))"

definition noteAcceptedPrimaryTerm :: "int \<Rightarrow> known_terms option \<Rightarrow> known_terms option" where
  "noteAcceptedPrimaryTerm tm known =
     (let terms = termsOf known in Some (if accepted terms < tm then terms\<lparr>accepted := tm\<rparr> else terms))"

definition acceptedTermOf :: "known_terms option \<Rightarrow> int" where
  "acceptedTermOf known = (case known of Some terms \<Rightarrow> accepted terms | None \<Rightarrow> 0)"

definition termRefusingSender :: "known_terms option \<Rightarrow> int \<Rightarrow> int option" where
  "termRefusingSender known senderTerm =
     (case known of
        None \<Rightarrow> None
      | Some terms \<Rightarrow>
          if senderTerm \<le> led terms then Some (led terms)
          else if senderTerm < accepted terms then Some (accepted terms)
          else None)"

text \<open>What happens to the known terms of one log, note by note.\<close>

datatype term_note = Led int | Accepted int

fun noteTerm :: "known_terms option \<Rightarrow> term_note \<Rightarrow> known_terms option" where
  "noteTerm known (Led tm) = noteLedTerm tm known"
| "noteTerm known (Accepted tm) = noteAcceptedPrimaryTerm tm known"

lemma noted_terms:
  "termRefusingSender (foldl noteTerm (Some terms) told) sender = None \<longleftrightarrow>
     led terms < sender \<and> accepted terms \<le> sender \<and>
     (\<forall>tm. Led tm \<in> set told \<longrightarrow> tm < sender) \<and> (\<forall>tm. Accepted tm \<in> set told \<longrightarrow> tm \<le> sender)"
proof (induction told arbitrary: terms)
  case Nil
  then show ?case by (auto simp: termRefusingSender_def)
next
  case (Cons w told)
  then show ?case
    by (cases w) (auto simp: noteLedTerm_def noteAcceptedPrimaryTerm_def termsOf_def)
qed

lemma noteTerm_None: "noteTerm None w = noteTerm (Some \<lparr>led = 0, accepted = 0\<rparr>) w"
  by (cases w) (simp_all add: noteLedTerm_def noteAcceptedPrimaryTerm_def termsOf_def)

section \<open>What a replica accepts\<close>

datatype replica_error =
    Replica_Corrupt int
  | Term_Mismatch int
  | Replica_Conflict int
  | Follows_Other_Term int int int
  | Replica_Out_Of_Order int int
  | Engine_Failed
  | Log_Refused log_error
  | Wrong_Scope
  | Bad_Termination

definition validateReplicationEntry :: "log_env \<Rightarrow> log_entry \<Rightarrow> int \<Rightarrow> replica_error option" where
  "validateReplicationEntry env e localPrimaryTerm =
     (if \<not> verifyEntryChecksum env e then Some (Replica_Corrupt (seqNo e))
      else if primaryTerm e < localPrimaryTerm then Some (Term_Mismatch (seqNo e))
      else None)"

text \<open>The engine applies a run and answers how many leading entries it applied.\<close>

type_synonym 's engine = "log_entry list \<Rightarrow> 's \<Rightarrow> nat \<times> 's"
type_synonym 's applied = "replica_error option \<times> rlog \<times> 's"

fun appendAll :: "log_env \<Rightarrow> log_entry list \<Rightarrow> rlog \<Rightarrow> log_error option \<times> rlog" where
  "appendAll env [] L = (None, L)"
| "appendAll env (e # es) L =
     (case appendCommitted env e L of
        Inl err \<Rightarrow> (Some err, L)
      | Inr (_, L) \<Rightarrow> appendAll env es L)"

definition applyRun :: "log_env \<Rightarrow> 's engine \<Rightarrow> log_entry list \<Rightarrow> rlog \<Rightarrow> 's \<Rightarrow> 's applied" where
  "applyRun env engine run L s =
     (if run = [] then (None, L, s)
      else let (applied, s) = engine run s;
               (refused, L) = appendAll env (take applied run) L
           in (case refused of
                 Some err \<Rightarrow> (Some (Log_Refused err), L, s)
               | None \<Rightarrow> (if applied < length run then Some Engine_Failed else None, L, s)))"

definition applyRunThenThrow ::
  "log_env \<Rightarrow> 's engine \<Rightarrow> log_entry list \<Rightarrow> rlog \<Rightarrow> 's \<Rightarrow> replica_error \<Rightarrow> 's applied" where
  "applyRunThenThrow env engine run L s err =
     (case applyRun env engine run L s of
        (Some earlier, rest) \<Rightarrow> (Some earlier, rest)
      | (None, rest) \<Rightarrow> (Some err, rest))"

record apply_state =
  ap_log :: rlog
  tailSeqNo :: int
  tailPrimaryTerm :: int
  expectedPreviousTerm :: "int option"
  ap_run :: "log_entry list"

definition heldTermBefore :: "apply_state \<Rightarrow> int option" where
  "heldTermBefore a =
     (if ap_run a \<noteq> [] then Some (primaryTerm (last (ap_run a)))
      else if tailSeqNo a = 0 then Some 0 else termAt (ap_log a) (tailSeqNo a))"

definition followsOtherTerm :: "apply_state \<Rightarrow> int option \<Rightarrow> log_entry \<Rightarrow> bool" where
  "followsOtherTerm a expectedTermBefore e \<longleftrightarrow>
     seqNo e = tailSeqNo a + 1 \<and> expectedTermBefore \<noteq> None \<and> heldTermBefore a \<noteq> None \<and>
     heldTermBefore a \<noteq> expectedTermBefore"

definition canSeedFromCompletedBootstrap :: "bool \<Rightarrow> apply_state \<Rightarrow> log_entry \<Rightarrow> bool" where
  "canSeedFromCompletedBootstrap bootstrapSynced a e \<longleftrightarrow>
     ap_run a = [] \<and> liveCount (ap_log a) = 0 \<and> tailSeqNo a + 1 < seqNo e \<and> bootstrapSynced"

text \<open>A log that starts over, \<open>seedReplicationLog\<close> of \<open>cluster-node/replication-logs.ts\<close>.\<close>

definition seedReplicationLog :: "rlog \<Rightarrow> int \<Rightarrow> int \<Rightarrow> rlog" where
  "seedReplicationLog L startSeqNo lastPrimaryTerm =
     createReplicationLog (logPartitionId L) (Some (retentionBytes L)) (Some startSeqNo) (Some lastPrimaryTerm)"

definition reseeded :: "log_entry \<Rightarrow> apply_state \<Rightarrow> apply_state" where
  "reseeded e a =
     (if seqNo e \<noteq> tailSeqNo a + 1
      then let L = seedReplicationLog (ap_log a) (seqNo e) (primaryTerm e)
           in a\<lparr>ap_log := L, tailPrimaryTerm := localLogEndPrimaryTerm L\<rparr>
      else a)"

definition pushEntry :: "log_entry \<Rightarrow> apply_state \<Rightarrow> apply_state" where
  "pushEntry e a = a\<lparr>ap_run := ap_run a @ [e], tailSeqNo := seqNo e, tailPrimaryTerm := primaryTerm e\<rparr>"

fun applyEntriesLoop ::
  "log_env \<Rightarrow> 's engine \<Rightarrow> bool \<Rightarrow> log_entry list \<Rightarrow> apply_state \<Rightarrow> 's \<Rightarrow> 's applied" where
  "applyEntriesLoop env engine synced [] a s = applyRun env engine (ap_run a) (ap_log a) s"
| "applyEntriesLoop env engine synced (e # es) a s =
     (let fail = applyRunThenThrow env engine (ap_run a) (ap_log a) s;
          before = expectedPreviousTerm a;
          a = a\<lparr>expectedPreviousTerm := Some (primaryTerm e)\<rparr>
      in case readEntry (ap_log a) (seqNo e) of
           Some existing \<Rightarrow>
             if checksum existing \<noteq> checksum e then fail (Replica_Conflict (seqNo e))
             else applyEntriesLoop env engine synced es a s
         | None \<Rightarrow>
             if followsOtherTerm a before e
             then fail (Follows_Other_Term (seqNo e) (the before) (the (heldTermBefore a)))
             else if seqNo e \<noteq> tailSeqNo a + 1 \<and> \<not> canSeedFromCompletedBootstrap synced a e
             then fail (Replica_Out_Of_Order (seqNo e) (tailSeqNo a + 1))
             else let a = reseeded e a
                  in case validateReplicationEntry env e (tailPrimaryTerm a) of
                       Some err \<Rightarrow> applyRunThenThrow env engine (ap_run a) (ap_log a) s err
                     | None \<Rightarrow> applyEntriesLoop env engine synced es (pushEntry e a) s)"

definition applyEntriesInLogOrder ::
  "log_env \<Rightarrow> 's engine \<Rightarrow> bool \<Rightarrow> log_entry list \<Rightarrow> int option \<Rightarrow> rlog \<Rightarrow> 's \<Rightarrow> 's applied" where
  "applyEntriesInLogOrder env engine synced es previousPrimaryTerm L s =
     applyEntriesLoop env engine synced es
       \<lparr>ap_log = L, tailSeqNo = localLogEnd L, tailPrimaryTerm = localLogEndPrimaryTerm L,
        expectedPreviousTerm = previousPrimaryTerm, ap_run = []\<rparr> s"

section \<open>Bootstrap entries\<close>

fun syncRun :: "rlog \<Rightarrow> log_entry list \<Rightarrow> int \<Rightarrow> nat \<Rightarrow> log_entry list
    \<Rightarrow> replica_error option \<times> nat \<times> log_entry list" where
  "syncRun L [] tailNo processed pending = (None, processed, pending)"
| "syncRun L (e # es) tailNo processed pending =
     (case readEntry L (seqNo e) of
        Some present \<Rightarrow>
          if checksum present \<noteq> checksum e then (Some (Replica_Conflict (seqNo e)), processed, pending)
          else syncRun L es tailNo (processed + 1) pending
      | None \<Rightarrow>
          if seqNo e \<noteq> tailNo + 1 then (Some (Replica_Out_Of_Order (seqNo e) (tailNo + 1)), processed, pending)
          else syncRun L es (seqNo e) processed (pending @ [e]))"

definition applySyncRunOnce ::
  "log_env \<Rightarrow> 's engine \<Rightarrow> log_entry list \<Rightarrow> rlog \<Rightarrow> 's \<Rightarrow> nat \<times> 's applied" where
  "applySyncRunOnce env engine run L s =
     (let (err, processed, pending) = syncRun L run (localLogEnd L) 0 []
      in if pending = [] then (processed, err, L, s)
         else let (applied, s) = engine pending s;
                  (refused, L) = appendAll env (take applied pending) L
              in case refused of
                   Some e \<Rightarrow> (processed, Some (Log_Refused e), L, s)
                 | None \<Rightarrow> (processed + applied, if applied < length pending then Some Engine_Failed else err, L, s))"

fun validateSyncEntryBatchTermination :: "(log_entry list \<times> bool) list \<Rightarrow> replica_error option" where
  "validateSyncEntryBatchTermination [] = None"
| "validateSyncEntryBatchTermination [(es, isLast)] = (if isLast then None else Some Bad_Termination)"
| "validateSyncEntryBatchTermination ((es, isLast) # p # ps) =
     (if isLast then Some Bad_Termination else validateSyncEntryBatchTermination (p # ps))"

definition validateSyncEntryForApply ::
  "log_env \<Rightarrow> log_entry \<Rightarrow> js_string \<Rightarrow> int \<Rightarrow> int \<Rightarrow> int \<Rightarrow> replica_error option" where
  "validateSyncEntryForApply env e index_name pid expectedSeqNo localPrimaryTerm =
     (if indexName e \<noteq> index_name \<or> partitionId e \<noteq> pid then Some Wrong_Scope
      else if seqNo e \<noteq> expectedSeqNo then Some (Replica_Out_Of_Order (seqNo e) expectedSeqNo)
      else validateReplicationEntry env e localPrimaryTerm)"

text \<open>The leading entries of one payload that are valid, and the error that stops them.\<close>

fun validRun :: "log_env \<Rightarrow> js_string \<Rightarrow> int \<Rightarrow> int \<Rightarrow> log_entry list \<Rightarrow> int
    \<Rightarrow> replica_error option \<times> log_entry list \<times> int" where
  "validRun env index_name pid localPrimaryTerm [] expectedSeqNo = (None, [], expectedSeqNo)"
| "validRun env index_name pid localPrimaryTerm (e # es) expectedSeqNo =
     (case validateSyncEntryForApply env e index_name pid expectedSeqNo localPrimaryTerm of
        Some err \<Rightarrow> (Some err, [], expectedSeqNo)
      | None \<Rightarrow>
          let (err, run, expectedSeqNo) = validRun env index_name pid localPrimaryTerm es (seqNo e + 1)
          in (err, e # run, expectedSeqNo))"

fun applySyncPayloads :: "log_env \<Rightarrow> 's engine \<Rightarrow> js_string \<Rightarrow> int \<Rightarrow> int
    \<Rightarrow> (log_entry list \<times> bool) list \<Rightarrow> int \<Rightarrow> nat \<Rightarrow> rlog \<Rightarrow> 's
    \<Rightarrow> (replica_error + nat \<times> int) \<times> rlog \<times> 's" where
  "applySyncPayloads env engine index_name pid localPrimaryTerm [] expectedSeqNo entriesApplied L s =
     (Inr (entriesApplied, expectedSeqNo - 1), L, s)"
| "applySyncPayloads env engine index_name pid localPrimaryTerm ((es, isLast) # ps) expectedSeqNo entriesApplied L s =
     (let (entryError, run, expectedSeqNo) = validRun env index_name pid localPrimaryTerm es expectedSeqNo;
          (processed, runError, L, s) = applySyncRunOnce env engine run L s;
          entriesApplied = entriesApplied + processed
      in case (if runError \<noteq> None then runError else entryError) of
           Some err \<Rightarrow> (Inl err, L, s)
         | None \<Rightarrow>
             applySyncPayloads env engine index_name pid localPrimaryTerm ps expectedSeqNo entriesApplied L s)"

definition applySyncEntries :: "log_env \<Rightarrow> 's engine \<Rightarrow> js_string \<Rightarrow> int
    \<Rightarrow> (log_entry list \<times> bool) list \<Rightarrow> int \<Rightarrow> int \<Rightarrow> rlog \<Rightarrow> 's
    \<Rightarrow> (replica_error + nat \<times> int) \<times> rlog \<times> 's" where
  "applySyncEntries env engine index_name pid payloads expectedFirstSeqNo localPrimaryTerm L s =
     (case validateSyncEntryBatchTermination payloads of
        Some err \<Rightarrow> (Inl err, L, s)
      | None \<Rightarrow> applySyncPayloads env engine index_name pid localPrimaryTerm payloads expectedFirstSeqNo 0 L s)"

end
