(* ===== verification/Replica_Matching.thy ===== *)
theory Replica_Matching
  imports Replica_Apply
begin

text \<open>
  Log matching between a primary and a replica: if the two histories give a sequence number the
  same term, they hold the same entries up to it. Every batch that a replica applies keeps it,
  whatever part of the batch it already holds, rejects, or fails to apply; and an incremental
  sync leaves no gap.
\<close>

section \<open>Histories\<close>

text \<open>A history is its seed, the term of the seed, and the entries since.\<close>

type_synonym history = "int \<times> int \<times> log_entry list"

definition history_of :: "rlog \<Rightarrow> log_entry list \<Rightarrow> history" where
  "history_of L h = (seedSeqNo L, seedPrimaryTerm L, h)"

fun entry_at :: "history \<Rightarrow> int \<Rightarrow> log_entry option" where
  "entry_at (seed, tm, h) n =
     (if seed < n \<and> n \<le> seed + int (length h) then Some (h ! nat (n - seed - 1)) else None)"

fun term_at :: "history \<Rightarrow> int \<Rightarrow> int option" where
  "term_at (seed, tm, h) n = history_term seed tm h n"

definition agree_upto :: "history \<Rightarrow> history \<Rightarrow> int \<Rightarrow> bool" where
  "agree_upto H G n \<longleftrightarrow>
     (\<forall>m\<le>n. \<forall>e e'. entry_at H m = Some e \<longrightarrow> entry_at G m = Some e' \<longrightarrow> e = e')"

definition matching :: "history \<Rightarrow> history \<Rightarrow> bool" where
  "matching H G \<longleftrightarrow> (\<forall>n tm. term_at H n = Some tm \<longrightarrow> term_at G n = Some tm \<longrightarrow> agree_upto H G n)"

lemma entry_at_snoc:
  "entry_at (seed, tm, h @ [e]) n =
     (if n = seed + int (length h) + 1 then Some e else entry_at (seed, tm, h) n)"
  by (auto simp: nth_append nat_less_iff)

lemma term_at_snoc:
  "term_at (seed, tm, h @ [e]) n =
     (if n = seed + int (length h) + 1 then Some (primaryTerm e) else term_at (seed, tm, h) n)"
  by (auto simp: history_term_def nth_append nat_less_iff)

lemma entry_at_empty: "entry_at (seed, tm, []) n = None"
  by simp

lemma matching_empty [simp]: "matching H (seed, tm, [])" "agree_upto H (seed, tm, []) n"
  by (simp_all add: matching_def agree_upto_def entry_at_empty del: entry_at.simps)

lemma append_matching:
  assumes "matching H (seed, tm, h)" and "agree_upto H (seed, tm, h) (seed + int (length h))"
    and "entry_at H (seed + int (length h) + 1) = Some e"
  shows "matching H (seed, tm, h @ [e])"
    and "agree_upto H (seed, tm, h @ [e]) (seed + int (length h) + 1)"
proof -
  show upto: "agree_upto H (seed, tm, h @ [e]) (seed + int (length h) + 1)"
    using assms(2,3) unfolding agree_upto_def entry_at_snoc
    by (auto simp del: entry_at.simps split: if_splits) (smt (verit))
  show "matching H (seed, tm, h @ [e])"
    unfolding matching_def
  proof (intro allI impI)
    fix n t
    assume t: "term_at H n = Some t" "term_at (seed, tm, h @ [e]) n = Some t"
    show "agree_upto H (seed, tm, h @ [e]) n"
    proof (cases "n = seed + int (length h) + 1")
      case True
      then show ?thesis using upto by simp
    next
      case False
      then have "term_at (seed, tm, h) n = Some t" using t(2) by (simp only: term_at_snoc if_False)
      moreover from this have "n \<le> seed + int (length h)"
        by (auto simp: history_term_def split: if_splits)
      ultimately show ?thesis
        using assms(1) t(1) unfolding matching_def agree_upto_def entry_at_snoc
        by (auto simp del: entry_at.simps term_at.simps)
    qed
  qed
qed

section \<open>Runs that continue a history\<close>

fun continues :: "history \<Rightarrow> int \<Rightarrow> log_entry list \<Rightarrow> bool" where
  "continues H n [] \<longleftrightarrow> True"
| "continues H n (e # es) \<longleftrightarrow> seqNo e = n + 1 \<and> entry_at H (n + 1) = Some e \<and> continues H (n + 1) es"

lemma continues_append:
  "continues H n (es @ fs) \<longleftrightarrow> continues H n es \<and> continues H (n + int (length es)) fs"
  by (induction es arbitrary: n) (simp_all add: add.assoc)

lemma continues_take: "continues H n es \<Longrightarrow> continues H n (take k es)"
  by (induction es arbitrary: n k) (auto simp: take_Cons split: nat.splits)

lemma appendAll_matching:
  assumes "keeps env h L" and "matching H (history_of L h)" and "continues H (localLogEnd L) es"
    and "es \<noteq> [] \<Longrightarrow> agree_upto H (history_of L h) (localLogEnd L)"
  shows "\<exists>h'. keeps env h' (snd (appendAll env es L)) \<and> matching H (history_of (snd (appendAll env es L)) h')
           \<and> seedSeqNo (snd (appendAll env es L)) = seedSeqNo L"
  using assms
proof (induction es arbitrary: h L)
  case Nil
  then show ?case by auto
next
  case (Cons e es)
  have ends: "localLogEnd L = seedSeqNo L + int (length h)" using Cons.prems(1) by (simp add: keeps_def)
  show ?case
  proof (cases "appendCommitted env e L")
    case (Inl err)
    then show ?thesis using Cons.prems(1,2) by auto
  next
    case (Inr r)
    obtain e' L' where r: "appendCommitted env e L = Inr (e', L')" using Inr by (cases r) auto
    from Cons.prems(1) r have "e' = e \<and> keeps env (h @ [e]) L' \<and> same_place L L'"
    proof (cases rule: appendCommitted_cases)
      case present
      then show ?thesis
        using readEntry_after_end [OF Cons.prems(1)] Cons.prems(3) by simp
    qed simp
    then have kept: "keeps env (h @ [e]) L'" and place: "same_place L L'" by simp_all
    have hist: "history_of L' (h @ [e]) = (seedSeqNo L, seedPrimaryTerm L, h @ [e])"
      using place by (simp add: history_of_def same_place_def)
    have end': "localLogEnd L' = localLogEnd L + 1"
      using kept ends place by (simp add: keeps_def same_place_def)
    have m: "matching H (history_of L' (h @ [e]))" "agree_upto H (history_of L' (h @ [e])) (localLogEnd L')"
      unfolding hist end' ends
      by (rule append_matching; use Cons.prems(2-4) ends in \<open>simp add: history_of_def\<close>)+
    show ?thesis
      using Cons.IH [OF kept m(1)] m(2) Cons.prems(3) place by (simp add: r end' same_place_def)
  qed
qed

section \<open>A batch from the primary\<close>

text \<open>
  \<open>slice H prev es\<close>: the entries \<open>es\<close> are entries of \<open>H\<close>, and \<open>prev\<close> is the term \<open>H\<close> gives the
  number before the first of them; each later entry follows its predecessor.
\<close>

definition term_before :: "history \<Rightarrow> int \<Rightarrow> int option" where
  "term_before H n = (if n \<le> 1 then Some 0 else term_at H (n - 1))"

fun slice :: "history \<Rightarrow> int option \<Rightarrow> log_entry list \<Rightarrow> bool" where
  "slice H prev [] \<longleftrightarrow> True"
| "slice H prev (e # es) \<longleftrightarrow>
     entry_at H (seqNo e) = Some e \<and> prev \<noteq> None \<and> term_before H (seqNo e) = prev \<and>
     slice H (Some (primaryTerm e)) es"

definition follows :: "log_env \<Rightarrow> history \<Rightarrow> log_entry list \<Rightarrow> apply_state \<Rightarrow> bool" where
  "follows env H h a \<longleftrightarrow>
     keeps env h (ap_log a) \<and> matching H (history_of (ap_log a) h) \<and> 0 \<le> seedSeqNo (ap_log a) \<and>
     continues H (localLogEnd (ap_log a)) (ap_run a) \<and>
     tailSeqNo a = localLogEnd (ap_log a) + int (length (ap_run a)) \<and>
     (ap_run a \<noteq> [] \<longrightarrow> agree_upto H (history_of (ap_log a) h) (localLogEnd (ap_log a)))"

definition outcome_matches :: "log_env \<Rightarrow> history \<Rightarrow> 's applied \<Rightarrow> bool" where
  "outcome_matches env H out \<longleftrightarrow>
     (\<exists>h'. keeps env h' (fst (snd out)) \<and> matching H (history_of (fst (snd out)) h') \<and>
           0 \<le> seedSeqNo (fst (snd out)))"

lemma applyRun_matches:
  assumes "follows env H h a"
  shows "outcome_matches env H (applyRun env engine (ap_run a) (ap_log a) s)"
proof (cases "ap_run a = []")
  case True
  then show ?thesis using assms by (auto simp: applyRun_def outcome_matches_def follows_def)
next
  case False
  let ?L' = "snd (appendAll env (take (fst (engine (ap_run a) s)) (ap_run a)) (ap_log a))"
  have "\<exists>h'. keeps env h' ?L' \<and> matching H (history_of ?L' h') \<and> seedSeqNo ?L' = seedSeqNo (ap_log a)"
    by (rule appendAll_matching [where h = h])
      (use assms False in \<open>auto simp: follows_def intro: continues_take\<close>)
  moreover have "fst (snd (applyRun env engine (ap_run a) (ap_log a) s)) = ?L'"
    using False by (auto simp: applyRun_def split: prod.splits option.splits)
  ultimately show ?thesis using assms unfolding outcome_matches_def follows_def by auto
qed

lemma applyRunThenThrow_matches:
  assumes "follows env H h a"
  shows "outcome_matches env H (applyRunThenThrow env engine (ap_run a) (ap_log a) s err)"
  using applyRun_matches [OF assms, of engine s]
  by (auto simp: applyRunThenThrow_def outcome_matches_def split: prod.splits option.splits)

lemma termAt_end: "keeps env h L \<Longrightarrow> \<exists>tm. termAt L (localLogEnd L) = Some tm"
  by (auto simp: termAt_def split: option.splits)

text \<open>The previous-term check passes only on a history that agrees.\<close>

lemma checked_agrees:
  assumes "follows env H h a" and "ap_run a = []" and "seqNo e = tailSeqNo a + 1" and "fst H \<ge> 0"
    and "prev \<noteq> None" and "term_before H (seqNo e) = prev" and "\<not> followsOtherTerm a prev e"
  shows "agree_upto H (history_of (ap_log a) h) (localLogEnd (ap_log a))"
proof -
  let ?L = "ap_log a"
  from assms(1) have k: "keeps env h ?L" and m: "matching H (history_of ?L h)" and seed: "0 \<le> seedSeqNo ?L"
    by (auto simp: follows_def)
  have tail: "tailSeqNo a = localLogEnd ?L" using assms(1,2) by (simp add: follows_def)
  have nonneg: "0 \<le> localLogEnd ?L" using k seed by (simp add: keeps_def)
  show ?thesis
  proof (cases "localLogEnd ?L = 0")
    case True
    obtain s t hs where H: "H = (s, t, hs)" by (cases H)
    then have "entry_at H n = None" if "n \<le> 0" for n using assms(4) that by simp
    then show ?thesis using True by (auto simp: agree_upto_def)
  next
    case False
    from termAt_end [OF k] obtain tm where tm: "termAt ?L (localLogEnd ?L) = Some tm" by blast
    then have "prev = Some tm"
      using assms(2,3,5,7) tail False by (auto simp: followsOtherTerm_def heldTermBefore_def)
    then have "term_at H (localLogEnd ?L) = Some tm"
      using assms(3,6) tail False nonneg by (simp add: term_before_def split: if_splits)
    moreover have "term_at (history_of ?L h) (localLogEnd ?L) = Some tm"
      using termAt_history [OF k tm] by (simp add: history_of_def)
    ultimately show ?thesis using m unfolding matching_def by blast
  qed
qed

lemma follows_push:
  assumes "follows env H h a" and "seqNo e = tailSeqNo a + 1" and "entry_at H (seqNo e) = Some e"
    and "ap_run a = [] \<Longrightarrow> agree_upto H (history_of (ap_log a) h) (localLogEnd (ap_log a))"
  shows "follows env H h (pushEntry e a)"
  using assms
  by (cases "ap_run a = []") (auto simp: pushEntry_def follows_def continues_append simp del: entry_at.simps)

lemma follows_reseeded:
  assumes "follows env H h a" and "1 \<le> seqNo e" and "ap_run a = []" and "seqNo e \<noteq> tailSeqNo a + 1"
  shows "follows env H [] ((reseeded e a)\<lparr>tailSeqNo := seqNo e - 1\<rparr>)"
    and "agree_upto H (history_of (ap_log (reseeded e a)) []) n"
  using assms keeps_created [of env "logPartitionId (ap_log a)" "Some (retentionBytes (ap_log a))"
      "Some (seqNo e)" "Some (primaryTerm e)"]
  by (auto simp: follows_def seedReplicationLog_def reseeded_def history_of_def createReplicationLog_def Let_def)

lemma applyEntriesLoop_matches:
  assumes "follows env H h a" and "slice H (expectedPreviousTerm a) es" and "0 \<le> fst H"
    and "\<forall>e\<in>set es. 1 \<le> seqNo e"
  shows "outcome_matches env H (applyEntriesLoop env engine synced es a s)"
  using assms
proof (induction es arbitrary: a h)
  case Nil
  then show ?case by (simp add: applyRun_matches)
next
  case (Cons e es)
  let ?a = "a\<lparr>expectedPreviousTerm := Some (primaryTerm e)\<rparr>"
  have a: "follows env H h ?a" using Cons.prems(1) by (simp add: follows_def)
  have e: "entry_at H (seqNo e) = Some e" "expectedPreviousTerm a \<noteq> None"
    "term_before H (seqNo e) = expectedPreviousTerm a" "slice H (Some (primaryTerm e)) es" "1 \<le> seqNo e"
    using Cons.prems(2,4) by auto
  note IH = Cons.IH [OF _ _ Cons.prems(3)]
  note thrown = applyRunThenThrow_matches [OF Cons.prems(1), of engine s]
  show ?case
  proof (cases "readEntry (ap_log a) (seqNo e)")
    case (Some existing)
    then show ?thesis using IH [OF a] e(4) Cons.prems(4) thrown by (simp add: Let_def)
  next
    case None
    show ?thesis
    proof (cases "followsOtherTerm ?a (expectedPreviousTerm a) e
        \<or> seqNo e \<noteq> tailSeqNo a + 1 \<and> \<not> canSeedFromCompletedBootstrap synced ?a e")
      case True
      then show ?thesis using None thrown by (auto simp: Let_def)
    next
      case False
      let ?b = "reseeded e ?a"
      have "(\<exists>h'. follows env H h' (pushEntry e ?b)) \<and>
          (\<forall>err. outcome_matches env H (applyRunThenThrow env engine (ap_run ?b) (ap_log ?b) s err))"
      proof (cases "seqNo e = tailSeqNo a + 1")
        case True
        then have same: "?b = ?a" by (simp add: reseeded_def)
        have "ap_run a = [] \<Longrightarrow> agree_upto H (history_of (ap_log a) h) (localLogEnd (ap_log a))"
          using checked_agrees [OF a _ _ Cons.prems(3) e(2,3)] False True by simp
        then have "follows env H h (pushEntry e ?a)"
          using follows_push [OF a] True e(1) by simp
        then show ?thesis using same thrown by auto
      next
        case seeding: False
        then have run: "ap_run a = []"
          using False by (simp add: canSeedFromCompletedBootstrap_def)
        let ?c = "?b\<lparr>tailSeqNo := seqNo e - 1\<rparr>"
        have c: "follows env H [] ?c" "agree_upto H (history_of (ap_log ?b) []) (localLogEnd (ap_log ?b))"
          using follows_reseeded [OF a e(5)] run seeding by simp_all
        have "pushEntry e ?c = pushEntry e ?b" by (simp add: pushEntry_def)
        then have "follows env H [] (pushEntry e ?b)"
          using follows_push [OF c(1), of e] c(2) e(1) by simp
        moreover have "outcome_matches env H (applyRunThenThrow env engine (ap_run ?b) (ap_log ?b) s err)" for err
          using applyRunThenThrow_matches [OF c(1), of engine s err] by simp
        ultimately show ?thesis by blast
      qed
      then obtain h' where h': "follows env H h' (pushEntry e ?b)"
        and thrown_b: "\<And>err. outcome_matches env H (applyRunThenThrow env engine (ap_run ?b) (ap_log ?b) s err)"
        by blast
      have "expectedPreviousTerm (pushEntry e ?b) = Some (primaryTerm e)"
        by (simp add: pushEntry_def reseeded_def Let_def)
      then have "outcome_matches env H (applyEntriesLoop env engine synced es (pushEntry e ?b) s)"
        using IH [OF h'] e(4) Cons.prems(4) by simp
      then show ?thesis using None False thrown_b by (auto simp: Let_def split: option.split)
    qed
  qed
qed

section \<open>What the primary's log yields\<close>

lemma slice_of_history:
  assumes "numbered (seed + 1) h" and "0 \<le> seed" and "prev \<noteq> None"
    and "term_before (seed, tm, h) (seed + 1 + int i) = prev"
  shows "slice (seed, tm, h) prev (take k (drop i h))"
  using assms(3,4)
proof (induction k arbitrary: i prev)
  case (Suc k)
  show ?case
  proof (cases "i < length h")
    case True
    then have n: "seqNo (h ! i) = seed + 1 + int i" using assms(1) by (simp add: numbered_def)
    have "term_before (seed, tm, h) (seed + 1 + int (Suc i)) = Some (primaryTerm (h ! i))"
      using True assms(2) by (simp add: term_before_def history_term_def nat_add_distrib)
    then have "slice (seed, tm, h) (Some (primaryTerm (h ! i))) (take k (drop (Suc i) h))"
      by (rule Suc.IH [rotated]) simp
    then show ?thesis
      using True n Suc.prems by (simp add: Cons_nth_drop_Suc [symmetric])
  qed simp
qed simp

lemma keeps_numbers:
  "keeps env h L \<Longrightarrow> 0 \<le> seedSeqNo L \<Longrightarrow> e \<in> set h \<Longrightarrow> 1 \<le> seqNo e"
  by (auto simp: keeps_def numbered_def in_set_conv_nth)

lemma getEntriesFrom_history:
  assumes "keeps env h L"
  obtains i where "getEntriesFrom L n = drop i h"
proof -
  from assms obtain k where k: "live L = drop k h" "numbered (seedSeqNo L + 1 + int k) (live L)"
    by (rule keeps_live)
  then show ?thesis
    using getEntriesFrom_live [of L, OF _ k(2), of n] that assms by (auto simp: keeps_def drop_drop)
qed

lemma sent_slice:
  assumes "keeps env h L" and "0 \<le> seedSeqNo L" and "es = take k (getEntriesFrom L n)" and "es \<noteq> []"
    and "previousTermOf L (seqNo (hd es)) = Some prev"
  shows "slice (history_of L h) (Some prev) es"
proof -
  from getEntriesFrom_history [OF assms(1)] obtain i where i: "getEntriesFrom L n = drop i h" .
  then have es: "es = take k (drop i h)" using assms(3) by simp
  have num: "numbered (seedSeqNo L + 1) h" using assms(1) by (simp add: keeps_def)
  from es assms(4) have "i < length h" "hd es = h ! i"
    by (auto simp: hd_drop_conv_nth hd_take)
  then have first: "seqNo (hd es) = seedSeqNo L + 1 + int i" using num by (simp add: numbered_def)
  have "term_before (history_of L h) (seqNo (hd es)) = Some prev"
    using assms(5) termAt_history [OF assms(1)]
    by (auto simp: previousTermOf_def term_before_def history_of_def split: if_splits)
  then show ?thesis
    using slice_of_history [OF num assms(2), of "Some prev" "seedPrimaryTerm L" i k]
    unfolding es [symmetric] first [symmetric] history_of_def by simp
qed

lemma batch_keeps_matching:
  assumes "keeps env hp P" and "keeps env hr R" and "0 \<le> seedSeqNo P" and "0 \<le> seedSeqNo R"
    and "matching (history_of P hp) (history_of R hr)"
    and "es = take k (getEntriesFrom P n)" and "es \<noteq> []"
    and "previousTermOf P (seqNo (hd es)) = Some prev"
  shows "outcome_matches env (history_of P hp) (applyEntriesInLogOrder env engine synced es (Some prev) R s)"
  unfolding applyEntriesInLogOrder_def
proof (rule applyEntriesLoop_matches)
  show "\<forall>e\<in>set es. 1 \<le> seqNo e"
    using keeps_numbers [OF assms(1,3)] getEntriesFrom_history [OF assms(1), of n] assms(6)
    by (metis in_set_dropD in_set_takeD)
qed (use assms sent_slice [OF assms(1,3,6,7,8)] in \<open>auto simp: follows_def history_of_def\<close>)

section \<open>An incremental sync leaves no gap\<close>

lemma incremental_is_complete:
  assumes "keeps env h L" and "0 \<le> seedSeqNo L" and "0 \<le> n"
    and "decideSyncTier L n tm = Incremental"
  shows "seedSeqNo L \<le> n" and "n \<le> localLogEnd L"
    and "getEntriesFrom L (n + 1) = drop (nat (n - seedSeqNo L)) h"
proof -
  from assms(1) obtain k where k: "k \<le> length h" "live L = drop k h"
    "numbered (seedSeqNo L + 1 + int k) (live L)" "int (liveCount L) = localLogEnd L - seedSeqNo L - int k"
    by (rule keeps_live)
  have ok: "array_ok L" and ends: "localLogEnd L = seedSeqNo L + int (length h)"
    using assms(1) by (simp_all add: keeps_def)
  have from_n: "getEntriesFrom L (n + 1) = drop (nat (n - seedSeqNo L - int k) + k) h"
    using getEntriesFrom_live [OF ok k(3), of "n + 1"] k(2) by (simp add: algebra_simps drop_drop)
  have all: "seedSeqNo L \<le> n \<and> n \<le> localLogEnd L \<and>
      getEntriesFrom L (n + 1) = drop (nat (n - seedSeqNo L)) h"
  proof (cases "n = 0 \<or> n = localLogEnd L")
    case False
    then obtain t where t: "termAt L n = Some t"
      using assms(4) by (auto simp: decideSyncTier_def split: option.splits)
    then have "seedSeqNo L \<le> n" "n \<le> localLogEnd L"
      using termAt_history [OF assms(1) t] ends by (auto simp: history_term_def split: if_splits)
    then show ?thesis using nothing_gone [OF assms(1) t] False by simp
  next
    case at: True
    show ?thesis
    proof (cases "n = localLogEnd L")
      case True
      then have "nat (n - seedSeqNo L) = length h" "length h \<le> nat (n - seedSeqNo L - int k) + k"
        using ends k(1) by linarith+
      then show ?thesis using from_n ends True by simp
    next
      case False
      then have "oldestSeqNo L = Some 1" and n: "n = 0"
        using at assms(2,4) ends by (auto simp: decideSyncTier_def split: if_splits)
      then have "0 < liveCount L" "seqNo (live L ! 0) = 1"
        using live_nth [of 0 L] by (auto simp: oldestSeqNo_def split: if_splits)
      then have "seedSeqNo L + int k = 0" using k(3) unfolding numbered_def by (simp add: live_length)
      then have "k = 0" "seedSeqNo L = 0" using assms(2) by linarith+
      then show ?thesis using from_n n ends by simp
    qed
  qed
  then show "seedSeqNo L \<le> n" "n \<le> localLogEnd L"
    "getEntriesFrom L (n + 1) = drop (nat (n - seedSeqNo L)) h" by blast+
qed

lemma numbered_continues:
  "numbered (seed + 1) h \<Longrightarrow> i \<le> length h \<Longrightarrow> continues (seed, tm, h) (seed + int i) (drop i h)"
proof (induction "length h - i" arbitrary: i)
  case (Suc m)
  then have "m = length h - Suc i" "Suc i \<le> length h" by linarith+
  then have i: "i < length h" "continues (seed, tm, h) (seed + int (Suc i)) (drop (Suc i) h)"
    using Suc.hyps(1) [of "Suc i"] Suc.prems(1) by simp_all
  moreover have "seqNo (h ! i) = seed + 1 + int i" using Suc.prems i(1) by (simp add: numbered_def)
  ultimately show ?case by (subst Cons_nth_drop_Suc [OF i(1), symmetric]) (simp add: algebra_simps)
qed simp

lemma appendAll_fits:
  assumes "keeps env h L" and "continues H (localLogEnd L) es" and "0 \<le> localLogEnd L"
    and "\<forall>e\<in>set es. partitionId e = logPartitionId L \<and> verifyEntryChecksum env e \<and>
          seqNo e \<le> MAX_SAFE_INTEGER \<and> estimateEntrySize e \<le> retentionBytes L"
  shows "\<exists>L'. appendAll env es L = (None, L') \<and> keeps env (h @ es) L' \<and> same_place L L'"
  using assms
proof (induction es arbitrary: h L)
  case Nil
  then show ?case by (simp add: same_place_def)
next
  case (Cons e es)
  have next': "nextSeqNo L = localLogEnd L + 1" using Cons.prems(1) by (simp add: keeps_def)
  then have "seqNo e = nextSeqNo L" "1 \<le> seqNo e" using Cons.prems(2,3) by simp_all
  then obtain L' where L': "appendCommitted env e L = Inr (e, L')" "keeps env (h @ [e]) L'" "same_place L L'"
    using appendCommitted_next [OF Cons.prems(1)] Cons.prems(4) by auto
  have end': "localLogEnd L' = localLogEnd L + 1"
    using L'(2,3) Cons.prems(1) by (simp add: keeps_def same_place_def)
  from Cons.IH [OF L'(2)] obtain M where "appendAll env es L' = (None, M)" "keeps env ((h @ [e]) @ es) M"
    "same_place L' M" using Cons.prems(2-4) L'(3) end' by (auto simp: same_place_def)
  then show ?case using L' by (auto simp: same_place_def)
qed

lemma syncRun_continues:
  "keeps env h L \<Longrightarrow> localLogEnd L \<le> n \<Longrightarrow> continues H n es \<Longrightarrow> syncRun L es n p pending = (None, p, pending @ es)"
  by (induction es arbitrary: n pending) (simp_all add: readEntry_after_end)

lemma validRun_continues:
  "continues H n es \<Longrightarrow> \<forall>e\<in>set es. indexName e = nm \<and> partitionId e = pid \<and> verifyEntryChecksum env e \<and> tm \<le> primaryTerm e
   \<Longrightarrow> validRun env nm pid tm es (n + 1) = (None, es, n + 1 + int (length es))"
proof (induction es arbitrary: n)
  case (Cons e es)
  then show ?case
    using Cons.IH [of "n + 1"] by (simp add: validateSyncEntryForApply_def validateReplicationEntry_def not_less)
qed simp

lemma sync_catches_up:
  assumes "keeps env hp P" and "keeps env hr R" and "0 \<le> seedSeqNo P" and "0 \<le> localLogEnd R"
    and "decideSyncTier P (localLogEnd R) tm = Incremental"
    and "logPartitionId R = logPartitionId P" and "retentionBytes P \<le> retentionBytes R"
    and "localLogEnd P \<le> MAX_SAFE_INTEGER"
    and "\<forall>e\<in>set hp. indexName e = nm \<and> tm \<le> primaryTerm e \<and> estimateEntrySize e \<le> retentionBytes P"
    and "\<And>run s. fst (engine run s) = length run"
  shows "\<exists>R' s'. applySyncEntries env engine nm (logPartitionId P)
             [(getEntriesFrom P (localLogEnd R + 1), True)] (localLogEnd R + 1) tm R s
           = (Inr (length (getEntriesFrom P (localLogEnd R + 1)), localLogEnd P), R', s')
           \<and> keeps env (hr @ getEntriesFrom P (localLogEnd R + 1)) R' \<and> localLogEnd R' = localLogEnd P"
proof -
  let ?es = "getEntriesFrom P (localLogEnd R + 1)"
  let ?H = "(seedSeqNo P, seedPrimaryTerm P, hp)"
  note inc = incremental_is_complete [OF assms(1,3,4,5)]
  have P: "numbered (seedSeqNo P + 1) hp" "localLogEnd P = seedSeqNo P + int (length hp)"
    "\<forall>e\<in>set hp. partitionId e = logPartitionId P \<and> verifyEntryChecksum env e"
    using assms(1) by (simp_all add: keeps_def)
  let ?i = "nat (localLogEnd R - seedSeqNo P)"
  have i: "?i \<le> length hp" "seedSeqNo P + int ?i = localLogEnd R" using inc(1,2) P(2) by linarith+
  have cont: "continues ?H (localLogEnd R) ?es"
    using numbered_continues [OF P(1) i(1), of "seedPrimaryTerm P"] by (simp only: i(2) inc(3))
  have safe: "seqNo e \<le> MAX_SAFE_INTEGER" if "e \<in> set hp" for e
    using that P(1,2) assms(8) by (auto simp: numbered_def in_set_conv_nth)
  have sub: "set ?es \<subseteq> set hp" using inc(3) by (simp add: set_drop_subset)
  have ends: "localLogEnd R + int (length ?es) = localLogEnd P" using i inc P(2) by simp
  have valid: "validRun env nm (logPartitionId P) tm ?es (localLogEnd R + 1) = (None, ?es, localLogEnd P + 1)"
    using validRun_continues [OF cont, of nm "logPartitionId P" env tm] sub P(3) assms(9) ends
    by (auto simp: algebra_simps)
  have pend: "syncRun R ?es (localLogEnd R) 0 [] = (None, 0, ?es)"
    using syncRun_continues [OF assms(2) order_refl cont] by simp
  have "\<exists>R'. appendAll env ?es R = (None, R') \<and> keeps env (hr @ ?es) R' \<and> same_place R R'"
    using assms(6,7,9) sub P(3) safe
    by (intro appendAll_fits [OF assms(2) cont assms(4)]) (auto simp: subset_eq intro: order_trans)
  then obtain R' where R': "appendAll env ?es R = (None, R')" "keeps env (hr @ ?es) R'" "same_place R R'"
    by blast
  have end': "localLogEnd R' = localLogEnd P"
    using R'(2,3) assms(2) ends by (simp add: keeps_def same_place_def)
  have "applySyncRunOnce env engine ?es R s = (length ?es, None, if ?es = [] then R else R', snd (engine ?es s)) \<or>
      ?es = [] \<and> applySyncRunOnce env engine ?es R s = (0, None, R, s)"
    using assms(10) [of ?es s] R'(1)
    by (auto simp: applySyncRunOnce_def pend Let_def split: prod.splits)
  moreover have "?es = [] \<Longrightarrow> R' = R" using R'(1) by simp
  ultimately have "\<exists>s'. applySyncRunOnce env engine ?es R s = (length ?es, None, R', s')" by auto
  then show ?thesis
    using R'(2) end' valid by (auto simp: applySyncEntries_def)
qed

end
