(* ===== verification/Replication_Properties.thy ===== *)
theory Replication_Properties
  imports Replica_Matching
begin

text \<open>
  The properties of the replication of one partition: checksums, the log and its history, the
  sync tiers and the application of batches by a replica, each with a concrete instance.
\<close>

section \<open>Concrete entries\<close>

definition sample_env :: log_env where
  "sample_env = \<lparr>encodeEntry = (\<lambda>e. [word_of_int (seqNo e), word_of_int (primaryTerm e)]), nativeCrc32 = None\<rparr>"

definition sample_fields :: "int \<Rightarrow> int \<Rightarrow> entry_fields" where
  "sample_fields n tm = \<lparr>seqNo = n, primaryTerm = tm, operation = INDEX, partitionId = 0,
     indexName = [105], documentId = [100], document = Some [7]\<rparr>"

definition sample_entry :: "int \<Rightarrow> int \<Rightarrow> log_entry" where
  "sample_entry n tm = buildEntry sample_env (sample_fields n tm)"

definition sample_log :: "int \<Rightarrow> log_entry list \<Rightarrow> rlog" where
  "sample_log tm es =
     \<lparr>logPartitionId = 0, retentionBytes = 1000, nextSeqNo = int (length es) + 1,
      localLogEnd = int (length es), localLogEndPrimaryTerm = tm, seedSeqNo = 0, seedPrimaryTerm = 0,
      logCommitPoint = 0, entries = map Some es, headIndex = 0, totalSizeBytes = 43 * int (length es)\<rparr>"

lemma sample_size [simp]: "estimateEntrySize (sample_entry n tm) = 43"
  unfolding sample_entry_def buildEntry_fields
  by (simp add: sample_fields_def estimateEntrySize_def REPLICATION_ENTRY_FIXED_OVERHEAD_BYTES_def)

lemma sample_entry_simps [simp]:
  "seqNo (sample_entry n tm) = n" "primaryTerm (sample_entry n tm) = tm"
  "partitionId (sample_entry n tm) = 0"
  "verifyEntryChecksum sample_env (sample_entry n tm)" "indexName (sample_entry n tm) = [105]"
  by (simp_all add: sample_entry_def sample_fields_def)

lemma sample_created: "sample_log 0 [] = createReplicationLog 0 (Some 1000) None None"
  by (simp add: sample_log_def createReplicationLog_def)

lemma evictOldEntries_idle:
  "headIndex L = 0 \<Longrightarrow> 0 \<le> totalSizeBytes L \<Longrightarrow> totalSizeBytes L \<le> int (retentionBytes L) \<Longrightarrow> evictOldEntries L = L"
  using evictLoop.simps [of L] by (simp add: evictOldEntries_def Let_def)

lemma sample_append:
  assumes "43 * int (length es) \<le> 900"
  shows "appendEntry sample_env (sample_fields 0 tm) (sample_log t es)
     = Inr (sample_entry (int (length es) + 1) tm, sample_log tm (es @ [sample_entry (int (length es) + 1) tm]))"
proof -
  have entry: "buildEntry sample_env ((sample_fields 0 tm)\<lparr>seqNo := n, partitionId := 0\<rparr>) = sample_entry n tm" for n
    by (simp add: sample_entry_def sample_fields_def)
  have size: "estimateEntrySize (sample_fields 0 tm) = 43"
    by (simp add: sample_fields_def estimateEntrySize_def REPLICATION_ENTRY_FIXED_OVERHEAD_BYTES_def)
  show ?thesis
    using assms
    by (simp add: appendEntry_def assertEntryFitsRetention_def size storeEntry_def evictOldEntries_idle
        sample_log_def entry Let_def)
qed

lemma sample_live: "live (sample_log tm es) = es" "array_ok (sample_log tm es)"
    "liveCount (sample_log tm es) = length es"
  by (auto simp: live_def sample_log_def array_ok_def liveCount_def comp_def)

lemma sample_fields_of_log [simp]:
  "localLogEnd (sample_log tm es) = int (length es)" "seedSeqNo (sample_log tm es) = 0"
  "seedPrimaryTerm (sample_log tm es) = 0" "retentionBytes (sample_log tm es) = 1000"
  "logPartitionId (sample_log tm es) = 0" "localLogEndPrimaryTerm (sample_log tm es) = tm"
  "nextSeqNo (sample_log tm es) = int (length es) + 1"
  by (simp_all add: sample_log_def)

lemma sample_numbered [simp]: "numbered 1 [sample_entry 1 a]" "numbered 1 [sample_entry 1 a, sample_entry 2 b]"
  by (simp_all add: numbered_Cons)

lemma sample_reads:
  assumes "numbered 1 es"
  shows "readEntry (sample_log tm es) n = (if 1 \<le> n \<and> n < 1 + int (length es) then Some (es ! nat (n - 1)) else None)"
    and "getEntriesFrom (sample_log tm es) n = drop (nat (n - 1)) es"
  using readEntry_live [of "sample_log tm es" 1 n] getEntriesFrom_live [of "sample_log tm es" 1 n] assms
  by (simp_all add: sample_live)

lemma sample_one: "logged sample_env [sample_entry 1 1] (sample_log 1 [sample_entry 1 1])"
  using logged.appended [OF logged.created sample_append [of "[]" 1 0, unfolded sample_created]] by simp

lemma sample_two:
  "logged sample_env [sample_entry 1 1, sample_entry 2 1] (sample_log 1 [sample_entry 1 1, sample_entry 2 1])"
  using logged.appended [OF sample_one sample_append [of "[sample_entry 1 1]" 1 1]] by simp

section \<open>Checksums\<close>

text \<open>
  C29: the checksum of some bytes, computed by the table or by the routine of the platform, is the
  bit by bit division by the IEEE polynomial.
\<close>

theorem crc32_is_division:
  assumes "\<And>routine. native = Some routine \<Longrightarrow> continues_crc routine"
  shows "crc32 native data = crc32_bitwise data"
  using crc32Update_bitwise [OF assms]
  by (simp add: crc32_def crc32Final_def crc32Init_def crc32_bitwise_def)

theorem crc32_is_division_witness:
  "crc32 (Some (\<lambda>data crc. foldl bitwiseStep (crc XOR ALL_BITS) data XOR ALL_BITS)) [1, 2, 3] = crc32_bitwise [1, 2, 3]"
  by (rule crc32_is_division) (simp add: continues_crc_def)

text \<open>
  Two byte strings that differ in exactly one byte never have the same checksum.
\<close>

theorem changed_byte_changes_crc32:
  assumes "x \<noteq> y"
  shows "crc32 None (xs @ x # ys) \<noteq> crc32 None (xs @ y # ys)"
  using crc32_bitwise_differs [of xs x ys y] assms crc32Update_bitwise [of None]
  by (auto simp: crc32_def crc32Final_def crc32Init_def crc32_bitwise_def)

theorem changed_byte_changes_crc32_witness:
  "crc32 None ([10] @ 20 # [30]) \<noteq> crc32 None ([10] @ 21 # [30])"
  by (rule changed_byte_changes_crc32) simp

section \<open>The log\<close>

text \<open>
  C20: whatever sequence of operations made a log, what it retains is a suffix of the history
  written since its seed, numbered without gaps up to the end of the log; the newest entry is
  always retained, the bytes are counted exactly and stay within the retention, and the commit
  point never passes the end.
\<close>

theorem log_retains_suffix:
  assumes "logged env h L"
  shows "\<exists>k. live L = drop k h \<and> (h \<noteq> [] \<longrightarrow> live L \<noteq> []) \<and>
    (\<forall>i<length (live L). seqNo (live L ! i) = localLogEnd L - int (liveCount L) + 1 + int i) \<and>
    localLogEnd L = seedSeqNo L + int (length h) \<and>
    totalSizeBytes L = int (log_bytes (live L)) \<and> log_bytes (live L) \<le> retentionBytes L \<and>
    logCommitPoint L \<le> localLogEnd L"
proof -
  have k: "keeps env h L" using assms by (rule logged_keeps)
  then obtain k where "k \<le> length h" "live L = drop k h" "numbered (seedSeqNo L + 1 + int k) (live L)"
    "int (liveCount L) = localLogEnd L - seedSeqNo L - int k"
    by (rule keeps_live)
  then show ?thesis using k by (auto simp: keeps_def numbered_def intro!: exI [of _ k])
qed

theorem log_retains_suffix_witness:
  "\<exists>k. live (sample_log 1 [sample_entry 1 1]) = drop k [sample_entry 1 1]"
  using log_retains_suffix [OF sample_one] by blast

text \<open>
  C27: the log tells the truth about its history. An entry read under a sequence number is the
  entry the history has there; every retained entry can be read; the entries from a number on
  are those retained from there on; and a term reported for a number, even one whose entry is
  gone, is the term the history gave it.
\<close>

theorem log_answers_truthfully:
  assumes "logged env h L"
  shows "(readEntry L n = Some e \<longleftrightarrow> e \<in> set (live L) \<and> seqNo e = n) \<and>
    getEntriesFrom L n = filter (\<lambda>e. n \<le> seqNo e) (live L) \<and>
    (termAt L n = Some tm \<longrightarrow> history_term (seedSeqNo L) (seedPrimaryTerm L) h n = Some tm)"
proof -
  have k: "keeps env h L" using assms by (rule logged_keeps)
  then obtain k where lv: "numbered (seedSeqNo L + 1 + int k) (live L)" by (rule keeps_live)
  have ok: "array_ok L" using k by (simp add: keeps_def)
  show ?thesis
    using readEntry_iff [OF ok lv] getEntriesFrom_live [OF ok lv] numbered_from [OF lv] termAt_history [OF k]
    by simp
qed

theorem log_answers_truthfully_witness:
  "getEntriesFrom (sample_log 1 [sample_entry 1 1, sample_entry 2 1]) 2 = [sample_entry 2 1]"
  using log_answers_truthfully [OF sample_two, of 2] by (simp add: live_def sample_log_def)

text \<open>
  C26: \<open>appendCommitted\<close> accepts an entry exactly if it belongs to the partition under a valid
  number and either is retained already under the same checksum, in which case the log does not
  change, or is the next one, intact, and no larger than the retention; the log then grows by it.
\<close>

theorem append_committed_exact:
  assumes "logged env h L"
  shows "appendCommitted env e L = Inr (e', L') \<longleftrightarrow>
    1 \<le> seqNo e \<and> seqNo e \<le> MAX_SAFE_INTEGER \<and> partitionId e = logPartitionId L \<and>
    (readEntry L (seqNo e) = Some e' \<and> checksum e' = checksum e \<and> L' = L \<or>
     readEntry L (seqNo e) = None \<and> e' = e \<and> seqNo e = localLogEnd L + 1 \<and> verifyEntryChecksum env e \<and>
     estimateEntrySize e \<le> retentionBytes L \<and> L' = snd (storeEntry e (L\<lparr>nextSeqNo := seqNo e + 1\<rparr>)))"
proof (cases "readEntry L (seqNo e)")
  case (Some x)
  have "- MAX_SAFE_INTEGER \<le> seqNo e" if "1 \<le> seqNo e"
    using that by (simp add: MAX_SAFE_INTEGER_def)
  with Some show ?thesis by (auto simp: appendCommitted_def isSafeInteger_def)
next
  case None
  have "- MAX_SAFE_INTEGER \<le> seqNo e" if "1 \<le> seqNo e"
    using that by (simp add: MAX_SAFE_INTEGER_def)
  note number = this
  have next': "nextSeqNo L = localLogEnd L + 1" using logged_keeps [OF assms] by (simp add: keeps_def)
  let ?fine = "1 \<le> seqNo e \<and> seqNo e \<le> MAX_SAFE_INTEGER \<and> partitionId e = logPartitionId L \<and>
    seqNo e = localLogEnd L + 1 \<and> verifyEntryChecksum env e \<and> estimateEntrySize e \<le> retentionBytes L"
  let ?stored = "storeEntry e (L\<lparr>nextSeqNo := seqNo e + 1\<rparr>)"
  have stored: "storeEntry e M = (e', L') \<longleftrightarrow> e' = e \<and> L' = snd (storeEntry e M)" for M
    using storeEntry_entry [of e M] by (cases "storeEntry e M") auto
  have "?fine \<Longrightarrow> appendCommitted env e L = Inr ?stored"
    using None number next' by (simp add: appendCommitted_def isSafeInteger_def assertEntryFitsRetention_def)
  moreover have "\<not> ?fine \<Longrightarrow> \<exists>err. appendCommitted env e L = Inl err"
    using None number next'
    by (simp add: appendCommitted_def isSafeInteger_def assertEntryFitsRetention_def Let_def not_le not_less)
      (meson not_less)
  ultimately consider "?fine" "appendCommitted env e L = Inr ?stored" | "\<not> ?fine" "\<exists>err. appendCommitted env e L = Inl err"
    by blast
  then show ?thesis
  proof cases
    case 1
    then show ?thesis using None by (simp add: stored)
  next
    case 2
    then show ?thesis using None by auto
  qed
qed

theorem append_committed_exact_witness:
  "\<nexists>L'. appendCommitted sample_env (sample_entry 3 1) (sample_log 1 [sample_entry 1 1])
      = Inr (sample_entry 3 1, L')"
  using append_committed_exact [OF sample_one, of "sample_entry 3 1" "sample_entry 3 1"]
    readEntry_after_end [OF logged_keeps [OF sample_one], of 3] by simp

section \<open>Replicas\<close>

text \<open>
  C18: where a primary answers a sync request incrementally, it still retains every entry after
  the one the replica named: the answer is the history from there to the end, without a gap.
\<close>

theorem incremental_sync_has_no_gap:
  assumes "logged env h L" and "0 \<le> seedSeqNo L" and "0 \<le> n" and "decideSyncTier L n tm = Incremental"
  shows "seedSeqNo L \<le> n \<and> n \<le> localLogEnd L \<and>
    getEntriesFrom L (n + 1) = drop (nat (n - seedSeqNo L)) h"
  using incremental_is_complete [OF logged_keeps [OF assms(1)] assms(2-4)] by blast

theorem incremental_sync_has_no_gap_witness:
  "getEntriesFrom (sample_log 1 [sample_entry 1 1, sample_entry 2 1]) (0 + 1)
     = [sample_entry 1 1, sample_entry 2 1]"
  using incremental_sync_has_no_gap [OF sample_two, of 0 0]
  by (simp add: sample_log_def decideSyncTier_def oldestSeqNo_def liveCount_def entryAt_def)



text \<open>
  C8: log matching. Whatever slice of the primary's log a replica is sent together with the
  term before it, and whatever the replica holds, rejects or fails to apply, the replica's log
  afterwards matches the primary's if it did before: entries of the same number and term are
  preceded by the same entries.
\<close>

theorem replica_keeps_log_matching:
  assumes "keeps env hp P" and "keeps env hr R" and "0 \<le> seedSeqNo P" and "0 \<le> seedSeqNo R"
    and "matching (history_of P hp) (history_of R hr)"
    and "es = take k (getEntriesFrom P n)" and "es \<noteq> []"
    and "previousTermOf P (seqNo (hd es)) = Some prev"
    and "applyEntriesInLogOrder env engine synced es (Some prev) R s = (err, R', s')"
  shows "\<exists>hr'. keeps env hr' R' \<and> matching (history_of P hp) (history_of R' hr') \<and> 0 \<le> seedSeqNo R'"
  using batch_keeps_matching [OF assms(1-8), of engine synced s] assms(9) by (auto simp: outcome_matches_def)

theorem replica_keeps_log_matching_witness:
  "\<exists>err R' s' hr'.
     applyEntriesInLogOrder sample_env (\<lambda>run s. (length run, s)) False
       [sample_entry 2 1] (Some 1) (sample_log 2 [sample_entry 1 2]) () = (err, R', s') \<and>
     keeps sample_env hr' R' \<and>
     matching (history_of (sample_log 1 [sample_entry 1 1, sample_entry 2 1]) [sample_entry 1 1, sample_entry 2 1])
       (history_of R' hr')"
proof -
  let ?P = "sample_log 1 [sample_entry 1 1, sample_entry 2 1]" and ?hp = "[sample_entry 1 1, sample_entry 2 1]"
  let ?R = "sample_log 2 [sample_entry 1 2]" and ?hr = "[sample_entry 1 2]"
  have "logged sample_env ?hr ?R"
    using logged.appended [OF logged.created sample_append [of "[]" 2 0, unfolded sample_created]] by simp
  then have R: "keeps sample_env ?hr ?R" by (rule logged_keeps)
  have P: "keeps sample_env ?hp ?P" by (rule logged_keeps [OF sample_two])
  have "matching (history_of ?P ?hp) (history_of ?R ?hr)"
    by (auto simp: matching_def history_of_def history_term_def agree_upto_def
        nat_less_iff less_Suc_eq nth_Cons' split: if_splits)
  moreover have "[sample_entry 2 1] = take 1 (getEntriesFrom ?P 2)" by (simp add: sample_reads)
  moreover have "previousTermOf ?P (seqNo (hd [sample_entry 2 1])) = Some 1"
    by (simp add: previousTermOf_def termAt_def sample_reads)
  moreover obtain err R' s' where out: "applyEntriesInLogOrder sample_env (\<lambda>run s. (length run, s)) False
       [sample_entry 2 1] (Some 1) ?R () = (err, R', s')"
    by (metis prod.exhaust)
  ultimately show ?thesis
    using replica_keeps_log_matching [OF P R _ _ _ _ _ _ out, of 1 2] out by auto
qed

text \<open>
  C28: a node refuses a sender exactly if the sender's term is at most a term this node led, or
  below a term it accepted.
\<close>

theorem stale_sender_is_refused:
  "termRefusingSender (foldl noteTerm None told) sender = None \<longleftrightarrow>
     told = [] \<or> 0 < sender \<and> (\<forall>tm. Led tm \<in> set told \<longrightarrow> tm < sender) \<and>
                  (\<forall>tm. Accepted tm \<in> set told \<longrightarrow> tm \<le> sender)"
proof (cases told)
  case (Cons w rest)
  then have "foldl noteTerm None told = foldl noteTerm (Some \<lparr>led = 0, accepted = 0\<rparr>) told"
    by (simp only: foldl_Cons noteTerm_None)
  then show ?thesis using Cons noted_terms [of "\<lparr>led = 0, accepted = 0\<rparr>" told sender] by auto
qed (simp add: termRefusingSender_def)

theorem stale_sender_is_refused_witness:
  "termRefusingSender (foldl noteTerm None [Led 3, Accepted 2, Accepted 5]) 4 \<noteq> None \<and>
   termRefusingSender (foldl noteTerm None [Led 3, Accepted 2, Accepted 5]) 5 = None"
  using stale_sender_is_refused [of "[Led 3, Accepted 2, Accepted 5]" 4]
    stale_sender_is_refused [of "[Led 3, Accepted 2, Accepted 5]" 5] by auto

end
