(* ===== verification/Cluster_Types.thy ===== *)
theory Cluster_Types
  imports Js_Values
begin

text \<open>
  The shared state of a cluster, \<open>distribution/coordinator/types\<close>: node registrations, partition
  assignments and allocation tables, with what every assignment of a healthy table satisfies.

  An absent field and a field that holds \<open>undefined\<close> are both \<open>None\<close>. A registration carries only
  the fields that the allocator reads.
\<close>

type_synonym node_id = js_string
type_synonym partition_id = int

datatype partition_state = UNASSIGNED | INITIALISING | ACTIVE | MIGRATING | DECOMMISSIONING

datatype unassigned_reason =
  HOLDER_OFFLINE | HOLDER_UNREACHABLE | HOLDER_IDENTITY_MISMATCH | HOLDER_WITHOUT_DATA

record partition_assignment =
  primary :: "node_id option"
  replicas :: "node_id list"
  inSyncSet :: "node_id list"
  removingReplicas :: "node_id list option"
  lastHolders :: "node_id list option"
  partitionState :: partition_state
  assignedTerm :: int
  commitPoint :: int
  unassignedReason :: "unassigned_reason option"

type_synonym assignments = "(partition_id, partition_assignment) js_map"

record allocation_table =
  tableIndexName :: js_string
  tableVersion :: int
  replicationFactor :: int
  tableAssignments :: assignments
  generation :: "js_string option"
  indexUuid :: "js_string option"

datatype node_role = Data_Role | Coordinator_Role | Controller_Role

record node_registration =
  nodeId :: node_id
  roles :: "node_role list"
  memoryBytes :: rat
  metadata :: "(js_string, js_string) js_map"
  memoryFull :: bool
  partitionBytes :: "(js_string \<times> (int \<times> rat) list) list"
  draining :: bool

record allocation_constraints =
  zoneAwareness :: bool
  zoneAttribute :: js_string
  maxShardsPerNode :: "int option"

section \<open>Last holders\<close>

definition lastHoldersOf :: "partition_assignment \<Rightarrow> node_id list" where
  "lastHoldersOf a = (case lastHolders a of Some holders \<Rightarrow> holders | None \<Rightarrow> [])"

definition holdsLastCopy :: "partition_assignment \<Rightarrow> node_id \<Rightarrow> bool" where
  "holdsLastCopy a node \<longleftrightarrow> node \<in> set (lastHoldersOf a)"

section \<open>Healthy assignments\<close>

text \<open>The nodes that hold every acknowledged write: the primary and the in-sync replicas.\<close>

definition caught_up :: "partition_assignment \<Rightarrow> node_id set" where
  "caught_up a = set_option (primary a) \<union> set (inSyncSet a)"

definition copies :: "partition_assignment \<Rightarrow> node_id set" where
  "copies a = set_option (primary a) \<union> set (replicas a)"

definition assignment_ok :: "partition_assignment \<Rightarrow> bool" where
  "assignment_ok a \<longleftrightarrow>
     distinct (replicas a) \<and> primary a \<notin> Some ` set (replicas a) \<and>
     set (inSyncSet a) \<subseteq> set (replicas a) \<and> distinct (inSyncSet a) \<and>
     (partitionState a = UNASSIGNED \<longleftrightarrow> primary a = None) \<and>
     (primary a = None \<longrightarrow> replicas a = []) \<and>
     (\<forall>removing. removingReplicas a = Some removing \<longrightarrow> removing \<noteq> [] \<and> set removing \<subseteq> set (replicas a))"

definition table_ok :: "assignments \<Rightarrow> bool" where
  "table_ok as \<longleftrightarrow> distinct (mapKeys as) \<and> (\<forall>k a. mapGet as k = Some a \<longrightarrow> assignment_ok a)"

end
