(* ===== verification/Allocator_Weights.thy ===== *)
theory Allocator_Weights
  imports Cluster_Types
begin

text \<open>
  How the allocator weighs nodes and admits candidates: \<open>distribution/cluster/allocator/\<close>, files
  \<open>weight.ts\<close>, \<open>partition-sizes.ts\<close>, \<open>leadership.ts\<close> (the shares) and \<open>deciders/\<close>. The lemmas show
  what a chosen node satisfies: it is a candidate that no decider refuses, hence a registered node
  that is not draining and holds no copy of the partition yet.
\<close>

datatype replica_role = Primary_Role | Replica_Role
datatype verdict = YES | NO | THROTTLE

definition ESTIMATED_PARTITION_BYTES :: rat where "ESTIMATED_PARTITION_BYTES = 50 * 1024 * 1024"

section \<open>Counts and weights\<close>

definition countUp :: "node_id \<Rightarrow> (node_id, int) js_map \<Rightarrow> (node_id, int) js_map" where
  "countUp node counts = mapSet node (mapGetOr 0 counts node + 1) counts"

definition countAssignment :: "partition_assignment \<Rightarrow> (node_id, int) js_map \<Rightarrow> (node_id, int) js_map" where
  "countAssignment a counts =
     (let counts = (case primary a of Some node \<Rightarrow> countUp node counts | None \<Rightarrow> counts)
      in foldl (\<lambda>counts replica.
           if (case removingReplicas a of Some removing \<Rightarrow> replica \<in> set removing | None \<Rightarrow> False)
           then counts else countUp replica counts) counts (replicas a))"

definition countNodeAssignments :: "assignments \<Rightarrow> (node_id, int) js_map" where
  "countNodeAssignments as = foldl (\<lambda>counts (k, a). countAssignment a counts) [] as"

definition countPrimaryAssignments :: "assignments \<Rightarrow> (node_id, int) js_map" where
  "countPrimaryAssignments as =
     foldl (\<lambda>counts (k, a). case primary a of Some node \<Rightarrow> countUp node counts | None \<Rightarrow> counts) [] as"

record node_weight =
  weightNodeId :: node_id
  weight :: jsnum
  partitionCount :: int
  primaryWeight :: jsnum
  primaryCount :: int
  capacity :: rat

definition totalCapacity :: "rounding \<Rightarrow> node_registration list \<Rightarrow> rat" where
  "totalCapacity fl nodes = foldl (\<lambda>total node. fl (total + memoryBytes node)) 0 nodes"

definition averageCapacity :: "rounding \<Rightarrow> node_registration list \<Rightarrow> rat" where
  "averageCapacity fl nodes =
     (if nodes = [] then 0 else fl (totalCapacity fl nodes / of_nat (length nodes)))"

definition computeNodeWeights :: "rounding \<Rightarrow> node_registration list \<Rightarrow> assignments \<Rightarrow> node_weight list" where
  "computeNodeWeights fl nodes as =
     (let assignmentCounts = countNodeAssignments as; primaryCounts = countPrimaryAssignments as;
          average = averageCapacity fl nodes;
          weights = map (\<lambda>node.
            let pc = mapGetOr 0 assignmentCounts (nodeId node); lc = mapGetOr 0 primaryCounts (nodeId node);
                normalizedCapacity = (if 0 < average then fl (memoryBytes node / average) else 1)
            in \<lparr>weightNodeId = nodeId node, weight = jsDiv fl (of_int pc) normalizedCapacity,
                partitionCount = pc, primaryWeight = jsDiv fl (of_int lc) normalizedCapacity,
                primaryCount = lc, capacity = memoryBytes node\<rparr>) nodes
      in jsSort (\<lambda>a b. stringLess (weightNodeId a) (weightNodeId b)) weights)"

definition capacityShares :: "rounding \<Rightarrow> node_registration list \<Rightarrow> (node_id, rat) js_map" where
  "capacityShares fl nodes =
     (let average = averageCapacity fl nodes
      in foldl (\<lambda>shares node.
           mapSet (nodeId node) (if 0 < average then fl (memoryBytes node / average) else 1) shares) [] nodes)"

text \<open>\<open>loadOf\<close> and \<open>primaryLoadOf\<close>, the same function in two files.\<close>

definition loadOf :: "rounding \<Rightarrow> node_id \<Rightarrow> (node_id, int) js_map \<Rightarrow> (node_id, rat) js_map \<Rightarrow> rat" where
  "loadOf fl node counts shares =
     fl (of_int (mapGetOr 0 counts node)
         / (case mapGet shares node of None \<Rightarrow> 1 | Some share \<Rightarrow> if share \<le> 0 then 1 else share))"

section \<open>Partition sizes\<close>

record partition_sizes =
  largestByPartition :: "(partition_id, rat) js_map"
  reportedByNode :: "(node_id, partition_id list) js_map"
  reportedBytesByNode :: "(node_id, rat) js_map"

definition MAX_SAFE_PARTITION :: int where "MAX_SAFE_PARTITION = 2 ^ 53 - 1"

definition reportedEntriesOf :: "node_registration \<Rightarrow> (js_string \<times> partition_id \<times> rat) list" where
  "reportedEntriesOf node =
     concat (map (\<lambda>(name, pairs).
       map (\<lambda>(pid, bytes). (name, pid, bytes))
         (filter (\<lambda>(pid, bytes). 0 \<le> pid \<and> pid \<le> MAX_SAFE_PARTITION \<and> 0 \<le> bytes) pairs)) (partitionBytes node))"

definition readNodeSizes ::
  "rounding \<Rightarrow> js_string \<Rightarrow> node_registration \<Rightarrow> partition_sizes \<Rightarrow> partition_sizes" where
  "readNodeSizes fl name node sizes =
     (let (here, bytesHere, largest) =
        foldl (\<lambda>(here, total, largest) (entryName, pid, bytes).
            let total = fl (total + bytes)
            in if entryName \<noteq> name then (here, total, largest)
               else (List.insert pid here, total,
                     mapSet pid (max (mapGetOr 0 largest pid) bytes) largest))
          ([], 0, largestByPartition sizes) (reportedEntriesOf node)
      in sizes\<lparr>largestByPartition := largest,
               reportedByNode := mapSet (nodeId node) here (reportedByNode sizes),
               reportedBytesByNode := mapSet (nodeId node) bytesHere (reportedBytesByNode sizes)\<rparr>)"

definition readPartitionSizes :: "rounding \<Rightarrow> node_registration list \<Rightarrow> js_string \<Rightarrow> partition_sizes" where
  "readPartitionSizes fl nodes name =
     foldl (\<lambda>sizes node. readNodeSizes fl name node sizes)
       \<lparr>largestByPartition = [], reportedByNode = [], reportedBytesByNode = []\<rparr> nodes"

definition partitionSizeOf :: "partition_sizes \<Rightarrow> partition_id \<Rightarrow> rat" where
  "partitionSizeOf sizes pid = mapGetOr ESTIMATED_PARTITION_BYTES (largestByPartition sizes) pid"

definition reportsPartition :: "partition_sizes \<Rightarrow> node_id \<Rightarrow> partition_id \<Rightarrow> bool" where
  "reportsPartition sizes node pid \<longleftrightarrow>
     (case mapGet (reportedByNode sizes) node of Some reported \<Rightarrow> pid \<in> set reported | None \<Rightarrow> False)"

definition heldBytesOf :: "rounding \<Rightarrow> partition_sizes \<Rightarrow> node_id \<Rightarrow> assignments \<Rightarrow> rat" where
  "heldBytesOf fl sizes node as =
     foldl (\<lambda>held (pid, a).
         if (primary a = Some node \<or> node \<in> set (replicas a)) \<and> \<not> reportsPartition sizes node pid
         then fl (held + partitionSizeOf sizes pid) else held)
       (mapGetOr 0 (reportedBytesByNode sizes) node) as"

section \<open>Deciders\<close>

record decider_context =
  ctxPartitionId :: partition_id
  ctxRole :: replica_role
  candidateNodeId :: node_id
  currentAssignment :: "partition_assignment option"
  allAssignments :: assignments
  nodeAssignmentCounts :: "(node_id, int) js_map"
  ctxNodes :: "(node_id, node_registration) js_map"

type_synonym decider = "decider_context \<Rightarrow> verdict"

definition drainingDecider :: decider where
  "drainingDecider c =
     (case mapGet (ctxNodes c) (candidateNodeId c) of
        Some node \<Rightarrow> if draining node then NO else YES
      | None \<Rightarrow> YES)"

definition colocationDecider :: decider where
  "colocationDecider c =
     (case currentAssignment c of
        None \<Rightarrow> YES
      | Some a \<Rightarrow>
          if ctxRole c = Primary_Role
          then (if candidateNodeId c \<in> set (replicas a) then NO else YES)
          else if primary a = Some (candidateNodeId c) then NO
          else if candidateNodeId c \<in> set (replicas a) then NO
          else YES)"

definition maxShardsDecider :: "int option \<Rightarrow> decider" where
  "maxShardsDecider limit c =
     (case limit of
        None \<Rightarrow> YES
      | Some n \<Rightarrow>
          if n \<le> mapGetOr 0 (nodeAssignmentCounts c) (candidateNodeId c) then NO else YES)"

definition capacityDecider :: "rounding \<Rightarrow> partition_sizes \<Rightarrow> decider" where
  "capacityDecider fl sizes c =
     (case mapGet (ctxNodes c) (candidateNodeId c) of
        None \<Rightarrow> NO
      | Some node \<Rightarrow>
          if memoryBytes node = 0 \<or> memoryFull node then NO
          else let addedBytes = (if reportsPartition sizes (candidateNodeId c) (ctxPartitionId c) then 0
                                 else partitionSizeOf sizes (ctxPartitionId c));
                   projectedBytes = fl (heldBytesOf fl sizes (candidateNodeId c) (allAssignments c) + addedBytes)
               in if memoryBytes node < projectedBytes then NO else YES)"

definition zoneOf :: "js_string \<Rightarrow> decider_context \<Rightarrow> node_id \<Rightarrow> js_string option" where
  "zoneOf attribute c node =
     (case mapGet (ctxNodes c) node of Some r \<Rightarrow> mapGet (metadata r) attribute | None \<Rightarrow> None)"

definition zoneDecider :: "js_string \<Rightarrow> decider" where
  "zoneDecider attribute c =
     (case mapGet (ctxNodes c) (candidateNodeId c) of
        None \<Rightarrow> NO
      | Some candidateNode \<Rightarrow>
          (case mapGet (metadata candidateNode) attribute of
             None \<Rightarrow> YES
           | Some candidateZone \<Rightarrow>
               (case currentAssignment c of
                  None \<Rightarrow> YES
                | Some a \<Rightarrow>
                    let assignedNodes = (case primary a of Some p \<Rightarrow> [p] | None \<Rightarrow> []) @ replicas a;
                        assignedZones = List.map_filter (zoneOf attribute c) assignedNodes;
                        allZones = List.map_filter (\<lambda>(k, r). mapGet (metadata r) attribute) (ctxNodes c)
                    in if candidateZone \<notin> set assignedZones then YES
                       else if \<exists>zone\<in>set allZones. zone \<notin> set assignedZones then THROTTLE
                       else YES)))"

definition countSlots :: "assignments \<Rightarrow> nat" where
  "countSlots as = sum_list (map (\<lambda>(k, a). (if primary a \<noteq> None then 1 else 0) + length (replicas a)) as)"

definition balanceDecider :: "rounding \<Rightarrow> decider" where
  "balanceDecider fl c =
     (let nodeCount = length (ctxNodes c)
      in if nodeCount = 0 then YES
         else let idealPerNode = \<lceil>fl (of_nat (countSlots (allAssignments c)) / of_nat nodeCount)\<rceil>;
                  candidateCount = mapGetOr 0 (nodeAssignmentCounts c) (candidateNodeId c)
              in if fl (of_int idealPerNode * fl (12 / 10)) \<le> of_int candidateCount then THROTTLE else YES)"

definition createDeciderChain :: "rounding \<Rightarrow> allocation_constraints \<Rightarrow> partition_sizes \<Rightarrow> decider list" where
  "createDeciderChain fl constraints sizes =
     [drainingDecider, colocationDecider, maxShardsDecider (maxShardsPerNode constraints),
      capacityDecider fl sizes]
     @ (if zoneAwareness constraints then [zoneDecider (zoneAttribute constraints)] else [])
     @ [balanceDecider fl]"

fun runDecidersFrom :: "decider list \<Rightarrow> decider_context \<Rightarrow> bool \<Rightarrow> verdict" where
  "runDecidersFrom [] c hasThrottle = (if hasThrottle then THROTTLE else YES)"
| "runDecidersFrom (d # ds) c hasThrottle =
     (let v = d c
      in if v = NO then NO else runDecidersFrom ds c (hasThrottle \<or> v = THROTTLE))"

definition runAllDeciders :: "decider list \<Rightarrow> decider_context \<Rightarrow> verdict" where
  "runAllDeciders ds c = runDecidersFrom ds c False"

section \<open>The best node\<close>

definition lighter :: "rounding \<Rightarrow> (node_id, node_weight) js_map \<Rightarrow> replica_role \<Rightarrow> node_id \<Rightarrow> node_id \<Rightarrow> bool" where
  "lighter fl weightByNodeId role a b =
     (let of_node = (\<lambda>sel node. case mapGet weightByNodeId node of Some w \<Rightarrow> sel w | None \<Rightarrow> Num 0);
          primaryA = of_node primaryWeight a; primaryB = of_node primaryWeight b;
          weightA = of_node weight a; weightB = of_node weight b
      in if role = Primary_Role \<and> \<not> jsEq primaryA primaryB then jsLess (jsSub fl primaryA primaryB) (Num 0)
         else if \<not> jsEq weightA weightB then jsLess (jsSub fl weightA weightB) (Num 0)
         else stringLess a b)"

fun pickNode :: "decider list \<Rightarrow> decider_context \<Rightarrow> node_id list \<Rightarrow> node_id option \<Rightarrow> node_id option" where
  "pickNode ds c [] throttled = throttled"
| "pickNode ds c (node # nodes) throttled =
     (let v = runAllDeciders ds (c\<lparr>candidateNodeId := node\<rparr>)
      in if v = YES then Some node
         else pickNode ds c nodes (if v = THROTTLE \<and> throttled = None then Some node else throttled))"

definition findBestNode ::
  "rounding \<Rightarrow> node_id list \<Rightarrow> node_weight list \<Rightarrow> decider list \<Rightarrow> decider_context \<Rightarrow> node_id option" where
  "findBestNode fl candidates weights ds c =
     (let weightByNodeId = foldl (\<lambda>m w. mapSet (weightNodeId w) w m) [] weights
      in pickNode ds c (jsSort (lighter fl weightByNodeId (ctxRole c)) candidates) None)"

section \<open>What the chosen node satisfies\<close>

lemma runDecidersFrom_NO: "runDecidersFrom ds c t = NO \<longleftrightarrow> (\<exists>d\<in>set ds. d c = NO)"
  by (induction ds c t rule: runDecidersFrom.induct) (auto simp: Let_def)

lemma runDecidersFrom_YES:
  "runDecidersFrom ds c t = YES \<longleftrightarrow> \<not> t \<and> (\<forall>d\<in>set ds. d c = YES)"
proof (induction ds c t rule: runDecidersFrom.induct)
  case (2 d ds c t)
  then show ?case by (cases "d c") (auto simp: Let_def)
qed simp

lemma pickNode_admitted:
  "pickNode ds c nodes throttled = Some node \<Longrightarrow>
   node \<in> set nodes \<and> runAllDeciders ds (c\<lparr>candidateNodeId := node\<rparr>) \<noteq> NO \<or> throttled = Some node"
proof (induction nodes arbitrary: throttled)
  case (Cons n nodes)
  show ?case
  proof (cases "runAllDeciders ds (c\<lparr>candidateNodeId := n\<rparr>)")
    case YES
    then show ?thesis using Cons.prems by simp
  next
    case NO
    then show ?thesis using Cons by auto
  next
    case THROTTLE
    then show ?thesis
      using Cons.IH [of "if throttled = None then Some n else throttled"] Cons.prems
      by (cases "throttled = None") auto
  qed
qed simp

lemma findBestNode_admitted:
  assumes "findBestNode fl candidates weights ds c = Some node"
  shows "node \<in> set candidates" and "\<forall>d\<in>set ds. d (c\<lparr>candidateNodeId := node\<rparr>) \<noteq> NO"
  using assms unfolding findBestNode_def Let_def
  by (auto dest!: pickNode_admitted simp: runAllDeciders_def runDecidersFrom_NO)

text \<open>A node is found as soon as one candidate is refused by no decider.\<close>

lemma pickNode_None:
  "pickNode ds c nodes throttled = None \<longleftrightarrow>
   throttled = None \<and> (\<forall>node\<in>set nodes. runAllDeciders ds (c\<lparr>candidateNodeId := node\<rparr>) = NO)"
proof (induction nodes arbitrary: throttled)
  case (Cons n nodes)
  then show ?case by (cases "runAllDeciders ds (c\<lparr>candidateNodeId := n\<rparr>)") (auto simp: Let_def)
qed simp

lemma findBestNode_None:
  "findBestNode fl candidates weights ds c = None \<longleftrightarrow>
   (\<forall>node\<in>set candidates. \<exists>d\<in>set ds. d (c\<lparr>candidateNodeId := node\<rparr>) = NO)"
  by (simp add: findBestNode_def Let_def pickNode_None runAllDeciders_def runDecidersFrom_NO)

text \<open>A candidate that a decider only throttles is chosen only if no candidate passes outright.\<close>

lemma pickNode_YES:
  "node \<in> set nodes \<Longrightarrow> runAllDeciders ds (c\<lparr>candidateNodeId := node\<rparr>) = YES \<Longrightarrow>
   \<exists>best. pickNode ds c nodes throttled = Some best \<and> runAllDeciders ds (c\<lparr>candidateNodeId := best\<rparr>) = YES"
  by (induction nodes arbitrary: throttled) (auto simp: Let_def)

text \<open>The chain of deciders refuses nodes that drain, hold a copy, are full or are unknown.\<close>

lemma chain_admits:
  assumes "\<forall>d\<in>set (createDeciderChain fl constraints sizes). d c \<noteq> NO"
  shows "\<exists>node. mapGet (ctxNodes c) (candidateNodeId c) = Some node \<and> \<not> draining node \<and>
      memoryBytes node \<noteq> 0 \<and> \<not> memoryFull node"
    and "\<And>a. currentAssignment c = Some a \<Longrightarrow> candidateNodeId c \<notin> set (replicas a) \<and>
      (ctxRole c = Replica_Role \<longrightarrow> primary a \<noteq> Some (candidateNodeId c))"
    and "\<And>n. maxShardsPerNode constraints = Some n \<Longrightarrow>
      mapGetOr 0 (nodeAssignmentCounts c) (candidateNodeId c) < n"
proof -
  have d: "drainingDecider c \<noteq> NO" "colocationDecider c \<noteq> NO" "maxShardsDecider (maxShardsPerNode constraints) c \<noteq> NO"
    "capacityDecider fl sizes c \<noteq> NO"
    using assms by (simp_all add: createDeciderChain_def)
  show "\<exists>node. mapGet (ctxNodes c) (candidateNodeId c) = Some node \<and> \<not> draining node \<and>
      memoryBytes node \<noteq> 0 \<and> \<not> memoryFull node"
    using d(1,4) by (auto simp: drainingDecider_def capacityDecider_def split: option.splits if_splits)
  show "candidateNodeId c \<notin> set (replicas a) \<and> (ctxRole c = Replica_Role \<longrightarrow> primary a \<noteq> Some (candidateNodeId c))"
    if "currentAssignment c = Some a" for a
    using d(2) that by (auto simp: colocationDecider_def split: if_splits)
  show "mapGetOr 0 (nodeAssignmentCounts c) (candidateNodeId c) < n"
    if "maxShardsPerNode constraints = Some n" for n
    using d(3) that by (auto simp: maxShardsDecider_def split: if_splits)
qed

end
