(* ===== verification/Allocator_Moves.thy ===== *)
theory Allocator_Moves
  imports Allocator_Weights
begin

text \<open>
  The steps by which the allocator rewrites an existing table: \<open>distribution/cluster/allocator/\<close>,
  files \<open>lost-nodes.ts\<close>, \<open>moves.ts\<close>, \<open>surplus-replicas.ts\<close> and \<open>leadership.ts\<close>. The code changes the
  assignments of a cloned map in place; here each loop over the map is \<open>forEachEntry\<close>, whose body
  rewrites one assignment and may read the whole map as it stands. Sets of node ids are lists.
\<close>

section \<open>Lost nodes\<close>

definition setAdd :: "'a list \<Rightarrow> 'a \<Rightarrow> 'a list" where
  "setAdd xs x = (if x \<in> set xs then xs else xs @ [x])"

definition markUnassigned ::
  "node_id option \<Rightarrow> node_id list \<Rightarrow> partition_assignment \<Rightarrow> partition_assignment" where
  "markUnassigned lastPrimary lastInSyncSet a =
     (let holders = foldl setAdd [] (lastHoldersOf a);
          holders = foldl setAdd holders lastInSyncSet;
          holders = (case lastPrimary of Some node \<Rightarrow> setAdd holders node | None \<Rightarrow> holders)
      in a\<lparr>primary := None, replicas := [], inSyncSet := [],
           lastHolders := Some (jsSort (\<lambda>x y. compareCodePoints x y < 0) holders),
           partitionState := UNASSIGNED, removingReplicas := None\<rparr>)"

definition leastLoadedCandidate ::
  "rounding \<Rightarrow> node_id list \<Rightarrow> (node_id, int) js_map \<Rightarrow> (node_id, rat) js_map \<Rightarrow> node_id option" where
  "leastLoadedCandidate fl candidates primaryCounts shares =
     foldl (\<lambda>best candidate.
         case best of
           None \<Rightarrow> Some candidate
         | Some b \<Rightarrow>
             let bestLoad = loadOf fl b primaryCounts shares;
                 candidateLoad = loadOf fl candidate primaryCounts shares
             in if candidateLoad < bestLoad \<or> candidateLoad = bestLoad \<and> stringLess candidate b
                then Some candidate else Some b) None candidates"

definition removingIncludes :: "partition_assignment \<Rightarrow> node_id \<Rightarrow> bool" where
  "removingIncludes a node \<longleftrightarrow>
     (case removingReplicas a of Some removing \<Rightarrow> node \<in> set removing | None \<Rightarrow> False)"

definition orElse :: "'a option \<Rightarrow> 'a option \<Rightarrow> 'a option" where
  "orElse x y = (case x of Some v \<Rightarrow> Some v | None \<Rightarrow> y)"

definition promotionCandidate :: "rounding \<Rightarrow> node_id list \<Rightarrow> (node_id, int) js_map \<Rightarrow> (node_id, rat) js_map
    \<Rightarrow> partition_assignment \<Rightarrow> node_id option" where
  "promotionCandidate fl drainingIds primaryCounts shares a =
     (let inSyncCandidates = filter (\<lambda>n. n \<in> set (inSyncSet a)) (replicas a);
          staying = filter (\<lambda>n. n \<notin> set drainingIds \<and> \<not> removingIncludes a n) inSyncCandidates
      in orElse (leastLoadedCandidate fl staying primaryCounts shares)
           (leastLoadedCandidate fl inSyncCandidates primaryCounts shares))"

definition neverReachedActive :: "partition_assignment \<Rightarrow> bool" where
  "neverReachedActive a \<longleftrightarrow> partitionState a = INITIALISING \<and> lastHoldersOf a = []"

definition restartAsEmptyCopy :: "rounding \<Rightarrow> node_id list \<Rightarrow> node_id list \<Rightarrow> (node_id, rat) js_map
    \<Rightarrow> partition_assignment \<Rightarrow> (node_id, int) js_map \<Rightarrow> partition_assignment \<times> (node_id, int) js_map" where
  "restartAsEmptyCopy fl activeIds drainingIds shares a primaryCounts =
     (let placeable = (\<lambda>n. n \<in> set activeIds \<and> n \<notin> set drainingIds);
          others = jsSort (\<lambda>x y. compareCodePoints x y < 0)
                     (filter (\<lambda>n. placeable n \<and> n \<notin> set (replicas a)) activeIds)
      in case orElse (leastLoadedCandidate fl (filter placeable (replicas a)) primaryCounts shares)
                (leastLoadedCandidate fl others primaryCounts shares) of
           None \<Rightarrow> (a, primaryCounts)
         | Some chosen \<Rightarrow>
             (a\<lparr>primary := Some chosen,
                replicas := filter (\<lambda>n. n \<noteq> chosen \<and> n \<in> set activeIds) (replicas a),
                inSyncSet := [], assignedTerm := assignedTerm a + 1,
                lastHolders := None, removingReplicas := None\<rparr>,
              countUp chosen primaryCounts))"

definition keepRemovingReplicasHeld :: "partition_assignment \<Rightarrow> partition_assignment" where
  "keepRemovingReplicasHeld a =
     (let removing = (case removingReplicas a of
                        Some removing \<Rightarrow> filter (\<lambda>n. n \<in> set (replicas a)) removing | None \<Rightarrow> [])
      in a\<lparr>removingReplicas := if removing \<noteq> [] then Some removing else None\<rparr>)"

definition handleLostAssignment :: "rounding \<Rightarrow> node_id list \<Rightarrow> node_id list \<Rightarrow> (node_id, rat) js_map
    \<Rightarrow> node_id list \<Rightarrow> partition_assignment \<Rightarrow> (node_id, int) js_map
    \<Rightarrow> partition_assignment \<times> (node_id, int) js_map" where
  "handleLostAssignment fl activeIds retainedIds shares drainingIds a primaryCounts =
     (if partitionState a = UNASSIGNED then (a, primaryCounts)
      else let lastPrimary = primary a; lastInSyncSet = inSyncSet a;
               primaryWasLost = (case lastPrimary of Some node \<Rightarrow> node \<notin> set activeIds | None \<Rightarrow> False)
           in if primaryWasLost \<and> neverReachedActive a
              then restartAsEmptyCopy fl activeIds drainingIds shares a primaryCounts
              else let a = (if primaryWasLost then a\<lparr>primary := None\<rparr> else a);
                       a = a\<lparr>replicas := filter (\<lambda>n. n \<in> set activeIds \<or> n \<in> set retainedIds) (replicas a),
                             inSyncSet := filter (\<lambda>n. n \<in> set activeIds) (inSyncSet a)\<rparr>;
                       a = keepRemovingReplicasHeld a
                   in if \<not> primaryWasLost
                      then (if primary a = None then markUnassigned lastPrimary lastInSyncSet a else a,
                            primaryCounts)
                      else case promotionCandidate fl drainingIds primaryCounts shares a of
                             None \<Rightarrow> (markUnassigned lastPrimary lastInSyncSet a, primaryCounts)
                           | Some promoted \<Rightarrow>
                               let a = a\<lparr>primary := Some promoted,
                                         replicas := filter (\<lambda>n. n \<noteq> promoted) (replicas a),
                                         inSyncSet := filter (\<lambda>n. n \<noteq> promoted) (inSyncSet a)\<rparr>;
                                   a = (case lastPrimary of
                                          Some node \<Rightarrow> if node \<in> set retainedIds
                                                       then a\<lparr>replicas := replicas a @ [node]\<rparr> else a
                                        | None \<Rightarrow> a);
                                   a = keepRemovingReplicasHeld a
                               in (a\<lparr>assignedTerm := assignedTerm a + 1\<rparr>, countUp promoted primaryCounts))"

definition handleLostNodes :: "rounding \<Rightarrow> node_id list \<Rightarrow> node_id list \<Rightarrow> (node_id, rat) js_map
    \<Rightarrow> node_id list \<Rightarrow> assignments \<Rightarrow> assignments" where
  "handleLostNodes fl activeIds retainedIds shares drainingIds as =
     fst (forEachEntry
       (\<lambda>m k a counts. handleLostAssignment fl activeIds retainedIds shares drainingIds a counts)
       as (countPrimaryAssignments as))"

section \<open>Moves\<close>

record placement_context =
  placementNodes :: "node_registration list"
  nodeMap :: "(node_id, node_registration) js_map"
  placeConstraints :: allocation_constraints
  placeSizes :: partition_sizes
  drainingNodeIds :: "node_id list"

definition replicasOutsideMove :: "partition_assignment \<Rightarrow> node_id list" where
  "replicasOutsideMove a =
     (case removingReplicas a of
        None \<Rightarrow> replicas a
      | Some removing \<Rightarrow> filter (\<lambda>n. n \<notin> set removing) (replicas a))"

definition replicaContext :: "assignments \<Rightarrow> partition_id \<Rightarrow> partition_assignment
    \<Rightarrow> (node_id, node_registration) js_map \<Rightarrow> decider_context" where
  "replicaContext as pid a nodes =
     \<lparr>ctxPartitionId = pid, ctxRole = Replica_Role, candidateNodeId = [], currentAssignment = Some a,
      allAssignments = as, nodeAssignmentCounts = countNodeAssignments as, ctxNodes = nodes\<rparr>"

definition placeReplica :: "rounding \<Rightarrow> placement_context \<Rightarrow> assignments \<Rightarrow> partition_id
    \<Rightarrow> partition_assignment \<Rightarrow> node_id option" where
  "placeReplica fl P as pid a =
     findBestNode fl (map nodeId (placementNodes P)) (computeNodeWeights fl (placementNodes P) as)
       (createDeciderChain fl (placeConstraints P) (placeSizes P)) (replicaContext as pid a (nodeMap P))"

definition settleMove :: "int \<Rightarrow> partition_assignment \<Rightarrow> partition_assignment" where
  "settleMove factor a =
     (case removingReplicas a of
        None \<Rightarrow> a
      | Some removingAll \<Rightarrow>
          let removing = filter (\<lambda>n. n \<in> set (replicas a)) removingAll;
              a = a\<lparr>removingReplicas := None\<rparr>
          in if removing = [] then a
             else let outside = filter (\<lambda>n. n \<notin> set removing) (replicas a);
                      inSyncOutside = filter (\<lambda>n. n \<in> set (inSyncSet a)) outside
                  in if factor \<le> int (length inSyncOutside)
                     then a\<lparr>replicas := outside,
                            inSyncSet := filter (\<lambda>n. n \<notin> set removing) (inSyncSet a)\<rparr>
                     else if factor \<le> int (length outside) then a\<lparr>removingReplicas := Some removing\<rparr>
                     else a)"

definition settleMoves :: "int \<Rightarrow> assignments \<Rightarrow> assignments" where
  "settleMoves factor as = fst (forEachEntry (\<lambda>m k a u. (settleMove factor a, u)) as ())"

definition seedSuccessor :: "rounding \<Rightarrow> placement_context \<Rightarrow> assignments \<Rightarrow> partition_id
    \<Rightarrow> partition_assignment \<Rightarrow> partition_assignment" where
  "seedSuccessor fl P as pid a =
     (if removingReplicas a \<noteq> None then a
      else if \<exists>n\<in>set (replicas a). n \<notin> set (drainingNodeIds P) then a
      else case placeReplica fl P as pid a of
             Some target \<Rightarrow> a\<lparr>replicas := replicas a @ [target]\<rparr>
           | None \<Rightarrow> a)"

definition handOverLead :: "rounding \<Rightarrow> placement_context \<Rightarrow> (node_id, rat) js_map \<Rightarrow> assignments
    \<Rightarrow> partition_id \<Rightarrow> partition_assignment \<Rightarrow> (node_id, int) js_map
    \<Rightarrow> partition_assignment \<times> (node_id, int) js_map" where
  "handOverLead fl P shares as pid a primaryCounts =
     (case primary a of
        None \<Rightarrow> (a, primaryCounts)
      | Some leader \<Rightarrow>
          if partitionState a \<noteq> ACTIVE \<or> leader \<notin> set (drainingNodeIds P) then (a, primaryCounts)
          else let staying = filter (\<lambda>n. n \<in> set (inSyncSet a) \<and> n \<notin> set (drainingNodeIds P))
                               (replicasOutsideMove a)
               in case leastLoadedCandidate fl staying primaryCounts shares of
                    None \<Rightarrow> (seedSuccessor fl P as pid a, primaryCounts)
                  | Some successor \<Rightarrow>
                      let primaryCounts = countUp successor primaryCounts;
                          primaryCounts = mapSet leader (mapGetOr 1 primaryCounts leader - 1) primaryCounts
                      in (a\<lparr>primary := Some successor,
                            replicas := filter (\<lambda>n. n \<noteq> successor) (replicas a) @ [leader],
                            inSyncSet := filter (\<lambda>n. n \<noteq> successor \<and> n \<noteq> leader) (inSyncSet a) @ [leader],
                            assignedTerm := assignedTerm a + 1\<rparr>, primaryCounts))"

definition handOverDrainingLeads ::
  "rounding \<Rightarrow> placement_context \<Rightarrow> (node_id, rat) js_map \<Rightarrow> assignments \<Rightarrow> assignments" where
  "handOverDrainingLeads fl P shares as =
     fst (forEachEntry (handOverLead fl P shares) as (countPrimaryAssignments as))"

definition moveDrainingReplica :: "rounding \<Rightarrow> placement_context \<Rightarrow> int \<Rightarrow> assignments \<Rightarrow> partition_id
    \<Rightarrow> partition_assignment \<Rightarrow> partition_assignment" where
  "moveDrainingReplica fl P factor as pid a =
     (if partitionState a \<noteq> ACTIVE \<or> removingReplicas a \<noteq> None then a
      else case primary a of
        None \<Rightarrow> a
      | Some leader \<Rightarrow>
          if leader \<in> set (drainingNodeIds P) then a
          else case List.find (\<lambda>n. n \<in> set (drainingNodeIds P)) (replicas a) of
                 None \<Rightarrow> a
               | Some source \<Rightarrow>
                   let staying = filter (\<lambda>n. n \<noteq> source \<and> n \<in> set (inSyncSet a) \<and>
                                             n \<notin> set (drainingNodeIds P)) (replicas a)
                   in if int (length staying) < factor
                      then (case placeReplica fl P as pid a of
                              None \<Rightarrow> a
                            | Some target \<Rightarrow> a\<lparr>replicas := replicas a @ [target], removingReplicas := Some [source]\<rparr>)
                      else a\<lparr>removingReplicas := Some [source]\<rparr>)"

definition moveDrainingReplicas ::
  "rounding \<Rightarrow> placement_context \<Rightarrow> int \<Rightarrow> assignments \<Rightarrow> assignments" where
  "moveDrainingReplicas fl P factor as =
     fst (forEachEntry (\<lambda>m k a u. (moveDrainingReplica fl P factor m k a, u)) as ())"

section \<open>Surplus replicas\<close>

definition weightOf :: "(node_id, jsnum) js_map \<Rightarrow> node_id \<Rightarrow> jsnum" where
  "weightOf weights node = mapGetOr PosInf weights node"

definition surplusBefore :: "partition_assignment \<Rightarrow> (node_id, jsnum) js_map \<Rightarrow> node_id list
    \<Rightarrow> node_id \<Rightarrow> node_id \<Rightarrow> bool" where
  "surplusBefore a weights drainingIds candidate current =
     (let candidateDrains = (candidate \<in> set drainingIds); currentDrains = (current \<in> set drainingIds);
          candidateLags = (candidate \<notin> set (inSyncSet a)); currentLags = (current \<notin> set (inSyncSet a));
          candidateWeight = weightOf weights candidate; currentWeight = weightOf weights current
      in if candidateDrains \<noteq> currentDrains then candidateDrains
         else if candidateLags \<noteq> currentLags then candidateLags
         else jsLess currentWeight candidateWeight
              \<or> jsEq candidateWeight currentWeight \<and> stringLess current candidate)"

definition surplusCandidate :: "partition_assignment \<Rightarrow> (node_id, jsnum) js_map \<Rightarrow> node_id list \<Rightarrow> nat option" where
  "surplusCandidate a weights drainingIds =
     foldl (\<lambda>chosen index.
         case chosen of
           None \<Rightarrow> Some index
         | Some c \<Rightarrow> if surplusBefore a weights drainingIds (replicas a ! index) (replicas a ! c)
                     then Some index else Some c) None [0..<length (replicas a)]"

definition removeReplica :: "nat \<Rightarrow> partition_assignment \<Rightarrow> partition_assignment" where
  "removeReplica index a =
     a\<lparr>replicas := take index (replicas a) @ drop (index + 1) (replicas a),
       inSyncSet := filter (\<lambda>n. n \<noteq> replicas a ! index) (inSyncSet a)\<rparr>"

lemma surplusCandidate_range: "surplusCandidate a weights drainingIds = Some i \<Longrightarrow> i < length (replicas a)"
proof -
  have "foldl (\<lambda>chosen index. case chosen of None \<Rightarrow> Some index
        | Some c \<Rightarrow> if surplusBefore a weights drainingIds (replicas a ! index) (replicas a ! c)
                    then Some index else Some c) chosen is = Some i \<Longrightarrow> i \<in> set is \<or> chosen = Some i" for chosen "is"
    by (induction "is" arbitrary: chosen) (auto split: option.splits if_splits)
  then show "surplusCandidate a weights drainingIds = Some i \<Longrightarrow> ?thesis"
    unfolding surplusCandidate_def by fastforce
qed

function trimLoop :: "rounding \<Rightarrow> node_registration list \<Rightarrow> int \<Rightarrow> node_id list \<Rightarrow> assignments
    \<Rightarrow> partition_id \<Rightarrow> partition_assignment \<Rightarrow> partition_assignment" where
  "trimLoop fl nodes factor drainingIds as pid a =
     (if factor < int (length (replicas a))
      then let weights = foldl (\<lambda>m w. mapSet (weightNodeId w) (weight w) m) []
                           (computeNodeWeights fl nodes (mapSet pid a as))
           in case surplusCandidate a weights drainingIds of
                None \<Rightarrow> a
              | Some index \<Rightarrow> trimLoop fl nodes factor drainingIds as pid (removeReplica index a)
      else a)"
  by pat_completeness auto
termination
  by (relation "measure (\<lambda>(_, _, _, _, _, _, a). length (replicas a))")
    (auto dest!: surplusCandidate_range simp: removeReplica_def)

declare trimLoop.simps [simp del]

definition trimSurplusReplicas :: "rounding \<Rightarrow> node_registration list \<Rightarrow> int \<Rightarrow> node_id list
    \<Rightarrow> assignments \<Rightarrow> assignments" where
  "trimSurplusReplicas fl nodes factor drainingIds as =
     fst (forEachEntry (\<lambda>m k a u.
         (if removingReplicas a \<noteq> None then a
          else if (case primary a of Some p \<Rightarrow> p \<in> set drainingIds | None \<Rightarrow> False) then a
          else trimLoop fl nodes factor drainingIds m k a, u)) as ())"

section \<open>Leadership\<close>

definition LEADERSHIP_IMBALANCE_THRESHOLD :: rat where "LEADERSHIP_IMBALANCE_THRESHOLD = 2"

definition heaviestLeader :: "rounding \<Rightarrow> (node_id, rat) js_map \<Rightarrow> (node_id, int) js_map \<Rightarrow> node_id list
    \<Rightarrow> node_id option" where
  "heaviestLeader fl shares counts withoutHandover =
     foldl (\<lambda>heaviest node.
         if node \<in> set withoutHandover then heaviest
         else case heaviest of
                None \<Rightarrow> Some node
              | Some h \<Rightarrow> if loadOf fl h counts shares < loadOf fl node counts shares then Some node else Some h)
       None (mapKeys shares)"

definition swapCandidates :: "node_id \<Rightarrow> node_id list \<Rightarrow> assignments \<Rightarrow> (partition_id \<times> node_id) list" where
  "swapCandidates heaviest excludedIds as =
     concat (map (\<lambda>(pid, a).
       if partitionState a \<noteq> ACTIVE \<or> primary a \<noteq> Some heaviest \<or> removingReplicas a \<noteq> None then []
       else map (\<lambda>n. (pid, n)) (filter (\<lambda>n. n \<notin> set excludedIds) (inSyncSet a))) as)"

definition findSwap :: "rounding \<Rightarrow> assignments \<Rightarrow> node_id \<Rightarrow> (node_id, int) js_map \<Rightarrow> (node_id, rat) js_map
    \<Rightarrow> node_id list \<Rightarrow> (partition_id \<times> node_id) option" where
  "findSwap fl as heaviest counts shares excludedIds =
     (let heaviestLoad = loadOf fl heaviest counts shares
      in foldl (\<lambda>best (pid, candidate).
           let candidateLoad = loadOf fl candidate counts shares
           in if fl (heaviestLoad - candidateLoad) < LEADERSHIP_IMBALANCE_THRESHOLD then best
              else case best of
                     None \<Rightarrow> Some (pid, candidate)
                   | Some (p, c) \<Rightarrow>
                       if candidateLoad < loadOf fl c counts shares then Some (pid, candidate) else Some (p, c))
           None (swapCandidates heaviest excludedIds as))"

definition applySwap :: "node_id \<Rightarrow> node_id \<Rightarrow> partition_assignment \<Rightarrow> partition_assignment" where
  "applySwap candidate previousPrimary a =
     a\<lparr>primary := Some candidate,
       replicas := filter (\<lambda>n. n \<noteq> candidate) (replicas a) @ [previousPrimary],
       inSyncSet := filter (\<lambda>n. n \<noteq> candidate \<and> n \<noteq> previousPrimary) (inSyncSet a) @ [previousPrimary],
       assignedTerm := assignedTerm a + 1\<rparr>"

text \<open>The loop runs at most once per partition; \<open>n\<close> counts the rounds left.\<close>

fun leadershipLoop :: "rounding \<Rightarrow> (node_id, rat) js_map \<Rightarrow> node_id list \<Rightarrow> nat \<Rightarrow> node_id list
    \<Rightarrow> assignments \<Rightarrow> assignments" where
  "leadershipLoop fl shares excludedIds 0 withoutHandover as = as"
| "leadershipLoop fl shares excludedIds (Suc n) withoutHandover as =
     (let counts = countPrimaryAssignments as
      in case heaviestLeader fl shares counts withoutHandover of
           None \<Rightarrow> as
         | Some heaviest \<Rightarrow>
             (case findSwap fl as heaviest counts shares excludedIds of
                None \<Rightarrow> leadershipLoop fl shares excludedIds n (setAdd withoutHandover heaviest) as
              | Some (pid, candidate) \<Rightarrow>
                  (case mapGet as pid of
                     None \<Rightarrow> as
                   | Some a \<Rightarrow>
                       leadershipLoop fl shares excludedIds n withoutHandover
                         (mapSet pid (applySwap candidate heaviest a) as))))"

definition rebalanceLeadership ::
  "rounding \<Rightarrow> (node_id, rat) js_map \<Rightarrow> node_id list \<Rightarrow> assignments \<Rightarrow> assignments" where
  "rebalanceLeadership fl shares excludedIds as =
     leadershipLoop fl shares excludedIds (length as) [] as"

end
