(* ===== verification/Allocator.thy ===== *)
theory Allocator
  imports Allocator_Moves
begin

text \<open>
  The allocator: \<open>distribution/cluster/allocator/\<close>, files \<open>rebalance.ts\<close>, \<open>initial.ts\<close> and
  \<open>index.ts\<close>. A warning is the partition with the number of its replicas instead of a message.

  The code passes the chain of deciders around; it is always the chain that \<open>allocate\<close> makes from
  the constraints and the reported sizes, which are what is passed around here. That the loop
  that fills the replica slots ends rests on it: a placed node is one that holds no copy yet.
\<close>

definition REBALANCE_THRESHOLD :: rat where "REBALANCE_THRESHOLD = 1 / 10"

section \<open>Filling replica slots\<close>

lemma placeReplica_fresh:
  assumes "placeReplica fl P as pid a = Some node"
  shows "node \<in> nodeId ` set (placementNodes P)" and "node \<notin> set (replicas a)" and "primary a \<noteq> Some node"
    and "\<exists>r. mapGet (nodeMap P) node = Some r \<and> \<not> draining r \<and> memoryBytes r \<noteq> 0 \<and> \<not> memoryFull r"
    and "\<And>n. maxShardsPerNode (placeConstraints P) = Some n \<Longrightarrow> mapGetOr 0 (countNodeAssignments as) node < n"
proof -
  note found = findBestNode_admitted [OF assms [unfolded placeReplica_def]]
  let ?c = "(replicaContext as pid a (nodeMap P))\<lparr>candidateNodeId := node\<rparr>"
  from found(1) show "node \<in> nodeId ` set (placementNodes P)" by simp
  note admitted = chain_admits [OF found(2)]
  show "node \<notin> set (replicas a)" "primary a \<noteq> Some node"
    using admitted(2) [of a] by (simp_all add: replicaContext_def)
  show "\<exists>r. mapGet (nodeMap P) node = Some r \<and> \<not> draining r \<and> memoryBytes r \<noteq> 0 \<and> \<not> memoryFull r"
    using admitted(1) by (simp add: replicaContext_def)
  show "mapGetOr 0 (countNodeAssignments as) node < n" if "maxShardsPerNode (placeConstraints P) = Some n" for n
    using admitted(3) [OF that] by (simp add: replicaContext_def)
qed

function fillLoop :: "rounding \<Rightarrow> placement_context \<Rightarrow> int \<Rightarrow> assignments \<Rightarrow> partition_id
    \<Rightarrow> partition_assignment \<Rightarrow> partition_assignment" where
  "fillLoop fl P factor as pid a =
     (if int (length (replicasOutsideMove a)) < factor
      then case placeReplica fl P (mapSet pid a as) pid a of
             None \<Rightarrow> a
           | Some node \<Rightarrow> fillLoop fl P factor as pid (a\<lparr>replicas := replicas a @ [node]\<rparr>)
      else a)"
  by pat_completeness auto
termination
proof (relation "measure (\<lambda>(fl, P, factor, as, pid, a).
    card (nodeId ` set (placementNodes P) - set (replicas a)))", goal_cases)
  case (2 fl P factor as pid a node)
  note fresh = placeReplica_fresh(1,2) [OF 2(2)]
  have "nodeId ` set (placementNodes P) - insert node (set (replicas a))
      \<subset> nodeId ` set (placementNodes P) - set (replicas a)"
    using fresh by blast
  then show ?case by (simp add: psubset_card_mono)
qed simp

declare fillLoop.simps [simp del]

definition fillReplicaSlots :: "rounding \<Rightarrow> placement_context \<Rightarrow> int \<Rightarrow> assignments \<Rightarrow> assignments" where
  "fillReplicaSlots fl P factor as =
     fst (forEachEntry (\<lambda>m k a u. (if primary a = None then a else fillLoop fl P factor m k a, u)) as ())"

section \<open>Evening the load out\<close>

definition slotWeightOf :: "rounding \<Rightarrow> node_id \<Rightarrow> (node_id, rat) js_map \<Rightarrow> rat" where
  "slotWeightOf fl node shares =
     fl (1 / (case mapGet shares node of None \<Rightarrow> 1 | Some share \<Rightarrow> if share \<le> 0 then 1 else share))"

definition moveNarrowsGap :: "rounding \<Rightarrow> node_weight \<Rightarrow> node_weight \<Rightarrow> (node_id, rat) js_map \<Rightarrow> bool" where
  "moveNarrowsGap fl mostLoaded leastLoaded shares =
     (let gap = jsSub fl (weight mostLoaded) (weight leastLoaded);
          afterMove = jsAbs (jsSub fl (jsSub fl gap (Num (slotWeightOf fl (weightNodeId mostLoaded) shares)))
                                      (Num (slotWeightOf fl (weightNodeId leastLoaded) shares)))
      in jsLess afterMove gap)"

record replica_move =
  fromNodeId :: node_id
  toNodeId :: node_id
  moveWeights :: "node_weight list"
  moveNodeMap :: "(node_id, node_registration) js_map"
  moveConstraints :: allocation_constraints
  moveSizes :: partition_sizes

text \<open>The first partition from which the replica can move, and whether there is one.\<close>

fun moveOneReplicaFrom :: "rounding \<Rightarrow> replica_move \<Rightarrow> bool \<Rightarrow> partition_id list \<Rightarrow> assignments
    \<Rightarrow> bool \<times> assignments" where
  "moveOneReplicaFrom fl move laggingOnly [] as = (False, as)"
| "moveOneReplicaFrom fl move laggingOnly (pid # pids) as =
     (case mapGet as pid of
        None \<Rightarrow> moveOneReplicaFrom fl move laggingOnly pids as
      | Some a \<Rightarrow>
          if removingReplicas a \<noteq> None \<or> fromNodeId move \<notin> set (replicas a)
          then moveOneReplicaFrom fl move laggingOnly pids as
          else if laggingOnly \<and> fromNodeId move \<in> set (inSyncSet a)
          then moveOneReplicaFrom fl move laggingOnly pids as
          else case findBestNode fl [toNodeId move] (moveWeights move)
                      (createDeciderChain fl (moveConstraints move) (moveSizes move))
                      (replicaContext as pid a (moveNodeMap move)) of
                 None \<Rightarrow> moveOneReplicaFrom fl move laggingOnly pids as
               | Some target \<Rightarrow>
                   (True, mapSet pid (a\<lparr>replicas := replicas a @ [target],
                                        removingReplicas := Some [fromNodeId move]\<rparr>) as))"

definition moveOneReplica :: "rounding \<Rightarrow> replica_move \<Rightarrow> bool \<Rightarrow> assignments \<Rightarrow> bool \<times> assignments" where
  "moveOneReplica fl move laggingOnly as = moveOneReplicaFrom fl move laggingOnly (mapKeys as) as"

fun balanceLoop :: "rounding \<Rightarrow> node_registration list \<Rightarrow> (node_id, node_registration) js_map
    \<Rightarrow> allocation_constraints \<Rightarrow> partition_sizes \<Rightarrow> (node_id, rat) js_map \<Rightarrow> nat \<Rightarrow> assignments \<Rightarrow> assignments" where
  "balanceLoop fl nodes nodesById constraints sizes shares 0 as = as"
| "balanceLoop fl nodes nodesById constraints sizes shares (Suc n) as =
     (let weights = computeNodeWeights fl nodes as
      in if length weights < 2 then as
         else let sorted = jsSort (\<lambda>a b. jsLess (jsSub fl (weight a) (weight b)) (Num 0)) weights;
                  leastLoaded = hd sorted; mostLoaded = last sorted
              in if jsLess (jsSub fl (weight mostLoaded) (weight leastLoaded)) (Num (fl REBALANCE_THRESHOLD)) then as
                 else if \<not> moveNarrowsGap fl mostLoaded leastLoaded shares then as
                 else let move = \<lparr>fromNodeId = weightNodeId mostLoaded, toNodeId = weightNodeId leastLoaded,
                                  moveWeights = weights, moveNodeMap = nodesById,
                                  moveConstraints = constraints, moveSizes = sizes\<rparr>;
                          (laggingFirst, as) = moveOneReplica fl move True as;
                          (moved, as) = (if laggingFirst then (True, as) else moveOneReplica fl move False as)
                      in if \<not> moved then as
                         else balanceLoop fl nodes nodesById constraints sizes shares n as)"

definition rebalanceForBalance :: "rounding \<Rightarrow> node_registration list \<Rightarrow> (node_id, node_registration) js_map
    \<Rightarrow> allocation_constraints \<Rightarrow> partition_sizes \<Rightarrow> (node_id, rat) js_map \<Rightarrow> assignments \<Rightarrow> assignments" where
  "rebalanceForBalance fl nodes nodesById constraints sizes shares as =
     balanceLoop fl nodes nodesById constraints sizes shares (countSlots as * 2) as"

section \<open>Tidying up\<close>

definition clearRecoveryState :: "partition_assignment \<Rightarrow> partition_assignment" where
  "clearRecoveryState a =
     (let a = (if partitionState a \<noteq> UNASSIGNED then a\<lparr>unassignedReason := None\<rparr> else a)
      in if partitionState a = ACTIVE then a\<lparr>lastHolders := None\<rparr> else a)"

definition clearRecoveryStateOnServedPartitions :: "assignments \<Rightarrow> assignments" where
  "clearRecoveryStateOnServedPartitions as = fst (forEachEntry (\<lambda>m k a u. (clearRecoveryState a, u)) as ())"

definition pruneInSyncSet :: "partition_assignment \<Rightarrow> partition_assignment" where
  "pruneInSyncSet a =
     (if partitionState a = UNASSIGNED then a
      else if \<exists>n\<in>set (inSyncSet a). n \<notin> set (replicas a)
      then a\<lparr>inSyncSet := filter (\<lambda>n. n \<in> set (replicas a)) (inSyncSet a)\<rparr>
      else a)"

definition pruneRemoving :: "partition_assignment \<Rightarrow> partition_assignment" where
  "pruneRemoving a =
     (case removingReplicas a of
        None \<Rightarrow> a
      | Some removingAll \<Rightarrow>
          let removing = filter (\<lambda>n. n \<in> set (replicas a)) removingAll
          in a\<lparr>removingReplicas := if removing \<noteq> [] then Some removing else None\<rparr>)"

definition pruneInSyncSets :: "assignments \<Rightarrow> assignments" where
  "pruneInSyncSets as =
     (let as = fst (forEachEntry (\<lambda>m k a u. (pruneInSyncSet a, u)) as ())
      in fst (forEachEntry (\<lambda>m k a u. (pruneRemoving a, u)) as ()))"

definition collectReplicationWarnings :: "int \<Rightarrow> assignments \<Rightarrow> (partition_id \<times> nat) list" where
  "collectReplicationWarnings factor as =
     List.map_filter (\<lambda>(pid, a).
       let replicaCount = length (replicasOutsideMove a)
       in if int replicaCount < factor then Some (pid, replicaCount) else None) as"

section \<open>Rebalancing a table\<close>

definition sortNodes :: "node_registration list \<Rightarrow> node_registration list" where
  "sortNodes nodes = jsSort (\<lambda>a b. stringLess (nodeId a) (nodeId b)) nodes"

definition nodesById :: "node_registration list \<Rightarrow> (node_id, node_registration) js_map" where
  "nodesById nodes = foldl (\<lambda>m node. mapSet (nodeId node) node m) [] nodes"

definition placementOf :: "node_registration list \<Rightarrow> allocation_constraints \<Rightarrow> partition_sizes \<Rightarrow> placement_context" where
  "placementOf sortedNodes constraints sizes =
     (let drainingIds = foldl setAdd [] (map nodeId (filter draining sortedNodes))
      in \<lparr>placementNodes = filter (\<lambda>node. nodeId node \<notin> set drainingIds) sortedNodes,
          nodeMap = nodesById sortedNodes, placeConstraints = constraints, placeSizes = sizes,
          drainingNodeIds = drainingIds\<rparr>)"

definition rebalanceSteps :: "rounding \<Rightarrow> node_registration list \<Rightarrow> placement_context \<Rightarrow> int
    \<Rightarrow> node_id list \<Rightarrow> assignments \<Rightarrow> assignments" where
  "rebalanceSteps fl sortedNodes P factor retainedIds as =
     (let activeIds = foldl setAdd [] (map nodeId sortedNodes);
          shares = capacityShares fl sortedNodes; drainingIds = drainingNodeIds P;
          as = handleLostNodes fl activeIds retainedIds shares drainingIds as;
          as = settleMoves factor as;
          as = handOverDrainingLeads fl P shares as;
          as = trimSurplusReplicas fl sortedNodes factor drainingIds as;
          as = fillReplicaSlots fl P factor as;
          as = moveDrainingReplicas fl P factor as;
          as = settleMoves factor as;
          as = rebalanceForBalance fl (placementNodes P) (nodeMap P) (placeConstraints P) (placeSizes P) shares as;
          as = rebalanceLeadership fl shares drainingIds as;
          as = pruneInSyncSets as
      in clearRecoveryStateOnServedPartitions as)"

definition rebalanceAllocate :: "rounding \<Rightarrow> node_registration list \<Rightarrow> allocation_table \<Rightarrow> int
    \<Rightarrow> allocation_constraints \<Rightarrow> partition_sizes \<Rightarrow> node_id list
    \<Rightarrow> allocation_table \<times> (partition_id \<times> nat) list" where
  "rebalanceAllocate fl nodes currentTable factor constraints sizes retainedIds =
     (let sortedNodes = sortNodes nodes;
          P = placementOf sortedNodes constraints sizes;
          as = rebalanceSteps fl sortedNodes P factor retainedIds (tableAssignments currentTable)
      in (\<lparr>tableIndexName = tableIndexName currentTable, tableVersion = tableVersion currentTable + 1,
           replicationFactor = factor, tableAssignments = as, generation = None, indexUuid = None\<rparr>,
          collectReplicationWarnings factor as))"

section \<open>The initial table\<close>

datatype allocation_error =
    Invalid_Config
  | No_Data_Nodes
  | No_Primary_For partition_id

definition primaryContext :: "assignments \<Rightarrow> partition_id \<Rightarrow> (node_id, node_registration) js_map \<Rightarrow> decider_context" where
  "primaryContext as pid nodes =
     \<lparr>ctxPartitionId = pid, ctxRole = Primary_Role, candidateNodeId = [], currentAssignment = None,
      allAssignments = as, nodeAssignmentCounts = countNodeAssignments as, ctxNodes = nodes\<rparr>"

fun initialReplicas :: "rounding \<Rightarrow> placement_context \<Rightarrow> nat \<Rightarrow> assignments \<Rightarrow> partition_id
    \<Rightarrow> partition_assignment \<Rightarrow> partition_assignment" where
  "initialReplicas fl P 0 as pid a = a"
| "initialReplicas fl P (Suc n) as pid a =
     (case placeReplica fl P (mapSet pid a as) pid a of
        None \<Rightarrow> a
      | Some node \<Rightarrow> initialReplicas fl P n as pid (a\<lparr>replicas := replicas a @ [node]\<rparr>))"

fun initialPartitions :: "rounding \<Rightarrow> placement_context \<Rightarrow> int \<Rightarrow> partition_id list \<Rightarrow> assignments
    \<Rightarrow> allocation_error + assignments" where
  "initialPartitions fl P factor [] as = Inr as"
| "initialPartitions fl P factor (pid # pids) as =
     (case findBestNode fl (map nodeId (placementNodes P)) (computeNodeWeights fl (placementNodes P) as)
             (createDeciderChain fl (placeConstraints P) (placeSizes P)) (primaryContext as pid (nodeMap P)) of
        None \<Rightarrow> Inl (No_Primary_For pid)
      | Some node \<Rightarrow>
          let a = \<lparr>primary = Some node, replicas = [], inSyncSet = [], removingReplicas = None,
                   lastHolders = None, partitionState = INITIALISING, assignedTerm = 1, commitPoint = 0,
                   unassignedReason = None\<rparr>;
              a = initialReplicas fl P (nat factor) as pid a
          in initialPartitions fl P factor pids (mapSet pid a as))"

definition initialAllocate :: "rounding \<Rightarrow> node_registration list \<Rightarrow> js_string \<Rightarrow> int \<Rightarrow> int
    \<Rightarrow> allocation_constraints \<Rightarrow> partition_sizes
    \<Rightarrow> allocation_error + allocation_table \<times> (partition_id \<times> nat) list" where
  "initialAllocate fl nodes name partition_count factor constraints sizes =
     (let sortedNodes = sortNodes nodes;
          P = \<lparr>placementNodes = sortedNodes, nodeMap = nodesById sortedNodes, placeConstraints = constraints,
               placeSizes = sizes, drainingNodeIds = []\<rparr>
      in case initialPartitions fl P factor [0..partition_count - 1] [] of
           Inl err \<Rightarrow> Inl err
         | Inr as \<Rightarrow>
             Inr (\<lparr>tableIndexName = name, tableVersion = 1, replicationFactor = factor,
                   tableAssignments = as, generation = None, indexUuid = None\<rparr>,
                  List.map_filter (\<lambda>(pid, a).
                    if int (length (replicas a)) < factor then Some (pid, length (replicas a)) else None) as))"

definition allocate :: "rounding \<Rightarrow> node_registration list \<Rightarrow> allocation_table option \<Rightarrow> js_string \<Rightarrow> int \<Rightarrow> int
    \<Rightarrow> allocation_constraints \<Rightarrow> node_id list
    \<Rightarrow> allocation_error + allocation_table \<times> (partition_id \<times> nat) list" where
  "allocate fl nodes currentTable name partition_count factor constraints retainedIds =
     (if partition_count \<le> 0 then Inl Invalid_Config
      else if factor < 0 then Inl Invalid_Config
      else let dataNodes = filter (\<lambda>n. Data_Role \<in> set (roles n)) nodes
           in if dataNodes = [] then Inl No_Data_Nodes
              else let sizes = readPartitionSizes fl nodes name
                   in case currentTable of
                        None \<Rightarrow> initialAllocate fl dataNodes name partition_count factor constraints sizes
                      | Some table \<Rightarrow>
                          Inr (rebalanceAllocate fl dataNodes table factor constraints sizes retainedIds))"

end
