(* ===== verification/Allocator_Safety.thy ===== *)
theory Allocator_Safety
  imports Allocator
begin

text \<open>
  What the allocator keeps of a partition. \<open>moved F a b\<close> relates an assignment before and after a
  step of a rebalance: it stays healthy, keeps its state and commit point, changes its primary only
  under a higher term, names as primary or in sync only nodes that already held every acknowledged
  write, and puts new copies only on the nodes \<open>F\<close>. Every step but the handling of lost nodes is
  such a move; lost nodes are treated after them.
\<close>

section \<open>Moves\<close>

definition moved :: "node_id set \<Rightarrow> partition_assignment \<Rightarrow> partition_assignment \<Rightarrow> bool" where
  "moved F a b \<longleftrightarrow> (assignment_ok a \<longrightarrow>
     assignment_ok b \<and> partitionState b = partitionState a \<and> commitPoint b = commitPoint a \<and>
     assignedTerm a \<le> assignedTerm b \<and>
     (primary b = primary a \<or> primary a \<noteq> None \<and> primary b \<noteq> None \<and> assignedTerm a < assignedTerm b) \<and>
     caught_up b \<subseteq> caught_up a \<and> copies b \<subseteq> copies a \<union> F \<and>
     (lastHoldersOf b = lastHoldersOf a \<or> partitionState a = ACTIVE \<and> lastHoldersOf b = []))"

lemma moved_refl [intro, simp]: "moved F a a"
  by (simp add: moved_def)

lemma moved_trans [trans]:
  assumes "moved F a b" and "moved F b c"
  shows "moved F a c"
  unfolding moved_def
proof
  assume ok: "assignment_ok a"
  note b = assms(1) [unfolded moved_def, rule_format, OF ok]
  note c = assms(2) [unfolded moved_def, rule_format, OF conjunct1 [OF b]]
  have "lastHoldersOf c = lastHoldersOf a \<or> partitionState a = ACTIVE \<and> lastHoldersOf c = []"
    using b c by metis
  moreover have "primary c = primary a \<or> primary a \<noteq> None \<and> primary c \<noteq> None \<and> assignedTerm a < assignedTerm c"
    using b c by (metis less_le_trans le_less_trans)
  moreover have "caught_up c \<subseteq> caught_up a" "copies c \<subseteq> copies a \<union> F" using b c by blast+
  ultimately show "assignment_ok c \<and> partitionState c = partitionState a \<and> commitPoint c = commitPoint a \<and>
     assignedTerm a \<le> assignedTerm c \<and>
     (primary c = primary a \<or> primary a \<noteq> None \<and> primary c \<noteq> None \<and> assignedTerm a < assignedTerm c) \<and>
     caught_up c \<subseteq> caught_up a \<and> copies c \<subseteq> copies a \<union> F \<and>
     (lastHoldersOf c = lastHoldersOf a \<or> partitionState a = ACTIVE \<and> lastHoldersOf c = [])"
    using b c by simp
qed

text \<open>The nodes that may take a new copy.\<close>

definition fresh_nodes :: "(node_id, node_registration) js_map \<Rightarrow> node_id set" where
  "fresh_nodes nodes = {node. \<exists>r. mapGet nodes node = Some r \<and> \<not> draining r \<and>
                              memoryBytes r \<noteq> 0 \<and> \<not> memoryFull r}"

abbreviation placeable :: "placement_context \<Rightarrow> node_id set" where
  "placeable P \<equiv> fresh_nodes (nodeMap P)"

lemma findBestNode_fresh:
  assumes "findBestNode fl candidates weights (createDeciderChain fl constraints sizes)
             (replicaContext as pid a nodes) = Some node"
  shows "node \<in> fresh_nodes nodes \<and> node \<notin> set (replicas a) \<and> primary a \<noteq> Some node"
  using chain_admits [OF findBestNode_admitted(2) [OF assms]]
  by (simp add: replicaContext_def fresh_nodes_def)

lemma placeReplica_placeable:
  "placeReplica fl P as pid a = Some node \<Longrightarrow>
   node \<in> placeable P \<and> node \<notin> set (replicas a) \<and> primary a \<noteq> Some node"
  unfolding placeReplica_def by (rule findBestNode_fresh)

section \<open>Each step is a move\<close>

lemma pushed_moved:
  assumes "node \<in> F" and "node \<notin> set (replicas a)" and "primary a \<noteq> Some node" and "primary a \<noteq> None"
  shows "moved F a (a\<lparr>replicas := replicas a @ [node]\<rparr>)"
  using assms by (auto simp: moved_def assignment_ok_def caught_up_def copies_def lastHoldersOf_def)

lemma settleMove_moved: "moved F a (settleMove factor a)"
proof (cases "removingReplicas a")
  case (Some removing)
  then show ?thesis
    by (auto simp: settleMove_def Let_def moved_def assignment_ok_def caught_up_def copies_def lastHoldersOf_def)
qed (simp add: settleMove_def)

lemma replicasOutsideMove_subset: "set (replicasOutsideMove a) \<subseteq> set (replicas a)"
  by (auto simp: replicasOutsideMove_def split: option.splits)

lemma leastLoaded_in: "leastLoadedCandidate fl candidates counts shares = Some n \<Longrightarrow> n \<in> set candidates"
proof -
  have "foldl (\<lambda>best candidate. case best of None \<Rightarrow> Some candidate
        | Some b \<Rightarrow> let bestLoad = loadOf fl b counts shares; candidateLoad = loadOf fl candidate counts shares
                   in if candidateLoad < bestLoad \<or> candidateLoad = bestLoad \<and> stringLess candidate b
                      then Some candidate else Some b) best xs = Some n \<Longrightarrow> n \<in> set xs \<or> best = Some n" for best xs
    by (induction xs arbitrary: best) (auto simp: Let_def split: option.splits if_splits)
  then show "leastLoadedCandidate fl candidates counts shares = Some n \<Longrightarrow> ?thesis"
    unfolding leastLoadedCandidate_def by fastforce
qed

text \<open>Leadership that passes to an in-sync replica while the old primary stays in sync.\<close>

lemma applySwap_moved:
  assumes "primary a = Some leader" and "candidate \<in> set (inSyncSet a)" and "removingReplicas a = None \<or> candidate \<notin> set (the (removingReplicas a))"
  shows "moved F a (applySwap candidate leader a)"
  using assms
  by (auto simp: moved_def applySwap_def assignment_ok_def caught_up_def copies_def lastHoldersOf_def)

lemma seedSuccessor_moved:
  "primary a \<noteq> None \<Longrightarrow> moved (placeable P) a (seedSuccessor fl P as pid a)"
  using placeReplica_placeable [of fl P as pid a]
  by (auto simp: seedSuccessor_def pushed_moved split: option.splits)

lemma handOverLead_moved: "moved (placeable P) a (fst (handOverLead fl P shares as pid a counts))"
proof (cases "primary a")
  case (Some leader)
  let ?staying = "filter (\<lambda>n. n \<in> set (inSyncSet a) \<and> n \<notin> set (drainingNodeIds P)) (replicasOutsideMove a)"
  show ?thesis
  proof (cases "leastLoadedCandidate fl ?staying counts shares")
    case None
    then show ?thesis using Some seedSuccessor_moved [of a P fl as pid] by (simp add: handOverLead_def)
  next
    case successor: (Some s)
    then have s: "s \<in> set (inSyncSet a)" "s \<in> set (replicasOutsideMove a)"
      using leastLoaded_in [OF successor] by auto
    then have "removingReplicas a = None \<or> s \<notin> set (the (removingReplicas a))"
      by (auto simp: replicasOutsideMove_def split: option.splits)
    from applySwap_moved [OF Some s(1) this] show ?thesis
      using Some successor by (simp add: handOverLead_def Let_def applySwap_def)
  qed
qed (simp add: handOverLead_def)

lemma moveDrainingReplica_moved: "moved (placeable P) a (moveDrainingReplica fl P factor as pid a)"
proof -
  have remove: "source \<in> set (replicas a) \<Longrightarrow> removingReplicas a = None \<Longrightarrow>
      moved F a (a\<lparr>removingReplicas := Some [source]\<rparr>)" for F source a
    by (auto simp: moved_def assignment_ok_def caught_up_def copies_def lastHoldersOf_def)
  have both: "source \<in> set (replicas a) \<Longrightarrow> removingReplicas a = None \<Longrightarrow> primary a \<noteq> None \<Longrightarrow>
      node \<in> F \<Longrightarrow> node \<notin> set (replicas a) \<Longrightarrow> primary a \<noteq> Some node \<Longrightarrow>
      moved F a (a\<lparr>replicas := replicas a @ [node], removingReplicas := Some [source]\<rparr>)" for F source a node
    by (auto simp: moved_def assignment_ok_def caught_up_def copies_def lastHoldersOf_def)
  have found: "List.find p xs = Some x \<Longrightarrow> x \<in> set xs" for p and xs :: "node_id list" and x
    by (auto simp: find_Some_iff)
  show ?thesis
    using placeReplica_placeable [of fl P as pid a]
    by (auto simp: moveDrainingReplica_def Let_def split: option.splits dest!: found intro!: remove both)
qed

lemma removeReplica_moved:
  assumes "i < length (replicas a)" and "removingReplicas a = None"
  shows "moved F a (removeReplica i a)"
proof -
  let ?rest = "take i (replicas a) @ drop (i + 1) (replicas a)"
  have split: "replicas a = take i (replicas a) @ replicas a ! i # drop (i + 1) (replicas a)"
    using assms(1) by (simp add: Cons_nth_drop_Suc)
  then have "set (replicas a) = insert (replicas a ! i) (set ?rest)"
    by (metis Un_insert_right list.simps(15) set_append)
  moreover have "distinct (replicas a) \<Longrightarrow> distinct ?rest \<and> replicas a ! i \<notin> set ?rest"
    using split by (metis distinct.simps(2) distinct_append disjoint_insert(2) list.simps(15) Un_iff set_append)
  ultimately show ?thesis
    using assms
    by (auto simp: removeReplica_def moved_def assignment_ok_def caught_up_def copies_def lastHoldersOf_def
        simp del: set_append set_take_subset)
qed

lemma trimLoop_moved: "removingReplicas a = None \<Longrightarrow> moved F a (trimLoop fl nodes factor drainingIds as pid a)"
proof (induction fl nodes factor drainingIds as pid a rule: trimLoop.induct)
  case (1 fl nodes factor drainingIds as pid a)
  let ?weights = "foldl (\<lambda>m w. mapSet (weightNodeId w) (weight w) m) [] (computeNodeWeights fl nodes (mapSet pid a as))"
  show ?case
  proof (cases "factor < int (length (replicas a))")
    case True
    show ?thesis
    proof (cases "surplusCandidate a ?weights drainingIds")
      case None
      then show ?thesis using True by (subst trimLoop.simps) simp
    next
      case (Some i)
      have "moved F a (removeReplica i a)"
        by (rule removeReplica_moved [OF surplusCandidate_range [OF Some] 1(2)])
      also have "moved F (removeReplica i a) (trimLoop fl nodes factor drainingIds as pid (removeReplica i a))"
        by (rule 1(1) [OF True refl Some]) (use 1(2) in \<open>simp add: removeReplica_def\<close>)
      finally show ?thesis using True Some by (subst trimLoop.simps) simp
    qed
  next
    case False
    then show ?thesis by (subst trimLoop.simps) simp
  qed
qed

lemma fillLoop_moved:
  "primary a \<noteq> None \<Longrightarrow> moved (placeable P) a (fillLoop fl P factor as pid a)"
proof (induction fl P factor as pid a rule: fillLoop.induct)
  case (1 fl P factor as pid a)
  show ?case
  proof (cases "int (length (replicasOutsideMove a)) < factor")
    case True
    show ?thesis
    proof (cases "placeReplica fl P (mapSet pid a as) pid a")
      case None
      then show ?thesis using True by (subst fillLoop.simps) simp
    next
      case (Some node)
      have "moved (placeable P) a (a\<lparr>replicas := replicas a @ [node]\<rparr>)"
        using placeReplica_placeable [OF Some] 1(2) by (intro pushed_moved) auto
      also have "moved (placeable P) (a\<lparr>replicas := replicas a @ [node]\<rparr>)
          (fillLoop fl P factor as pid (a\<lparr>replicas := replicas a @ [node]\<rparr>))"
        by (rule 1(1) [OF True Some]) (use 1(2) in simp)
      finally show ?thesis using True Some by (subst fillLoop.simps) simp
    qed
  next
    case False
    then show ?thesis by (subst fillLoop.simps) simp
  qed
qed

lemma pruneInSyncSet_moved: "moved F a (pruneInSyncSet a)"
  by (auto simp: pruneInSyncSet_def moved_def assignment_ok_def caught_up_def copies_def lastHoldersOf_def)

lemma pruneRemoving_moved: "moved F a (pruneRemoving a)"
  by (auto simp: pruneRemoving_def Let_def moved_def assignment_ok_def caught_up_def copies_def lastHoldersOf_def
      split: option.splits)

lemma clearRecoveryState_moved: "moved F a (clearRecoveryState a)"
  by (auto simp: clearRecoveryState_def Let_def moved_def assignment_ok_def caught_up_def copies_def lastHoldersOf_def)

section \<open>Whole tables\<close>

definition table_moved :: "node_id set \<Rightarrow> assignments \<Rightarrow> assignments \<Rightarrow> bool" where
  "table_moved F as bs \<longleftrightarrow> mapKeys bs = mapKeys as \<and>
     (\<forall>k a. mapGet as k = Some a \<longrightarrow> (\<exists>b. mapGet bs k = Some b \<and> moved F a b))"

lemma table_moved_refl [simp]: "table_moved F as as"
  by (simp add: table_moved_def)

lemma table_moved_trans [trans]: "table_moved F as bs \<Longrightarrow> table_moved F bs cs \<Longrightarrow> table_moved F as cs"
  unfolding table_moved_def by (metis moved_trans)

lemma table_moved_set:
  "mapGet as k = Some a \<Longrightarrow> moved F a b \<Longrightarrow> table_moved F as (mapSet k b as)"
  by (simp add: table_moved_def mapGet_set mapKeys_set_present)

lemma table_moved_each:
  assumes "distinct (mapKeys as)" and "\<And>m k a s. moved F a (fst (body m k a s))"
  shows "table_moved F as (fst (forEachEntry body as s))"
  unfolding table_moved_def
proof (intro conjI allI impI)
  show "mapKeys (fst (forEachEntry body as s)) = mapKeys as" by (rule forEachEntry_keys)
  fix k a
  assume "mapGet as k = Some a"
  then show "\<exists>b. mapGet (fst (forEachEntry body as s)) k = Some b \<and> moved F a b"
    using forEachEntry_value [OF assms(1), of k a "\<lambda>_ _. True" s body] assms(2) by auto
qed

lemma moveOneReplica_moved:
  assumes "distinct (mapKeys as)" and "F = fresh_nodes (moveNodeMap move)"
  shows "table_moved F as (snd (moveOneReplica fl move laggingOnly as))"
proof -
  have "table_moved F as (snd (moveOneReplicaFrom fl move laggingOnly pids as))" for pids
  proof (induction pids)
    case (Cons pid pids)
    show ?case
    proof (cases "mapGet as pid")
      case (Some a)
      have "moved F a (a\<lparr>replicas := replicas a @ [target], removingReplicas := Some [fromNodeId move]\<rparr>)"
        if "removingReplicas a = None" "fromNodeId move \<in> set (replicas a)"
          "target \<in> F" "target \<notin> set (replicas a)" "primary a \<noteq> Some target" for target
        using that by (auto simp: moved_def assignment_ok_def caught_up_def copies_def lastHoldersOf_def)
      then show ?thesis
        using Cons Some findBestNode_fresh [of fl "[toNodeId move]" "moveWeights move" "moveConstraints move"
            "moveSizes move" as pid a "moveNodeMap move"] assms(2)
        by (auto split: option.splits intro!: table_moved_set)
    qed (use Cons in simp)
  qed simp
  then show ?thesis by (simp add: moveOneReplica_def)
qed

lemma table_moved_distinct: "table_moved F as bs \<Longrightarrow> distinct (mapKeys as) \<Longrightarrow> distinct (mapKeys bs)"
  by (simp add: table_moved_def)

lemma balanceLoop_moved:
  "distinct (mapKeys as) \<Longrightarrow> table_moved (fresh_nodes byId) as
     (balanceLoop fl nodes byId constraints sizes shares n as)"
proof (induction n arbitrary: as)
  case (Suc n)
  note one = moveOneReplica_moved [OF _ refl]
  let ?weights = "computeNodeWeights fl nodes as"
  let ?sorted = "jsSort (\<lambda>a b. jsLess (jsSub fl (weight a) (weight b)) (Num 0)) ?weights"
  let ?move = "\<lparr>fromNodeId = weightNodeId (last ?sorted), toNodeId = weightNodeId (hd ?sorted),
                 moveWeights = ?weights, moveNodeMap = byId, moveConstraints = constraints, moveSizes = sizes\<rparr>"
  obtain l as1 where lag: "moveOneReplica fl ?move True as = (l, as1)" by (rule prod.exhaust)
  obtain m as2 where rest: "moveOneReplica fl ?move False as1 = (m, as2)" by (rule prod.exhaust)
  have as1: "table_moved (fresh_nodes byId) as as1" "distinct (mapKeys as1)"
    using one [of as ?move fl True] Suc.prems lag table_moved_distinct by auto
  have as2: "table_moved (fresh_nodes byId) as as2" "distinct (mapKeys as2)"
    using one [of as1 ?move fl False] as1 rest table_moved_distinct table_moved_trans by fastforce+
  note on1 = table_moved_trans [OF as1(1) Suc.IH [OF as1(2)]]
  note on2 = table_moved_trans [OF as2(1) Suc.IH [OF as2(2)]]
  show ?case
    by (simp add: Let_def lag rest as1(1) as2(1) on1 on2)
qed simp

lemma findSwap_in:
  "findSwap fl as heaviest counts shares excludedIds = Some (pid, c) \<Longrightarrow>
   (pid, c) \<in> set (swapCandidates heaviest excludedIds as)"
proof -
  let ?step = "\<lambda>best (pid, candidate).
     let candidateLoad = loadOf fl candidate counts shares
     in if fl (loadOf fl heaviest counts shares - candidateLoad) < LEADERSHIP_IMBALANCE_THRESHOLD then best
        else case best of None \<Rightarrow> Some (pid, candidate)
             | Some (p, c) \<Rightarrow> if candidateLoad < loadOf fl c counts shares then Some (pid, candidate) else Some (p, c)"
  have "foldl ?step best xs = Some (pid, c) \<Longrightarrow> (pid, c) \<in> set xs \<or> best = Some (pid, c)" for best xs
    by (induction xs arbitrary: best) (auto simp: Let_def split: option.splits if_splits prod.splits)
  then show "findSwap fl as heaviest counts shares excludedIds = Some (pid, c) \<Longrightarrow> ?thesis"
    unfolding findSwap_def Let_def by fastforce
qed

lemma leadershipLoop_moved:
  "distinct (mapKeys as) \<Longrightarrow> table_moved F as (leadershipLoop fl shares excludedIds n withoutHandover as)"
proof (induction fl shares excludedIds n withoutHandover as rule: leadershipLoop.induct)
  case (2 fl shares excludedIds n withoutHandover as)
  let ?counts = "countPrimaryAssignments as"
  show ?case
  proof (cases "heaviestLeader fl shares ?counts withoutHandover")
    case (Some heaviest)
    show ?thesis
    proof (cases "findSwap fl as heaviest ?counts shares excludedIds")
      case None
      then show ?thesis using 2(1) [OF refl Some None 2(3)] Some by simp
    next
      case swap: (Some found)
      obtain pid c where found: "found = (pid, c)" by (rule prod.exhaust)
      then obtain a where a: "(pid, a) \<in> set as" "primary a = Some heaviest" "removingReplicas a = None"
          "c \<in> set (inSyncSet a)"
        using findSwap_in swap by (fastforce simp: swapCandidates_def split: if_splits)
      have get: "mapGet as pid = Some a" using 2(3) a(1) by simp
      let ?bs = "mapSet pid (applySwap c heaviest a) as"
      have step: "table_moved F as ?bs"
        by (rule table_moved_set [OF get applySwap_moved [OF a(2,4) disjI1 [OF a(3)]]])
      then have "table_moved F ?bs (leadershipLoop fl shares excludedIds n withoutHandover ?bs)"
        using 2(2) [OF refl Some swap found [symmetric] get] table_moved_distinct 2(3) by blast
      then show ?thesis
        using table_moved_trans [OF step] Some swap found get by simp
    qed
  qed simp
qed simp

end
