(* ===== verification/Allocator_Losses.thy ===== *)
theory Allocator_Losses
  imports Allocator_Safety
begin

text \<open>
  What the handling of lost nodes keeps of a partition, and what a whole rebalance keeps: the
  handling of lost nodes followed by the moves of \<open>Allocator_Safety\<close>. \<open>lost active retained\<close>
  relates an assignment before and after the registered nodes have become \<open>active\<close>, where nodes in
  \<open>retained\<close> keep their replicas although they are away.
\<close>

section \<open>One assignment\<close>

definition lost :: "node_id set \<Rightarrow> node_id set \<Rightarrow> node_id set \<Rightarrow> partition_assignment \<Rightarrow> partition_assignment \<Rightarrow> bool" where
  "lost active leaving retained a b \<longleftrightarrow> (assignment_ok a \<longrightarrow>
     assignment_ok b \<and> commitPoint b = commitPoint a \<and> assignedTerm a \<le> assignedTerm b \<and>
     (partitionState b = partitionState a \<or> partitionState b = UNASSIGNED) \<and>
     (primary b = primary a \<or> primary b = None \<or> assignedTerm a < assignedTerm b) \<and>
     (if neverReachedActive a
      then b = a \<and> (set_option (primary a) \<subseteq> active \<or> active \<subseteq> leaving)
           \<or> caught_up b \<subseteq> active \<and> copies b \<subseteq> copies a \<inter> (active \<union> retained) \<union> (active - leaving)
      else caught_up b \<subseteq> caught_up a \<inter> active \<and> copies b \<subseteq> copies a \<inter> (active \<union> retained)) \<and>
     (neverReachedActive a \<or> primary b = None \<or> lastHoldersOf b = lastHoldersOf a) \<and>
     (primary b = None \<longrightarrow> set (lastHoldersOf b) = caught_up a \<union> set (lastHoldersOf a)) \<and>
     (primary b = None \<and> primary a \<noteq> None \<longrightarrow> caught_up a \<inter> active = {}))"

lemma set_foldl_setAdd [simp]: "set (foldl setAdd ys xs) = set ys \<union> set xs"
  by (induction xs arbitrary: ys) (auto simp: setAdd_def)

lemma distinct_foldl_setAdd [simp]: "distinct ys \<Longrightarrow> distinct (foldl setAdd ys xs)"
  by (induction xs arbitrary: ys) (auto simp: setAdd_def)

lemma markUnassigned_fields:
  "primary (markUnassigned p s a) = None" "replicas (markUnassigned p s a) = []"
  "inSyncSet (markUnassigned p s a) = []" "removingReplicas (markUnassigned p s a) = None"
  "partitionState (markUnassigned p s a) = UNASSIGNED" "commitPoint (markUnassigned p s a) = commitPoint a"
  "assignedTerm (markUnassigned p s a) = assignedTerm a"
  "set (lastHoldersOf (markUnassigned p s a)) = set (lastHoldersOf a) \<union> set s \<union> set_option p"
  by (auto simp: markUnassigned_def Let_def lastHoldersOf_def setAdd_def split: option.splits)

lemma leastLoaded_None: "leastLoadedCandidate fl xs counts shares = None \<longleftrightarrow> xs = []"
proof -
  have "foldl (\<lambda>best candidate. case best of None \<Rightarrow> Some candidate
        | Some b \<Rightarrow> let bestLoad = loadOf fl b counts shares; candidateLoad = loadOf fl candidate counts shares
                   in if candidateLoad < bestLoad \<or> candidateLoad = bestLoad \<and> stringLess candidate b
                      then Some candidate else Some b) best xs = None \<longleftrightarrow> xs = [] \<and> best = None" for best
    by (induction xs arbitrary: best) (auto simp: Let_def split: option.splits if_splits)
  then show ?thesis by (simp add: leastLoadedCandidate_def)
qed

lemma promotionCandidate_in:
  "promotionCandidate fl drainingIds counts shares a = Some n \<Longrightarrow> n \<in> set (replicas a) \<and> n \<in> set (inSyncSet a)"
  using leastLoaded_in by (fastforce simp: promotionCandidate_def Let_def orElse_def split: option.splits)

lemma promotionCandidate_None:
  "promotionCandidate fl drainingIds counts shares a = None \<longleftrightarrow> set (replicas a) \<inter> set (inSyncSet a) = {}"
  by (auto simp: promotionCandidate_def Let_def orElse_def leastLoaded_None filter_empty_conv
      dest!: leastLoaded_in split: option.splits)

lemma keepRemoving_fields [simp]:
  "primary (keepRemovingReplicasHeld a) = primary a" "replicas (keepRemovingReplicasHeld a) = replicas a"
  "inSyncSet (keepRemovingReplicasHeld a) = inSyncSet a" "lastHolders (keepRemovingReplicasHeld a) = lastHolders a"
  "partitionState (keepRemovingReplicasHeld a) = partitionState a"
  "commitPoint (keepRemovingReplicasHeld a) = commitPoint a"
  "assignedTerm (keepRemovingReplicasHeld a) = assignedTerm a"
  by (simp_all add: keepRemovingReplicasHeld_def Let_def)

lemma keepRemoving_removing:
  "removingReplicas (keepRemovingReplicasHeld a) = Some removing \<Longrightarrow>
   removing \<noteq> [] \<and> set removing \<subseteq> set (replicas a)"
  by (auto simp: keepRemovingReplicasHeld_def Let_def split: if_splits option.splits)

lemma restart_lost:
  assumes "neverReachedActive a" and "primary a = Some p" and "p \<notin> set activeIds"
  shows "lost (set activeIds) (set drainingIds) retained a
     (fst (restartAsEmptyCopy fl activeIds drainingIds shares a counts))"
proof -
  let ?placeable = "\<lambda>n. n \<in> set activeIds \<and> n \<notin> set drainingIds"
  let ?others = "jsSort (\<lambda>x y. compareCodePoints x y < 0)
                     (filter (\<lambda>n. ?placeable n \<and> n \<notin> set (replicas a)) activeIds)"
  let ?chosen = "orElse (leastLoadedCandidate fl (filter ?placeable (replicas a)) counts shares)
                (leastLoadedCandidate fl ?others counts shares)"
  show ?thesis
  proof (cases ?chosen)
    case None
    then have "filter ?placeable (replicas a) = []" "?others = []"
      by (auto simp: orElse_def leastLoaded_None split: option.splits)
    then have "set activeIds \<subseteq> set drainingIds"
      by (auto simp: filter_empty_conv dest!: arg_cong [where f = set]) blast
    then show ?thesis
      using None assms
      by (auto simp: restartAsEmptyCopy_def Let_def lost_def neverReachedActive_def)
  next
    case (Some chosen)
    then have "?placeable chosen"
      using leastLoaded_in by (fastforce simp: orElse_def split: option.splits)
    then show ?thesis
      using Some assms
      by (auto simp: restartAsEmptyCopy_def Let_def lost_def neverReachedActive_def assignment_ok_def
          caught_up_def copies_def lastHoldersOf_def)
  qed
qed

lemma held_ok:
  assumes "assignment_ok a"
    and "replicas b = filter held (replicas a)" and "inSyncSet b = filter up (inSyncSet a)"
    and "\<And>n. up n \<Longrightarrow> held n" and "partitionState b = partitionState a" and "primary b = primary a"
    and "primary a \<noteq> None"
    and "\<And>removing. removingReplicas b = Some removing \<Longrightarrow> removing \<noteq> [] \<and> set removing \<subseteq> set (replicas b)"
  shows "assignment_ok b"
  using assms by (auto simp: assignment_ok_def)

lemma unassigned_lost:
  assumes "assignment_ok b" and "primary b = None" and "commitPoint b = commitPoint a"
    and "assignedTerm b = assignedTerm a" and "caught_up a \<inter> active = {}"
    and "set (lastHoldersOf b) = caught_up a \<union> set (lastHoldersOf a)"
  shows "lost active leaving retained a b"
proof -
  have "partitionState b = UNASSIGNED" "copies b = {}" "caught_up b = {}"
    using assms(1,2) by (auto simp: assignment_ok_def copies_def caught_up_def)
  then show ?thesis using assms by (simp add: lost_def)
qed

lemma promoted_lost:
  assumes ok: "assignment_ok a" and primary: "primary a = Some p" "p \<notin> active" and active: "\<not> neverReachedActive a"
    and n: "n \<in> set (inSyncSet a)" "n \<in> active"
    and b: "primary b = Some n" "partitionState b = partitionState a" "commitPoint b = commitPoint a"
      "assignedTerm b = assignedTerm a + 1" "lastHolders b = lastHolders a"
      "replicas b = filter (\<lambda>m. (m \<in> active \<or> m \<in> retained) \<and> m \<noteq> n) (replicas a) @ (if p \<in> retained then [p] else [])"
      "inSyncSet b = filter (\<lambda>m. m \<in> active \<and> m \<noteq> n) (inSyncSet a)"
      "\<And>removing. removingReplicas b = Some removing \<Longrightarrow> removing \<noteq> [] \<and> set removing \<subseteq> set (replicas b)"
  shows "lost active leaving retained a b"
proof -
  have a: "distinct (replicas a)" "p \<notin> set (replicas a)" "set (inSyncSet a) \<subseteq> set (replicas a)" "distinct (inSyncSet a)"
    "partitionState a \<noteq> UNASSIGNED"
    using ok primary by (auto simp: assignment_ok_def)
  have "assignment_ok b"
    unfolding assignment_ok_def using a b n by auto
  moreover have "caught_up b \<subseteq> caught_up a \<inter> active"
    using b n by (auto simp: caught_up_def)
  moreover have "copies b \<subseteq> copies a \<inter> (active \<union> retained)"
    using b n a(3) primary by (auto simp: copies_def)
  moreover have "lastHoldersOf b = lastHoldersOf a" using b(5) by (simp add: lastHoldersOf_def)
  ultimately show ?thesis using b active by (simp add: lost_def)
qed

lemma handleLostAssignment_lost:
  "lost (set activeIds) (set drainingIds) (set retainedIds) a
    (fst (handleLostAssignment fl activeIds retainedIds shares drainingIds a counts))"
proof (cases "assignment_ok a \<and> partitionState a \<noteq> UNASSIGNED")
  case False
  show ?thesis
  proof (cases "assignment_ok a")
    case True
    with False have "partitionState a = UNASSIGNED" "primary a = None" "copies a = {}" "caught_up a = {}"
      by (auto simp: assignment_ok_def copies_def caught_up_def)
    then show ?thesis by (simp add: handleLostAssignment_def lost_def neverReachedActive_def)
  qed (simp add: lost_def)
next
  case True
  then obtain p where ok: "assignment_ok a" and p: "primary a = Some p" by (auto simp: assignment_ok_def)
  let ?held = "a\<lparr>replicas := filter (\<lambda>n. n \<in> set activeIds \<or> n \<in> set retainedIds) (replicas a),
                 inSyncSet := filter (\<lambda>n. n \<in> set activeIds) (inSyncSet a)\<rparr>"
  let ?lost = "lost (set activeIds) (set drainingIds) (set retainedIds) a"
  let ?res = "fst (handleLostAssignment fl activeIds retainedIds shares drainingIds a counts)"
  show ?thesis
  proof (cases "p \<in> set activeIds")
    case True
    obtain b where b: "b = keepRemovingReplicasHeld ?held" by simp
    have res: "?res = b"
      unfolding b using p True \<open>assignment_ok a \<and> partitionState a \<noteq> UNASSIGNED\<close>
      by (simp add: handleLostAssignment_def Let_def)
    have "assignment_ok b"
      by (rule held_ok [OF ok, where held = "\<lambda>n. n \<in> set activeIds \<or> n \<in> set retainedIds"
              and up = "\<lambda>n. n \<in> set activeIds"]) (use p b in \<open>auto dest!: keepRemoving_removing\<close>)
    moreover have "caught_up b \<subseteq> caught_up a \<inter> set activeIds"
      using b p True by (auto simp: caught_up_def)
    moreover have "copies b \<subseteq> copies a \<inter> (set activeIds \<union> set retainedIds)"
      using b p True by (auto simp: copies_def)
    moreover have "primary b = primary a" "commitPoint b = commitPoint a" "assignedTerm b = assignedTerm a"
      "partitionState b = partitionState a" "lastHoldersOf b = lastHoldersOf a"
      by (simp_all add: b lastHoldersOf_def)
    ultimately show ?thesis
      unfolding res lost_def using p by auto
  next
    case lostPrimary: False
    show ?thesis
    proof (cases "neverReachedActive a")
      case True
      then show ?thesis
        using restart_lost [OF True p lostPrimary] p lostPrimary \<open>assignment_ok a \<and> partitionState a \<noteq> UNASSIGNED\<close>
        by (simp add: handleLostAssignment_def Let_def)
    next
      case active: False
      let ?a = "keepRemovingReplicasHeld (a\<lparr>primary := None,
          replicas := filter (\<lambda>n. n \<in> set activeIds \<or> n \<in> set retainedIds) (replicas a),
          inSyncSet := filter (\<lambda>n. n \<in> set activeIds) (inSyncSet a)\<rparr>)"
      show ?thesis
      proof (cases "promotionCandidate fl drainingIds counts shares ?a")
        case None
        then have res: "?res = markUnassigned (Some p) (inSyncSet a) ?a"
          using p lostPrimary active True by (simp add: handleLostAssignment_def Let_def)
        have "set (inSyncSet a) \<inter> set activeIds = {}"
          using None ok by (auto simp: promotionCandidate_None assignment_ok_def)
        moreover have "lastHoldersOf ?a = lastHoldersOf a" by (simp add: lastHoldersOf_def)
        ultimately show ?thesis
          unfolding res using p lostPrimary
          by (intro unassigned_lost) (auto simp: markUnassigned_fields assignment_ok_def caught_up_def)
      next
        case (Some n)
        then have n: "n \<in> set (inSyncSet a)" "n \<in> set activeIds" using promotionCandidate_in by fastforce+
        show ?thesis
          using p lostPrimary active True Some n
          by (intro promoted_lost [OF ok p lostPrimary active n])
            (auto simp: handleLostAssignment_def Let_def dest!: keepRemoving_removing)
      qed
    qed
  qed
qed

section \<open>A whole rebalance\<close>

lemma steps_moved:
  assumes "distinct (mapKeys as)"
  shows "table_moved F as (settleMoves factor as)"
    and "table_moved (placeable P) as (handOverDrainingLeads fl P shares as)"
    and "table_moved F as (trimSurplusReplicas fl nodes factor drainingIds as)"
    and "table_moved (placeable P) as (fillReplicaSlots fl P factor as)"
    and "table_moved (placeable P) as (moveDrainingReplicas fl P factor as)"
    and "table_moved F as (pruneInSyncSets as)"
    and "table_moved F as (clearRecoveryStateOnServedPartitions as)"
proof -
  note each = table_moved_each [OF assms]
  show "table_moved F as (settleMoves factor as)"
    unfolding settleMoves_def by (rule each) (simp add: settleMove_moved)
  show "table_moved (placeable P) as (handOverDrainingLeads fl P shares as)"
    unfolding handOverDrainingLeads_def by (rule each) (rule handOverLead_moved)
  show "table_moved F as (trimSurplusReplicas fl nodes factor drainingIds as)"
    unfolding trimSurplusReplicas_def by (rule each) (simp add: trimLoop_moved)
  show "table_moved (placeable P) as (fillReplicaSlots fl P factor as)"
    unfolding fillReplicaSlots_def by (rule each) (simp add: fillLoop_moved)
  show "table_moved (placeable P) as (moveDrainingReplicas fl P factor as)"
    unfolding moveDrainingReplicas_def by (rule each) (simp add: moveDrainingReplica_moved)
  show "table_moved F as (clearRecoveryStateOnServedPartitions as)"
    unfolding clearRecoveryStateOnServedPartitions_def by (rule each) (simp add: clearRecoveryState_moved)
  have "table_moved F as (fst (forEachEntry (\<lambda>m k a u. (pruneInSyncSet a, u)) as ()))"
    by (rule each) (simp add: pruneInSyncSet_moved)
  moreover from table_moved_distinct [OF this assms]
  have "table_moved F (fst (forEachEntry (\<lambda>m k a u. (pruneInSyncSet a, u)) as ()))
      (fst (forEachEntry (\<lambda>m k a u. (pruneRemoving a, u))
        (fst (forEachEntry (\<lambda>m k a u. (pruneInSyncSet a, u)) as ())) ()))"
    by (rule table_moved_each) (simp add: pruneRemoving_moved)
  ultimately show "table_moved F as (pruneInSyncSets as)"
    unfolding pruneInSyncSets_def Let_def by (rule table_moved_trans)
qed

lemma table_moved_step:
  assumes "distinct (mapKeys as) \<and> table_moved F as bs"
    and "\<And>bs. distinct (mapKeys bs) \<Longrightarrow> table_moved F bs (f bs)"
  shows "distinct (mapKeys as) \<and> table_moved F as (f bs)"
  using assms table_moved_distinct table_moved_trans by blast

lemma rebalanceForBalance_moved:
  "distinct (mapKeys as) \<Longrightarrow>
   table_moved (fresh_nodes byId) as (rebalanceForBalance fl nodes byId constraints sizes shares as)"
  unfolding rebalanceForBalance_def by (rule balanceLoop_moved)

lemma rebalanceLeadership_moved:
  "distinct (mapKeys as) \<Longrightarrow> table_moved F as (rebalanceLeadership fl shares excludedIds as)"
  unfolding rebalanceLeadership_def by (rule leadershipLoop_moved)

text \<open>Everything after the handling of lost nodes, as one move of the table.\<close>

definition afterLosses :: "rounding \<Rightarrow> node_registration list \<Rightarrow> placement_context \<Rightarrow> int
    \<Rightarrow> (node_id, rat) js_map \<Rightarrow> assignments \<Rightarrow> assignments" where
  "afterLosses fl sortedNodes P factor shares as =
     clearRecoveryStateOnServedPartitions (pruneInSyncSets (rebalanceLeadership fl shares (drainingNodeIds P)
       (rebalanceForBalance fl (placementNodes P) (nodeMap P) (placeConstraints P) (placeSizes P) shares
         (settleMoves factor (moveDrainingReplicas fl P factor (fillReplicaSlots fl P factor
           (trimSurplusReplicas fl sortedNodes factor (drainingNodeIds P)
             (handOverDrainingLeads fl P shares (settleMoves factor as)))))))))"

lemma afterLosses_moved:
  assumes "distinct (mapKeys as)"
  shows "table_moved (placeable P) as (afterLosses fl sortedNodes P factor shares as)"
proof -
  have "distinct (mapKeys as) \<and>
      table_moved (placeable P) as (afterLosses fl sortedNodes P factor shares as)"
    unfolding afterLosses_def
    by (rule table_moved_step [OF _ steps_moved(7)], rule table_moved_step [OF _ steps_moved(6)],
        rule table_moved_step [OF _ rebalanceLeadership_moved],
        rule table_moved_step [OF _ rebalanceForBalance_moved],
        rule table_moved_step [OF _ steps_moved(1)], rule table_moved_step [OF _ steps_moved(5)],
        rule table_moved_step [OF _ steps_moved(4)], rule table_moved_step [OF _ steps_moved(3)],
        rule table_moved_step [OF _ steps_moved(2)], rule table_moved_step [OF _ steps_moved(1)])
      (simp_all add: assms)
  then show ?thesis ..
qed

lemma rebalanceSteps_assignment:
  assumes "distinct (mapKeys as)" and bs: "bs = rebalanceSteps fl nodes P factor retainedIds as"
  shows "mapKeys bs = mapKeys as"
    and "mapGet as k = Some a \<Longrightarrow> \<exists>m b. mapGet bs k = Some b \<and> moved (placeable P) m b \<and>
      lost (nodeId ` set nodes) (set (drainingNodeIds P)) (set retainedIds) a m"
proof -
  let ?active = "foldl setAdd [] (map nodeId nodes)"
  let ?shares = "capacityShares fl nodes"
  let ?ms = "handleLostNodes fl ?active retainedIds ?shares (drainingNodeIds P) as"
  have keys: "mapKeys ?ms = mapKeys as"
    by (simp add: handleLostNodes_def forEachEntry_keys)
  have bs: "bs = afterLosses fl nodes P factor ?shares ?ms"
    by (simp add: bs rebalanceSteps_def afterLosses_def Let_def)
  have moved: "table_moved (placeable P) ?ms bs"
    unfolding bs using assms(1) keys by (intro afterLosses_moved) simp
  then show "mapKeys bs = mapKeys as" using keys by (simp add: table_moved_def)
  show "\<exists>m b. mapGet bs k = Some b \<and> moved (placeable P) m b \<and>
      lost (nodeId ` set nodes) (set (drainingNodeIds P)) (set retainedIds) a m" if a: "mapGet as k = Some a"
  proof -
    let ?body = "\<lambda>m k a counts. handleLostAssignment fl ?active retainedIds ?shares (drainingNodeIds P) a counts"
    obtain s where s: "mapGet ?ms k = Some (fst (?body as k a s))"
      using forEachEntry_value [OF assms(1) a, where I = "\<lambda>_ _. True" and body = ?body]
      unfolding handleLostNodes_def by auto
    obtain b where "mapGet bs k = Some b" "moved (placeable P) (fst (?body as k a s)) b"
      using moved s unfolding table_moved_def by blast
    moreover have "lost (nodeId ` set nodes) (set (drainingNodeIds P)) (set retainedIds) a (fst (?body as k a s))"
      using handleLostAssignment_lost [of ?active "drainingNodeIds P" retainedIds a] by simp
    ultimately show ?thesis by blast
  qed
qed

section \<open>The allocator on an existing table\<close>

definition dataNodesOf :: "node_registration list \<Rightarrow> node_registration set" where
  "dataNodesOf nodes = {r \<in> set nodes. Data_Role \<in> set (roles r)}"

definition willing :: "node_registration \<Rightarrow> bool" where
  "willing r \<longleftrightarrow> \<not> draining r \<and> memoryBytes r \<noteq> 0 \<and> \<not> memoryFull r"

lemma mapGet_nodesById: "mapGet (nodesById nodes) n = Some r \<Longrightarrow> r \<in> set nodes \<and> nodeId r = n"
proof -
  have "mapGet (foldl (\<lambda>m node. mapSet (nodeId node) node m) m ns) n = Some r \<Longrightarrow>
      mapGet m n = Some r \<or> r \<in> set ns \<and> nodeId r = n" for m and ns :: "node_registration list"
    by (induction ns arbitrary: m) (fastforce simp: mapGet_set split: if_splits)+
  from this [of "[]"] show "mapGet (nodesById nodes) n = Some r \<Longrightarrow> ?thesis" by (simp add: nodesById_def)
qed

lemma fresh_nodesById: "n \<in> fresh_nodes (nodesById nodes) \<Longrightarrow> \<exists>r\<in>set nodes. nodeId r = n \<and> willing r"
  using mapGet_nodesById by (fastforce simp: fresh_nodes_def willing_def)

lemma drainingNodeIds_placement:
  "set (drainingNodeIds (placementOf nodes constraints sizes)) = nodeId ` {r \<in> set nodes. draining r}"
  by (auto simp: placementOf_def Let_def)

lemma nodeMap_placement: "nodeMap (placementOf nodes constraints sizes) = nodesById nodes"
  by (simp add: placementOf_def Let_def)

lemma allocate_existing:
  assumes "allocate fl nodes (Some table) name n factor constraints retainedIds = Inr (new, warnings)"
  shows "0 < n" and "0 \<le> factor" and "dataNodesOf nodes \<noteq> {}"
    and "tableVersion new = tableVersion table + 1" and "replicationFactor new = factor"
    and "warnings = collectReplicationWarnings factor (tableAssignments new)"
    and "\<exists>sortedNodes sizes. set sortedNodes = dataNodesOf nodes \<and>
      tableAssignments new = rebalanceSteps fl sortedNodes (placementOf sortedNodes constraints sizes) factor
        retainedIds (tableAssignments table)"
proof -
  let ?data = "filter (\<lambda>n. Data_Role \<in> set (roles n)) nodes"
  have data: "set (sortNodes ?data) = dataNodesOf nodes"
    by (auto simp: sortNodes_def dataNodesOf_def)
  have new: "0 < n" "0 \<le> factor" "?data \<noteq> []"
    "(new, warnings) = rebalanceAllocate fl ?data table factor constraints (readPartitionSizes fl nodes name) retainedIds"
    using assms by (auto simp: allocate_def Let_def split: if_splits)
  then show "0 < n" "0 \<le> factor" "dataNodesOf nodes \<noteq> {}"
    by (auto simp: dataNodesOf_def filter_empty_conv)
  show "tableVersion new = tableVersion table + 1" "replicationFactor new = factor"
    "warnings = collectReplicationWarnings factor (tableAssignments new)"
    using new(4) by (simp_all add: rebalanceAllocate_def Let_def)
  have "tableAssignments new = rebalanceSteps fl (sortNodes ?data)
      (placementOf (sortNodes ?data) constraints (readPartitionSizes fl nodes name)) factor
      retainedIds (tableAssignments table)"
    using new(4) by (simp add: rebalanceAllocate_def Let_def)
  then show "\<exists>sortedNodes sizes. set sortedNodes = dataNodesOf nodes \<and>
      tableAssignments new = rebalanceSteps fl sortedNodes (placementOf sortedNodes constraints sizes) factor
        retainedIds (tableAssignments table)"
    using data by blast
qed

text \<open>What becomes of one assignment: a loss, then moves.\<close>

lemma allocate_assignment:
  assumes "allocate fl nodes (Some table) name n factor constraints retainedIds = Inr (new, warnings)"
    and "distinct (mapKeys (tableAssignments table))" and "mapGet (tableAssignments table) k = Some a"
  obtains m b F where "mapGet (tableAssignments new) k = Some b" and "moved F m b"
    and "lost (nodeId ` dataNodesOf nodes) (nodeId ` {r \<in> dataNodesOf nodes. draining r}) (set retainedIds) a m"
    and "\<forall>node\<in>F. \<exists>r\<in>dataNodesOf nodes. nodeId r = node \<and> willing r"
proof -
  obtain sortedNodes sizes where s: "set sortedNodes = dataNodesOf nodes"
    "tableAssignments new = rebalanceSteps fl sortedNodes (placementOf sortedNodes constraints sizes) factor
        retainedIds (tableAssignments table)"
    using allocate_existing(7) [OF assms(1)] by blast
  note step = rebalanceSteps_assignment [OF assms(2) s(2)]
  show thesis
    using step(2) [OF assms(3)] s(1) fresh_nodesById [of _ sortedNodes] that
    unfolding drainingNodeIds_placement nodeMap_placement by metis
qed

lemma allocate_keys:
  assumes "allocate fl nodes (Some table) name n factor constraints retainedIds = Inr (new, warnings)"
    and "distinct (mapKeys (tableAssignments table))"
  shows "mapKeys (tableAssignments new) = mapKeys (tableAssignments table)"
  using allocate_existing(7) [OF assms(1)] rebalanceSteps_assignment(1) [OF assms(2)] by metis

end
