(* ===== verification/Allocator_Initial.thy ===== *)
theory Allocator_Initial
  imports Allocator_Losses
begin

text \<open>
  What the initial allocation builds: one fresh assignment per partition, every copy on a
  registered node that may take one, and no node over the limit of shards.
\<close>

section \<open>Counting the copies on a node\<close>

definition countIn :: "node_id \<Rightarrow> partition_assignment \<Rightarrow> int" where
  "countIn node a = (if primary a = Some node then 1 else 0)
     + int (length (filter (\<lambda>n. n = node \<and> \<not> removingIncludes a n) (replicas a)))"

lemma mapGetOr_countUp: "mapGetOr 0 (countUp n counts) node = mapGetOr 0 counts node + (if n = node then 1 else 0)"
  by (auto simp: countUp_def mapGetOr_def mapGet_set split: option.splits)

lemma countAssignment_node: "mapGetOr 0 (countAssignment a counts) node = mapGetOr 0 counts node + countIn node a"
proof -
  have "mapGetOr 0 (foldl (\<lambda>counts replica. if removingIncludes a replica then counts else countUp replica counts) c rs) node
      = mapGetOr 0 c node + int (length (filter (\<lambda>n. n = node \<and> \<not> removingIncludes a n) rs))" for c rs
    by (induction rs arbitrary: c) (auto simp: mapGetOr_countUp)
  then show ?thesis
    by (auto simp: countAssignment_def Let_def countIn_def mapGetOr_countUp removingIncludes_def split: option.splits)
qed

lemma countNodeAssignments_node:
  "mapGetOr 0 (countNodeAssignments as) node = (\<Sum>(k, a)\<leftarrow>as. countIn node a)"
proof -
  have "mapGetOr 0 (foldl (\<lambda>counts (k, a). countAssignment a counts) c as) node
      = mapGetOr 0 c node + (\<Sum>(k, a)\<leftarrow>as. countIn node a)" for c
    by (induction as arbitrary: c) (auto simp: countAssignment_node)
  then show ?thesis by (simp add: countNodeAssignments_def mapGetOr_def)
qed

lemma mapSet_new: "k \<notin> set (mapKeys m) \<Longrightarrow> mapSet k v m = m @ [(k, v)]"
  by (induction m) auto

definition within_limit :: "int option \<Rightarrow> assignments \<Rightarrow> bool" where
  "within_limit limit as \<longleftrightarrow>
     (\<forall>n node. limit = Some n \<longrightarrow> mapGetOr 0 (countNodeAssignments as) node \<le> max 0 n)"

section \<open>One partition\<close>

definition fresh_assignment :: "node_id set \<Rightarrow> int \<Rightarrow> partition_assignment \<Rightarrow> bool" where
  "fresh_assignment F factor a \<longleftrightarrow>
     assignment_ok a \<and> partitionState a = INITIALISING \<and> assignedTerm a = 1 \<and> commitPoint a = 0 \<and>
     inSyncSet a = [] \<and> removingReplicas a = None \<and> lastHolders a = None \<and>
     copies a \<subseteq> F \<and> int (length (replicas a)) \<le> max 0 factor"

lemma initialReplicas_fresh:
  assumes "k \<notin> set (mapKeys as)" and "fresh_assignment F (int i) a" and "F = placeable P" and "factor = int (i + n)"
    and "within_limit (maxShardsPerNode (placeConstraints P)) (mapSet k a as)"
  shows "fresh_assignment F factor (initialReplicas fl P n as k a) \<and>
    within_limit (maxShardsPerNode (placeConstraints P)) (mapSet k (initialReplicas fl P n as k a) as)"
  using assms
proof (induction fl P n as k a arbitrary: i rule: initialReplicas.induct)
  case (1 fl P as k a)
  then show ?case by (auto simp: fresh_assignment_def)
next
  case (2 fl P n as k a)
  show ?case
  proof (cases "placeReplica fl P (mapSet k a as) k a")
    case None
    then show ?thesis using 2 by (auto simp: fresh_assignment_def)
  next
    case (Some node)
    let ?b = "a\<lparr>replicas := replicas a @ [node]\<rparr>"
    note new = placeReplica_placeable [OF Some] and limit = placeReplica_fresh(5) [OF Some]
    have fresh: "fresh_assignment F (int (Suc i)) ?b"
      using 2(3) new 2(4) by (auto simp: fresh_assignment_def assignment_ok_def copies_def)
    have counts: "mapGetOr 0 (countNodeAssignments (mapSet k ?b as)) m
        = mapGetOr 0 (countNodeAssignments (mapSet k a as)) m + (if m = node then 1 else 0)" for m
      using 2(2,3)
      by (auto simp: countNodeAssignments_node mapSet_new countIn_def fresh_assignment_def removingIncludes_def)
    have "within_limit (maxShardsPerNode (placeConstraints P)) (mapSet k ?b as)"
      using 2(6) limit unfolding within_limit_def counts by fastforce
    from 2(1) [OF Some 2(2) fresh 2(4) _ this] show ?thesis
      using Some 2(5) by simp
  qed
qed

section \<open>All partitions\<close>

lemma initialPartitions_fresh:
  assumes "initialPartitions fl P factor ks as = Inr bs"
    and "distinct (mapKeys as @ ks)" and "\<forall>(k, a)\<in>set as. fresh_assignment (placeable P) factor a"
    and "within_limit (maxShardsPerNode (placeConstraints P)) as"
  shows "mapKeys bs = mapKeys as @ ks \<and> (\<forall>(k, a)\<in>set bs. fresh_assignment (placeable P) factor a) \<and>
    within_limit (maxShardsPerNode (placeConstraints P)) bs"
  using assms
proof (induction fl P factor ks as rule: initialPartitions.induct)
  case (2 fl P factor k ks as)
  let ?found = "findBestNode fl (map nodeId (placementNodes P)) (computeNodeWeights fl (placementNodes P) as)
             (createDeciderChain fl (placeConstraints P) (placeSizes P)) (primaryContext as k (nodeMap P))"
  obtain node where node: "?found = Some node" using 2(2) by (auto split: option.splits)
  let ?a = "\<lparr>primary = Some node, replicas = [], inSyncSet = [], removingReplicas = None,
                   lastHolders = None, partitionState = INITIALISING, assignedTerm = 1, commitPoint = 0,
                   unassignedReason = None\<rparr>"
  let ?b = "initialReplicas fl P (nat factor) as k ?a"
  let ?limit = "maxShardsPerNode (placeConstraints P)"
  note admitted = chain_admits [OF findBestNode_admitted(2) [OF node]]
  have new: "k \<notin> set (mapKeys as)" using 2(3) by auto
  have place: "node \<in> placeable P"
    using admitted(1) by (simp add: primaryContext_def fresh_nodes_def)
  then have start: "fresh_assignment (placeable P) (int 0) ?a"
    by (simp add: fresh_assignment_def assignment_ok_def copies_def)
  have counts: "mapGetOr 0 (countNodeAssignments (mapSet k ?a as)) m
      = mapGetOr 0 (countNodeAssignments as) m + (if m = node then 1 else 0)" for m
    using new by (auto simp: countNodeAssignments_node mapSet_new countIn_def)
  have "within_limit ?limit (mapSet k ?a as)"
    using 2(5) admitted(3) unfolding within_limit_def counts by (fastforce simp: primaryContext_def)
  from initialReplicas_fresh [OF new start refl _ this, where n = "nat factor" and factor = "int (nat factor)"]
  have b: "fresh_assignment (placeable P) (int (nat factor)) ?b" "within_limit ?limit (mapSet k ?b as)"
    by simp_all
  have "fresh_assignment (placeable P) factor ?b"
  proof -
    have "max 0 (int (nat factor)) = max 0 factor" by simp
    then show ?thesis using b(1) unfolding fresh_assignment_def by metis
  qed
  then have "mapKeys bs = mapKeys (mapSet k ?b as) @ ks \<and>
      (\<forall>(k, a)\<in>set bs. fresh_assignment (placeable P) factor a) \<and> within_limit ?limit bs"
    using 2(2-4) new node b(2) by (intro 2(1) [OF node refl refl]) (auto simp: mapSet_new Let_def)
  then show ?case using new by (simp add: mapSet_new)
qed auto

text \<open>The allocation fails only where a partition finds no node for its primary.\<close>

lemma initialPartitions_Inl:
  "initialPartitions fl P factor ks as = Inl err \<Longrightarrow> \<exists>k\<in>set ks. err = No_Primary_For k \<and>
     (\<exists>bs. \<forall>node\<in>nodeId ` set (placementNodes P). \<exists>d\<in>set (createDeciderChain fl (placeConstraints P) (placeSizes P)).
        d ((primaryContext bs k (nodeMap P))\<lparr>candidateNodeId := node\<rparr>) = NO)"
proof (induction fl P factor ks as rule: initialPartitions.induct)
  case (2 fl P factor k ks as)
  let ?found = "findBestNode fl (map nodeId (placementNodes P)) (computeNodeWeights fl (placementNodes P) as)
             (createDeciderChain fl (placeConstraints P) (placeSizes P)) (primaryContext as k (nodeMap P))"
  show ?case
  proof (cases ?found)
    case None
    then have "err = No_Primary_For k" using 2(2) by simp
    then show ?thesis using None by (auto simp: findBestNode_None)
  next
    case (Some node)
    then show ?thesis using 2(1) [OF Some refl refl] 2(2) by (auto simp: Let_def)
  qed
qed simp

section \<open>The allocator without a table\<close>

lemma allocate_first:
  assumes "allocate fl nodes None name n factor constraints retainedIds = Inr (new, warnings)"
  obtains P where "nodeMap P = nodesById (sortNodes (filter (\<lambda>n. Data_Role \<in> set (roles n)) nodes))"
    and "placeConstraints P = constraints"
    and "initialPartitions fl P factor [0..n - 1] [] = Inr (tableAssignments new)"
    and "tableVersion new = 1" and "0 \<le> factor"
proof -
  let ?data = "filter (\<lambda>n. Data_Role \<in> set (roles n)) nodes"
  let ?sizes = "readPartitionSizes fl nodes name"
  let ?P = "\<lparr>placementNodes = sortNodes ?data, nodeMap = nodesById (sortNodes ?data), placeConstraints = constraints,
               placeSizes = ?sizes, drainingNodeIds = []\<rparr>"
  have "initialAllocate fl ?data name n factor constraints ?sizes = Inr (new, warnings)" "0 \<le> factor"
    using assms by (auto simp: allocate_def Let_def split: if_splits)
  then show thesis
    by (intro that [of ?P]) (auto simp: initialAllocate_def Let_def split: sum.splits)
qed

end
