(* ===== verification/Coordinator.thy ===== *)
theory Coordinator
  imports Cluster_Types "HOL-Library.Word"
begin

text \<open>
  The coordinator that keeps the shared state of a cluster: the interface \<open>ClusterCoordinator\<close> of
  \<open>distribution/coordinator/types/index.ts\<close> as a record of operations, and the coordinator of
  \<open>distribution/coordinator/in-memory.ts\<close> that implements it.

  Every operation runs to its end without waiting, so it is one step on the state. The two clocks
  are part of the state, as are the pending timers, each with its key and the time it is due. An
  event that watchers are told of is appended to \<open>emitted\<close>. Registrations are compared as records,
  where the code compares their JSON texts; the remaining fields of a registration are its \<open>'x\<close>.
\<close>

type_synonym bytes = "8 word list"
type_synonym index_name = js_string

definition js :: "string \<Rightarrow> js_string" where
  "js s = map of_char s"

definition startsWith :: "js_string \<Rightarrow> js_string \<Rightarrow> bool" where
  "startsWith pre s \<longleftrightarrow> take (length pre) s = pre"

section \<open>The interface\<close>

datatype coordinator_error = Shut_Down

record ('s, 'x, 'schema) cluster_coordinator =
  listNodes :: "'s \<Rightarrow> (coordinator_error + 'x node_registration_scheme list) \<times> 's"
  getAllocation :: "index_name \<Rightarrow> 's \<Rightarrow> (coordinator_error + allocation_table option) \<times> 's"
  putAllocation :: "index_name \<Rightarrow> allocation_table \<Rightarrow> (int option \<times> node_id) option \<Rightarrow> 's
                    \<Rightarrow> (coordinator_error + bool) \<times> 's"
  deleteAllocation :: "index_name \<Rightarrow> 's \<Rightarrow> (coordinator_error + unit) \<times> 's"
  getKey :: "js_string \<Rightarrow> 's \<Rightarrow> (coordinator_error + bytes option) \<times> 's"
  compareAndSet :: "js_string \<Rightarrow> bytes option \<Rightarrow> bytes \<Rightarrow> 's \<Rightarrow> (coordinator_error + bool) \<times> 's"
  getSchema :: "index_name \<Rightarrow> 's \<Rightarrow> (coordinator_error + 'schema option) \<times> 's"

section \<open>The state\<close>

datatype ('x, 'schema) cluster_event =
    Node_Joined node_id "'x node_registration_scheme"
  | Node_Left node_id
  | Allocation_Changed index_name allocation_table
  | Schema_Created index_name 'schema
  | Schema_Dropped index_name
  | Metadata_Changed index_name "bytes option"

record lease_entry =
  leaseNodeId :: node_id
  expiresAt :: int
  leaseTimer :: nat

record ('x, 'schema) coordinator_state =
  knownNodes :: "(node_id, 'x node_registration_scheme) js_map"
  allocations :: "(index_name, allocation_table) js_map"
  partitionStates :: "(index_name, (partition_id, partition_state) js_map) js_map"
  leases :: "(js_string, lease_entry) js_map"
  registrationsHeldUntil :: "(node_id, int) js_map"
  schemas :: "(index_name, 'schema) js_map"
  kvStore :: "(js_string, bytes) js_map"
  isShutdown :: bool
  dateNow :: int
  performanceNow :: int
  timers :: "(nat, js_string \<times> int) js_map"
  nextTimer :: nat
  emitted :: "('x, 'schema) cluster_event list"

definition createInMemoryCoordinator :: "int \<Rightarrow> int \<Rightarrow> ('x, 'schema) coordinator_state" where
  "createInMemoryCoordinator date perf =
     \<lparr>knownNodes = [], allocations = [], partitionStates = [], leases = [], registrationsHeldUntil = [],
      schemas = [], kvStore = [], isShutdown = False, dateNow = date, performanceNow = perf,
      timers = [], nextTimer = 0, emitted = []\<rparr>"

definition NODE_HEARTBEAT_TTL_MS :: int where "NODE_HEARTBEAT_TTL_MS = 30000"
definition CONTROLLER_LEASE_KEY :: js_string where "CONTROLLER_LEASE_KEY = js ''_narsil/controller''"
definition NODE_HEARTBEAT_PREFIX :: js_string where "NODE_HEARTBEAT_PREFIX = js ''_narsil/node/''"

text \<open>Every operation but \<open>shutdown\<close> throws once the coordinator has been shut down.\<close>

definition whenUp :: "('a \<times> ('x, 'schema) coordinator_state) \<Rightarrow> ('x, 'schema) coordinator_state
    \<Rightarrow> (coordinator_error + 'a) \<times> ('x, 'schema) coordinator_state" where
  "whenUp r S = (if isShutdown S then (Inl Shut_Down, S) else (Inr (fst r), snd r))"

definition emit :: "('x, 'schema) cluster_event \<Rightarrow> ('x, 'schema) coordinator_state \<Rightarrow> ('x, 'schema) coordinator_state" where
  "emit e S = S\<lparr>emitted := emitted S @ [e]\<rparr>"

section \<open>Leases\<close>

definition clearTimer :: "nat \<Rightarrow> ('x, 'schema) coordinator_state \<Rightarrow> ('x, 'schema) coordinator_state" where
  "clearTimer t S = S\<lparr>timers := AList.delete t (timers S)\<rparr>"

definition clearLeaseEntry :: "js_string \<Rightarrow> ('x, 'schema) coordinator_state \<Rightarrow> ('x, 'schema) coordinator_state" where
  "clearLeaseEntry key S =
     (case mapGet (leases S) key of
        None \<Rightarrow> S
      | Some entry \<Rightarrow> (clearTimer (leaseTimer entry) S)\<lparr>leases := AList.delete key (leases S)\<rparr>)"

definition createLeaseTimer :: "js_string \<Rightarrow> int \<Rightarrow> ('x, 'schema) coordinator_state
    \<Rightarrow> nat \<times> ('x, 'schema) coordinator_state" where
  "createLeaseTimer key ttlMs S =
     (nextTimer S, S\<lparr>timers := timers S @ [(nextTimer S, key, performanceNow S + ttlMs)], nextTimer := nextTimer S + 1\<rparr>)"

text \<open>What happens when a pending timer runs out.\<close>

definition expire :: "js_string \<Rightarrow> ('x, 'schema) coordinator_state \<Rightarrow> ('x, 'schema) coordinator_state" where
  "expire key S =
     (let S = S\<lparr>leases := AList.delete key (leases S)\<rparr>
      in if startsWith NODE_HEARTBEAT_PREFIX key
         then let expired = drop (length NODE_HEARTBEAT_PREFIX) key
              in emit (Node_Left expired)
                   (S\<lparr>knownNodes := AList.delete expired (knownNodes S),
                      registrationsHeldUntil := AList.delete expired (registrationsHeldUntil S)\<rparr>)
         else S)"

definition fireTimer :: "nat \<Rightarrow> ('x, 'schema) coordinator_state \<Rightarrow> ('x, 'schema) coordinator_state" where
  "fireTimer t S =
     (case mapGet (timers S) t of
        None \<Rightarrow> S
      | Some (key, due) \<Rightarrow> if due \<le> performanceNow S then expire key (clearTimer t S) else S)"

definition isLeaseValid :: "js_string \<Rightarrow> ('x, 'schema) coordinator_state \<Rightarrow> bool" where
  "isLeaseValid key S =
     (case mapGet (leases S) key of None \<Rightarrow> False | Some entry \<Rightarrow> dateNow S < expiresAt entry)"

definition setLease :: "js_string \<Rightarrow> node_id \<Rightarrow> int \<Rightarrow> ('x, 'schema) coordinator_state
    \<Rightarrow> ('x, 'schema) coordinator_state" where
  "setLease key node ttlMs S =
     (let (timer, S) = createLeaseTimer key ttlMs S
      in S\<lparr>leases := mapSet key \<lparr>leaseNodeId = node, expiresAt = dateNow S + ttlMs, leaseTimer = timer\<rparr> (leases S)\<rparr>)"

definition acquireLease :: "js_string \<Rightarrow> node_id \<Rightarrow> int \<Rightarrow> ('x, 'schema) coordinator_state
    \<Rightarrow> (coordinator_error + bool) \<times> ('x, 'schema) coordinator_state" where
  "acquireLease key node ttlMs S =
     whenUp
       (case mapGet (leases S) key of
          Some entry \<Rightarrow>
            if isLeaseValid key S
            then if leaseNodeId entry \<noteq> node then (False, S)
                 else (True, setLease key node ttlMs (clearTimer (leaseTimer entry) S))
            else (True, setLease key node ttlMs (clearLeaseEntry key S))
        | None \<Rightarrow> (True, setLease key node ttlMs (clearLeaseEntry key S))) S"

definition renewLease :: "js_string \<Rightarrow> node_id \<Rightarrow> int \<Rightarrow> ('x, 'schema) coordinator_state
    \<Rightarrow> (coordinator_error + bool) \<times> ('x, 'schema) coordinator_state" where
  "renewLease key node ttlMs S =
     whenUp
       (case mapGet (leases S) key of
          None \<Rightarrow> (False, S)
        | Some entry \<Rightarrow>
            if leaseNodeId entry \<noteq> node then (False, S)
            else if \<not> isLeaseValid key S then (False, S\<lparr>leases := AList.delete key (leases S)\<rparr>)
            else (True, setLease key node ttlMs (clearTimer (leaseTimer entry) S))) S"

definition releaseLease :: "js_string \<Rightarrow> ('x, 'schema) coordinator_state
    \<Rightarrow> (coordinator_error + unit) \<times> ('x, 'schema) coordinator_state" where
  "releaseLease key S = whenUp ((), clearLeaseEntry key S) S"

definition getLeaseHolder :: "js_string \<Rightarrow> ('x, 'schema) coordinator_state
    \<Rightarrow> (coordinator_error + node_id option) \<times> ('x, 'schema) coordinator_state" where
  "getLeaseHolder key S =
     whenUp
       (if \<not> isLeaseValid key S then (None, clearLeaseEntry key S)
        else (map_option leaseNodeId (mapGet (leases S) key), S)) S"

section \<open>Nodes\<close>

definition heartbeatKey :: "node_id \<Rightarrow> js_string" where
  "heartbeatKey node = NODE_HEARTBEAT_PREFIX @ node"

definition registrationsMatch :: "'x node_registration_scheme \<Rightarrow> 'x node_registration_scheme \<Rightarrow> bool" where
  "registrationsMatch left right \<longleftrightarrow> left = right"

definition registerNode :: "'x node_registration_scheme \<Rightarrow> ('x, 'schema) coordinator_state
    \<Rightarrow> (coordinator_error + unit) \<times> ('x, 'schema) coordinator_state" where
  "registerNode registration S =
     whenUp ((),
       let node = nodeId registration; previous = mapGet (knownNodes S) node;
           S = S\<lparr>knownNodes := mapSet node registration (knownNodes S),
                 registrationsHeldUntil := mapSet node (performanceNow S + NODE_HEARTBEAT_TTL_MS)
                                             (registrationsHeldUntil S)\<rparr>;
           S = setLease (heartbeatKey node) node NODE_HEARTBEAT_TTL_MS (clearLeaseEntry (heartbeatKey node) S)
       in case previous of
            Some p \<Rightarrow> if registrationsMatch p registration then S else emit (Node_Joined node registration) S
          | None \<Rightarrow> emit (Node_Joined node registration) S) S"

definition deregisterNode :: "node_id \<Rightarrow> ('x, 'schema) coordinator_state
    \<Rightarrow> (coordinator_error + unit) \<times> ('x, 'schema) coordinator_state" where
  "deregisterNode node S =
     whenUp ((),
       let existed = mapGet (knownNodes S) node \<noteq> None;
           S = S\<lparr>knownNodes := AList.delete node (knownNodes S),
                 registrationsHeldUntil := AList.delete node (registrationsHeldUntil S)\<rparr>;
           S = clearLeaseEntry (heartbeatKey node) S
       in if existed then emit (Node_Left node) S else S) S"

text \<open>The time left of a registration, with the lifetime that it counts against.\<close>

definition registrationLease :: "node_id \<Rightarrow> ('x, 'schema) coordinator_state \<Rightarrow> (int \<times> int) option" where
  "registrationLease node S =
     (case mapGet (registrationsHeldUntil S) node of
        None \<Rightarrow> None
      | Some heldUntil \<Rightarrow>
          if isShutdown S then None else Some (heldUntil - performanceNow S, NODE_HEARTBEAT_TTL_MS))"

definition memListNodes :: "('x, 'schema) coordinator_state
    \<Rightarrow> (coordinator_error + 'x node_registration_scheme list) \<times> ('x, 'schema) coordinator_state" where
  "memListNodes S = whenUp (map snd (knownNodes S), S) S"

section \<open>Allocations\<close>

definition memGetAllocation :: "index_name \<Rightarrow> ('x, 'schema) coordinator_state
    \<Rightarrow> (coordinator_error + allocation_table option) \<times> ('x, 'schema) coordinator_state" where
  "memGetAllocation name S = whenUp (mapGet (allocations S) name, S) S"

text \<open>The condition of a write: the version that the writer has read, \<open>None\<close> for no table, and the writer.\<close>

definition mayPut :: "index_name \<Rightarrow> (int option \<times> node_id) option \<Rightarrow> ('x, 'schema) coordinator_state \<Rightarrow> bool" where
  "mayPut name condition S =
     (case condition of
        None \<Rightarrow> True
      | Some (expectedVersion, writer) \<Rightarrow>
          isLeaseValid CONTROLLER_LEASE_KEY S \<and>
          map_option leaseNodeId (mapGet (leases S) CONTROLLER_LEASE_KEY) = Some writer \<and>
          (case expectedVersion of
             None \<Rightarrow> mapGet (allocations S) name = None
           | Some version \<Rightarrow>
               (case mapGet (allocations S) name of
                  None \<Rightarrow> False | Some current \<Rightarrow> tableVersion current = version)))"

definition memPutAllocation :: "index_name \<Rightarrow> allocation_table \<Rightarrow> (int option \<times> node_id) option
    \<Rightarrow> ('x, 'schema) coordinator_state \<Rightarrow> (coordinator_error + bool) \<times> ('x, 'schema) coordinator_state" where
  "memPutAllocation name table condition S =
     whenUp
       (if mayPut name condition S
        then (True, emit (Allocation_Changed name table) (S\<lparr>allocations := mapSet name table (allocations S)\<rparr>))
        else (False, S)) S"

definition memDeleteAllocation :: "index_name \<Rightarrow> ('x, 'schema) coordinator_state
    \<Rightarrow> (coordinator_error + unit) \<times> ('x, 'schema) coordinator_state" where
  "memDeleteAllocation name S = whenUp ((), S\<lparr>allocations := AList.delete name (allocations S)\<rparr>) S"

definition getPartitionState :: "index_name \<Rightarrow> partition_id \<Rightarrow> ('x, 'schema) coordinator_state
    \<Rightarrow> (coordinator_error + partition_state) \<times> ('x, 'schema) coordinator_state" where
  "getPartitionState name pid S =
     whenUp (case mapGet (partitionStates S) name of
               None \<Rightarrow> UNASSIGNED
             | Some states \<Rightarrow> mapGetOr UNASSIGNED states pid, S) S"

definition putPartitionState :: "index_name \<Rightarrow> partition_id \<Rightarrow> partition_state \<Rightarrow> ('x, 'schema) coordinator_state
    \<Rightarrow> (coordinator_error + unit) \<times> ('x, 'schema) coordinator_state" where
  "putPartitionState name pid state S =
     whenUp ((), S\<lparr>partitionStates :=
                     mapSet name (mapSet pid state (mapGetOr [] (partitionStates S) name)) (partitionStates S)\<rparr>) S"

section \<open>Keys and schemas\<close>

text \<open>\<open>distribution/coordinator/index-metadata-key.ts\<close> and \<open>index-metadata-watchers.ts\<close>.\<close>

definition INDEX_METADATA_KEY_PREFIX :: js_string where "INDEX_METADATA_KEY_PREFIX = js ''_narsil/index/''"
definition INDEX_METADATA_KEY_SUFFIX :: js_string where "INDEX_METADATA_KEY_SUFFIX = js ''/config''"

definition endsWith :: "js_string \<Rightarrow> js_string \<Rightarrow> bool" where
  "endsWith suf s \<longleftrightarrow> length suf \<le> length s \<and> drop (length s - length suf) s = suf"

definition indexNameOfMetadataSuffix :: "js_string \<Rightarrow> index_name option" where
  "indexNameOfMetadataSuffix keySuffix =
     (if \<not> endsWith INDEX_METADATA_KEY_SUFFIX keySuffix then None
      else let name = take (length keySuffix - length INDEX_METADATA_KEY_SUFFIX) keySuffix
           in if name = [] \<or> of_char (CHR ''/'') \<in> set name then None else Some name)"

definition indexNameOfMetadataKey :: "js_string \<Rightarrow> index_name option" where
  "indexNameOfMetadataKey key =
     (if \<not> startsWith INDEX_METADATA_KEY_PREFIX key then None
      else indexNameOfMetadataSuffix (drop (length INDEX_METADATA_KEY_PREFIX) key))"

definition emitMetadata :: "js_string \<Rightarrow> bytes option \<Rightarrow> ('x, 'schema) coordinator_state
    \<Rightarrow> ('x, 'schema) coordinator_state" where
  "emitMetadata key value S =
     (case indexNameOfMetadataKey key of
        None \<Rightarrow> S
      | Some name \<Rightarrow> emit (Metadata_Changed name (if value = Some [] then None else value)) S)"

definition memGetKey :: "js_string \<Rightarrow> ('x, 'schema) coordinator_state
    \<Rightarrow> (coordinator_error + bytes option) \<times> ('x, 'schema) coordinator_state" where
  "memGetKey key S = whenUp (mapGet (kvStore S) key, S) S"

definition memCompareAndSet :: "js_string \<Rightarrow> bytes option \<Rightarrow> bytes \<Rightarrow> ('x, 'schema) coordinator_state
    \<Rightarrow> (coordinator_error + bool) \<times> ('x, 'schema) coordinator_state" where
  "memCompareAndSet key expected value S =
     whenUp
       (if mapGet (kvStore S) key = expected
        then (True, emitMetadata key (Some value) (S\<lparr>kvStore := mapSet key value (kvStore S)\<rparr>))
        else (False, S)) S"

definition deleteKey :: "js_string \<Rightarrow> ('x, 'schema) coordinator_state
    \<Rightarrow> (coordinator_error + unit) \<times> ('x, 'schema) coordinator_state" where
  "deleteKey key S =
     whenUp ((), if mapGet (kvStore S) key = None then S
                 else emitMetadata key None (S\<lparr>kvStore := AList.delete key (kvStore S)\<rparr>)) S"

definition memGetSchema :: "index_name \<Rightarrow> ('x, 'schema) coordinator_state
    \<Rightarrow> (coordinator_error + 'schema option) \<times> ('x, 'schema) coordinator_state" where
  "memGetSchema name S = whenUp (mapGet (schemas S) name, S) S"

definition putSchema :: "index_name \<Rightarrow> 'schema \<Rightarrow> ('x, 'schema) coordinator_state
    \<Rightarrow> (coordinator_error + unit) \<times> ('x, 'schema) coordinator_state" where
  "putSchema name schema S =
     whenUp ((), emit (Schema_Created name schema) (S\<lparr>schemas := mapSet name schema (schemas S)\<rparr>)) S"

definition dropSchema :: "index_name \<Rightarrow> ('x, 'schema) coordinator_state
    \<Rightarrow> (coordinator_error + unit) \<times> ('x, 'schema) coordinator_state" where
  "dropSchema name S =
     whenUp ((), if mapGet (schemas S) name = None then S
                 else emit (Schema_Dropped name) (S\<lparr>schemas := AList.delete name (schemas S)\<rparr>)) S"

definition listSchemas :: "('x, 'schema) coordinator_state
    \<Rightarrow> (coordinator_error + index_name list) \<times> ('x, 'schema) coordinator_state" where
  "listSchemas S = whenUp (jsSort (\<lambda>a b. compareCodePoints a b < 0) (mapKeys (schemas S)), S) S"

definition shutdown :: "('x, 'schema) coordinator_state \<Rightarrow> ('x, 'schema) coordinator_state" where
  "shutdown S =
     (if isShutdown S then S
      else (foldl (\<lambda>S (key, entry). clearTimer (leaseTimer entry) S) S (leases S))
             \<lparr>isShutdown := True, leases := [], registrationsHeldUntil := [], knownNodes := [], allocations := [],
              partitionStates := [], schemas := [], kvStore := []\<rparr>)"

section \<open>The in-memory coordinator implements the interface\<close>

definition inMemoryCoordinator :: "(('x, 'schema) coordinator_state, 'x, 'schema) cluster_coordinator" where
  "inMemoryCoordinator =
     \<lparr>listNodes = memListNodes, getAllocation = memGetAllocation, putAllocation = memPutAllocation,
      deleteAllocation = memDeleteAllocation, getKey = memGetKey, compareAndSet = memCompareAndSet,
      getSchema = memGetSchema\<rparr>"

end
