(* ===== verification/Cluster_Payloads.thy ===== *)
theory Cluster_Payloads
  imports Coordinator
begin

text \<open>
  Decoded messages and the validators that read requests out of them: \<open>distribution/payload-guards.ts\<close>,
  the validators of \<open>distribution/cluster/controller\<close> and \<open>distribution/cluster/version.ts\<close>. A
  decoded value is what a MessagePack decoder yields; reading an absent field gives \<open>undefined\<close>,
  which is \<open>None\<close>. A binary value is an object in JavaScript, with none of the fields read here.
\<close>

datatype js_value =
    JNull
  | JBool bool
  | JNum jsnum
  | JStr js_string
  | JBin bytes
  | JArr "js_value list"
  | JObj "(js_string \<times> js_value) list"

definition field :: "js_value \<Rightarrow> string \<Rightarrow> js_value option" where
  "field v name = (case v of JObj props \<Rightarrow> mapGet props (js name) | _ \<Rightarrow> None)"

section \<open>Guards\<close>

fun isRecord :: "js_value \<Rightarrow> bool" where
  "isRecord (JObj _) \<longleftrightarrow> True"
| "isRecord (JBin _) \<longleftrightarrow> True"
| "isRecord _ \<longleftrightarrow> False"

definition integral :: "rat \<Rightarrow> bool" where
  "integral q \<longleftrightarrow> of_int \<lfloor>q\<rfloor> = q"

fun isValidInteger :: "js_value option \<Rightarrow> bool" where
  "isValidInteger (Some (JNum (Num q))) \<longleftrightarrow> integral q"
| "isValidInteger _ \<longleftrightarrow> False"

fun asString :: "js_value option \<Rightarrow> js_string option" where
  "asString (Some (JStr s)) = Some s"
| "asString _ = None"

fun asInteger :: "js_value option \<Rightarrow> int option" where
  "asInteger (Some (JNum (Num q))) = (if integral q then Some \<lfloor>q\<rfloor> else None)"
| "asInteger _ = None"

lemma asInteger_valid: "asInteger v \<noteq> None \<longleftrightarrow> isValidInteger v"
  by (cases v rule: asInteger.cases) simp_all

section \<open>Requests\<close>

record insync_remove_payload =
  requestIndex :: index_name
  requestPartition :: partition_id
  replicaNodeId :: node_id
  requestTerm :: int

record insync_add_payload = insync_remove_payload +
  appliedSeqNo :: int
  requestCommitPoint :: int

record insync_confirm =
  confirmIndex :: index_name
  confirmPartition :: partition_id
  accepted :: bool

record primary_resign_payload =
  resignIndex :: index_name
  resignIndexUuid :: js_string
  resignPartition :: partition_id
  resignTerm :: int

record bootstrap_complete_payload =
  completeIndex :: index_name
  completePartition :: partition_id
  completeNodeId :: node_id
  completeTerm :: int

definition validateInsyncRemovePayload :: "js_value \<Rightarrow> insync_remove_payload option" where
  "validateInsyncRemovePayload decoded =
     (if \<not> isRecord decoded then None
      else case asString (field decoded ''indexName'') of
        None \<Rightarrow> None
      | Some name \<Rightarrow>
        (case asInteger (field decoded ''partitionId'') of
           None \<Rightarrow> None
         | Some pid \<Rightarrow>
           (case asString (field decoded ''replicaNodeId'') of
              None \<Rightarrow> None
            | Some replica \<Rightarrow>
              (case asInteger (field decoded ''primaryTerm'') of
                 None \<Rightarrow> None
               | Some tm \<Rightarrow> Some \<lparr>requestIndex = name, requestPartition = pid, replicaNodeId = replica,
                                 requestTerm = tm\<rparr>))))"

definition validateInsyncAddPayload :: "js_value \<Rightarrow> insync_add_payload option" where
  "validateInsyncAddPayload decoded =
     (case validateInsyncRemovePayload decoded of
        None \<Rightarrow> None
      | Some base \<Rightarrow>
        (case asInteger (field decoded ''appliedSeqNo'') of
           None \<Rightarrow> None
         | Some applied \<Rightarrow>
           if applied < 0 then None
           else case asInteger (field decoded ''commitPoint'') of
                  None \<Rightarrow> None
                | Some committed \<Rightarrow>
                    if committed < 0 then None
                    else Some \<lparr>requestIndex = requestIndex base, requestPartition = requestPartition base,
                               replicaNodeId = replicaNodeId base, requestTerm = requestTerm base,
                               appliedSeqNo = applied, requestCommitPoint = committed\<rparr>))"

definition validateBootstrapCompletePayload :: "js_value \<Rightarrow> bootstrap_complete_payload option" where
  "validateBootstrapCompletePayload decoded =
     (if \<not> isRecord decoded then None
      else case asString (field decoded ''indexName'') of
        None \<Rightarrow> None
      | Some name \<Rightarrow>
        if name = [] then None
        else case asInteger (field decoded ''partitionId'') of
          None \<Rightarrow> None
        | Some pid \<Rightarrow>
          if pid < 0 then None
          else case asString (field decoded ''nodeId'') of
            None \<Rightarrow> None
          | Some node \<Rightarrow>
            (case asInteger (field decoded ''primaryTerm'') of
               None \<Rightarrow> None
             | Some tm \<Rightarrow> Some \<lparr>completeIndex = name, completePartition = pid, completeNodeId = node,
                               completeTerm = tm\<rparr>))"

definition validatePrimaryResignPayload :: "js_value \<Rightarrow> primary_resign_payload option" where
  "validatePrimaryResignPayload decoded =
     (if \<not> isRecord decoded then None
      else case (asString (field decoded ''indexName''), asString (field decoded ''indexUuid'')) of
        (Some name, Some uuid) \<Rightarrow>
          (case (asInteger (field decoded ''partitionId''), asInteger (field decoded ''primaryTerm'')) of
             (Some pid, Some tm) \<Rightarrow>
               Some \<lparr>resignIndex = name, resignIndexUuid = uuid, resignPartition = pid, resignTerm = tm\<rparr>
           | _ \<Rightarrow> None)
      | _ \<Rightarrow> None)"

definition UNKNOWN_PARTITION_ID :: partition_id where "UNKNOWN_PARTITION_ID = -1"

definition describeRequest :: "js_value option \<Rightarrow> index_name \<times> partition_id" where
  "describeRequest decoded =
     (case decoded of
        None \<Rightarrow> ([], UNKNOWN_PARTITION_ID)
      | Some v \<Rightarrow>
          if \<not> isRecord v then ([], UNKNOWN_PARTITION_ID)
          else ((case asString (field v ''indexName'') of Some name \<Rightarrow> name | None \<Rightarrow> []),
                (case asInteger (field v ''partitionId'') of Some pid \<Rightarrow> pid | None \<Rightarrow> UNKNOWN_PARTITION_ID)))"

section \<open>Versions\<close>

definition isDigit :: "nat \<Rightarrow> bool" where
  "isDigit u \<longleftrightarrow> of_char (CHR ''0'') \<le> u \<and> u \<le> of_char (CHR ''9'')"

definition digitsValue :: "js_string \<Rightarrow> int" where
  "digitsValue ds = foldl (\<lambda>n u. n * 10 + (int u - of_char (CHR ''0''))) 0 ds"

definition MAX_SAFE_INTEGER :: int where "MAX_SAFE_INTEGER = 2 ^ 53 - 1"

text \<open>
  The match of \<open>VERSION_PATTERN\<close>: digits, a full stop, digits. \<open>Number\<close> of a digit string is
  safe exactly if its exact value is.
\<close>

definition versionMatch :: "js_string \<Rightarrow> (js_string \<times> js_string) option" where
  "versionMatch version =
     (let major = takeWhile isDigit version; rest = dropWhile isDigit version
      in if major = [] \<or> rest = [] \<or> hd rest \<noteq> of_char (CHR ''.'') then None
         else let minor = tl rest
              in if minor = [] \<or> \<not> list_all isDigit minor then None else Some (major, minor))"

definition safeNumber :: "js_string \<Rightarrow> int option" where
  "safeNumber ds = (if digitsValue ds \<le> MAX_SAFE_INTEGER then Some (digitsValue ds) else None)"

definition versionPartsOf :: "js_string \<Rightarrow> (int \<times> int) option" where
  "versionPartsOf version =
     (case versionMatch version of
        None \<Rightarrow> None
      | Some (major, minor) \<Rightarrow>
          (case (safeNumber major, safeNumber minor) of (Some a, Some b) \<Rightarrow> Some (a, b) | _ \<Rightarrow> None))"

definition reachesVersion :: "js_string option \<Rightarrow> js_string \<Rightarrow> bool" where
  "reachesVersion version minimum =
     (case version of
        None \<Rightarrow> False
      | Some v \<Rightarrow>
          (case (versionPartsOf v, versionPartsOf minimum) of
             (Some (a, b), Some (c, d)) \<Rightarrow> c < a \<or> a = c \<and> d \<le> b
           | _ \<Rightarrow> False))"

definition majorOf :: "js_string \<Rightarrow> int option" where
  "majorOf version = (case versionMatch version of None \<Rightarrow> None | Some (major, minor) \<Rightarrow> safeNumber major)"

definition SPEC_VERSION :: js_string where "SPEC_VERSION = js ''1.4''"

definition sharesMajorVersion :: "js_string option \<Rightarrow> js_string \<Rightarrow> bool" where
  "sharesMajorVersion version reference =
     (case version of
        None \<Rightarrow> False
      | Some v \<Rightarrow> majorOf v \<noteq> None \<and> majorOf v = majorOf reference)"

text \<open>A compatible version shares the major version; reaching a version is reflexive and transitive.\<close>

lemma reachesVersion_trans:
  "reachesVersion (Some u) v \<Longrightarrow> reachesVersion (Some v) w \<Longrightarrow> reachesVersion (Some u) w"
  by (auto simp: reachesVersion_def split: option.splits)

section \<open>Which requests are accepted\<close>

lemma asString_Some: "asString v = Some s \<longleftrightarrow> v = Some (JStr s)"
  by (cases v rule: asString.cases) auto

lemma asInteger_Some: "asInteger v = Some n \<longleftrightarrow> v = Some (JNum (Num (of_int n)))"
  by (cases v rule: asInteger.cases) (auto simp: integral_def)

lemma field_isRecord: "field decoded name = Some v \<Longrightarrow> isRecord decoded"
  by (simp add: field_def split: js_value.splits)

lemma validateInsyncRemovePayload_iff:
  "validateInsyncRemovePayload decoded = Some p \<longleftrightarrow>
   (\<exists>name pid replica tm. field decoded ''indexName'' = Some (JStr name) \<and>
     field decoded ''partitionId'' = Some (JNum (Num (of_int pid))) \<and>
     field decoded ''replicaNodeId'' = Some (JStr replica) \<and>
     field decoded ''primaryTerm'' = Some (JNum (Num (of_int tm))) \<and>
     p = \<lparr>requestIndex = name, requestPartition = pid, replicaNodeId = replica, requestTerm = tm\<rparr>)"
  unfolding validateInsyncRemovePayload_def asString_Some [symmetric] asInteger_Some [symmetric]
  by (auto split: option.splits dest: field_isRecord simp: asString_Some)

end
