(* ===== verification/Cluster_Process.thy ===== *)
theory Cluster_Process
  imports Cluster_Payloads Allocator
begin

text \<open>
  Asynchronous handlers over a coordinator. A handler runs as a sequence of coordinator calls, and
  between two of its calls any other process of the cluster may act on the coordinator: before the
  \<open>n\<close>-th call the state becomes \<open>others n s\<close>, for an arbitrary \<open>others\<close>. What a handler reads outside
  the coordinator, such as whether its node still leads, may change at every moment and is a function
  of \<open>n\<close> too. An exception is an \<open>Inl\<close>.

  The lemmas give the rule by which handlers keep a relation that every action of the others and
  every call keeps.
\<close>

datatype cluster_error =
    Coordinator_Down
  | Decode_Failed
  | Metadata_Invalid
  | Allocation_Refused allocation_error
  | Attempts_Lost

type_synonym 's interleaving = "nat \<Rightarrow> 's \<Rightarrow> 's"
type_synonym ('s, 'a) process = "nat \<times> 's \<Rightarrow> (cluster_error + 'a) \<times> nat \<times> 's"

definition call :: "'s interleaving \<Rightarrow> ('s \<Rightarrow> (coordinator_error + 'a) \<times> 's) \<Rightarrow> ('s, 'a) process" where
  "call others operation = (\<lambda>(n, s).
     let (r, s) = operation (others n s)
     in (case r of Inl _ \<Rightarrow> Inl Coordinator_Down | Inr a \<Rightarrow> Inr a, n + 1, s))"

definition return :: "'a \<Rightarrow> ('s, 'a) process" where
  "return a = (\<lambda>(n, s). (Inr a, n, s))"

definition throw :: "cluster_error \<Rightarrow> ('s, 'a) process" where
  "throw e = (\<lambda>(n, s). (Inl e, n, s))"

definition andThen :: "('s, 'a) process \<Rightarrow> ('a \<Rightarrow> ('s, 'b) process) \<Rightarrow> ('s, 'b) process" where
  "andThen p k = (\<lambda>w. case p w of (Inl e, w) \<Rightarrow> (Inl e, w) | (Inr a, w) \<Rightarrow> k a w)"

definition fromResult :: "cluster_error + 'a \<Rightarrow> ('s, 'a) process" where
  "fromResult r = (\<lambda>(n, s). (r, n, s))"

text \<open>Reading something that changes by itself, at the present moment.\<close>

definition observe :: "(nat \<Rightarrow> 'a) \<Rightarrow> ('s, 'a) process" where
  "observe f = (\<lambda>(n, s). (Inr (f n), n, s))"

section \<open>Reasoning about handlers\<close>

text \<open>
  \<open>hoare A p B\<close>: a process that starts in a state of \<open>A\<close> ends with a result and in a state that
  satisfy \<open>B\<close>. The rules follow the combinators.
\<close>

type_synonym ('s, 'a) post = "(cluster_error + 'a) \<Rightarrow> 's \<Rightarrow> bool"

definition hoare :: "('s \<Rightarrow> bool) \<Rightarrow> ('s, 'a) process \<Rightarrow> ('s, 'a) post \<Rightarrow> bool" where
  "hoare A p B \<longleftrightarrow> (\<forall>n s r n' s'. A s \<longrightarrow> p (n, s) = (r, n', s') \<longrightarrow> B r s')"

lemma hoareD: "hoare A p B \<Longrightarrow> A s \<Longrightarrow> p (n, s) = (r, n', s') \<Longrightarrow> B r s'"
  by (simp add: hoare_def)

lemma hoare_weaken: "hoare A p B \<Longrightarrow> (\<And>r s. B r s \<Longrightarrow> B' r s) \<Longrightarrow> hoare A p B'"
  unfolding hoare_def by blast

lemma hoare_strengthen: "hoare A p B \<Longrightarrow> (\<And>s. A' s \<Longrightarrow> A s) \<Longrightarrow> hoare A' p B"
  unfolding hoare_def by blast

named_theorems hoare_rules "the rules of the process combinators"

lemma hoare_return [hoare_rules]: "(\<And>s. A s \<Longrightarrow> B (Inr a) s) \<Longrightarrow> hoare A (return a) B"
  by (simp add: hoare_def return_def)

lemma hoare_throw [hoare_rules]: "(\<And>s. A s \<Longrightarrow> B (Inl e) s) \<Longrightarrow> hoare A (throw e) B"
  by (simp add: hoare_def throw_def)

lemma hoare_fromResult: "(\<And>s. A s \<Longrightarrow> B r s) \<Longrightarrow> hoare A (fromResult r) B"
  by (simp add: hoare_def fromResult_def)

lemma hoare_call:
  assumes "\<And>n s r s'. A s \<Longrightarrow> operation (others n s) = (r, s') \<Longrightarrow>
     B (case r of Inl _ \<Rightarrow> Inl Coordinator_Down | Inr a \<Rightarrow> Inr a) s'"
  shows "hoare A (call others operation) B"
  using assms by (auto simp: hoare_def call_def Let_def split: prod.splits)

lemma hoare_andThen:
  assumes "hoare A p (\<lambda>r s. case r of Inl e \<Rightarrow> B (Inl e) s | Inr a \<Rightarrow> M a s)" and "\<And>a. hoare (M a) (k a) B"
  shows "hoare A (andThen p k) B"
  unfolding hoare_def
proof (intro allI impI)
  fix n s r n' s'
  assume s: "A s" and run: "andThen p k (n, s) = (r, n', s')"
  obtain q m t where p: "p (n, s) = (q, m, t)" by (metis prod_cases3)
  have "case q of Inl e \<Rightarrow> B (Inl e) t | Inr a \<Rightarrow> M a t" by (rule hoareD [OF assms(1) s p])
  then show "B r s'"
    using run p hoareD [OF assms(2)] by (cases q) (auto simp: andThen_def)
qed

lemma hoare_observe: "(\<And>a. hoare A (k a) B) \<Longrightarrow> hoare A (andThen (observe f) k) B"
  by (rule hoare_andThen [where M = "\<lambda>_. A"]) (auto simp: hoare_def observe_def)

lemma hoare_result:
  "(\<And>a. r = Inr a \<Longrightarrow> hoare A (k a) B) \<Longrightarrow> (\<And>e s. A s \<Longrightarrow> r = Inl e \<Longrightarrow> B (Inl e) s) \<Longrightarrow>
   hoare A (andThen (fromResult r) k) B"
  by (auto simp: hoare_def fromResult_def andThen_def split: sum.splits prod.splits)

lemma hoare_if [hoare_rules]:
  "(c \<Longrightarrow> hoare A p B) \<Longrightarrow> (\<not> c \<Longrightarrow> hoare A q B) \<Longrightarrow> hoare A (if c then p else q) B"
  by simp

lemma hoare_option [hoare_rules]:
  "(x = None \<Longrightarrow> hoare A p B) \<Longrightarrow> (\<And>a. x = Some a \<Longrightarrow> hoare A (q a) B) \<Longrightarrow>
   hoare A (case x of None \<Rightarrow> p | Some a \<Rightarrow> q a) B"
  by (simp split: option.splits)

end
