(* ===== verification/Index_Metadata.thy ===== *)
theory Index_Metadata
  imports Cluster_Process
begin

text \<open>
  The metadata of an index under its key of the coordinator: \<open>distribution/cluster/index-metadata.ts\<close>.
  The MessagePack codec is a pair of functions, \<open>decode\<close> failing with \<open>None\<close>.

  A limit of shards that is no integer means what the least integer above it means, because it is
  only compared with counts; \<open>NaN\<close> and infinity never stop a placement.
\<close>

definition MAX_INDEX_NAME_LENGTH :: nat where "MAX_INDEX_NAME_LENGTH = 255"
definition MAX_PARTITION_COUNT :: int where "MAX_PARTITION_COUNT = 65536"
definition MAX_REPLICATION_FACTOR :: int where "MAX_REPLICATION_FACTOR = 255"
definition REPLICATION_FACTOR_CAS_ATTEMPTS :: nat where "REPLICATION_FACTOR_CAS_ATTEMPTS = 5"

record codec =
  decodeValue :: "bytes \<Rightarrow> js_value option"
  encodeValue :: "js_value \<Rightarrow> bytes"

record index_metadata =
  indexUuidOf :: js_string
  metadataIndex :: index_name
  partitionCountOf :: int
  factorOf :: int
  constraintsOf :: allocation_constraints

section \<open>Names and keys\<close>

definition alphanumeric :: "nat \<Rightarrow> bool" where
  "alphanumeric u \<longleftrightarrow> isDigit u \<or> of_char (CHR ''a'') \<le> u \<and> u \<le> of_char (CHR ''z'') \<or>
     of_char (CHR ''A'') \<le> u \<and> u \<le> of_char (CHR ''Z'')"

fun includesTwoDots :: "js_string \<Rightarrow> bool" where
  "includesTwoDots (u # w # us) \<longleftrightarrow> u = of_char (CHR ''.'') \<and> w = of_char (CHR ''.'') \<or> includesTwoDots (w # us)"
| "includesTwoDots _ \<longleftrightarrow> False"

definition INDEX_NAME_PATTERN :: "js_string \<Rightarrow> bool" where
  "INDEX_NAME_PATTERN name \<longleftrightarrow> name \<noteq> [] \<and> alphanumeric (hd name) \<and>
     list_all (\<lambda>u. alphanumeric u \<or> u \<in> set (js ''._-'')) (tl name)"

definition validateIndexName :: "js_string \<Rightarrow> cluster_error + unit" where
  "validateIndexName name =
     (if name = [] \<or> MAX_INDEX_NAME_LENGTH < length name then Inl Metadata_Invalid
      else if 0 \<in> set name \<or> of_char (CHR ''/'') \<in> set name \<or> 92 \<in> set name \<or> includesTwoDots name
      then Inl Metadata_Invalid
      else if \<not> INDEX_NAME_PATTERN name then Inl Metadata_Invalid
      else Inr ())"

definition indexConfigKey :: "index_name \<Rightarrow> js_string" where
  "indexConfigKey name = INDEX_METADATA_KEY_PREFIX @ name @ INDEX_METADATA_KEY_SUFFIX"

section \<open>Reading\<close>

fun limitOf :: "js_value option \<Rightarrow> int option" where
  "limitOf (Some (JNum (Num q))) = Some \<lceil>q\<rceil>"
| "limitOf (Some (JNum NegInf)) = Some 0"
| "limitOf _ = None"

fun isNumberOrAbsent :: "js_value option \<Rightarrow> bool" where
  "isNumberOrAbsent None \<longleftrightarrow> True"
| "isNumberOrAbsent (Some JNull) \<longleftrightarrow> True"
| "isNumberOrAbsent (Some (JNum _)) \<longleftrightarrow> True"
| "isNumberOrAbsent _ \<longleftrightarrow> False"

definition constraintsFrom :: "js_value \<Rightarrow> allocation_constraints" where
  "constraintsFrom v =
     \<lparr>zoneAwareness = (field v ''zoneAwareness'' = Some (JBool True)),
      zoneAttribute = (case asString (field v ''zoneAttribute'') of Some s \<Rightarrow> s | None \<Rightarrow> js ''zone''),
      maxShardsPerNode = limitOf (field v ''maxShardsPerNode'')\<rparr>"

definition validateDecodedMetadata :: "js_value \<Rightarrow> cluster_error + index_metadata" where
  "validateDecodedMetadata decoded =
     (if \<not> isRecord decoded then Inl Metadata_Invalid
      else case asString (field decoded ''indexUuid'') of
        None \<Rightarrow> Inl Metadata_Invalid
      | Some uuid \<Rightarrow>
        if uuid = [] \<or> 128 < length uuid then Inl Metadata_Invalid
        else case asString (field decoded ''indexName'') of
          None \<Rightarrow> Inl Metadata_Invalid
        | Some name \<Rightarrow>
          (case asInteger (field decoded ''partitionCount'') of
             None \<Rightarrow> Inl Metadata_Invalid
           | Some partitions \<Rightarrow>
             if partitions \<le> 0 \<or> MAX_PARTITION_COUNT < partitions then Inl Metadata_Invalid
             else case asInteger (field decoded ''replicationFactor'') of
               None \<Rightarrow> Inl Metadata_Invalid
             | Some factor \<Rightarrow>
               if factor < 0 \<or> MAX_REPLICATION_FACTOR < factor then Inl Metadata_Invalid
               else case field decoded ''constraints'' of
                 None \<Rightarrow> Inl Metadata_Invalid
               | Some constraints \<Rightarrow>
                 if \<not> isRecord constraints then Inl Metadata_Invalid
                 else if \<not> isNumberOrAbsent (field constraints ''maxShardsPerNode'') then Inl Metadata_Invalid
                 else Inr \<lparr>indexUuidOf = uuid, metadataIndex = name, partitionCountOf = partitions,
                           factorOf = factor, constraintsOf = constraintsFrom constraints\<rparr>))"

definition decodeMetadata :: "codec \<Rightarrow> bytes \<Rightarrow> cluster_error + js_value \<times> index_metadata" where
  "decodeMetadata D raw =
     (case decodeValue D raw of
        None \<Rightarrow> Inl Decode_Failed
      | Some decoded \<Rightarrow>
          (case validateDecodedMetadata decoded of
             Inl err \<Rightarrow> Inl err
           | Inr record \<Rightarrow> Inr (decoded, record)))"

definition readStoredMetadata :: "('s, 'x, 'schema, 'm) cluster_coordinator_scheme \<Rightarrow> codec \<Rightarrow> 's interleaving
    \<Rightarrow> index_name \<Rightarrow> ('s, (bytes \<times> js_value \<times> index_metadata) option) process" where
  "readStoredMetadata C D others name =
     andThen (fromResult (validateIndexName name)) (\<lambda>_.
     andThen (call others (getKey C (indexConfigKey name))) (\<lambda>raw.
       case raw of
         None \<Rightarrow> return None
       | Some raw \<Rightarrow>
           if raw = [] then return None
           else andThen (fromResult (decodeMetadata D raw)) (\<lambda>found. return (Some (raw, found)))))"

definition getIndexMetadata :: "('s, 'x, 'schema, 'm) cluster_coordinator_scheme \<Rightarrow> codec \<Rightarrow> 's interleaving
    \<Rightarrow> index_name \<Rightarrow> ('s, index_metadata option) process" where
  "getIndexMetadata C D others name =
     andThen (readStoredMetadata C D others name) (\<lambda>stored.
       return (map_option (\<lambda>(raw, decoded, record). record) stored))"

section \<open>Writing\<close>

definition constraintsValue :: "allocation_constraints \<Rightarrow> js_value" where
  "constraintsValue c =
     JObj [(js ''zoneAwareness'', JBool (zoneAwareness c)), (js ''zoneAttribute'', JStr (zoneAttribute c)),
           (js ''maxShardsPerNode'',
            case maxShardsPerNode c of None \<Rightarrow> JNull | Some n \<Rightarrow> JNum (Num (of_int n)))]"

text \<open>The stored object; absent settings are left out by \<open>ignoreUndefined\<close>.\<close>

definition metadataValue :: "index_metadata \<Rightarrow> js_value option \<Rightarrow> js_value" where
  "metadataValue m settings =
     JObj ([(js ''indexUuid'', JStr (indexUuidOf m)), (js ''indexName'', JStr (metadataIndex m)),
            (js ''partitionCount'', JNum (Num (of_int (partitionCountOf m)))),
            (js ''replicationFactor'', JNum (Num (of_int (factorOf m)))),
            (js ''constraints'', constraintsValue (constraintsOf m))]
           @ (case settings of None \<Rightarrow> [] | Some s \<Rightarrow> [(js ''settings'', s)]))"

definition putIndexMetadata :: "('s, 'x, 'schema, 'm) cluster_coordinator_scheme \<Rightarrow> codec \<Rightarrow> 's interleaving
    \<Rightarrow> index_metadata \<Rightarrow> js_value option \<Rightarrow> ('s, bool) process" where
  "putIndexMetadata C D others m settings =
     andThen (fromResult (validateIndexName (metadataIndex m))) (\<lambda>_.
       let key = indexConfigKey (metadataIndex m); value = encodeValue D (metadataValue m settings)
       in andThen (call others (compareAndSet C key None value)) (\<lambda>written.
          if written then return True
          else andThen (call others (getKey C key)) (\<lambda>current.
            case current of
              None \<Rightarrow> return False
            | Some held \<Rightarrow> if held \<noteq> [] then return False
                           else call others (compareAndSet C key (Some held) value))))"

definition withFactor :: "js_value \<Rightarrow> int \<Rightarrow> js_value" where
  "withFactor decoded factor =
     (case decoded of
        JObj props \<Rightarrow> JObj (mapSet (js ''replicationFactor'') (JNum (Num (of_int factor))) props)
      | v \<Rightarrow> v)"

fun putReplicationFactorLoop :: "('s, 'x, 'schema, 'm) cluster_coordinator_scheme \<Rightarrow> codec \<Rightarrow> 's interleaving
    \<Rightarrow> index_name \<Rightarrow> int \<Rightarrow> nat \<Rightarrow> ('s, index_metadata option) process" where
  "putReplicationFactorLoop C D others name factor 0 = throw Attempts_Lost"
| "putReplicationFactorLoop C D others name factor (Suc attempts) =
     andThen (call others (getKey C (indexConfigKey name))) (\<lambda>raw.
       case raw of
         None \<Rightarrow> return None
       | Some raw \<Rightarrow>
           if raw = [] then return None
           else andThen (fromResult (decodeMetadata D raw)) (\<lambda>(decoded, record).
             if factorOf record = factor then return (Some record)
             else andThen (call others (compareAndSet C (indexConfigKey name) (Some raw)
                                          (encodeValue D (withFactor decoded factor)))) (\<lambda>written.
                    if written then return (Some (record\<lparr>factorOf := factor\<rparr>))
                    else putReplicationFactorLoop C D others name factor attempts)))"

definition putIndexReplicationFactor :: "('s, 'x, 'schema, 'm) cluster_coordinator_scheme \<Rightarrow> codec
    \<Rightarrow> 's interleaving \<Rightarrow> index_name \<Rightarrow> int \<Rightarrow> ('s, index_metadata option) process" where
  "putIndexReplicationFactor C D others name factor =
     andThen (fromResult (validateIndexName name)) (\<lambda>_.
       putReplicationFactorLoop C D others name factor REPLICATION_FACTOR_CAS_ATTEMPTS)"

end
