(* ===== verification/Table_Updates.thy ===== *)
theory Table_Updates
  imports Index_Metadata
begin

text \<open>
  The updates of single assignments in the allocation table, each a bounded loop that reads the
  table, decides, and writes it back under the version it has read:
    \<^item> \<open>distribution/cluster/table-identity.ts\<close>: the identity of the index that a table serves;
    \<^item> \<open>distribution/replication/insync.ts\<close>: removal from and admission to the in-sync set;
    \<^item> \<open>distribution/cluster/controller/bootstrap-handler.ts\<close>: a finished bootstrap;
    \<^item> \<open>distribution/cluster/controller/event-loop/primary-resign.ts\<close>: a primary that resigns;
    \<^item> \<open>distribution/cluster/controller/event-loop/insync-messages.ts\<close>: who may ask for what.
  Each message handler is the task that it puts on the queue of the controller, with the answer that
  it sends; the queue itself, which only delays the tasks, is not modelled.
\<close>

section \<open>The identity of a table\<close>

definition belongsToAnotherIndex :: "allocation_table \<Rightarrow> js_string option \<Rightarrow> bool" where
  "belongsToAnotherIndex table uuid \<longleftrightarrow>
     (case (indexUuid table, uuid) of (Some a, Some b) \<Rightarrow> a \<noteq> b | _ \<Rightarrow> False)"

definition stampedWith :: "allocation_table \<Rightarrow> js_string option \<Rightarrow> allocation_table" where
  "stampedWith table uuid = (case uuid of None \<Rightarrow> table | Some u \<Rightarrow> table\<lparr>indexUuid := Some u\<rparr>)"

definition rewriteForCurrentIndex :: "('s, 'x, 'schema, 'm) cluster_coordinator_scheme \<Rightarrow> codec \<Rightarrow> 's interleaving
    \<Rightarrow> allocation_table \<Rightarrow> ('s, allocation_table option) process" where
  "rewriteForCurrentIndex C D others table =
     andThen (getIndexMetadata C D others (tableIndexName table)) (\<lambda>metadata.
       let uuid = map_option indexUuidOf metadata
       in return (if belongsToAnotherIndex table uuid then None else Some (stampedWith table uuid)))"

text \<open>The table with one assignment replaced, one version on.\<close>

definition withAssignment :: "allocation_table \<Rightarrow> partition_id \<Rightarrow> partition_assignment \<Rightarrow> allocation_table" where
  "withAssignment table pid a =
     table\<lparr>tableVersion := tableVersion table + 1, tableAssignments := mapSet pid a (tableAssignments table)\<rparr>"

section \<open>The in-sync set\<close>

definition INSYNC_CAS_ATTEMPTS :: nat where "INSYNC_CAS_ATTEMPTS = 5"

datatype assignment_decision = Refuse | Accept | Write partition_assignment

fun updateInsyncLoop :: "('s, 'x, 'schema, 'm) cluster_coordinator_scheme \<Rightarrow> codec \<Rightarrow> 's interleaving
    \<Rightarrow> index_name \<Rightarrow> partition_id \<Rightarrow> int \<Rightarrow> node_id \<Rightarrow> (partition_assignment \<Rightarrow> assignment_decision)
    \<Rightarrow> nat \<Rightarrow> ('s, bool) process" where
  "updateInsyncLoop C D others name pid tm controller decide 0 = return False"
| "updateInsyncLoop C D others name pid tm controller decide (Suc attempts) =
     andThen (call others (getAllocation C name)) (\<lambda>found.
       case found of
         None \<Rightarrow> return False
       | Some table \<Rightarrow>
           (case mapGet (tableAssignments table) pid of
              None \<Rightarrow> return False
            | Some a \<Rightarrow>
                if tm \<noteq> assignedTerm a then return False
                else (case decide a of
                        Refuse \<Rightarrow> return False
                      | Accept \<Rightarrow> return True
                      | Write b \<Rightarrow>
                          andThen (rewriteForCurrentIndex C D others (withAssignment table pid b)) (\<lambda>rewritten.
                            case rewritten of
                              None \<Rightarrow> return False
                            | Some new \<Rightarrow>
                                andThen (call others (putAllocation C name new
                                           (Some (Some (tableVersion table), controller)))) (\<lambda>written.
                                  if written then return True
                                  else updateInsyncLoop C D others name pid tm controller decide attempts)))))"

definition confirmFor :: "('x) insync_remove_payload_scheme \<Rightarrow> bool \<Rightarrow> insync_confirm" where
  "confirmFor p ok = \<lparr>confirmIndex = requestIndex p, confirmPartition = requestPartition p, accepted = ok\<rparr>"

definition updateInsyncSet :: "('s, 'x, 'schema, 'm) cluster_coordinator_scheme \<Rightarrow> codec \<Rightarrow> 's interleaving
    \<Rightarrow> 'p insync_remove_payload_scheme \<Rightarrow> node_id \<Rightarrow> (partition_assignment \<Rightarrow> assignment_decision)
    \<Rightarrow> ('s, insync_confirm) process" where
  "updateInsyncSet C D others p controller decide =
     andThen (updateInsyncLoop C D others (requestIndex p) (requestPartition p) (requestTerm p) controller decide
                INSYNC_CAS_ATTEMPTS) (\<lambda>ok. return (confirmFor p ok))"

definition decideRemoval :: "node_id \<Rightarrow> partition_assignment \<Rightarrow> assignment_decision" where
  "decideRemoval replica a =
     (if partitionState a = UNASSIGNED then Refuse
      else if replica \<notin> set (inSyncSet a) then Accept
      else Write (a\<lparr>inSyncSet := filter (\<lambda>n. n \<noteq> replica) (inSyncSet a)\<rparr>))"

definition handleInsyncRemoval :: "('s, 'x, 'schema, 'm) cluster_coordinator_scheme \<Rightarrow> codec \<Rightarrow> 's interleaving
    \<Rightarrow> insync_remove_payload \<Rightarrow> node_id \<Rightarrow> ('s, insync_confirm) process" where
  "handleInsyncRemoval C D others p controller =
     updateInsyncSet C D others p controller (decideRemoval (replicaNodeId p))"

definition decideAdmission :: "insync_add_payload \<Rightarrow> partition_assignment \<Rightarrow> assignment_decision" where
  "decideAdmission p a =
     (if partitionState a \<noteq> ACTIVE then Refuse
      else if replicaNodeId p \<notin> set (replicas a) then Refuse
      else if appliedSeqNo p < commitPoint a \<or> appliedSeqNo p < requestCommitPoint p then Refuse
      else let alreadyInSync = replicaNodeId p \<in> set (inSyncSet a);
               raised = max (commitPoint a) (requestCommitPoint p)
           in if alreadyInSync \<and> raised = commitPoint a then Accept
              else Write (a\<lparr>inSyncSet := if alreadyInSync then inSyncSet a else inSyncSet a @ [replicaNodeId p],
                           commitPoint := raised\<rparr>))"

definition handleInsyncAdmission :: "('s, 'x, 'schema, 'm) cluster_coordinator_scheme \<Rightarrow> codec \<Rightarrow> 's interleaving
    \<Rightarrow> insync_add_payload \<Rightarrow> node_id \<Rightarrow> ('s, insync_confirm) process" where
  "handleInsyncAdmission C D others p controller =
     andThen (call others (listNodes C)) (\<lambda>registered.
       if \<not> (\<exists>r\<in>set registered. nodeId r = replicaNodeId p) then return (confirmFor p False)
       else updateInsyncSet C D others p controller (decideAdmission p))"

section \<open>A finished bootstrap\<close>

definition BOOTSTRAP_CAS_ATTEMPTS :: nat where "BOOTSTRAP_CAS_ATTEMPTS = 5"

definition served :: "partition_assignment \<Rightarrow> partition_assignment" where
  "served a = a\<lparr>partitionState := ACTIVE, lastHolders := None\<rparr>"

fun bootstrapCompleteLoop :: "('s, 'x, 'schema, 'm) cluster_coordinator_scheme \<Rightarrow> codec \<Rightarrow> 's interleaving
    \<Rightarrow> bootstrap_complete_payload \<Rightarrow> node_id \<Rightarrow> nat \<Rightarrow> ('s, bool) process" where
  "bootstrapCompleteLoop C D others p controller 0 = return False"
| "bootstrapCompleteLoop C D others p controller (Suc attempts) =
     andThen (call others (getAllocation C (completeIndex p))) (\<lambda>found.
       case found of
         None \<Rightarrow> return False
       | Some table \<Rightarrow>
           (case mapGet (tableAssignments table) (completePartition p) of
              None \<Rightarrow> return False
            | Some a \<Rightarrow>
                if completeTerm p \<noteq> assignedTerm a then return False
                else if primary a \<noteq> Some (completeNodeId p) then return False
                else if partitionState a \<noteq> INITIALISING then return False
                else andThen (rewriteForCurrentIndex C D others
                               (withAssignment table (completePartition p) (served a))) (\<lambda>rewritten.
                       case rewritten of
                         None \<Rightarrow> return False
                       | Some new \<Rightarrow>
                           andThen (call others (putAllocation C (completeIndex p) new
                                      (Some (Some (tableVersion table), controller)))) (\<lambda>written.
                             if written then return True
                             else bootstrapCompleteLoop C D others p controller attempts))))"

definition processBootstrapComplete :: "('s, 'x, 'schema, 'm) cluster_coordinator_scheme \<Rightarrow> codec \<Rightarrow> 's interleaving
    \<Rightarrow> bootstrap_complete_payload \<Rightarrow> node_id \<Rightarrow> ('s, bool) process" where
  "processBootstrapComplete C D others p controller =
     bootstrapCompleteLoop C D others p controller BOOTSTRAP_CAS_ATTEMPTS"

text \<open>The answer to the report: the index, the partition and whether it was accepted.\<close>

definition handleBootstrapCompleteMessage :: "('s, 'x, 'schema, 'm) cluster_coordinator_scheme \<Rightarrow> codec
    \<Rightarrow> 's interleaving \<Rightarrow> node_id \<Rightarrow> bytes \<Rightarrow> node_id \<Rightarrow> ('s, insync_confirm) process" where
  "handleBootstrapCompleteMessage C D others sourceId payload controller =
     (case decodeValue D payload of
        None \<Rightarrow> return \<lparr>confirmIndex = [], confirmPartition = -1, accepted = False\<rparr>
      | Some decoded \<Rightarrow>
          (case validateBootstrapCompletePayload decoded of
             None \<Rightarrow> return \<lparr>confirmIndex = [], confirmPartition = -1, accepted = False\<rparr>
           | Some p \<Rightarrow>
               let answer = (\<lambda>ok. \<lparr>confirmIndex = completeIndex p, confirmPartition = completePartition p,
                                  accepted = ok\<rparr>)
               in if sourceId \<noteq> completeNodeId p then return (answer False)
                  else (\<lambda>w. case processBootstrapComplete C D others p controller w of
                              (Inl e, w) \<Rightarrow> return (answer False) w
                            | (Inr ok, w) \<Rightarrow> return (answer ok) w)))"

section \<open>A primary that resigns\<close>

definition failedOver :: "rounding \<Rightarrow> node_id list \<Rightarrow> node_id \<Rightarrow> partition_assignment \<Rightarrow> partition_assignment" where
  "failedOver fl registered resigning a =
     (case handleLostNodes fl (filter (\<lambda>n. n \<noteq> resigning) registered) [resigning] [] [] [(0, a)] of
        (k, b) # _ \<Rightarrow> b | [] \<Rightarrow> a)"

fun resignLoop :: "rounding \<Rightarrow> ('s, 'x, 'schema, 'm) cluster_coordinator_scheme \<Rightarrow> codec \<Rightarrow> 's interleaving
    \<Rightarrow> primary_resign_payload \<Rightarrow> node_id \<Rightarrow> node_id \<Rightarrow> nat \<Rightarrow> ('s, bool) process" where
  "resignLoop fl C D others p sourceId controller 0 = return False"
| "resignLoop fl C D others p sourceId controller (Suc attempts) =
     andThen (call others (getAllocation C (resignIndex p))) (\<lambda>found.
       case found of
         None \<Rightarrow> return False
       | Some table \<Rightarrow>
           (case mapGet (tableAssignments table) (resignPartition p) of
              None \<Rightarrow> return False
            | Some a \<Rightarrow>
                if primary a \<noteq> Some sourceId \<or> assignedTerm a \<noteq> resignTerm p then return False
                else if partitionState a = UNASSIGNED then return False
                else andThen (call others (listNodes C)) (\<lambda>nodes.
                       let registered = foldl setAdd [] (map nodeId nodes)
                       in andThen (rewriteForCurrentIndex C D others
                                    (withAssignment table (resignPartition p) (failedOver fl registered sourceId a)))
                            (\<lambda>rewritten.
                               case rewritten of
                                 None \<Rightarrow> return False
                               | Some new \<Rightarrow>
                                   andThen (call others (putAllocation C (resignIndex p) new
                                              (Some (Some (tableVersion table), controller)))) (\<lambda>written.
                                     if written then return True
                                     else resignLoop fl C D others p sourceId controller attempts)))))"

definition resign :: "rounding \<Rightarrow> ('s, 'x, 'schema, 'm) cluster_coordinator_scheme \<Rightarrow> codec \<Rightarrow> 's interleaving
    \<Rightarrow> primary_resign_payload \<Rightarrow> node_id \<Rightarrow> node_id \<Rightarrow> ('s, bool) process" where
  "resign fl C D others p sourceId controller =
     andThen (getIndexMetadata C D others (resignIndex p)) (\<lambda>metadata.
       case metadata of
         None \<Rightarrow> return False
       | Some m \<Rightarrow>
           if indexUuidOf m \<noteq> resignIndexUuid p then return False
           else resignLoop fl C D others p sourceId controller INSYNC_CAS_ATTEMPTS)"

definition refusal :: "js_value option \<Rightarrow> insync_confirm" where
  "refusal decoded =
     (let (name, pid) = describeRequest decoded
      in \<lparr>confirmIndex = name, confirmPartition = pid, accepted = False\<rparr>)"

definition handlePrimaryResignMessage :: "rounding \<Rightarrow> ('s, 'x, 'schema, 'm) cluster_coordinator_scheme \<Rightarrow> codec
    \<Rightarrow> 's interleaving \<Rightarrow> (nat \<Rightarrow> bool) \<Rightarrow> node_id \<Rightarrow> bytes \<Rightarrow> node_id \<Rightarrow> ('s, insync_confirm) process" where
  "handlePrimaryResignMessage fl C D others isActive sourceId payload controller =
     (let decoded = decodeValue D payload
      in case Option.bind decoded validatePrimaryResignPayload of
           None \<Rightarrow> return (refusal decoded)
         | Some p \<Rightarrow>
             andThen (observe isActive) (\<lambda>leading.
             andThen (if leading then resign fl C D others p sourceId controller else return False) (\<lambda>ok.
               return \<lparr>confirmIndex = resignIndex p, confirmPartition = resignPartition p, accepted = ok\<rparr>)))"

section \<open>Who may ask\<close>

definition assignmentIn :: "index_name \<Rightarrow> partition_id \<Rightarrow> allocation_table option \<Rightarrow> partition_assignment option" where
  "assignmentIn name pid found = Option.bind found (\<lambda>table. mapGet (tableAssignments table) pid)"

definition assertSenderLeadsPartition :: "('s, 'x, 'schema, 'm) cluster_coordinator_scheme \<Rightarrow> 's interleaving
    \<Rightarrow> index_name \<Rightarrow> partition_id \<Rightarrow> node_id \<Rightarrow> ('s, bool) process" where
  "assertSenderLeadsPartition C others name pid sourceId =
     andThen (call others (getAllocation C name)) (\<lambda>found.
       return (case assignmentIn name pid found of None \<Rightarrow> False | Some a \<Rightarrow> primary a = Some sourceId))"

definition assertSenderMayRemove :: "('s, 'x, 'schema, 'm) cluster_coordinator_scheme \<Rightarrow> 's interleaving
    \<Rightarrow> insync_remove_payload \<Rightarrow> node_id \<Rightarrow> ('s, bool) process" where
  "assertSenderMayRemove C others p sourceId =
     andThen (call others (getAllocation C (requestIndex p))) (\<lambda>found.
       return (case assignmentIn (requestIndex p) (requestPartition p) found of
                 None \<Rightarrow> False
               | Some a \<Rightarrow> if primary a = Some sourceId then True
                           else sourceId = replicaNodeId p \<and> sourceId \<in> set (replicas a)))"

definition handleInsyncRemoveMessage :: "('s, 'x, 'schema, 'm) cluster_coordinator_scheme \<Rightarrow> codec
    \<Rightarrow> 's interleaving \<Rightarrow> (nat \<Rightarrow> bool) \<Rightarrow> node_id \<Rightarrow> bytes \<Rightarrow> node_id \<Rightarrow> ('s, insync_confirm) process" where
  "handleInsyncRemoveMessage C D others isActive sourceId payload controller =
     (let decoded = decodeValue D payload
      in case Option.bind decoded validateInsyncRemovePayload of
           None \<Rightarrow> return (refusal decoded)
         | Some p \<Rightarrow>
             andThen (assertSenderMayRemove C others p sourceId) (\<lambda>mayRemove.
             andThen (observe isActive) (\<lambda>leading.
               if \<not> mayRemove \<or> \<not> leading then return (confirmFor p False)
               else handleInsyncRemoval C D others p controller)))"

definition handleInsyncAddMessage :: "('s, 'x, 'schema, 'm) cluster_coordinator_scheme \<Rightarrow> codec
    \<Rightarrow> 's interleaving \<Rightarrow> (nat \<Rightarrow> bool) \<Rightarrow> node_id \<Rightarrow> bytes \<Rightarrow> node_id \<Rightarrow> ('s, insync_confirm) process" where
  "handleInsyncAddMessage C D others isActive sourceId payload controller =
     (let decoded = decodeValue D payload
      in case Option.bind decoded validateInsyncAddPayload of
           None \<Rightarrow> return (refusal decoded)
         | Some p \<Rightarrow>
             andThen (assertSenderLeadsPartition C others (requestIndex p) (requestPartition p) sourceId) (\<lambda>leads.
             andThen (observe isActive) (\<lambda>leading.
               if \<not> leads \<or> \<not> leading then return (confirmFor p False)
               else handleInsyncAdmission C D others p controller)))"

definition handleQueuedBootstrapComplete :: "('s, 'x, 'schema, 'm) cluster_coordinator_scheme \<Rightarrow> codec
    \<Rightarrow> 's interleaving \<Rightarrow> (nat \<Rightarrow> bool) \<Rightarrow> node_id \<Rightarrow> bytes \<Rightarrow> node_id \<Rightarrow> ('s, insync_confirm) process" where
  "handleQueuedBootstrapComplete C D others isActive sourceId payload controller =
     andThen (observe isActive) (\<lambda>leading.
       if leading then handleBootstrapCompleteMessage C D others sourceId payload controller
       else return (case Option.bind (decodeValue D payload) validateBootstrapCompletePayload of
                      None \<Rightarrow> \<lparr>confirmIndex = [], confirmPartition = -1, accepted = False\<rparr>
                    | Some p \<Rightarrow> \<lparr>confirmIndex = completeIndex p, confirmPartition = completePartition p,
                                  accepted = False\<rparr>))"

end
