(* ===== verification/Partition_Recovery.thy ===== *)
theory Partition_Recovery
  imports Table_Updates
begin

text \<open>
  How the controller gives a partition that no node serves back to one of its last holders:
  \<open>distribution/cluster/controller/event-loop/unassigned-recovery.ts\<close> and the answers of
  \<open>distribution/cluster/partition-stores.ts\<close>. Sending a request over the network is a function
  \<open>send\<close> of the moment and the node, which gives the bytes of the first response, or \<open>None\<close> when
  every address fails or the time runs out.
\<close>

definition RECOVERY_CAS_ATTEMPTS :: nat where "RECOVERY_CAS_ATTEMPTS = 5"

record partition_stores_result =
  storesIndex :: index_name
  storesUuid :: "js_string option"
  storesPartitions :: "partition_id list"

datatype stores_answer = Held "partition_id list" | Unreachable | Identity_Mismatch

section \<open>Answers\<close>

fun readPartitionIds :: "js_value list \<Rightarrow> partition_id list option" where
  "readPartitionIds [] = Some []"
| "readPartitionIds (v # vs) =
     (case asInteger (Some v) of
        None \<Rightarrow> None
      | Some pid \<Rightarrow> if pid < 0 then None else map_option ((#) pid) (readPartitionIds vs))"

definition validatePartitionStoresPayload :: "js_value \<Rightarrow> index_name option" where
  "validatePartitionStoresPayload decoded =
     (if \<not> isRecord decoded then None
      else case asString (field decoded ''indexName'') of
        None \<Rightarrow> None
      | Some name \<Rightarrow> if name = [] then None else Some name)"

fun nullableString :: "js_value option \<Rightarrow> js_string option option" where
  "nullableString (Some JNull) = Some None"
| "nullableString (Some (JStr s)) = Some (Some s)"
| "nullableString _ = None"

definition validatePartitionStoresResultPayload :: "js_value \<Rightarrow> partition_stores_result option" where
  "validatePartitionStoresResultPayload decoded =
     (if \<not> isRecord decoded then None
      else case asString (field decoded ''indexName'') of
        None \<Rightarrow> None
      | Some name \<Rightarrow>
        if name = [] then None
        else case nullableString (field decoded ''indexUuid'') of
          None \<Rightarrow> None
        | Some uuid \<Rightarrow>
          (case field decoded ''partitionIds'' of
             Some (JArr ids) \<Rightarrow>
               map_option (\<lambda>pids. \<lparr>storesIndex = name, storesUuid = uuid, storesPartitions = pids\<rparr>)
                 (readPartitionIds ids)
           | _ \<Rightarrow> None))"

definition storesAnswer :: "codec \<Rightarrow> index_name \<Rightarrow> js_string \<Rightarrow> bytes option \<Rightarrow> stores_answer" where
  "storesAnswer D name uuid response =
     (case Option.bind response (decodeValue D) of
        None \<Rightarrow> Unreachable
      | Some decoded \<Rightarrow>
          (case validatePartitionStoresResultPayload decoded of
             None \<Rightarrow> Unreachable
           | Some answer \<Rightarrow>
               if storesIndex answer \<noteq> name then Unreachable
               else if storesUuid answer \<noteq> Some uuid then Identity_Mismatch
               else Held (storesPartitions answer)))"

section \<open>Decisions\<close>

definition liveHoldersOfUnassignedPartitions :: "allocation_table \<Rightarrow> node_id list \<Rightarrow> node_id list" where
  "liveHoldersOfUnassignedPartitions table live =
     jsSort (\<lambda>a b. compareCodePoints a b < 0)
       (foldl (\<lambda>holders (pid, a).
          if partitionState a \<noteq> UNASSIGNED then holders
          else foldl setAdd holders (filter (\<lambda>n. n \<in> set live) (lastHoldersOf a))) [] (tableAssignments table))"

definition hasRecoverablePartition :: "allocation_table \<Rightarrow> bool" where
  "hasRecoverablePartition table \<longleftrightarrow>
     (\<exists>(pid, a)\<in>set (tableAssignments table). partitionState a = UNASSIGNED \<and> lastHoldersOf a \<noteq> [])"

definition reasonFor :: "partition_assignment \<Rightarrow> node_id list \<Rightarrow> (node_id, stores_answer) js_map
    \<Rightarrow> unassigned_reason option" where
  "reasonFor a live answers =
     (let holders = lastHoldersOf a; given = map (mapGet answers) holders
      in if holders = [] then None
         else if \<exists>n\<in>set holders. n \<notin> set live then Some HOLDER_OFFLINE
         else if \<exists>answer\<in>set given. answer = None \<or> answer = Some Unreachable then Some HOLDER_UNREACHABLE
         else if Some Identity_Mismatch \<in> set given then Some HOLDER_IDENTITY_MISMATCH
         else Some HOLDER_WITHOUT_DATA)"

definition promoteAssignment :: "partition_assignment \<Rightarrow> node_id \<Rightarrow> partition_assignment" where
  "promoteAssignment a node =
     a\<lparr>primary := Some node, replicas := [], inSyncSet := [], assignedTerm := assignedTerm a + 1,
       partitionState := INITIALISING, unassignedReason := None\<rparr>"

definition holderThatAnswered :: "partition_assignment \<Rightarrow> partition_id \<Rightarrow> (node_id, stores_answer) js_map
    \<Rightarrow> node_id option" where
  "holderThatAnswered a pid answers =
     List.find (\<lambda>n. case mapGet answers n of Some (Held pids) \<Rightarrow> pid \<in> set pids | _ \<Rightarrow> False)
       (jsSort (\<lambda>x y. compareCodePoints x y < 0) (lastHoldersOf a))"

text \<open>The rewritten assignment and whether a node was promoted, or \<open>None\<close> for no change.\<close>

definition rewriteAssignment :: "partition_assignment \<Rightarrow> partition_id \<Rightarrow> node_id list
    \<Rightarrow> (node_id, stores_answer) js_map \<Rightarrow> (partition_assignment \<times> bool) option" where
  "rewriteAssignment a pid live answers =
     (case holderThatAnswered a pid answers of
        Some holder \<Rightarrow> Some (promoteAssignment a holder, True)
      | None \<Rightarrow>
          (let reason = reasonFor a live answers
           in if reason = unassignedReason a then None
              else Some (a\<lparr>unassignedReason := reason\<rparr>, False)))"

definition rewrittenAssignments :: "allocation_table \<Rightarrow> node_id list \<Rightarrow> (node_id, stores_answer) js_map
    \<Rightarrow> assignments \<times> bool" where
  "rewrittenAssignments table live answers =
     foldl (\<lambda>(rewritten, anyPromoted) (pid, a).
         if partitionState a \<noteq> UNASSIGNED then (rewritten, anyPromoted)
         else case rewriteAssignment a pid live answers of
                None \<Rightarrow> (rewritten, anyPromoted)
              | Some (b, promoted) \<Rightarrow> (mapSet pid b rewritten, anyPromoted \<or> promoted))
       ([], False) (tableAssignments table)"

definition withAssignments :: "allocation_table \<Rightarrow> assignments \<Rightarrow> allocation_table" where
  "withAssignments table rewritten =
     table\<lparr>tableVersion := tableVersion table + 1,
           tableAssignments := foldl (\<lambda>as (pid, a). mapSet pid a as) (tableAssignments table) rewritten\<rparr>"

section \<open>Writing\<close>

fun writeRecoveryLoop :: "('s, 'x, 'schema, 'm) cluster_coordinator_scheme \<Rightarrow> codec \<Rightarrow> 's interleaving
    \<Rightarrow> (nat \<Rightarrow> bool) \<Rightarrow> node_id \<Rightarrow> index_name \<Rightarrow> node_id list \<Rightarrow> (node_id, stores_answer) js_map \<Rightarrow> nat
    \<Rightarrow> ('s, bool) process" where
  "writeRecoveryLoop C D others isActive controller name live answers 0 = return False"
| "writeRecoveryLoop C D others isActive controller name live answers (Suc attempts) =
     andThen (observe isActive) (\<lambda>leading.
     if \<not> leading then return False
     else andThen (call others (getAllocation C name)) (\<lambda>found.
       case found of
         None \<Rightarrow> return False
       | Some table \<Rightarrow>
           (case rewrittenAssignments table live answers of (rewritten, anyPromoted) \<Rightarrow>
              if rewritten = [] then return False
              else andThen (observe isActive) (\<lambda>leading.
                if \<not> leading then return False
                else andThen (rewriteForCurrentIndex C D others (withAssignments table rewritten)) (\<lambda>rewritten'.
                  case rewritten' of
                    None \<Rightarrow> return False
                  | Some new \<Rightarrow>
                      andThen (call others (putAllocation C name new
                                 (Some (Some (tableVersion table), controller)))) (\<lambda>written.
                        if written then return anyPromoted
                        else writeRecoveryLoop C D others isActive controller name live answers attempts))))))"

definition recoverUnassignedPartitions :: "('s, 'x, 'schema, 'm) cluster_coordinator_scheme \<Rightarrow> codec
    \<Rightarrow> 's interleaving \<Rightarrow> (nat \<Rightarrow> bool) \<Rightarrow> (nat \<Rightarrow> node_id \<Rightarrow> bytes option) \<Rightarrow> node_id \<Rightarrow> index_name
    \<Rightarrow> node_id list \<Rightarrow> ('s, bool) process" where
  "recoverUnassignedPartitions C D others isActive send controller name live =
     andThen (observe isActive) (\<lambda>leading.
     if \<not> leading then return False
     else andThen (call others (getAllocation C name)) (\<lambda>found.
       case found of
         None \<Rightarrow> return False
       | Some table \<Rightarrow>
           andThen (observe isActive) (\<lambda>leading.
           if \<not> hasRecoverablePartition table \<or> \<not> leading then return False
           else let candidates = liveHoldersOfUnassignedPartitions table live
                in if candidates = []
                   then writeRecoveryLoop C D others isActive controller name live [] RECOVERY_CAS_ATTEMPTS
                   else andThen (getIndexMetadata C D others name) (\<lambda>metadata.
                     andThen (observe isActive) (\<lambda>leading.
                       case metadata of
                         None \<Rightarrow> return False
                       | Some m \<Rightarrow>
                           if \<not> leading then return False
                           else andThen (observe send) (\<lambda>response.
                             writeRecoveryLoop C D others isActive controller name live
                               (map (\<lambda>n. (n, storesAnswer D name (indexUuidOf m) (response n))) candidates)
                               RECOVERY_CAS_ATTEMPTS))))))"

end
