(* ===== verification/Controller_Runs.thy ===== *)
theory Controller_Runs
  imports Partition_Recovery
begin

text \<open>
  The runs of the allocator by the controller: \<open>distribution/cluster/controller/event-loop/\<close>, files
  \<open>allocation.ts\<close>, \<open>departures.ts\<close>, \<open>teardown.ts\<close> and \<open>replication-factor.ts\<close>. The timers that
  debounce and repeat runs are not modelled: a run is one process, and \<open>teardown\<close> answers whether it
  is to be repeated. What the version field of a registration holds is a function of the registration.
\<close>

definition ALLOCATION_CAS_ATTEMPTS :: nat where "ALLOCATION_CAS_ATTEMPTS = 5"
definition TEARDOWN_CAS_ATTEMPTS :: nat where "TEARDOWN_CAS_ATTEMPTS = 5"
definition TEARDOWN_RETRY_ROUNDS :: nat where "TEARDOWN_RETRY_ROUNDS = 3"

section \<open>Departures\<close>

record departure_run =
  runNow :: int
  registeredNodeIds :: "node_id list"
  referencedNodes :: "node_id list"
  retainedNodes :: "node_id list"

definition startDepartureRun :: "int \<Rightarrow> node_id list \<Rightarrow> departure_run" where
  "startDepartureRun now registered =
     \<lparr>runNow = now, registeredNodeIds = registered, referencedNodes = [], retainedNodes = []\<rparr>"

definition copyHoldersOf :: "allocation_table \<Rightarrow> node_id list" where
  "copyHoldersOf table =
     foldl (\<lambda>holders (pid, a).
         foldl setAdd (case primary a of Some p \<Rightarrow> setAdd holders p | None \<Rightarrow> holders) (replicas a))
       [] (tableAssignments table)"

text \<open>The nodes that are retained, the times of departure and the run, for one node after the other.\<close>

fun retainLoop :: "int \<Rightarrow> node_id list \<Rightarrow> node_id list \<Rightarrow> (node_id, int) js_map \<Rightarrow> departure_run
    \<Rightarrow> node_id list \<times> (node_id, int) js_map \<times> departure_run" where
  "retainLoop delayMs [] retained departedAt run = (retained, departedAt, run)"
| "retainLoop delayMs (n # ns) retained departedAt run =
     (if n \<in> set (registeredNodeIds run) then retainLoop delayMs ns retained departedAt run
      else let run = run\<lparr>referencedNodes := setAdd (referencedNodes run) n\<rparr>;
               left = (case mapGet departedAt n of Some t \<Rightarrow> t | None \<Rightarrow> runNow run);
               departedAt = (if mapGet departedAt n = None then mapSet n left departedAt else departedAt)
           in if runNow run - left < delayMs
              then retainLoop delayMs ns (setAdd retained n) departedAt
                     (run\<lparr>retainedNodes := setAdd (retainedNodes run) n\<rparr>)
              else retainLoop delayMs ns retained departedAt run)"

definition retainedNodesFor :: "int \<Rightarrow> (node_id, int) js_map \<Rightarrow> departure_run \<Rightarrow> allocation_table
    \<Rightarrow> node_id list \<times> (node_id, int) js_map \<times> departure_run" where
  "retainedNodesFor delayMs departedAt run table = retainLoop delayMs (copyHoldersOf table) [] departedAt run"

text \<open>The departures that are still remembered, and the delay until the next run, if one is needed.\<close>

definition finishDepartureRun :: "int \<Rightarrow> int \<Rightarrow> (node_id, int) js_map \<Rightarrow> departure_run
    \<Rightarrow> (node_id, int) js_map \<times> int option" where
  "finishDepartureRun delayMs now departedAt run =
     (let kept = filter (\<lambda>(n, left). \<not> (n \<notin> set (referencedNodes run) \<and> delayMs \<le> runNow run - left)) departedAt;
          nextExpiry = foldl (\<lambda>soonest n. case mapGet kept n of
                          None \<Rightarrow> soonest
                        | Some left \<Rightarrow> (case soonest of None \<Rightarrow> Some (left + delayMs)
                                                     | Some t \<Rightarrow> Some (min t (left + delayMs)))) None (retainedNodes run)
      in (kept, map_option (\<lambda>t. max 0 (t - now)) nextExpiry))"

section \<open>Allocating one index\<close>

definition holdsDataNode :: "node_registration list \<Rightarrow> bool" where
  "holdsDataNode nodes \<longleftrightarrow> (\<exists>r\<in>set nodes. Data_Role \<in> set (roles r))"

definition listCompatibleNodes :: "('s, 'x, 'schema, 'm) cluster_coordinator_scheme
    \<Rightarrow> ('x node_registration_scheme \<Rightarrow> js_string option) \<Rightarrow> 's interleaving \<Rightarrow> ('s, node_registration list) process" where
  "listCompatibleNodes C versionOf others =
     andThen (call others (listNodes C)) (\<lambda>nodes.
       return (map node_registration.truncate (filter (\<lambda>r. sharesMajorVersion (versionOf r) SPEC_VERSION) nodes)))"

text \<open>The last condition before the allocator runs on an index without a table.\<close>

definition hasSchemaUnless :: "('s, 'x, 'schema, 'm) cluster_coordinator_scheme \<Rightarrow> 's interleaving
    \<Rightarrow> (nat \<Rightarrow> bool) \<Rightarrow> index_name \<Rightarrow> allocation_table option \<Rightarrow> ('s, bool) process" where
  "hasSchemaUnless C others isActive name current =
     (case current of
        Some table \<Rightarrow> return True
      | None \<Rightarrow>
          andThen (call others (getSchema C name)) (\<lambda>schema.
          andThen (observe isActive) (\<lambda>leading. return (schema \<noteq> None \<and> leading))))"

definition ownTable :: "allocation_table option \<Rightarrow> js_string \<Rightarrow> allocation_table option" where
  "ownTable stored uuid =
     (case stored of
        None \<Rightarrow> None
      | Some table \<Rightarrow> if belongsToAnotherIndex table (Some uuid) then None else Some table)"

definition hasGeneration :: "allocation_table option \<Rightarrow> bool" where
  "hasGeneration current \<longleftrightarrow> (case current of Some table \<Rightarrow> generation table \<noteq> None | None \<Rightarrow> False)"

definition allocateFor :: "rounding \<Rightarrow> node_registration list \<Rightarrow> allocation_table option \<Rightarrow> index_name
    \<Rightarrow> index_metadata \<Rightarrow> node_id list \<Rightarrow> cluster_error + allocation_table" where
  "allocateFor fl nodes current name m retained =
     (case allocate fl nodes current name (partitionCountOf m) (factorOf m) (constraintsOf m) retained of
        Inl err \<Rightarrow> Inl (Allocation_Refused err)
      | Inr (table, warnings) \<Rightarrow> Inr (stampedWith table (Some (indexUuidOf m))))"

fun runAllocatorForIndex :: "rounding \<Rightarrow> ('s, 'x, 'schema, 'm) cluster_coordinator_scheme \<Rightarrow> codec
    \<Rightarrow> 's interleaving \<Rightarrow> (nat \<Rightarrow> bool) \<Rightarrow> node_id \<Rightarrow> index_name \<Rightarrow> node_registration list
    \<Rightarrow> (nat \<Rightarrow> allocation_table \<Rightarrow> node_id list) \<Rightarrow> nat \<Rightarrow> ('s, unit) process" where
  "runAllocatorForIndex fl C D others isActive writer name nodes retainedFor 0 = throw Attempts_Lost"
| "runAllocatorForIndex fl C D others isActive writer name nodes retainedFor (Suc attempts) =
     andThen (observe isActive) (\<lambda>leading.
     if \<not> leading then return ()
     else andThen (call others (getAllocation C name)) (\<lambda>stored.
       andThen (observe isActive) (\<lambda>leading.
       if \<not> leading then return ()
       else andThen (getIndexMetadata C D others name) (\<lambda>metadata.
         andThen (observe isActive) (\<lambda>leading.
         case metadata of
           None \<Rightarrow> return ()
         | Some m \<Rightarrow>
             if \<not> leading then return ()
             else let current = ownTable stored (indexUuidOf m)
                  in if hasGeneration current then return ()
                     else andThen (hasSchemaUnless C others isActive name current) (\<lambda>wanted.
                       if \<not> wanted then return ()
                       else andThen (observe retainedFor) (\<lambda>retained.
                         andThen (fromResult (allocateFor fl nodes current name m
                                   (case current of Some table \<Rightarrow> retained table | None \<Rightarrow> []))) (\<lambda>table.
                         andThen (observe isActive) (\<lambda>leading.
                         if \<not> leading then return ()
                         else andThen (call others (putAllocation C name table
                                         (Some (map_option tableVersion stored, writer)))) (\<lambda>written.
                                if written then return ()
                                else runAllocatorForIndex fl C D others isActive writer name nodes retainedFor
                                       attempts))))))))))"

text \<open>A new schema: the table of a dropped index of the same name counts as none.\<close>

definition handleSchemaCreated :: "rounding \<Rightarrow> ('s, 'x, 'schema, 'm) cluster_coordinator_scheme \<Rightarrow> codec
    \<Rightarrow> ('x node_registration_scheme \<Rightarrow> js_string option) \<Rightarrow> 's interleaving \<Rightarrow> (nat \<Rightarrow> bool) \<Rightarrow> node_id
    \<Rightarrow> index_name \<Rightarrow> ('s, unit) process" where
  "handleSchemaCreated fl C D versionOf others isActive writer name =
     andThen (observe isActive) (\<lambda>leading.
     if \<not> leading then return ()
     else andThen (getIndexMetadata C D others name) (\<lambda>metadata.
       andThen (observe isActive) (\<lambda>leading.
       case metadata of
         None \<Rightarrow> return ()
       | Some m \<Rightarrow>
           if \<not> leading then return ()
           else andThen (listCompatibleNodes C versionOf others) (\<lambda>nodes.
             andThen (observe isActive) (\<lambda>leading.
             if \<not> holdsDataNode nodes \<or> \<not> leading then return ()
             else andThen (call others (getAllocation C name)) (\<lambda>stored.
               andThen (observe isActive) (\<lambda>leading.
               if \<not> leading then return ()
               else let own = ownTable stored (indexUuidOf m)
                    in if hasGeneration own then return ()
                       else let current = (case own of
                              None \<Rightarrow> None | Some table \<Rightarrow> if tableAssignments table = [] then None else Some table)
                       in andThen (fromResult (allocateFor fl nodes current name m [])) (\<lambda>table.
                         andThen (observe isActive) (\<lambda>leading.
                         if \<not> leading then return ()
                         else andThen (call others (putAllocation C name table
                                         (Some (map_option tableVersion stored, writer)))) (\<lambda>written.
                                if written then return ()
                                else runAllocatorForIndex fl C D others isActive writer name nodes (\<lambda>_ _. [])
                                       ALLOCATION_CAS_ATTEMPTS))))))))))"

section \<open>Dropped indexes\<close>

definition servesRecreatedIndex :: "('s, 'x, 'schema, 'm) cluster_coordinator_scheme \<Rightarrow> codec \<Rightarrow> 's interleaving
    \<Rightarrow> allocation_table \<Rightarrow> ('s, bool) process" where
  "servesRecreatedIndex C D others table =
     (case indexUuid table of
        None \<Rightarrow> return False
      | Some uuid \<Rightarrow>
          andThen (getIndexMetadata C D others (tableIndexName table)) (\<lambda>metadata.
            return (map_option indexUuidOf metadata = Some uuid)))"

definition emptied :: "index_name \<Rightarrow> allocation_table \<Rightarrow> allocation_table" where
  "emptied name table =
     \<lparr>tableIndexName = name, tableVersion = tableVersion table + 1, replicationFactor = replicationFactor table,
      tableAssignments = [], generation = None, indexUuid = indexUuid table\<rparr>"

text \<open>\<open>Torn_Down\<close> also when the controller stands down; \<open>Retry_Round\<close> asks for another round later.\<close>

datatype teardown_outcome = Torn_Down | Retry_Round nat

fun tearDownLoop :: "('s, 'x, 'schema, 'm) cluster_coordinator_scheme \<Rightarrow> codec \<Rightarrow> 's interleaving
    \<Rightarrow> (nat \<Rightarrow> bool) \<Rightarrow> node_id \<Rightarrow> index_name \<Rightarrow> nat \<Rightarrow> nat \<Rightarrow> ('s, teardown_outcome) process" where
  "tearDownLoop C D others isActive writer name tries 0 =
     andThen (observe isActive) (\<lambda>leading.
       if tries + 1 < TEARDOWN_RETRY_ROUNDS \<and> leading then return (Retry_Round (tries + 1))
       else throw Attempts_Lost)"
| "tearDownLoop C D others isActive writer name tries (Suc attempts) =
     andThen (observe isActive) (\<lambda>leading.
     if \<not> leading then return Torn_Down
     else andThen (call others (getAllocation C name)) (\<lambda>found.
       case found of
         None \<Rightarrow> return Torn_Down
       | Some table \<Rightarrow>
           andThen (servesRecreatedIndex C D others table) (\<lambda>recreated.
           if recreated then return Torn_Down
           else andThen (observe isActive) (\<lambda>leading.
             if \<not> leading then return Torn_Down
             else if tableAssignments table \<noteq> []
             then andThen (call others (putAllocation C name (emptied name table)
                             (Some (Some (tableVersion table), writer)))) (\<lambda>written.
                    if \<not> written then tearDownLoop C D others isActive writer name tries attempts
                    else andThen (observe isActive) (\<lambda>leading.
                      if \<not> leading then return Torn_Down
                      else andThen (call others (deleteAllocation C name)) (\<lambda>_. return Torn_Down)))
             else andThen (call others (deleteAllocation C name)) (\<lambda>_. return Torn_Down)))))"

definition tearDownAllocation :: "('s, 'x, 'schema, 'm) cluster_coordinator_scheme \<Rightarrow> codec \<Rightarrow> 's interleaving
    \<Rightarrow> (nat \<Rightarrow> bool) \<Rightarrow> node_id option \<Rightarrow> index_name \<Rightarrow> nat \<Rightarrow> ('s, teardown_outcome) process" where
  "tearDownAllocation C D others isActive writer name tries =
     (case writer of
        None \<Rightarrow> return Torn_Down
      | Some w \<Rightarrow> tearDownLoop C D others isActive w name tries TEARDOWN_CAS_ATTEMPTS)"

end
