(* ===== verification/Table_Store.thy ===== *)
theory Table_Store
  imports Controller_Runs
begin

text \<open>
  What a handler may rely on of a coordinator, as a locale, and the rules of the updates that run
  over any coordinator with these laws: an update takes effect at one moment, on the table that is
  stored at that moment. The in-memory coordinator is an interpretation.

  The rules assume that, while the handler waits, equal versions of the table mean equal tables:
  some \<open>H\<close> names the table of each version.
\<close>

section \<open>Moments\<close>

text \<open>The states that a handler may find: the others have acted any number of times.\<close>

inductive reached :: "'s interleaving \<Rightarrow> ('s \<Rightarrow> 't) \<Rightarrow> 's \<Rightarrow> 's \<Rightarrow> bool"
  for others :: "'s interleaving" and stored :: "'s \<Rightarrow> 't" and s0 :: 's where
  now: "reached others stored s0 s0"
| others_act: "reached others stored s0 s \<Longrightarrow> reached others stored s0 (others n s)"
| reading: "reached others stored s0 s \<Longrightarrow> stored s' = stored s \<Longrightarrow> reached others stored s0 s'"

inductive_cases reached_cases: "reached others stored s0 s"

definition versions_name :: "(int \<Rightarrow> allocation_table) \<Rightarrow> allocation_table option \<Rightarrow> bool" where
  "versions_name H found \<longleftrightarrow> (\<forall>table. found = Some table \<longrightarrow> H (tableVersion table) = table)"

lemma same_version:
  "versions_name H x \<Longrightarrow> versions_name H y \<Longrightarrow> map_option tableVersion x = map_option tableVersion y \<Longrightarrow> x = y"
proof (cases y)
  case (Some b)
  assume x: "versions_name H x" and y: "versions_name H y"
    and same: "map_option tableVersion x = map_option tableVersion y"
  then obtain a where a: "x = Some a" "tableVersion a = tableVersion b" using Some by auto
  have "H (tableVersion a) = a" by (rule x [unfolded versions_name_def, rule_format, OF a(1)])
  moreover have "H (tableVersion b) = b" by (rule y [unfolded versions_name_def, rule_format, OF Some])
  ultimately have "a = b" unfolding a(2) by (rule trans [OF sym])
  then show "x = y" unfolding a(1) Some by (rule arg_cong)
qed simp

text \<open>Where a handler that has not written yet may be, and what it relies on in the others.\<close>

definition moment :: "('s \<Rightarrow> index_name \<Rightarrow> allocation_table option) \<Rightarrow> 's interleaving
    \<Rightarrow> (int \<Rightarrow> allocation_table) \<Rightarrow> index_name \<Rightarrow> 's \<Rightarrow> 's \<Rightarrow> bool" where
  "moment stored others H name s0 s \<longleftrightarrow> reached others stored s0 s \<and> versions_name H (stored s name)"

definition stable :: "('s \<Rightarrow> index_name \<Rightarrow> allocation_table option) \<Rightarrow> 's interleaving
    \<Rightarrow> (int \<Rightarrow> allocation_table) \<Rightarrow> index_name \<Rightarrow> bool" where
  "stable stored others H name \<longleftrightarrow>
     (\<forall>n s. versions_name H (stored s name) \<longrightarrow> versions_name H (stored (others n s) name))"

text \<open>A write of the handler: at some moment the table was \<open>found\<close>, the writer led, and \<open>new\<close> replaced it.\<close>

definition wrote :: "('s \<Rightarrow> index_name \<Rightarrow> allocation_table option) \<Rightarrow> ('s \<Rightarrow> node_id \<Rightarrow> bool)
    \<Rightarrow> 's interleaving \<Rightarrow> (int \<Rightarrow> allocation_table) \<Rightarrow> index_name \<Rightarrow> 's \<Rightarrow> node_id
    \<Rightarrow> allocation_table option \<Rightarrow> allocation_table \<Rightarrow> 's \<Rightarrow> bool" where
  "wrote stored leads others H name s0 writer found new s' \<longleftrightarrow>
     (\<exists>s. moment stored others H name s0 s \<and> stored s name = found \<and> leads s writer \<and>
          stored s' = (stored s)(name := Some new))"

section \<open>The laws\<close>

locale table_store =
  fixes C :: "('s, 'x, 'schema, 'm) cluster_coordinator_scheme"
    and stored :: "'s \<Rightarrow> index_name \<Rightarrow> allocation_table option"
    and leads :: "'s \<Rightarrow> node_id \<Rightarrow> bool"
  assumes get_stored: "getAllocation C name s = (Inr found, s') \<Longrightarrow> found = stored s name"
    and get_keeps: "getAllocation C name s = (r, s') \<Longrightarrow> stored s' = stored s"
    and nodes_keeps: "listNodes C s = (r1, s') \<Longrightarrow> stored s' = stored s"
    and key_keeps: "getKey C key s = (r2, s') \<Longrightarrow> stored s' = stored s"
    and schema_keeps: "getSchema C name s = (r3, s') \<Longrightarrow> stored s' = stored s"
    and put_written: "putAllocation C name table (Some (expected, writer)) s = (Inr True, s') \<Longrightarrow>
      leads s writer \<and> map_option tableVersion (stored s name) = expected \<and>
      stored s' = (stored s)(name := Some table)"
    and put_refused: "putAllocation C name table condition s = (r4, s') \<Longrightarrow> r4 \<noteq> Inr True \<Longrightarrow> stored s' = stored s"
begin

lemma moment_start: "versions_name H (stored s0 name) \<Longrightarrow> moment stored others H name s0 s0"
  by (simp add: moment_def reached.now)

lemma moment_others:
  "stable stored others H name \<Longrightarrow> moment stored others H name s0 s \<Longrightarrow> moment stored others H name s0 (others n s)"
  by (simp add: moment_def stable_def reached.others_act)

lemma moment_reading: "moment stored others H name s0 s \<Longrightarrow> stored s' = stored s \<Longrightarrow> moment stored others H name s0 s'"
  by (auto simp: moment_def intro: reached.reading)

section \<open>Rules for the calls\<close>

text \<open>A call that only reads leaves the handler at a moment.\<close>

lemma read_rule:
  assumes "stable stored others H name" and "\<And>s r s'. operation s = (r, s') \<Longrightarrow> stored s' = stored s"
    and "\<And>a. hoare (moment stored others H name s0) (k a) B"
    and "\<And>s. moment stored others H name s0 s \<Longrightarrow> B (Inl Coordinator_Down) s"
  shows "hoare (moment stored others H name s0) (andThen (call others operation) k) B"
proof (rule hoare_andThen [where M = "\<lambda>_. moment stored others H name s0", OF hoare_call assms(3)])
  fix n s r s'
  assume "moment stored others H name s0 s" and "operation (others n s) = (r, s')"
  then have "moment stored others H name s0 s'"
    using assms(1,2) moment_others moment_reading by metis
  then show "case (case r of Inl _ \<Rightarrow> Inl Coordinator_Down | Inr a \<Rightarrow> Inr a) of
      Inl e \<Rightarrow> B (Inl e) s' | Inr a \<Rightarrow> moment stored others H name s0 s'"
    using assms(4) by (cases r) auto
qed

lemma nodes_rule:
  assumes "stable stored others H name"
    and "\<And>a. hoare (moment stored others H name s0) (k a) B"
    and "\<And>s. moment stored others H name s0 s \<Longrightarrow> B (Inl Coordinator_Down) s"
  shows "hoare (moment stored others H name s0) (andThen (call others (listNodes C)) k) B"
  by (rule read_rule [OF assms(1) _ assms(2,3)]) (rule nodes_keeps)

lemma schema_rule:
  assumes "stable stored others H name"
    and "\<And>a. hoare (moment stored others H name s0) (k a) B"
    and "\<And>s. moment stored others H name s0 s \<Longrightarrow> B (Inl Coordinator_Down) s"
  shows "hoare (moment stored others H name s0) (andThen (call others (getSchema C index)) k) B"
  by (rule read_rule [OF assms(1) _ assms(2,3)]) (rule schema_keeps)

lemma key_rule:
  assumes "stable stored others H name"
    and "\<And>a. hoare (moment stored others H name s0) (k a) B"
    and "\<And>s. moment stored others H name s0 s \<Longrightarrow> B (Inl Coordinator_Down) s"
  shows "hoare (moment stored others H name s0) (andThen (call others (getKey C key)) k) B"
  by (rule read_rule [OF assms(1) _ assms(2,3)]) (rule key_keeps)

lemma get_rule:
  assumes "stable stored others H name"
    and "\<And>found. versions_name H found \<Longrightarrow>
      hoare (\<lambda>s. moment stored others H name s0 s \<and> stored s name = found) (k found) B"
    and "\<And>s. moment stored others H name s0 s \<Longrightarrow> B (Inl Coordinator_Down) s"
  shows "hoare (moment stored others H name s0) (andThen (call others (getAllocation C name)) k) B"
proof (rule hoare_andThen [where M = "\<lambda>found s. moment stored others H name s0 s \<and> stored s name = found", OF hoare_call])
  fix n s r s'
  assume s: "moment stored others H name s0 s" and got: "getAllocation C name (others n s) = (r, s')"
  have s': "moment stored others H name s0 s'"
    using moment_reading [OF moment_others [OF assms(1) s] get_keeps [OF got]] .
  show "case (case r of Inl _ \<Rightarrow> Inl Coordinator_Down | Inr a \<Rightarrow> Inr a) of
      Inl e \<Rightarrow> B (Inl e) s' | Inr found \<Rightarrow> moment stored others H name s0 s' \<and> stored s' name = found"
    using s' assms(3) got get_stored [of name "others n s" _ s'] get_keeps [OF got] by (cases r) auto
next
  fix found
  show "hoare (\<lambda>s. moment stored others H name s0 s \<and> stored s name = found) (k found) B"
  proof (cases "versions_name H found")
    case False
    then show ?thesis by (auto simp: hoare_def moment_def)
  qed (rule assms(2))
qed

lemma found_rule:
  assumes "stable stored others H name"
    and "\<And>found. versions_name H found \<Longrightarrow> hoare (moment stored others H name s0) (k found) B"
    and "\<And>s. moment stored others H name s0 s \<Longrightarrow> B (Inl Coordinator_Down) s"
  shows "hoare (moment stored others H name s0) (andThen (call others (getAllocation C name)) k) B"
proof (rule get_rule [OF assms(1)])
  show "hoare (\<lambda>s. moment stored others H name s0 s \<and> stored s name = found) (k found) B"
    if "versions_name H found" for found
    by (rule hoare_strengthen [OF assms(2) [OF that]]) simp
qed (rule assms(3))

text \<open>A chain of reads that ends with a result or an error and keeps the moment.\<close>

lemma reads_rule:
  assumes "stable stored others H name"
  shows "hoare (moment stored others H name s0) (readStoredMetadata C D others index)
     (\<lambda>_. moment stored others H name s0)"
  unfolding readStoredMetadata_def
proof (rule hoare_result)
  show "hoare (moment stored others H name s0) (andThen (call others (getKey C (indexConfigKey index))) (\<lambda>raw.
       case raw of
         None \<Rightarrow> return None
       | Some raw \<Rightarrow>
           if raw = [] then return None
           else andThen (fromResult (decodeMetadata D raw)) (\<lambda>found. return (Some (raw, found)))))
     (\<lambda>_. moment stored others H name s0)"
    by (rule key_rule [OF assms]) (assumption | rule hoare_option hoare_if hoare_return hoare_result)+
qed

lemma metadata_rule:
  assumes "stable stored others H name"
    and "\<And>m. hoare (moment stored others H name s0) (k m) B"
    and "\<And>e s. moment stored others H name s0 s \<Longrightarrow> B (Inl e) s"
  shows "hoare (moment stored others H name s0) (andThen (getIndexMetadata C D others index) k) B"
proof (rule hoare_andThen [where M = "\<lambda>_. moment stored others H name s0", OF _ assms(2)])
  have "hoare (moment stored others H name s0) (getIndexMetadata C D others index) (\<lambda>_. moment stored others H name s0)"
    unfolding getIndexMetadata_def
  proof (rule hoare_andThen [where M = "\<lambda>_. moment stored others H name s0"])
    show "hoare (moment stored others H name s0) (readStoredMetadata C D others index)
        (\<lambda>r s. case r of Inl e \<Rightarrow> moment stored others H name s0 s | Inr a \<Rightarrow> moment stored others H name s0 s)"
      by (rule hoare_weaken [OF reads_rule [OF assms(1)]]) (simp split: sum.split)
  qed (rule hoare_return)
  then show "hoare (moment stored others H name s0) (getIndexMetadata C D others index)
      (\<lambda>r s. case r of Inl e \<Rightarrow> B (Inl e) s | Inr a \<Rightarrow> moment stored others H name s0 s)"
    by (rule hoare_weaken) (simp add: assms(3) split: sum.split)
qed

lemma rewrite_rule:
  assumes "stable stored others H name"
    and "\<And>uuid. \<not> belongsToAnotherIndex table uuid \<Longrightarrow>
      hoare (moment stored others H name s0) (k (Some (stampedWith table uuid))) B"
    and "hoare (moment stored others H name s0) (k None) B"
    and "\<And>e s. moment stored others H name s0 s \<Longrightarrow> B (Inl e) s"
  shows "hoare (moment stored others H name s0) (andThen (rewriteForCurrentIndex C D others table) k) B"
proof -
  have "hoare (moment stored others H name s0) (andThen (getIndexMetadata C D others (tableIndexName table))
      (\<lambda>metadata. k (let uuid = map_option indexUuidOf metadata
         in if belongsToAnotherIndex table uuid then None else Some (stampedWith table uuid)))) B"
  proof (rule metadata_rule [OF assms(1)])
    show "hoare (moment stored others H name s0) (k (let uuid = map_option indexUuidOf m
         in if belongsToAnotherIndex table uuid then None else Some (stampedWith table uuid))) B" for m
      using assms(2,3) by (simp add: Let_def)
  qed (rule assms(4))
  moreover have "andThen (rewriteForCurrentIndex C D others table) k =
      andThen (getIndexMetadata C D others (tableIndexName table))
      (\<lambda>metadata. k (let uuid = map_option indexUuidOf metadata
         in if belongsToAnotherIndex table uuid then None else Some (stampedWith table uuid)))"
    by (auto simp: rewriteForCurrentIndex_def andThen_def return_def Let_def fun_eq_iff split: sum.splits prod.splits)
  ultimately show ?thesis by simp
qed

lemma put_rule:
  assumes "stable stored others H name" and "versions_name H found"
    and "hoare (wrote stored leads others H name s0 writer found new) (k True) B"
    and "hoare (moment stored others H name s0) (k False) B"
    and "\<And>s. moment stored others H name s0 s \<Longrightarrow> B (Inl Coordinator_Down) s"
  shows "hoare (moment stored others H name s0)
     (andThen (call others (putAllocation C name new (Some (map_option tableVersion found, writer)))) k) B"
proof (rule hoare_andThen [where M = "\<lambda>written. if written then wrote stored leads others H name s0 writer found new
      else moment stored others H name s0", OF hoare_call])
  fix n s r s'
  let ?s = "others n s"
  assume s: "moment stored others H name s0 s"
    and put: "putAllocation C name new (Some (map_option tableVersion found, writer)) ?s = (r, s')"
  have at: "moment stored others H name s0 ?s" by (rule moment_others [OF assms(1) s])
  show "case (case r of Inl _ \<Rightarrow> Inl Coordinator_Down | Inr a \<Rightarrow> Inr a) of Inl e \<Rightarrow> B (Inl e) s'
      | Inr written \<Rightarrow> (if written then wrote stored leads others H name s0 writer found new else moment stored others H name s0) s'"
  proof (cases "r = Inr True")
    case True
    note w = put_written [OF put [unfolded True]]
    have "stored ?s name = found"
      using w at assms(2) same_version [of H "stored ?s name" found] by (simp add: moment_def)
    then show ?thesis using True w at by (auto simp: wrote_def)
  next
    case False
    then have "moment stored others H name s0 s'" using moment_reading [OF at put_refused [OF put]] by blast
    then show ?thesis using False assms(5) by (cases r) auto
  qed
qed (use assms(3,4) in auto)

lemma observe_rule: "(\<And>a. hoare A (k a) B) \<Longrightarrow> hoare A (andThen (observe f) k) B"
  by (rule hoare_observe)

end

section \<open>The in-memory coordinator\<close>

definition storedTables :: "('x, 'schema) coordinator_state \<Rightarrow> index_name \<Rightarrow> allocation_table option" where
  "storedTables S = mapGet (allocations S)"

definition leadsCluster :: "('x, 'schema) coordinator_state \<Rightarrow> node_id \<Rightarrow> bool" where
  "leadsCluster S node \<longleftrightarrow> \<not> isShutdown S \<and> isLeaseValid CONTROLLER_LEASE_KEY S \<and>
     map_option leaseNodeId (mapGet (leases S) CONTROLLER_LEASE_KEY) = Some node"

interpretation memory: table_store inMemoryCoordinator storedTables leadsCluster
proof
  fix name table expected writer
  fix S S' :: "('x, 'schema) coordinator_state"
  assume "putAllocation inMemoryCoordinator name table (Some (expected, writer)) S = (Inr True, S')"
  then have "isShutdown S = False" "mayPut name (Some (expected, writer)) S"
    "S' = emit (Allocation_Changed name table) (S\<lparr>allocations := mapSet name table (allocations S)\<rparr>)"
    by (auto simp: inMemoryCoordinator_def memPutAllocation_def whenUp_def split: if_splits)
  then show "leadsCluster S writer \<and> map_option tableVersion (storedTables S name) = expected \<and>
      storedTables S' = (storedTables S)(name := Some table)"
    by (auto simp: mayPut_def leadsCluster_def storedTables_def emit_def mapGet_set fun_eq_iff split: option.splits)
qed (auto simp: inMemoryCoordinator_def whenUp_def storedTables_def memGetAllocation_def memListNodes_def
    memGetKey_def memGetSchema_def memPutAllocation_def split: if_splits)

end
