(* ===== verification/Table_Handlers.thy ===== *)
theory Table_Handlers
  imports Table_Store
begin

text \<open>
  What each handler of the controller does to the table, over any coordinator with the laws of
  \<open>table_store\<close>: it takes effect once, on the table stored at that moment, or not at all. \<open>resolves\<close>
  is that contract; \<open>R\<close> relates the table before and after, and \<open>Q\<close> holds of the answers of a
  handler that has written.
\<close>

definition resolves :: "('s \<Rightarrow> index_name \<Rightarrow> allocation_table option) \<Rightarrow> ('s \<Rightarrow> node_id \<Rightarrow> bool)
    \<Rightarrow> 's interleaving \<Rightarrow> (int \<Rightarrow> allocation_table) \<Rightarrow> index_name \<Rightarrow> 's \<Rightarrow> node_id
    \<Rightarrow> (allocation_table option \<Rightarrow> allocation_table \<Rightarrow> bool) \<Rightarrow> ('s, 'a) post" where
  "resolves stored leads others H name s0 writer R r s' \<longleftrightarrow>
     moment stored others H name s0 s' \<or>
     (\<exists>found new. R found new \<and> wrote stored leads others H name s0 writer found new s')"

lemma resolves_moment: "moment stored others H name s0 s' \<Longrightarrow> resolves stored leads others H name s0 writer R r s'"
  by (simp add: resolves_def)

lemma resolves_wrote:
  "wrote stored leads others H name s0 writer found new s' \<Longrightarrow> R found new \<Longrightarrow>
   resolves stored leads others H name s0 writer R r s'"
  unfolding resolves_def by blast

text \<open>How every update of a single table ends.\<close>

abbreviation rewriteAndPut where
  "rewriteAndPut C D others revised name table writer ok again \<equiv>
     andThen (rewriteForCurrentIndex C D others revised) (\<lambda>rewritten.
       case rewritten of
         None \<Rightarrow> return False
       | Some new \<Rightarrow>
           andThen (call others (putAllocation C name new (Some (Some (tableVersion table), writer)))) (\<lambda>written.
             if written then return ok else again))"

section \<open>The in-sync set\<close>

text \<open>The update of one assignment that a decision asks for.\<close>

definition decided :: "partition_id \<Rightarrow> int \<Rightarrow> (partition_assignment \<Rightarrow> assignment_decision)
    \<Rightarrow> allocation_table option \<Rightarrow> allocation_table \<Rightarrow> bool" where
  "decided pid tm decide found new \<longleftrightarrow>
     (\<exists>table a b uuid. found = Some table \<and> mapGet (tableAssignments table) pid = Some a \<and>
        assignedTerm a = tm \<and> decide a = Write b \<and> new = stampedWith (withAssignment table pid b) uuid)"

text \<open>An update that was accepted: the table was found in order, or the update was written.\<close>

definition settled :: "('s \<Rightarrow> index_name \<Rightarrow> allocation_table option) \<Rightarrow> ('s \<Rightarrow> node_id \<Rightarrow> bool)
    \<Rightarrow> 's interleaving \<Rightarrow> (int \<Rightarrow> allocation_table) \<Rightarrow> index_name \<Rightarrow> 's \<Rightarrow> node_id
    \<Rightarrow> partition_id \<Rightarrow> int \<Rightarrow> (partition_assignment \<Rightarrow> assignment_decision) \<Rightarrow> 's \<Rightarrow> bool" where
  "settled stored leads others H name s0 writer pid tm decide s' \<longleftrightarrow>
     moment stored others H name s0 s' \<and>
       (\<exists>table a. stored s' name = Some table \<and> mapGet (tableAssignments table) pid = Some a \<and>
          assignedTerm a = tm \<and> decide a = Accept) \<or>
     (\<exists>found new. decided pid tm decide found new \<and>
        wrote stored leads others H name s0 writer found new s')"

section \<open>The updates of the other handlers\<close>

definition bootstrapped :: "bootstrap_complete_payload \<Rightarrow> allocation_table option \<Rightarrow> allocation_table \<Rightarrow> bool" where
  "bootstrapped p found new \<longleftrightarrow>
     (\<exists>table a uuid. found = Some table \<and> mapGet (tableAssignments table) (completePartition p) = Some a \<and>
        assignedTerm a = completeTerm p \<and> primary a = Some (completeNodeId p) \<and> partitionState a = INITIALISING \<and>
        new = stampedWith (withAssignment table (completePartition p) (served a)) uuid)"

definition resigned :: "rounding \<Rightarrow> primary_resign_payload \<Rightarrow> node_id \<Rightarrow> allocation_table option
    \<Rightarrow> allocation_table \<Rightarrow> bool" where
  "resigned fl p source found new \<longleftrightarrow>
     (\<exists>table a registered uuid. found = Some table \<and>
        mapGet (tableAssignments table) (resignPartition p) = Some a \<and>
        primary a = Some source \<and> assignedTerm a = resignTerm p \<and>
        new = stampedWith (withAssignment table (resignPartition p) (failedOver fl registered source a)) uuid)"

definition recovered :: "node_id list \<Rightarrow> (node_id, stores_answer) js_map \<Rightarrow> allocation_table option
    \<Rightarrow> allocation_table \<Rightarrow> bool" where
  "recovered live answers found new \<longleftrightarrow>
     (\<exists>table rewritten anyPromoted uuid. found = Some table \<and>
        rewrittenAssignments table live answers = (rewritten, anyPromoted) \<and> rewritten \<noteq> [] \<and>
        new = stampedWith (withAssignments table rewritten) uuid)"

text \<open>
  The table of a dropped index of the same name counts as none, and for a new schema so does a
  table without partitions.
\<close>

definition allocated :: "rounding \<Rightarrow> node_registration list \<Rightarrow> index_name \<Rightarrow> allocation_table option
    \<Rightarrow> allocation_table \<Rightarrow> bool" where
  "allocated fl nodes name found new \<longleftrightarrow>
     (\<exists>m retained current.
        \<not> hasGeneration (ownTable found (indexUuidOf m)) \<and>
        (current = ownTable found (indexUuidOf m) \<or>
         current = None \<and> map_option tableAssignments (ownTable found (indexUuidOf m)) = Some []) \<and>
        allocateFor fl nodes current name m retained = Inr new)"

context table_store
begin

lemma rewrite_put_rule:
  assumes stable: "stable stored others H name" and "versions_name H (Some table)"
    and wrote: "\<And>uuid s'. wrote stored leads others H name s0 writer (Some table) (stampedWith revised uuid) s' \<Longrightarrow>
      B (Inr ok) s'"
    and again: "hoare (moment stored others H name s0) again B"
    and "\<And>s. moment stored others H name s0 s \<Longrightarrow> B (Inr False) s"
    and "\<And>e s. moment stored others H name s0 s \<Longrightarrow> B (Inl e) s"
  shows "hoare (moment stored others H name s0) (rewriteAndPut C D others revised name table writer ok again) B"
proof (rule rewrite_rule [OF stable], goal_cases)
  case (1 uuid)
  let ?next = "\<lambda>written. if written then return ok else again"
  have "hoare (wrote stored leads others H name s0 writer (Some table) (stampedWith revised uuid)) (?next True) B"
    using wrote by (simp add: hoare_return)
  moreover have "hoare (moment stored others H name s0) (?next False) B" using again by simp
  ultimately show ?case
    using put_rule [OF stable assms(2), of s0 writer "stampedWith revised uuid" ?next B] assms(6) by simp
qed (simp_all add: hoare_return assms(5,6))

lemma insync_loop:
  assumes stable: "stable stored others H name"
  shows "hoare (moment stored others H name s0) (updateInsyncLoop C D others name pid tm writer decide n)
     (\<lambda>r s'. if r = Inr True then settled stored leads others H name s0 writer pid tm decide s'
             else moment stored others H name s0 s')"
    (is "hoare ?A _ ?B")
proof (induction n)
  case 0
  show ?case by (simp add: hoare_return)
next
  case (Suc n)
  show ?case
    unfolding updateInsyncLoop.simps
  proof (rule get_rule [OF stable], goal_cases)
    case (1 found)
    show ?case
    proof (rule hoare_option, goal_cases)
      case 1
      show ?case by (rule hoare_return) simp
    next
      case table: (2 table)
      show ?case
      proof (rule hoare_option, goal_cases)
        case 1
        show ?case by (rule hoare_return) simp
      next
        case a: (2 a)
        show ?case
        proof (rule hoare_if, goal_cases)
          case 1
          show ?case by (rule hoare_return) simp
        next
          case 2
          show ?case
          proof (cases "decide a")
            case Refuse
            then show ?thesis by (auto intro!: hoare_return)
          next
            case Accept
            then show ?thesis using table a 2 by (auto intro!: hoare_return simp: settled_def)
          next
            case (Write b)
            have "hoare ?A (rewriteAndPut C D others (withAssignment table pid b) name table writer True
                (updateInsyncLoop C D others name pid tm writer decide n)) ?B"
            proof (rule rewrite_put_rule [OF stable])
              fix s' uuid
              assume w: "wrote stored leads others H name s0 writer (Some table)
                  (stampedWith (withAssignment table pid b) uuid) s'"
              have "decided pid tm decide (Some table) (stampedWith (withAssignment table pid b) uuid)"
                using a 2 Write by (auto simp: decided_def)
              with w show "?B (Inr True) s'" by (auto simp: settled_def)
            qed (use Suc.IH \<open>versions_name H found\<close> table in simp_all)
            then show ?thesis using Write by (simp add: hoare_strengthen)
          qed
        qed
      qed
    qed
  qed simp
qed

lemma bootstrap_loop:
  assumes stable: "stable stored others H (completeIndex p)"
  shows "hoare (moment stored others H (completeIndex p) s0) (bootstrapCompleteLoop C D others p writer n)
     (\<lambda>r s'. if r = Inr True
       then \<exists>found new. bootstrapped p found new \<and>
              wrote stored leads others H (completeIndex p) s0 writer found new s'
       else moment stored others H (completeIndex p) s0 s')"
    (is "hoare ?A _ ?B")
proof (induction n)
  case 0
  show ?case by (simp add: hoare_return)
next
  case (Suc n)
  show ?case
    unfolding bootstrapCompleteLoop.simps
  proof (intro found_rule [OF stable] hoare_option hoare_if, goal_cases)
    case (6 found table a)
    show ?case
    proof (rule rewrite_put_rule [OF stable])
      fix s' uuid
      let ?new = "stampedWith (withAssignment table (completePartition p) (served a)) uuid"
      assume "wrote stored leads others H (completeIndex p) s0 writer (Some table) ?new s'"
      moreover have "bootstrapped p (Some table) ?new" using 6 by (auto simp: bootstrapped_def)
      ultimately show "?B (Inr True) s'" by auto
    qed (use Suc.IH 6 in simp_all)
  qed (simp_all add: hoare_return)
qed

lemma resign_loop:
  assumes stable: "stable stored others H (resignIndex p)"
  shows "hoare (moment stored others H (resignIndex p) s0) (resignLoop fl C D others p source writer n)
     (\<lambda>r s'. if r = Inr True
       then \<exists>found new. resigned fl p source found new \<and>
              wrote stored leads others H (resignIndex p) s0 writer found new s'
       else moment stored others H (resignIndex p) s0 s')"
    (is "hoare ?A _ ?B")
proof (induction n)
  case 0
  show ?case by (simp add: hoare_return)
next
  case (Suc n)
  show ?case
    unfolding resignLoop.simps Let_def
  proof (intro found_rule [OF stable] nodes_rule [OF stable] hoare_option hoare_if, goal_cases)
    case (5 found table a nodes)
    show ?case
    proof (rule rewrite_put_rule [OF stable])
      fix s' uuid
      let ?new = "stampedWith (withAssignment table (resignPartition p)
                    (failedOver fl (foldl setAdd [] (map nodeId nodes)) source a)) uuid"
      assume "wrote stored leads others H (resignIndex p) s0 writer (Some table) ?new s'"
      moreover have "resigned fl p source (Some table) ?new" using 5 by (auto simp: resigned_def)
      ultimately show "?B (Inr True) s'" by auto
    qed (use Suc.IH 5 in simp_all)
  qed (simp_all add: hoare_return)
qed

lemma recovery_loop:
  assumes stable: "stable stored others H name"
  shows "hoare (moment stored others H name s0)
     (writeRecoveryLoop C D others isActive writer name live answers n)
     (resolves stored leads others H name s0 writer (recovered live answers))"
    (is "hoare ?A _ ?B")
proof (induction n)
  case 0
  show ?case by (auto intro!: hoare_return resolves_moment)
next
  case (Suc n)
  have stop: "hoare ?A (return False) ?B" by (auto intro!: hoare_return resolves_moment)
  show ?case
    unfolding writeRecoveryLoop.simps
  proof (intro observe_rule hoare_if stop found_rule [OF stable] hoare_option, goal_cases)
    case (1 leading found table)
    obtain rewritten anyPromoted where rw: "rewrittenAssignments table live answers = (rewritten, anyPromoted)"
      by fastforce
    have "hoare ?A (rewriteAndPut C D others (withAssignments table rewritten) name table writer anyPromoted
        (writeRecoveryLoop C D others isActive writer name live answers n)) ?B" if "rewritten \<noteq> []"
    proof (rule rewrite_put_rule [OF stable])
      fix s' uuid
      let ?new = "stampedWith (withAssignments table rewritten) uuid"
      assume "wrote stored leads others H name s0 writer (Some table) ?new s'"
      moreover have "recovered live answers (Some table) ?new" using rw that by (auto simp: recovered_def)
      ultimately show "?B (Inr anyPromoted) s'" by (rule resolves_wrote)
    qed (use Suc.IH 1 in \<open>simp_all add: resolves_moment\<close>)
    then show ?case unfolding rw prod.case by (intro hoare_if observe_rule stop) simp_all
  qed (auto intro: resolves_moment)
qed

text \<open>The end of a run of the allocator.\<close>

lemma allocated_put_rule:
  assumes stable: "stable stored others H name" and "versions_name H found"
    and "\<not> hasGeneration (ownTable found (indexUuidOf m))"
    and "current = ownTable found (indexUuidOf m) \<or>
      current = None \<and> map_option tableAssignments (ownTable found (indexUuidOf m)) = Some []"
    and "allocateFor fl nodes current name m retained = Inr new"
    and again: "hoare (moment stored others H name s0) again
       (resolves stored leads others H name s0 writer (allocated fl nodes name))"
  shows "hoare (moment stored others H name s0)
     (andThen (call others (putAllocation C name new (Some (map_option tableVersion found, writer)))) (\<lambda>written.
        if written then return () else again))
     (resolves stored leads others H name s0 writer (allocated fl nodes name))"
proof (rule put_rule [OF stable assms(2)], goal_cases)
  case 1
  have "allocated fl nodes name found new" unfolding allocated_def using assms(3,4,5) by blast
  then show ?case by (auto intro!: hoare_return resolves_wrote)
qed (use again in \<open>auto intro: resolves_moment\<close>)

lemma schema_guard_rule:
  assumes stable: "stable stored others H name"
    and "\<And>wanted. hoare (moment stored others H name s0) (k wanted) B"
    and "\<And>s. moment stored others H name s0 s \<Longrightarrow> B (Inl Coordinator_Down) s"
  shows "hoare (moment stored others H name s0) (andThen (hasSchemaUnless C others isActive index current) k) B"
proof (cases current)
  case None
  have "hoare (moment stored others H name s0)
      (andThen (call others (getSchema C index)) (\<lambda>schema. andThen (observe isActive) (\<lambda>leading.
         k (schema \<noteq> None \<and> leading)))) B"
    by (intro schema_rule [OF stable] observe_rule assms(2,3))
  moreover have "andThen (call others (getSchema C index)) (\<lambda>schema. andThen (observe isActive) (\<lambda>leading.
         k (schema \<noteq> None \<and> leading))) = andThen (hasSchemaUnless C others isActive index current) k"
    by (rule ext) (auto simp: None hasSchemaUnless_def andThen_def return_def observe_def split: sum.splits prod.splits)
  ultimately show ?thesis by simp
next
  case (Some table)
  have "andThen (hasSchemaUnless C others isActive index current) k = k True"
    by (rule ext) (simp add: Some hasSchemaUnless_def andThen_def return_def split: prod.splits)
  then show ?thesis using assms(2) [of True] by simp
qed

lemma allocator_loop:
  assumes stable: "stable stored others H name"
  shows "hoare (moment stored others H name s0)
     (runAllocatorForIndex fl C D others isActive writer name nodes retainedFor n)
     (resolves stored leads others H name s0 writer (allocated fl nodes name))"
    (is "hoare ?A _ ?B")
proof (induction n)
  case 0
  show ?case by (auto intro!: hoare_throw resolves_moment)
next
  case (Suc n)
  have stop: "hoare ?A (return ()) ?B" by (auto intro!: hoare_return resolves_moment)
  show ?case
    unfolding runAllocatorForIndex.simps Let_def
  proof (intro observe_rule hoare_if hoare_option stop found_rule [OF stable] metadata_rule [OF stable]
      schema_guard_rule [OF stable] hoare_result, goal_cases)
    case (1 _ found)
    then show ?case using Suc.IH by (intro allocated_put_rule [OF stable _ _ disjI1 [OF refl]]) simp_all
  qed (auto intro: resolves_moment)
qed

text \<open>The results of a handler that ends by giving an answer.\<close>

lemma answer_rule:
  assumes "hoare A p (\<lambda>r s. if r = Inr True then T s else F s)"
  shows "hoare A (andThen p (\<lambda>ok. return (f ok)))
     (\<lambda>r s. case r of Inl _ \<Rightarrow> F s | Inr answer \<Rightarrow> \<exists>ok. answer = f ok \<and> (if ok then T s else F s))"
  unfolding hoare_def
proof (intro allI impI)
  fix n s r n' s'
  assume s: "A s" and run: "andThen p (\<lambda>ok. return (f ok)) (n, s) = (r, n', s')"
  obtain q m t where q: "p (n, s) = (q, m, t)" by (metis prod_cases3)
  have post: "if q = Inr True then T t else F t" by (rule hoareD [OF assms s q])
  show "case r of Inl _ \<Rightarrow> F s' | Inr answer \<Rightarrow> \<exists>ok. answer = f ok \<and> (if ok then T s' else F s')"
  proof (cases q)
    case (Inl e)
    then have "r = Inl e" "s' = t" using run q by (simp_all add: andThen_def)
    moreover have "F t" using post Inl by simp
    ultimately show ?thesis by simp
  next
    case (Inr ok)
    then have "r = Inr (f ok)" "s' = t" using run q by (simp_all add: andThen_def return_def)
    moreover have "if ok then T t else F t" using post Inr by simp
    ultimately show ?thesis by (simp only: sum.case) (rule exI [of _ ok], simp)
  qed
qed

lemma insync_set:
  assumes stable: "stable stored others H (requestIndex p)"
  shows "hoare (moment stored others H (requestIndex p) s0) (updateInsyncSet C D others p writer decide)
     (\<lambda>r s'. case r of Inl _ \<Rightarrow> moment stored others H (requestIndex p) s0 s'
      | Inr answer \<Rightarrow> \<exists>ok. answer = confirmFor p ok \<and> (if ok
       then settled stored leads others H (requestIndex p) s0 writer (requestPartition p) (requestTerm p) decide s'
       else moment stored others H (requestIndex p) s0 s'))"
  unfolding updateInsyncSet_def by (rule answer_rule [OF insync_loop [OF stable]])

lemma insync_removal:
  assumes "stable stored others H (requestIndex p)"
  shows "hoare (moment stored others H (requestIndex p) s0) (handleInsyncRemoval C D others p writer)
     (\<lambda>r s'. case r of Inl _ \<Rightarrow> moment stored others H (requestIndex p) s0 s'
      | Inr answer \<Rightarrow> \<exists>ok. answer = confirmFor p ok \<and> (if ok
       then settled stored leads others H (requestIndex p) s0 writer (requestPartition p) (requestTerm p)
              (decideRemoval (replicaNodeId p)) s'
       else moment stored others H (requestIndex p) s0 s'))"
  unfolding handleInsyncRemoval_def by (rule insync_set [OF assms])

lemma insync_admission:
  assumes stable: "stable stored others H (requestIndex p)"
  shows "hoare (moment stored others H (requestIndex p) s0) (handleInsyncAdmission C D others p writer)
     (\<lambda>r s'. case r of Inl _ \<Rightarrow> moment stored others H (requestIndex p) s0 s'
      | Inr answer \<Rightarrow> \<exists>ok. answer = confirmFor p ok \<and> (if ok
       then settled stored leads others H (requestIndex p) s0 writer (requestPartition p) (requestTerm p)
              (decideAdmission p) s'
       else moment stored others H (requestIndex p) s0 s'))"
  unfolding handleInsyncAdmission_def
proof (intro nodes_rule [OF stable] hoare_if insync_set [OF stable], goal_cases)
  case (1 registered)
  show ?case by (rule hoare_return) (simp add: exI [of _ False])
qed simp

end

end
