(* ===== verification/Table_History.thy ===== *)
theory Table_History
  imports Allocator_Losses Table_Handlers
begin

text \<open>
  The history of the table of one index: \<open>table_step\<close> are the updates that the handlers of the
  controller write, \<open>table_run\<close> any sequence of them. What a run keeps of every partition is
  \<open>evolves\<close>: terms and commit points never fall, no two nodes lead under one term, and nobody but
  admitted nodes comes to hold the writes of a partition that has been active.
\<close>

section \<open>One partition\<close>

text \<open>
  The nodes trusted with every acknowledged write: those that lead or are in sync, and for a
  partition that is to be recovered, its last holders.
\<close>

definition trusted :: "partition_assignment \<Rightarrow> node_id set" where
  "trusted a = caught_up a \<union> set (lastHoldersOf a)"

definition evolves :: "node_id set \<Rightarrow> partition_assignment \<Rightarrow> partition_assignment \<Rightarrow> bool" where
  "evolves N a b \<longleftrightarrow> (assignment_ok a \<longrightarrow>
     assignment_ok b \<and> assignedTerm a \<le> assignedTerm b \<and> commitPoint a \<le> commitPoint b \<and>
     (primary b = primary a \<or> primary b = None \<or> assignedTerm a < assignedTerm b) \<and>
     (\<not> neverReachedActive a \<longrightarrow> \<not> neverReachedActive b \<and> trusted b \<subseteq> trusted a \<union> N))"

lemma evolves_refl [simp]: "evolves N a a"
  by (auto simp: evolves_def)

lemma evolves_trans [trans]:
  assumes "evolves N a b" and "evolves M b c"
  shows "evolves (N \<union> M) a c"
  unfolding evolves_def
proof
  assume ok: "assignment_ok a"
  note b = assms(1) [unfolded evolves_def, rule_format, OF ok]
  note c = assms(2) [unfolded evolves_def, rule_format, OF conjunct1 [OF b]]
  have "primary c = primary a \<or> primary c = None \<or> assignedTerm a < assignedTerm c"
    using b c by (metis less_le_trans le_less_trans)
  moreover have "\<not> neverReachedActive a \<longrightarrow> \<not> neverReachedActive c \<and> trusted c \<subseteq> trusted a \<union> (N \<union> M)"
    using b c by blast
  ultimately show "assignment_ok c \<and> assignedTerm a \<le> assignedTerm c \<and> commitPoint a \<le> commitPoint c \<and>
     (primary c = primary a \<or> primary c = None \<or> assignedTerm a < assignedTerm c) \<and>
     (\<not> neverReachedActive a \<longrightarrow> \<not> neverReachedActive c \<and> trusted c \<subseteq> trusted a \<union> (N \<union> M))"
    using b c by linarith
qed

lemma evolves_mono: "evolves N a b \<Longrightarrow> N \<subseteq> M \<Longrightarrow> evolves M a b"
  unfolding evolves_def by blast

lemma trusted_UNASSIGNED: "primary b = None \<Longrightarrow> inSyncSet b = [] \<Longrightarrow> trusted b = set (lastHoldersOf b)"
  by (simp add: trusted_def caught_up_def)

lemma lost_evolves: "lost active leaving retained a b \<Longrightarrow> evolves N a b"
  unfolding evolves_def
proof
  assume lost: "lost active leaving retained a b" and ok: "assignment_ok a"
  note b = lost [unfolded lost_def, rule_format, OF ok]
  have "\<not> neverReachedActive b \<and> trusted b \<subseteq> trusted a" if active: "\<not> neverReachedActive a"
  proof (cases "primary b")
    case None
    then have "inSyncSet b = []" "partitionState b = UNASSIGNED" using b by (auto simp: assignment_ok_def)
    then show ?thesis using None b by (auto simp: trusted_def caught_up_def neverReachedActive_def)
  next
    case (Some p)
    then have "partitionState b \<noteq> UNASSIGNED" using b by (simp add: assignment_ok_def)
    then have "partitionState b = partitionState a" using b by blast
    moreover have "lastHoldersOf b = lastHoldersOf a" using b active Some by simp
    moreover have "caught_up b \<subseteq> caught_up a" using b active by simp
    ultimately show ?thesis using active by (simp add: trusted_def neverReachedActive_def) blast
  qed
  then show "assignment_ok b \<and> assignedTerm a \<le> assignedTerm b \<and> commitPoint a \<le> commitPoint b \<and>
     (primary b = primary a \<or> primary b = None \<or> assignedTerm a < assignedTerm b) \<and>
     (\<not> neverReachedActive a \<longrightarrow> \<not> neverReachedActive b \<and> trusted b \<subseteq> trusted a \<union> N)"
    using b by auto
qed

lemma moved_evolves: "moved F a b \<Longrightarrow> evolves N a b"
  unfolding evolves_def
proof
  assume moved: "moved F a b" and ok: "assignment_ok a"
  note b = moved [unfolded moved_def, rule_format, OF ok]
  then show "assignment_ok b \<and> assignedTerm a \<le> assignedTerm b \<and> commitPoint a \<le> commitPoint b \<and>
     (primary b = primary a \<or> primary b = None \<or> assignedTerm a < assignedTerm b) \<and>
     (\<not> neverReachedActive a \<longrightarrow> \<not> neverReachedActive b \<and> trusted b \<subseteq> trusted a \<union> N)"
    by (auto simp: trusted_def neverReachedActive_def)
qed

section \<open>What the handlers write\<close>

lemma decideRemoval_evolves:
  assumes "decideRemoval replica a = Write b"
  shows "evolves N a b" and "replica \<notin> set (inSyncSet b)" and "assignedTerm b = assignedTerm a"
    and "primary b = primary a" and "commitPoint b = commitPoint a" and "replicas b = replicas a"
  using assms by (auto simp: decideRemoval_def evolves_def assignment_ok_def trusted_def caught_up_def
      lastHoldersOf_def neverReachedActive_def split: if_splits)

lemma decideAdmission_evolves:
  assumes "decideAdmission p a = Write b"
  shows "evolves {replicaNodeId p} a b" and "replicaNodeId p \<in> set (inSyncSet b)"
    and "assignedTerm b = assignedTerm a" and "primary b = primary a"
    and "commitPoint a \<le> commitPoint b" and "requestCommitPoint p \<le> commitPoint b"
    and "commitPoint b \<le> appliedSeqNo p" and "replicas b = replicas a"
    and "replicaNodeId p \<in> set (replicas a)"
  using assms by (auto simp: decideAdmission_def Let_def evolves_def assignment_ok_def trusted_def caught_up_def
      lastHoldersOf_def neverReachedActive_def split: if_splits)

lemma served_evolves: "partitionState a = INITIALISING \<Longrightarrow> evolves N a (served a)"
  by (auto simp: served_def evolves_def assignment_ok_def trusted_def caught_up_def lastHoldersOf_def
      neverReachedActive_def)

lemma served_keeps_the_in_sync_set:
  "inSyncSet (served a) = inSyncSet a \<and> primary (served a) = primary a \<and> partitionState (served a) = ACTIVE"
  by (simp add: served_def)

lemma failedOver_evolves: "evolves N a (failedOver fl registered resigning a)"
proof -
  let ?ids = "filter (\<lambda>n. n \<noteq> resigning) registered"
  have "handleLostNodes fl ?ids [resigning] [] [] [(0, a)]
      = [(0, fst (handleLostAssignment fl ?ids [resigning] [] [] a (countPrimaryAssignments [(0, a)])))]"
    by (simp add: handleLostNodes_def forEachEntry_def split: prod.splits)
  then have "failedOver fl registered resigning a
      = fst (handleLostAssignment fl ?ids [resigning] [] [] a (countPrimaryAssignments [(0, a)]))"
    by (simp add: failedOver_def)
  then show ?thesis using lost_evolves [OF handleLostAssignment_lost] by metis
qed

lemma holderThatAnswered_in: "holderThatAnswered a pid answers = Some n \<Longrightarrow> n \<in> set (lastHoldersOf a)"
proof -
  let ?holders = "jsSort (\<lambda>x y. compareCodePoints x y < 0) (lastHoldersOf a)"
  assume "holderThatAnswered a pid answers = Some n"
  then have "n \<in> set ?holders"
    unfolding holderThatAnswered_def find_Some_iff by (metis nth_mem)
  then show ?thesis by simp
qed

lemma rewriteAssignment_evolves:
  assumes "rewriteAssignment a pid live answers = Some (b, promoted)" and "partitionState a = UNASSIGNED"
  shows "evolves N a b"
proof (cases "holderThatAnswered a pid answers")
  case None
  then have "b = a\<lparr>unassignedReason := reasonFor a live answers\<rparr>"
    using assms(1) by (auto simp: rewriteAssignment_def Let_def split: if_splits)
  then show ?thesis
    by (auto simp: evolves_def assignment_ok_def trusted_def caught_up_def lastHoldersOf_def neverReachedActive_def)
next
  case (Some n)
  then have b: "b = promoteAssignment a n" using assms(1) by (simp add: rewriteAssignment_def)
  have n: "n \<in> set (lastHoldersOf a)" using Some by (rule holderThatAnswered_in)
  have holders: "lastHoldersOf b = lastHoldersOf a" by (simp add: b promoteAssignment_def lastHoldersOf_def)
  then have "trusted b \<subseteq> trusted a" "\<not> neverReachedActive b"
    using n by (auto simp: trusted_def caught_up_def neverReachedActive_def b promoteAssignment_def)
  moreover have "assignment_ok a \<Longrightarrow> assignment_ok b \<and> primary a = None"
    using assms(2) by (cases "removingReplicas a") (auto simp: b promoteAssignment_def assignment_ok_def)
  moreover have "assignedTerm b = assignedTerm a + 1" "commitPoint b = commitPoint a"
    by (simp_all add: b promoteAssignment_def)
  ultimately show ?thesis unfolding evolves_def by auto
qed

section \<open>Tables\<close>

definition table_evolves :: "(partition_id \<times> node_id) set \<Rightarrow> assignments \<Rightarrow> assignments \<Rightarrow> bool" where
  "table_evolves admitted as bs \<longleftrightarrow> mapKeys bs = mapKeys as \<and>
     (\<forall>k a. mapGet as k = Some a \<longrightarrow> (\<exists>b. mapGet bs k = Some b \<and> evolves {n. (k, n) \<in> admitted} a b))"

lemma table_evolves_refl [simp]: "table_evolves admitted as as"
  by (simp add: table_evolves_def)

lemma table_evolves_trans:
  assumes "table_evolves admitted as bs" and "table_evolves others bs cs"
  shows "table_evolves (admitted \<union> others) as cs"
  unfolding table_evolves_def
proof (intro conjI allI impI)
  show "mapKeys cs = mapKeys as" using assms by (simp add: table_evolves_def)
  fix k a
  assume "mapGet as k = Some a"
  then obtain b c where "mapGet cs k = Some c" "evolves {n. (k, n) \<in> admitted} a b" "evolves {n. (k, n) \<in> others} b c"
    using assms unfolding table_evolves_def by metis
  then show "\<exists>c. mapGet cs k = Some c \<and> evolves {n. (k, n) \<in> admitted \<union> others} a c"
    using evolves_trans by (fastforce simp: Collect_disj_eq)
qed

lemma table_evolves_set:
  assumes "table_evolves admitted as bs" and "mapGet as k = Some a" and "evolves {n. (k, n) \<in> admitted} a b"
  shows "table_evolves admitted as (mapSet k b bs)"
proof -
  obtain c where "mapGet bs k = Some c" using assms by (auto simp: table_evolves_def)
  then show ?thesis using assms by (auto simp: table_evolves_def mapGet_set mapKeys_set_present)
qed

lemma table_evolves_sets:
  assumes "table_evolves admitted as bs"
    and "\<And>k b. (k, b) \<in> set rewritten \<Longrightarrow> \<exists>a. mapGet as k = Some a \<and> evolves {n. (k, n) \<in> admitted} a b"
  shows "table_evolves admitted as (foldl (\<lambda>as (pid, a). mapSet pid a as) bs rewritten)"
  using assms
proof (induction rewritten arbitrary: bs)
  case (Cons entry rewritten)
  obtain k b where entry: "entry = (k, b)" by fastforce
  then obtain a where "mapGet as k = Some a" "evolves {n. (k, n) \<in> admitted} a b" using Cons.prems(2) by auto
  then have "table_evolves admitted as (mapSet k b bs)" using Cons.prems(1) table_evolves_set by blast
  then show ?case using Cons.IH Cons.prems(2) by (simp add: entry)
qed simp

lemma table_evolves_ok:
  assumes "table_evolves admitted as bs" and "table_ok as"
  shows "table_ok bs"
proof -
  have keys: "mapKeys bs = mapKeys as" using assms(1) by (simp add: table_evolves_def)
  have "assignment_ok b" if b: "mapGet bs k = Some b" for k b
  proof -
    obtain a where "mapGet as k = Some a"
      using mapGet_key [OF b] keys by (metis list.set_map map_of_eq_None_iff not_None_eq)
    then show ?thesis using assms b unfolding table_evolves_def table_ok_def evolves_def by fastforce
  qed
  then show ?thesis using keys assms(2) by (simp add: table_ok_def)
qed

lemma mapSet_members: "(k', v') \<in> set (mapSet k v m) \<Longrightarrow> (k', v') = (k, v) \<or> (k', v') \<in> set m"
  by (induction m) (auto split: if_splits)

lemma rewrittenAssignments_from:
  assumes "(pid, b) \<in> set (fst (rewrittenAssignments table live answers))"
  shows "\<exists>a promoted. (pid, a) \<in> set (tableAssignments table) \<and> partitionState a = UNASSIGNED \<and>
    rewriteAssignment a pid live answers = Some (b, promoted)"
proof -
  let ?f = "\<lambda>(rewritten, anyPromoted) (pid, a).
         if partitionState a \<noteq> UNASSIGNED then (rewritten, anyPromoted)
         else case rewriteAssignment a pid live answers of
                None \<Rightarrow> (rewritten, anyPromoted)
              | Some (b, promoted) \<Rightarrow> (mapSet pid b rewritten, anyPromoted \<or> promoted)"
  have "(pid, b) \<in> set (fst (foldl ?f st xs)) \<Longrightarrow> (pid, b) \<in> set (fst st) \<or>
      (\<exists>a promoted. (pid, a) \<in> set xs \<and> partitionState a = UNASSIGNED \<and>
         rewriteAssignment a pid live answers = Some (b, promoted))" for st and xs :: assignments
  proof (induction xs arbitrary: st)
    case (Cons x xs)
    then have "(pid, b) \<in> set (fst (?f st x)) \<or>
      (\<exists>a promoted. (pid, a) \<in> set xs \<and> partitionState a = UNASSIGNED \<and>
         rewriteAssignment a pid live answers = Some (b, promoted))" by simp
    then show ?case
      by (cases st; cases x) (auto split: if_splits option.splits dest!: mapSet_members; blast)
  qed simp
  from this [of "([], False)"] assms show ?thesis by (simp add: rewrittenAssignments_def)
qed

section \<open>Steps\<close>

text \<open>
  A step carries the nodes that it admits to an in-sync set, with their partitions. A table that
  serves no index yet, or the dropped index of the same name, is replaced by a first table, which is
  the beginning of another history.
\<close>

inductive table_step :: "allocation_table \<Rightarrow> (partition_id \<times> node_id) set \<Rightarrow> allocation_table \<Rightarrow> bool" where
  removal: "decided pid tm (decideRemoval replica) (Some table) new \<Longrightarrow> table_step table {} new"
| admission: "decided pid tm (decideAdmission p) (Some table) new \<Longrightarrow> table_step table {(pid, replicaNodeId p)} new"
| bootstrap: "bootstrapped p (Some table) new \<Longrightarrow> table_step table {} new"
| resignation: "resigned fl r source (Some table) new \<Longrightarrow> table_step table {} new"
| recovery: "recovered live answers (Some table) new \<Longrightarrow> table_step table {} new"
| reallocation: "allocateFor fl nodes (Some table) name m retained = Inr new \<Longrightarrow> table_step table {} new"

inductive table_run :: "allocation_table \<Rightarrow> (partition_id \<times> node_id) set \<Rightarrow> allocation_table \<Rightarrow> bool" where
  unchanged: "table_run table {} table"
| onward: "table_run table admitted mid \<Longrightarrow> table_step mid further new \<Longrightarrow> table_run table (admitted \<union> further) new"

lemma stamped_fields [simp]:
  "tableVersion (stampedWith table uuid) = tableVersion table"
  "tableAssignments (stampedWith table uuid) = tableAssignments table"
  "tableIndexName (stampedWith table uuid) = tableIndexName table"
  by (simp_all add: stampedWith_def split: option.splits)

lemma withAssignment_fields [simp]:
  "tableVersion (withAssignment table pid a) = tableVersion table + 1"
  "tableAssignments (withAssignment table pid a) = mapSet pid a (tableAssignments table)"
  by (simp_all add: withAssignment_def)

lemma withAssignment_evolves:
  "mapGet (tableAssignments table) pid = Some a \<Longrightarrow> evolves {n. (pid, n) \<in> admitted} a b \<Longrightarrow>
   table_evolves admitted (tableAssignments table) (tableAssignments (stampedWith (withAssignment table pid b) uuid))"
  by (simp add: table_evolves_set)

lemma allocate_evolves:
  assumes "allocate fl nodes (Some table) name n factor constraints retained = Inr (new, warnings)"
    and "distinct (mapKeys (tableAssignments table))"
  shows "table_evolves admitted (tableAssignments table) (tableAssignments new)"
  unfolding table_evolves_def
proof (intro conjI allI impI)
  show "mapKeys (tableAssignments new) = mapKeys (tableAssignments table)" by (rule allocate_keys [OF assms])
  fix k a
  assume "mapGet (tableAssignments table) k = Some a"
  then obtain m b F where "mapGet (tableAssignments new) k = Some b" "moved F m b"
    "lost (nodeId ` dataNodesOf nodes) (nodeId ` {r \<in> dataNodesOf nodes. draining r}) (set retained) a m"
    by (rule allocate_assignment [OF assms])
  then show "\<exists>b. mapGet (tableAssignments new) k = Some b \<and> evolves {n. (k, n) \<in> admitted} a b"
    using evolves_trans [OF lost_evolves moved_evolves] by (metis Un_absorb)
qed

lemma step_evolves:
  assumes "table_step table admitted new" and keys: "distinct (mapKeys (tableAssignments table))"
  shows "tableVersion new = tableVersion table + 1 \<and>
    table_evolves admitted (tableAssignments table) (tableAssignments new)"
  using assms(1)
proof cases
  case removal
  then show ?thesis by (auto simp: decided_def intro!: withAssignment_evolves [simplified] decideRemoval_evolves(1))
next
  case admission
  then show ?thesis
    by (auto simp: decided_def intro!: withAssignment_evolves [simplified]
        elim!: evolves_mono [OF decideAdmission_evolves(1)])
next
  case bootstrap
  then show ?thesis by (auto simp: bootstrapped_def intro!: withAssignment_evolves [simplified] served_evolves)
next
  case resignation
  then show ?thesis by (auto simp: resigned_def intro!: withAssignment_evolves [simplified] failedOver_evolves)
next
  case (recovery live answers)
  then obtain rewritten anyPromoted uuid where rw: "rewrittenAssignments table live answers = (rewritten, anyPromoted)"
    and new: "new = stampedWith (withAssignments table rewritten) uuid"
    by (auto simp: recovered_def)
  have "\<exists>a. mapGet (tableAssignments table) k = Some a \<and> evolves {n. (k, n) \<in> admitted} a b"
    if member: "(k, b) \<in> set rewritten" for k b
  proof -
    obtain a promoted where "(k, a) \<in> set (tableAssignments table)" "partitionState a = UNASSIGNED"
      "rewriteAssignment a k live answers = Some (b, promoted)"
      using rewrittenAssignments_from [of k b table live answers] member rw by auto
    then show ?thesis using keys rewriteAssignment_evolves by (metis map_of_is_SomeI)
  qed
  then show ?thesis
    unfolding new by (simp add: withAssignments_def table_evolves_sets)
next
  case (reallocation fl nodes name m retained)
  then obtain mid warnings where
    mid: "allocate fl nodes (Some table) name (partitionCountOf m) (factorOf m) (constraintsOf m) retained
      = Inr (mid, warnings)" and new: "new = stampedWith mid (Some (indexUuidOf m))"
    by (auto simp: allocateFor_def split: sum.splits)
  show ?thesis
    unfolding new using allocate_evolves [OF mid keys] allocate_existing(4) [OF mid] by simp
qed

lemma run_evolves:
  assumes "table_run table admitted new" and "table_ok (tableAssignments table)"
  shows "tableVersion table \<le> tableVersion new \<and> (new = table \<or> tableVersion table < tableVersion new) \<and>
    table_evolves admitted (tableAssignments table) (tableAssignments new)"
  using assms
proof (induction rule: table_run.induct)
  case (onward table admitted mid further new)
  have ok: "distinct (mapKeys (tableAssignments mid))"
    using onward.IH [OF onward.prems] onward.prems table_evolves_ok by (auto simp: table_ok_def table_evolves_def)
  show ?case
    using onward.IH [OF onward.prems] step_evolves [OF onward.hyps(2) ok] table_evolves_trans by fastforce
qed simp

lemma run_assignment:
  assumes "table_run table admitted new" and "table_ok (tableAssignments table)"
    and "mapGet (tableAssignments table) k = Some a"
  obtains b where "mapGet (tableAssignments new) k = Some b" and "assignment_ok a"
    and "evolves {n. (k, n) \<in> admitted} a b"
  using run_evolves [OF assms(1,2)] assms(2,3) unfolding table_evolves_def table_ok_def by blast

text \<open>The assignment that is stored once an update of it has been settled.\<close>

lemma settled_assignment:
  assumes "settled stored leads others H name s0 writer pid tm decide s'"
  obtains table b a where "stored s' name = Some table" and "mapGet (tableAssignments table) pid = Some b"
    and "assignedTerm a = tm" and "decide a = Accept \<and> b = a \<or> decide a = Write b"
proof -
  consider table a where "stored s' name = Some table" "mapGet (tableAssignments table) pid = Some a"
      "assignedTerm a = tm" "decide a = Accept"
    | found new where "decided pid tm decide found new" "wrote stored leads others H name s0 writer found new s'"
    using assms unfolding settled_def by blast
  then show thesis
  proof cases
    case 1
    then show thesis using that by blast
  next
    case (2 found new)
    then obtain table a b uuid where "assignedTerm a = tm" "decide a = Write b"
      "new = stampedWith (withAssignment table pid b) uuid"
      by (auto simp: decided_def)
    moreover have "stored s' name = Some new" using 2(2) by (auto simp: wrote_def)
    ultimately show thesis using that by (simp add: mapGet_set)
  qed
qed

end
