(* ===== verification/Controller_Tasks.thy ===== *)
theory Controller_Tasks
  imports Table_History
begin

text \<open>
  The tasks of the controller refine the steps of \<open>Table_History\<close>: whatever the other processes of
  the cluster do in between, a task takes effect as one step of the table, as the beginning of
  another history, or not at all. \<open>controller_task\<close> is the relation of the coordinator before and
  after a task on the index \<open>name\<close>, with the others acting.
\<close>

section \<open>Updates\<close>

definition begins :: "allocation_table option \<Rightarrow> allocation_table \<Rightarrow> bool" where
  "begins found new \<longleftrightarrow>
     (\<exists>fl nodes name m retained. allocateFor fl nodes None name m retained = Inr new \<and>
        (\<forall>table. found = Some table \<longrightarrow>
           tableAssignments table = [] \<or> belongsToAnotherIndex table (Some (indexUuidOf m))))"

definition updates :: "allocation_table option \<Rightarrow> allocation_table \<Rightarrow> bool" where
  "updates found new \<longleftrightarrow> begins found new \<or>
     (\<exists>table admitted. found = Some table \<and> table_step table admitted new)"

lemma step_updates:
  "(\<And>table. found = Some table \<Longrightarrow> table_step table admitted new) \<Longrightarrow> found \<noteq> None \<Longrightarrow> updates found new"
  by (auto simp: updates_def)

lemma removal_updates: "decided pid tm (decideRemoval replica) found new \<Longrightarrow> updates found new"
  by (rule step_updates, rule table_step.removal) (auto simp: decided_def)

lemma admission_updates: "decided pid tm (decideAdmission p) found new \<Longrightarrow> updates found new"
  by (rule step_updates, rule table_step.admission) (auto simp: decided_def)

lemma bootstrapped_updates: "bootstrapped p found new \<Longrightarrow> updates found new"
  by (rule step_updates, rule table_step.bootstrap) (auto simp: bootstrapped_def)

lemma resigned_updates: "resigned fl p source found new \<Longrightarrow> updates found new"
  by (rule step_updates, rule table_step.resignation) (auto simp: resigned_def)

lemma recovered_updates: "recovered live answers found new \<Longrightarrow> updates found new"
  by (rule step_updates, rule table_step.recovery) (auto simp: recovered_def)

lemma allocated_updates:
  assumes "allocated fl nodes name found new"
  shows "updates found new"
proof -
  obtain m retained current where
    current: "current = ownTable found (indexUuidOf m) \<or>
      current = None \<and> map_option tableAssignments (ownTable found (indexUuidOf m)) = Some []"
    and new: "allocateFor fl nodes current name m retained = Inr new"
    using assms by (auto simp: allocated_def)
  show ?thesis
  proof (cases current)
    case None
    then have "\<forall>table. found = Some table \<longrightarrow>
        tableAssignments table = [] \<or> belongsToAnotherIndex table (Some (indexUuidOf m))"
      using current by (auto simp: ownTable_def split: option.splits if_splits)
    then show ?thesis using new unfolding None updates_def begins_def by blast
  next
    case (Some table)
    then have "found = Some table" using current by (auto simp: ownTable_def split: option.splits if_splits)
    then show ?thesis
      using table_step.reallocation [OF new [unfolded Some]] by (intro step_updates) auto
  qed
qed

lemma resolves_mono:
  "resolves stored leads others H name s0 writer R r s' \<Longrightarrow> (\<And>found new. R found new \<Longrightarrow> R' found new) \<Longrightarrow>
   resolves stored leads others H name s0 writer R' r' s'"
  unfolding resolves_def by blast

lemma settled_resolves:
  "settled stored leads others H name s0 writer pid tm decide s' \<Longrightarrow>
   (\<And>found new. decided pid tm decide found new \<Longrightarrow> R found new) \<Longrightarrow>
   resolves stored leads others H name s0 writer R r s'"
  unfolding resolves_def settled_def by blast

section \<open>Tasks\<close>

inductive controller_task :: "('s, 'x, 'schema, 'm) cluster_coordinator_scheme \<Rightarrow> codec \<Rightarrow> 's interleaving
    \<Rightarrow> index_name \<Rightarrow> node_id \<Rightarrow> nat \<times> 's \<Rightarrow> nat \<times> 's \<Rightarrow> bool"
  for C D others name writer where
  on_removal:
    "Option.bind (decodeValue D payload) validateInsyncRemovePayload = Some p \<Longrightarrow> requestIndex p = name \<Longrightarrow>
     handleInsyncRemoveMessage C D others isActive source payload writer w = (answer, w') \<Longrightarrow>
     controller_task C D others name writer w w'"
| on_admission:
    "Option.bind (decodeValue D payload) validateInsyncAddPayload = Some q \<Longrightarrow> requestIndex q = name \<Longrightarrow>
     handleInsyncAddMessage C D others isActive source payload writer w = (answer, w') \<Longrightarrow>
     controller_task C D others name writer w w'"
| on_bootstrap:
    "Option.bind (decodeValue D payload) validateBootstrapCompletePayload = Some b \<Longrightarrow> completeIndex b = name \<Longrightarrow>
     handleQueuedBootstrapComplete C D others isActive source payload writer w = (answer, w') \<Longrightarrow>
     controller_task C D others name writer w w'"
| on_resignation:
    "Option.bind (decodeValue D payload) validatePrimaryResignPayload = Some r \<Longrightarrow> resignIndex r = name \<Longrightarrow>
     handlePrimaryResignMessage fl C D others isActive source payload writer w = (answer, w') \<Longrightarrow>
     controller_task C D others name writer w w'"
| on_recovery:
    "recoverUnassignedPartitions C D others isActive send writer name live w = (promoted, w') \<Longrightarrow>
     controller_task C D others name writer w w'"
| on_nodes:
    "runAllocatorForIndex fl C D others isActive writer name nodes retainedFor
       ALLOCATION_CAS_ATTEMPTS w = (ended, w') \<Longrightarrow>
     controller_task C D others name writer w w'"
| on_schema:
    "handleSchemaCreated fl C D versionOf others isActive writer name w = (ended, w') \<Longrightarrow>
     controller_task C D others name writer w w'"

text \<open>What a task does to the table of its index.\<close>

definition took_effect :: "('s \<Rightarrow> index_name \<Rightarrow> allocation_table option) \<Rightarrow> ('s \<Rightarrow> node_id \<Rightarrow> bool)
    \<Rightarrow> 's interleaving \<Rightarrow> (int \<Rightarrow> allocation_table) \<Rightarrow> index_name \<Rightarrow> 's \<Rightarrow> node_id \<Rightarrow> 's \<Rightarrow> bool" where
  "took_effect stored leads others H name s0 writer s' \<longleftrightarrow>
     moment stored others H name s0 s' \<or>
     (\<exists>found new. updates found new \<and> wrote stored leads others H name s0 writer found new s')"

lemma resolves_effect:
  "resolves stored leads others H name s0 writer updates r s' \<Longrightarrow>
   took_effect stored leads others H name s0 writer s'"
  by (simp add: resolves_def took_effect_def)

section \<open>Messages\<close>

context table_store
begin

lemma found_elsewhere_rule:
  assumes "stable stored others H name"
    and "\<And>found. hoare (moment stored others H name s0) (k found) B"
    and "\<And>s. moment stored others H name s0 s \<Longrightarrow> B (Inl Coordinator_Down) s"
  shows "hoare (moment stored others H name s0) (andThen (call others (getAllocation C index)) k) B"
  by (rule read_rule [OF assms(1) _ assms(2,3)]) (rule get_keeps)

lemma removal_task:
  assumes stable: "stable stored others H (requestIndex p)"
  shows "hoare (moment stored others H (requestIndex p) s0) (handleInsyncRemoval C D others p writer)
     (resolves stored leads others H (requestIndex p) s0 writer updates)"
  by (rule hoare_weaken [OF insync_removal [OF stable]])
    (auto split: if_splits sum.splits intro: resolves_moment settled_resolves removal_updates)

lemma admission_task:
  assumes stable: "stable stored others H (requestIndex p)"
  shows "hoare (moment stored others H (requestIndex p) s0) (handleInsyncAdmission C D others p writer)
     (resolves stored leads others H (requestIndex p) s0 writer updates)"
  by (rule hoare_weaken [OF insync_admission [OF stable]])
    (auto split: if_splits sum.splits intro: resolves_moment settled_resolves admission_updates)

lemma removal_message:
  assumes stable: "stable stored others H (requestIndex p)"
    and "Option.bind (decodeValue D payload) validateInsyncRemovePayload = Some p"
  shows "hoare (moment stored others H (requestIndex p) s0)
     (handleInsyncRemoveMessage C D others isActive source payload writer)
     (resolves stored leads others H (requestIndex p) s0 writer updates)"
proof -
  let ?A = "moment stored others H (requestIndex p) s0"
  have "hoare ?A (assertSenderMayRemove C others p source) (\<lambda>_. ?A)"
    unfolding assertSenderMayRemove_def by (intro found_elsewhere_rule [OF stable] hoare_return)
  then have "hoare ?A (assertSenderMayRemove C others p source) (\<lambda>r s. case r of
      Inl e \<Rightarrow> resolves stored leads others H (requestIndex p) s0 writer updates (Inl e :: cluster_error + insync_confirm) s
    | Inr a \<Rightarrow> ?A s)"
    by (rule hoare_weaken) (auto intro: resolves_moment split: sum.split)
  then show ?thesis
    unfolding handleInsyncRemoveMessage_def Let_def assms(2) option.case
    by (rule hoare_andThen [where M = "\<lambda>_. ?A"])
      (intro observe_rule hoare_if removal_task [OF stable], auto intro!: hoare_return resolves_moment)
qed

lemma admission_message:
  assumes stable: "stable stored others H (requestIndex p)"
    and "Option.bind (decodeValue D payload) validateInsyncAddPayload = Some p"
  shows "hoare (moment stored others H (requestIndex p) s0)
     (handleInsyncAddMessage C D others isActive source payload writer)
     (resolves stored leads others H (requestIndex p) s0 writer updates)"
proof -
  let ?A = "moment stored others H (requestIndex p) s0"
  have "hoare ?A (assertSenderLeadsPartition C others (requestIndex p) (requestPartition p) source) (\<lambda>_. ?A)"
    unfolding assertSenderLeadsPartition_def by (intro found_elsewhere_rule [OF stable] hoare_return)
  then have "hoare ?A (assertSenderLeadsPartition C others (requestIndex p) (requestPartition p) source)
    (\<lambda>r s. case r of
      Inl e \<Rightarrow> resolves stored leads others H (requestIndex p) s0 writer updates (Inl e :: cluster_error + insync_confirm) s
    | Inr a \<Rightarrow> ?A s)"
    by (rule hoare_weaken) (auto intro: resolves_moment split: sum.split)
  then show ?thesis
    unfolding handleInsyncAddMessage_def Let_def assms(2) option.case
    by (rule hoare_andThen [where M = "\<lambda>_. ?A"])
      (intro observe_rule hoare_if admission_task [OF stable], auto intro!: hoare_return resolves_moment)
qed

lemma bootstrap_task:
  assumes stable: "stable stored others H (completeIndex p)"
  shows "hoare (moment stored others H (completeIndex p) s0) (processBootstrapComplete C D others p writer)
     (resolves stored leads others H (completeIndex p) s0 writer updates)"
  unfolding processBootstrapComplete_def
  by (rule hoare_weaken [OF bootstrap_loop [OF stable]])
    (auto split: if_splits intro: resolves_moment resolves_wrote bootstrapped_updates)

lemma bootstrap_message:
  assumes stable: "stable stored others H (completeIndex p)"
    and p: "decodeValue D payload = Some decoded" "validateBootstrapCompletePayload decoded = Some p"
  shows "hoare (moment stored others H (completeIndex p) s0)
     (handleBootstrapCompleteMessage C D others source payload writer)
     (resolves stored leads others H (completeIndex p) s0 writer updates)"
  unfolding hoare_def
proof (intro allI impI)
  fix n s r n' s'
  assume s: "moment stored others H (completeIndex p) s0 s"
    and run: "handleBootstrapCompleteMessage C D others source payload writer (n, s) = (r, n', s')"
  show "resolves stored leads others H (completeIndex p) s0 writer updates r s'"
  proof (cases "source = completeNodeId p")
    case True
    obtain q m t where q: "processBootstrapComplete C D others p writer (n, s) = (q, m, t)" by (metis prod_cases3)
    then have "s' = t"
      using run True by (auto simp: handleBootstrapCompleteMessage_def p return_def split: sum.splits)
    then show ?thesis using hoareD [OF bootstrap_task [OF stable] s q] by (auto intro: resolves_mono)
  next
    case False
    then have "s' = s" using run by (simp add: handleBootstrapCompleteMessage_def p return_def Let_def)
    then show ?thesis using s by (auto intro: resolves_moment)
  qed
qed

lemma queued_bootstrap_message:
  assumes stable: "stable stored others H (completeIndex p)"
    and "Option.bind (decodeValue D payload) validateBootstrapCompletePayload = Some p"
  shows "hoare (moment stored others H (completeIndex p) s0)
     (handleQueuedBootstrapComplete C D others isActive source payload writer)
     (resolves stored leads others H (completeIndex p) s0 writer updates)"
proof -
  obtain decoded where "decodeValue D payload = Some decoded" "validateBootstrapCompletePayload decoded = Some p"
    using assms(2) by (cases "decodeValue D payload") auto
  then show ?thesis
    unfolding handleQueuedBootstrapComplete_def
    by (intro observe_rule hoare_if bootstrap_message [OF stable]) (auto intro!: hoare_return resolves_moment)
qed

lemma resign_task:
  assumes stable: "stable stored others H (resignIndex p)"
  shows "hoare (moment stored others H (resignIndex p) s0) (resign fl C D others p source writer)
     (resolves stored leads others H (resignIndex p) s0 writer updates)"
proof -
  have "hoare (moment stored others H (resignIndex p) s0)
      (resignLoop fl C D others p source writer INSYNC_CAS_ATTEMPTS)
      (resolves stored leads others H (resignIndex p) s0 writer updates)"
    by (rule hoare_weaken [OF resign_loop [OF stable]])
      (auto split: if_splits intro: resolves_moment resolves_wrote resigned_updates)
  then show ?thesis
    unfolding resign_def
    by (intro metadata_rule [OF stable] hoare_option hoare_if) (auto intro!: hoare_return resolves_moment)
qed

lemma resign_message:
  assumes stable: "stable stored others H (resignIndex p)"
    and "Option.bind (decodeValue D payload) validatePrimaryResignPayload = Some p"
  shows "hoare (moment stored others H (resignIndex p) s0)
     (handlePrimaryResignMessage fl C D others isActive source payload writer)
     (resolves stored leads others H (resignIndex p) s0 writer updates)"
proof -
  let ?A = "moment stored others H (resignIndex p) s0"
  let ?B = "resolves stored leads others H (resignIndex p) s0 writer updates"
  have ends: "hoare ?A (andThen q (\<lambda>ok. return (f ok))) ?B" if "hoare ?A q ?B"
    for q :: "('s, bool) process" and f :: "bool \<Rightarrow> insync_confirm"
  proof (rule hoare_andThen [where M = "\<lambda>a. ?B (Inr a :: cluster_error + bool)"])
    show "hoare ?A q (\<lambda>r s. case r of Inl e \<Rightarrow> ?B (Inl e) s | Inr a \<Rightarrow> ?B (Inr a) s)"
      by (rule hoare_weaken [OF that]) (auto split: sum.split intro: resolves_mono)
    show "hoare (?B (Inr a :: cluster_error + bool)) (return (f a)) ?B" for a
      by (rule hoare_return) (auto intro: resolves_mono)
  qed
  have "hoare ?A (if leading then resign fl C D others p source writer else return False) ?B" for leading
    by (intro hoare_if resign_task [OF stable]) (auto intro!: hoare_return resolves_moment)
  then show ?thesis
    unfolding handlePrimaryResignMessage_def Let_def assms(2) option.case by (intro observe_rule ends)
qed

section \<open>Runs\<close>

lemma recovery_task:
  assumes stable: "stable stored others H name"
  shows "hoare (moment stored others H name s0)
     (recoverUnassignedPartitions C D others isActive send writer name live)
     (resolves stored leads others H name s0 writer updates)"
proof -
  have loop: "hoare (moment stored others H name s0)
      (writeRecoveryLoop C D others isActive writer name live answers RECOVERY_CAS_ATTEMPTS)
      (resolves stored leads others H name s0 writer updates)" for answers
    by (rule hoare_weaken [OF recovery_loop [OF stable]]) (auto elim!: resolves_mono intro: recovered_updates)
  have stop: "hoare (moment stored others H name s0) (return False)
      (resolves stored leads others H name s0 writer updates)"
    by (auto intro!: hoare_return resolves_moment)
  show ?thesis
    unfolding recoverUnassignedPartitions_def Let_def
    by (intro observe_rule hoare_if hoare_option found_rule [OF stable] metadata_rule [OF stable] stop loop)
      (auto intro: resolves_moment)
qed

lemma allocation_task:
  assumes stable: "stable stored others H name"
  shows "hoare (moment stored others H name s0)
     (runAllocatorForIndex fl C D others isActive writer name nodes retainedFor attempts)
     (resolves stored leads others H name s0 writer updates)"
  by (rule hoare_weaken [OF allocator_loop [OF stable]]) (auto elim!: resolves_mono intro: allocated_updates)

lemma schema_task:
  assumes stable: "stable stored others H name"
  shows "hoare (moment stored others H name s0)
     (handleSchemaCreated fl C D versionOf others isActive writer name)
     (resolves stored leads others H name s0 writer updates)"
    (is "hoare ?A _ ?B")
proof -
  have stop: "hoare ?A (return ()) ?B" by (auto intro!: hoare_return resolves_moment)
  have nodes: "hoare ?A (andThen (listCompatibleNodes C versionOf others) k) ?B" if "\<And>ns. hoare ?A (k ns) ?B" for k
  proof -
    have "andThen (listCompatibleNodes C versionOf others) k = andThen (call others (listNodes C)) (\<lambda>ns.
        k (map node_registration.truncate (filter (\<lambda>r. sharesMajorVersion (versionOf r) SPEC_VERSION) ns)))"
      by (rule ext) (auto simp: listCompatibleNodes_def andThen_def return_def split: sum.splits prod.splits)
    then show ?thesis using that by (auto intro!: nodes_rule [OF stable] resolves_moment)
  qed
  show ?thesis
    unfolding handleSchemaCreated_def Let_def
  proof (intro observe_rule hoare_if hoare_option stop found_rule [OF stable] metadata_rule [OF stable] nodes
      hoare_result, goal_cases)
    case (1 _ _ _ m nodes _ found _ new)
    let ?own = "ownTable found (indexUuidOf m)"
    let ?current = "case ?own of None \<Rightarrow> None | Some table \<Rightarrow> if tableAssignments table = [] then None else Some table"
    have current: "?current = ?own \<or> ?current = None \<and> map_option tableAssignments ?own = Some []"
      by (cases ?own) auto
    have new: "allocateFor fl nodes ?current name m [] = Inr new" using 1 by auto
    have "\<not> hasGeneration ?own" using 1 by auto
    then have "allocated fl nodes name found new" unfolding allocated_def using current new by blast
    then have "hoare (wrote stored leads others H name s0 writer found new) (return ()) ?B"
      by (auto intro!: hoare_return resolves_wrote allocated_updates)
    then show ?case
      by (intro put_rule [OF stable]) (use 1 allocation_task [OF stable] in \<open>auto intro: resolves_moment\<close>)
  qed (auto intro: resolves_moment)
qed

lemma task_took_effect:
  assumes "controller_task C D others name writer (n, s0) (n', s')"
    and stable: "stable stored others H name" and "versions_name H (stored s0 name)"
  shows "took_effect stored leads others H name s0 writer s'"
proof -
  have start: "moment stored others H name s0 s0" by (rule moment_start [OF assms(3)])
  from assms(1) show ?thesis
  proof cases
    case (on_removal payload p isActive source answer)
    note task = removal_message [OF stable [folded on_removal(2)] on_removal(1), unfolded on_removal(2)]
    show ?thesis by (rule resolves_effect [OF hoareD [OF task start on_removal(3)]])
  next
    case (on_admission payload q isActive source answer)
    note task = admission_message [OF stable [folded on_admission(2)] on_admission(1), unfolded on_admission(2)]
    show ?thesis by (rule resolves_effect [OF hoareD [OF task start on_admission(3)]])
  next
    case (on_bootstrap payload b isActive source answer)
    note task = queued_bootstrap_message [OF stable [folded on_bootstrap(2)] on_bootstrap(1), unfolded on_bootstrap(2)]
    show ?thesis by (rule resolves_effect [OF hoareD [OF task start on_bootstrap(3)]])
  next
    case (on_resignation payload r fl isActive source answer)
    note task = resign_message [OF stable [folded on_resignation(2)] on_resignation(1), unfolded on_resignation(2)]
    show ?thesis by (rule resolves_effect [OF hoareD [OF task start on_resignation(3)]])
  next
    case on_recovery
    show ?thesis by (rule resolves_effect [OF hoareD [OF recovery_task [OF stable] start on_recovery(1)]])
  next
    case on_nodes
    show ?thesis by (rule resolves_effect [OF hoareD [OF allocation_task [OF stable] start on_nodes(1)]])
  next
    case on_schema
    show ?thesis by (rule resolves_effect [OF hoareD [OF schema_task [OF stable] start on_schema(1)]])
  qed
qed

end

end
