(* ===== verification/Task_Bounds.thy ===== *)
theory Task_Bounds
  imports Controller_Tasks
begin

text \<open>
  Every task of the controller ends after a bounded number of calls of the coordinator, however
  the other processes interleave: \<open>calls_at_most k p\<close> says that \<open>p\<close> makes at most \<open>k\<close> calls.
\<close>

definition calls_at_most :: "nat \<Rightarrow> ('s, 'a) process \<Rightarrow> bool" where
  "calls_at_most k p \<longleftrightarrow> (\<forall>n s r n' s'. p (n, s) = (r, n', s') \<longrightarrow> n \<le> n' \<and> n' \<le> n + k)"

named_theorems calls_rules "the numbers of calls of the process combinators"

lemma calls_mono: "calls_at_most j p \<Longrightarrow> j \<le> k \<Longrightarrow> calls_at_most k p"
  by (fastforce simp: calls_at_most_def)

lemma calls_return [calls_rules]: "calls_at_most k (return a)"
  by (simp add: calls_at_most_def return_def)

lemma calls_throw [calls_rules]: "calls_at_most k (throw e)"
  by (simp add: calls_at_most_def throw_def)

lemma calls_call: "0 < k \<Longrightarrow> calls_at_most k (call others operation)"
  by (auto simp: calls_at_most_def call_def Let_def split: prod.splits)

lemma calls_andThen:
  assumes "calls_at_most j p" and "\<And>a. calls_at_most k (f a)"
  shows "calls_at_most (j + k) (andThen p f)"
  unfolding calls_at_most_def
proof (intro allI impI)
  fix n s r n' s'
  assume run: "andThen p f (n, s) = (r, n', s')"
  obtain q m t where p: "p (n, s) = (q, m, t)" by (metis prod_cases3)
  have m: "n \<le> m" "m \<le> n + j" using assms(1) p unfolding calls_at_most_def by blast+
  show "n \<le> n' \<and> n' \<le> n + (j + k)"
  proof (cases q)
    case (Inl e)
    then show ?thesis using run p m by (simp add: andThen_def)
  next
    case (Inr a)
    then have "f a (m, t) = (r, n', s')" using run p by (simp add: andThen_def)
    then show ?thesis using assms(2) [of a] m unfolding calls_at_most_def by fastforce
  qed
qed

lemma calls_called [calls_rules]: "(\<And>a. calls_at_most k (f a)) \<Longrightarrow> calls_at_most (Suc k) (andThen (call others operation) f)"
  using calls_andThen [OF calls_call [of 1]] by fastforce

lemma calls_observe [calls_rules]: "(\<And>a. calls_at_most k (f a)) \<Longrightarrow> calls_at_most k (andThen (observe g) f)"
  using calls_andThen [of 0 "observe g" k f] by (simp add: calls_at_most_def observe_def)

lemma calls_result [calls_rules]: "(\<And>a. calls_at_most k (f a)) \<Longrightarrow> calls_at_most k (andThen (fromResult r) f)"
  using calls_andThen [of 0 "fromResult r" k f] by (simp add: calls_at_most_def fromResult_def)

lemma calls_if [calls_rules]: "calls_at_most k p \<Longrightarrow> calls_at_most k q \<Longrightarrow> calls_at_most k (if c then p else q)"
  by simp

lemma calls_option [calls_rules]:
  "calls_at_most k p \<Longrightarrow> (\<And>a. calls_at_most k (q a)) \<Longrightarrow> calls_at_most k (case x of None \<Rightarrow> p | Some a \<Rightarrow> q a)"
  by (simp split: option.splits)

lemma calls_decision:
  "calls_at_most k p \<Longrightarrow> calls_at_most k q \<Longrightarrow> (\<And>b. calls_at_most k (f b)) \<Longrightarrow>
   calls_at_most k (case d of Refuse \<Rightarrow> p | Accept \<Rightarrow> q | Write b \<Rightarrow> f b)"
  by (simp split: assignment_decision.split)

lemma times_Suc: "3 * Suc n = Suc (Suc (Suc (3 * n)))" "4 * Suc n = Suc (Suc (Suc (Suc (4 * n))))"
  by simp_all

section \<open>The parts of the tasks\<close>

lemma calls_metadata: "calls_at_most 1 (getIndexMetadata C D others name)"
proof -
  have "calls_at_most 1 (readStoredMetadata C D others name)"
    unfolding readStoredMetadata_def One_nat_def by (intro calls_rules)
  from calls_andThen [OF this calls_return] show ?thesis
    unfolding getIndexMetadata_def by (metis add_0_right)
qed

lemma calls_metadata_then [calls_rules]:
  "(\<And>m. calls_at_most k (f m)) \<Longrightarrow> calls_at_most (Suc k) (andThen (getIndexMetadata C D others name) f)"
  using calls_andThen [OF calls_metadata] by fastforce

lemma calls_rewrite_then [calls_rules]:
  assumes "\<And>m. calls_at_most k (f m)"
  shows "calls_at_most (Suc k) (andThen (rewriteForCurrentIndex C D others table) f)"
proof -
  have "calls_at_most (1 + 0) (rewriteForCurrentIndex C D others table)"
    unfolding rewriteForCurrentIndex_def Let_def by (rule calls_andThen [OF calls_metadata calls_return])
  from calls_andThen [OF this assms] show ?thesis by simp
qed

lemma calls_guard_then [calls_rules]:
  assumes "\<And>m. calls_at_most k (f m)"
  shows "calls_at_most (Suc k) (andThen (hasSchemaUnless C others isActive name current) f)"
proof -
  have "calls_at_most 1 (hasSchemaUnless C others isActive name current)"
    unfolding hasSchemaUnless_def One_nat_def by (intro calls_rules)
  from calls_andThen [OF this assms] show ?thesis by simp
qed

lemma calls_insync: "calls_at_most (3 * n) (updateInsyncLoop C D others name pid tm writer decide n)"
proof (induction n)
  case (Suc n)
  show ?case
    unfolding times_Suc updateInsyncLoop.simps
    by (intro calls_rules calls_decision Suc.IH)
qed (simp add: calls_return)

lemma calls_bootstrap: "calls_at_most (3 * n) (bootstrapCompleteLoop C D others p writer n)"
proof (induction n)
  case (Suc n)
  show ?case
    unfolding times_Suc bootstrapCompleteLoop.simps by (intro calls_rules Suc.IH)
qed (simp add: calls_return)

lemma calls_resign: "calls_at_most (4 * n) (resignLoop fl C D others p source writer n)"
proof (induction n)
  case (Suc n)
  show ?case
    unfolding times_Suc resignLoop.simps Let_def by (intro calls_rules Suc.IH)
qed (simp add: calls_return)

lemma calls_recovery: "calls_at_most (3 * n) (writeRecoveryLoop C D others isActive writer name live answers n)"
proof (induction n)
  case (Suc n)
  show ?case
    unfolding times_Suc writeRecoveryLoop.simps case_prod_unfold by (intro calls_rules Suc.IH)
qed (simp add: calls_return)

lemma calls_allocator:
  "calls_at_most (4 * n) (runAllocatorForIndex fl C D others isActive writer name nodes retainedFor n)"
proof (induction n)
  case (Suc n)
  show ?case
    unfolding times_Suc runAllocatorForIndex.simps Let_def by (intro calls_rules Suc.IH)
qed (simp add: calls_throw)

section \<open>The tasks\<close>

lemma calls_then: "calls_at_most j p \<Longrightarrow> (\<And>a. calls_at_most 0 (f a)) \<Longrightarrow> calls_at_most j (andThen p f)"
  using calls_andThen [of j p 0 f] by simp

lemma calls_removal: "calls_at_most 15 (handleInsyncRemoval C D others p writer)"
  unfolding handleInsyncRemoval_def updateInsyncSet_def INSYNC_CAS_ATTEMPTS_def
  using calls_insync [where n = 5] by (intro calls_then calls_return) simp

lemma calls_admission: "calls_at_most 16 (handleInsyncAdmission C D others p writer)"
proof -
  have "calls_at_most 15 (updateInsyncSet C D others p writer (decideAdmission p))"
    using calls_insync [where n = 5] unfolding updateInsyncSet_def INSYNC_CAS_ATTEMPTS_def
    by (intro calls_then calls_return) simp
  then have "calls_at_most (Suc 15) (handleInsyncAdmission C D others p writer)"
    unfolding handleInsyncAdmission_def by (intro calls_rules)
  then show ?thesis by simp
qed

lemma calls_removal_message: "calls_at_most 16 (handleInsyncRemoveMessage C D others isActive source payload writer)"
proof -
  have "calls_at_most 1 (assertSenderMayRemove C others p source)" for p
    unfolding assertSenderMayRemove_def One_nat_def by (intro calls_rules)
  note check = calls_andThen [OF this, of 15]
  have "calls_at_most (1 + 15) (handleInsyncRemoveMessage C D others isActive source payload writer)"
    unfolding handleInsyncRemoveMessage_def Let_def
    by (intro calls_option check calls_return calls_observe calls_if calls_removal)
  then show ?thesis by simp
qed

lemma calls_admission_message: "calls_at_most 17 (handleInsyncAddMessage C D others isActive source payload writer)"
proof -
  have "calls_at_most 1 (assertSenderLeadsPartition C others name pid source)" for name pid
    unfolding assertSenderLeadsPartition_def One_nat_def by (intro calls_rules)
  note check = calls_andThen [OF this, of 16]
  have "calls_at_most (1 + 16) (handleInsyncAddMessage C D others isActive source payload writer)"
    unfolding handleInsyncAddMessage_def Let_def
    by (intro calls_option check calls_return calls_observe calls_if calls_admission)
  then show ?thesis by simp
qed

lemma calls_bootstrap_message:
  "calls_at_most 15 (handleQueuedBootstrapComplete C D others isActive source payload writer)"
proof -
  have task: "calls_at_most 15 (processBootstrapComplete C D others p writer)" for p
    using calls_bootstrap [where n = 5] by (simp add: processBootstrapComplete_def BOOTSTRAP_CAS_ATTEMPTS_def)
  have answer: "calls_at_most 15 (\<lambda>w. case processBootstrapComplete C D others p writer w of
      (Inl e, w) \<Rightarrow> return a w | (Inr ok, w) \<Rightarrow> return (f ok) w)" for p and a :: insync_confirm and f
    unfolding calls_at_most_def
  proof (intro allI impI)
    fix n s r n' s'
    obtain q m t where q: "processBootstrapComplete C D others p writer (n, s) = (q, m, t)" by (metis prod_cases3)
    moreover assume "(case processBootstrapComplete C D others p writer (n, s) of
      (Inl e, w) \<Rightarrow> return a w | (Inr ok, w) \<Rightarrow> return (f ok) w) = (r, n', s')"
    ultimately have "n' = m" by (auto simp: return_def split: sum.splits)
    then show "n \<le> n' \<and> n' \<le> n + 15" using task q unfolding calls_at_most_def by blast
  qed
  show ?thesis
    unfolding handleQueuedBootstrapComplete_def handleBootstrapCompleteMessage_def Let_def
    by (intro calls_observe calls_if calls_option calls_return answer)
qed

lemma calls_resign_message:
  "calls_at_most 21 (handlePrimaryResignMessage fl C D others isActive source payload writer)"
proof -
  have "calls_at_most (Suc 20) (resign fl C D others p source writer)" for p
    unfolding resign_def INSYNC_CAS_ATTEMPTS_def
    using calls_resign [where n = 5] by (intro calls_rules) simp
  then have task: "calls_at_most 21 (resign fl C D others p source writer)" for p by simp
  show ?thesis
    unfolding handlePrimaryResignMessage_def Let_def
    by (intro calls_option calls_return calls_observe calls_then calls_if task)
qed

lemma calls_recovery_task:
  "calls_at_most 17 (recoverUnassignedPartitions C D others isActive send writer name live)"
proof -
  have loop: "calls_at_most 15 (writeRecoveryLoop C D others isActive writer name live answers RECOVERY_CAS_ATTEMPTS)"
    for answers
    using calls_recovery [where n = 5] by (simp add: RECOVERY_CAS_ATTEMPTS_def)
  have "calls_at_most (Suc (Suc 15)) (recoverUnassignedPartitions C D others isActive send writer name live)"
    unfolding recoverUnassignedPartitions_def Let_def
    by (intro calls_rules calls_mono [OF loop]) simp_all
  then show ?thesis by simp
qed

lemma calls_schema_task: "calls_at_most 24 (handleSchemaCreated fl C D versionOf others isActive writer name)"
proof -
  have loop: "calls_at_most 20 (runAllocatorForIndex fl C D others isActive writer name nodes retainedFor
      ALLOCATION_CAS_ATTEMPTS)" for nodes retainedFor
    using calls_allocator [where n = 5] by (simp add: ALLOCATION_CAS_ATTEMPTS_def)
  have "calls_at_most 1 (listCompatibleNodes C versionOf others)"
    unfolding listCompatibleNodes_def One_nat_def by (intro calls_rules)
  from calls_andThen [OF this]
  have nodes: "calls_at_most (Suc k) (andThen (listCompatibleNodes C versionOf others) f)"
    if "\<And>ns. calls_at_most k (f ns)" for k f
    using that by fastforce
  have "calls_at_most (Suc (Suc (Suc (Suc 20)))) (handleSchemaCreated fl C D versionOf others isActive writer name)"
    unfolding handleSchemaCreated_def Let_def by (intro calls_rules nodes loop)
  then show ?thesis by simp
qed

lemma calls_task:
  assumes "controller_task C D others name writer (n, s) (n', s')"
  shows "n \<le> n' \<and> n' \<le> n + 24"
proof -
  note ended = calls_at_most_def [THEN iffD1, rule_format]
  from assms show ?thesis
  proof cases
    case on_removal
    then show ?thesis using ended [OF calls_removal_message] by fastforce
  next
    case on_admission
    then show ?thesis using ended [OF calls_admission_message] by fastforce
  next
    case on_bootstrap
    then show ?thesis using ended [OF calls_bootstrap_message] by fastforce
  next
    case on_resignation
    then show ?thesis using ended [OF calls_resign_message] by fastforce
  next
    case on_recovery
    then show ?thesis using ended [OF calls_recovery_task] by fastforce
  next
    case on_nodes
    have "calls_at_most 20 (runAllocatorForIndex fl C D others isActive writer name nodes retainedFor
        ALLOCATION_CAS_ATTEMPTS)" for fl isActive nodes retainedFor
      using calls_allocator [where n = 5] by (simp add: ALLOCATION_CAS_ATTEMPTS_def)
    then show ?thesis using on_nodes ended by fastforce
  next
    case on_schema
    then show ?thesis using ended [OF calls_schema_task] by fastforce
  qed
qed

end
