(* ===== verification/Table_Availability.thy ===== *)
theory Table_Availability
  imports Task_Bounds
begin

text \<open>
  What a handler achieves while nobody else acts: over a coordinator that answers, an update of the
  in-sync set by the node that holds the lease is written at the first attempt.
\<close>

abbreviation (input) idle :: "'s interleaving" where "idle \<equiv> \<lambda>n s. s"

locale available_store = table_store +
  fixes up :: "'a \<Rightarrow> bool"
  assumes get_answers: "up s \<Longrightarrow> getAllocation C name s = (Inr (stored s name), s)"
    and put_answers: "up s \<Longrightarrow> leads s writer \<Longrightarrow> map_option tableVersion (stored s name) = expected \<Longrightarrow>
      fst (putAllocation C name table (Some (expected, writer)) s) = Inr True"
begin

lemma undisturbed_update:
  assumes "up s" and "leads s writer" and table: "stored s name = Some table" "tableIndexName table = name"
    and a: "mapGet (tableAssignments table) pid = Some a" "assignedTerm a = tm" "decide a = Write b"
    and metadata: "getIndexMetadata C D idle name (Suc n, s) = (Inr m, n', s)"
    and own: "\<not> belongsToAnotherIndex table (map_option indexUuidOf m)"
  shows "\<exists>s'. updateInsyncLoop C D idle name pid tm writer decide (Suc k) (n, s) = (Inr True, Suc n', s') \<and>
    stored s' = (stored s)(name := Some (stampedWith (withAssignment table pid b) (map_option indexUuidOf m)))"
proof -
  let ?new = "stampedWith (withAssignment table pid b) (map_option indexUuidOf m)"
  obtain s' where put: "putAllocation C name ?new (Some (Some (tableVersion table), writer)) s = (Inr True, s')"
    using put_answers [OF assms(1,2), of name "Some (tableVersion table)" ?new] table
    by (cases "putAllocation C name ?new (Some (Some (tableVersion table), writer)) s") auto
  have "tableIndexName (withAssignment table pid b) = name"
    "belongsToAnotherIndex (withAssignment table pid b) u = belongsToAnotherIndex table u" for u
    using table by (simp_all add: withAssignment_def belongsToAnotherIndex_def)
  then have "rewriteForCurrentIndex C D idle (withAssignment table pid b) (Suc n, s) = (Inr (Some ?new), n', s)"
    using metadata own by (simp add: rewriteForCurrentIndex_def andThen_def return_def Let_def)
  then have "updateInsyncLoop C D idle name pid tm writer decide (Suc k) (n, s) = (Inr True, Suc n', s')"
    using a table put by (simp add: andThen_def call_def return_def get_answers [OF assms(1)])
  then show ?thesis using put_written [OF put] by auto
qed

end

definition coordinatorUp :: "('x, 'schema) coordinator_state \<Rightarrow> bool" where
  "coordinatorUp S \<longleftrightarrow> \<not> isShutdown S"

interpretation available_memory: available_store inMemoryCoordinator storedTables leadsCluster coordinatorUp
proof
  fix S :: "('x, 'schema) coordinator_state" and name
  assume "coordinatorUp S"
  then show "getAllocation inMemoryCoordinator name S = (Inr (storedTables S name), S)"
    by (simp add: coordinatorUp_def inMemoryCoordinator_def memGetAllocation_def whenUp_def storedTables_def)
next
  fix S :: "('x, 'schema) coordinator_state" and name writer expected table
  assume "coordinatorUp S" "leadsCluster S writer" "map_option tableVersion (storedTables S name) = expected"
  then show "fst (putAllocation inMemoryCoordinator name table (Some (expected, writer)) S) = Inr True"
    by (auto simp: coordinatorUp_def leadsCluster_def storedTables_def inMemoryCoordinator_def
        memPutAllocation_def whenUp_def mayPut_def split: option.splits)
qed

end
