(* ===== verification/Sample_Cluster.thy ===== *)
theory Sample_Cluster
  imports Allocator_Initial Table_Availability
begin

text \<open>The nodes, tables and messages on which the properties of the cluster are instantiated.\<close>

section \<open>Nodes and tables\<close>

definition sample_node :: "nat \<Rightarrow> bool \<Rightarrow> node_registration" where
  "sample_node n leaving = \<lparr>nodeId = [n], roles = [Data_Role], memoryBytes = 1000000000, metadata = [],
     memoryFull = False, partitionBytes = [], draining = leaving\<rparr>"

definition sample_assignment :: "nat \<Rightarrow> node_id list \<Rightarrow> node_id list \<Rightarrow> int \<Rightarrow> partition_assignment" where
  "sample_assignment p rs inSync tm = \<lparr>primary = Some [p], replicas = rs, inSyncSet = inSync, removingReplicas = None,
     lastHolders = None, partitionState = ACTIVE, assignedTerm = tm, commitPoint = 9, unassignedReason = None\<rparr>"

definition sample_table :: "int \<Rightarrow> assignments \<Rightarrow> allocation_table" where
  "sample_table v as = \<lparr>tableIndexName = [105], tableVersion = v, replicationFactor = 1,
     tableAssignments = as, generation = None, indexUuid = None\<rparr>"

definition sample_constraints :: allocation_constraints where
  "sample_constraints = \<lparr>zoneAwareness = False, zoneAttribute = [], maxShardsPerNode = Some 3\<rparr>"

definition exact :: rounding where "exact x = x"

text \<open>
  Node 97 leads the partition and goes away: node 98 is promoted, node 99 takes a new copy. If node
  98 was not in sync, the partition is unassigned and the table remembers its last holder.
\<close>

definition sample_before :: allocation_table where
  "sample_before = sample_table 4 [(0, sample_assignment 97 [[98]] [[98]] 3), (1, sample_assignment 97 [[98]] [] 3)]"

definition sample_after :: allocation_table where
  "sample_after = sample_table 5 [(0, sample_assignment 98 [[99]] [] 4),
     (1, (sample_assignment 97 [] [] 3)\<lparr>primary := None, lastHolders := Some [[97]], partitionState := UNASSIGNED\<rparr>)]"

lemma sample_rebalance:
  "allocate exact [sample_node 98 False, sample_node 99 False] (Some sample_before) [105] 2 1 sample_constraints []
   = Inr (sample_after, [(1, 0)])"
  by code_simp

lemma sample_before_ok: "table_ok (tableAssignments sample_before)"
  by (auto simp: sample_before_def sample_table_def sample_assignment_def table_ok_def assignment_ok_def
      split: if_splits)

lemma sample_before_get:
  "mapGet (tableAssignments sample_before) 0 = Some (sample_assignment 97 [[98]] [[98]] 3)"
  "mapGet (tableAssignments sample_before) 1 = Some (sample_assignment 97 [[98]] [] 3)"
  by (simp_all add: sample_before_def sample_table_def)

lemma sample_reached_active:
  "\<not> neverReachedActive (sample_assignment 97 [[98]] [[98]] 3)"
  "\<not> neverReachedActive (sample_assignment 97 [[98]] [] 3)"
  by (simp_all add: neverReachedActive_def sample_assignment_def)

lemma sample_initial:
  "allocate exact [sample_node 98 False, sample_node 99 False, sample_node 97 True] None [105] 2 1 sample_constraints []
   = Inr (sample_table 1 [(0, (sample_assignment 98 [[99]] [] 1)\<lparr>partitionState := INITIALISING, commitPoint := 0\<rparr>),
          (1, (sample_assignment 99 [[98]] [] 1)\<lparr>partitionState := INITIALISING, commitPoint := 0\<rparr>)], [])"
  by code_simp

section \<open>A coordinator\<close>

text \<open>
  Node 120 holds the lease of the controller, and the table of the index is \<open>sample_before\<close>. The codec
  knows the payloads of two messages, by their first byte: node 97 asks to remove node 98 from the
  in-sync set of partition 0, and to admit node 98 to that of partition 1.
\<close>

definition sample_state :: "(unit, unit) coordinator_state" where
  "sample_state = (createInMemoryCoordinator 0 0)
     \<lparr>knownNodes := [([98], sample_node 98 False)], allocations := [([105], sample_before)],
      leases := [(CONTROLLER_LEASE_KEY, \<lparr>leaseNodeId = [120], expiresAt = 1000, leaseTimer = 0\<rparr>)],
      timers := [(0, CONTROLLER_LEASE_KEY, 1000)], nextTimer := 1\<rparr>"

definition sample_removal :: insync_remove_payload where
  "sample_removal = \<lparr>requestIndex = [105], requestPartition = 0, replicaNodeId = [98], requestTerm = 3\<rparr>"

definition sample_admission :: insync_add_payload where
  "sample_admission = \<lparr>requestIndex = [105], requestPartition = 1, replicaNodeId = [98], requestTerm = 3,
     appliedSeqNo = 12, requestCommitPoint = 11\<rparr>"

definition request_fields :: "'x insync_remove_payload_scheme \<Rightarrow> (js_string \<times> js_value) list" where
  "request_fields p = [(js ''indexName'', JStr (requestIndex p)),
     (js ''partitionId'', JNum (Num (of_int (requestPartition p)))), (js ''replicaNodeId'', JStr (replicaNodeId p)),
     (js ''primaryTerm'', JNum (Num (of_int (requestTerm p))))]"

definition sample_codec :: codec where
  "sample_codec = \<lparr>decodeValue = (\<lambda>bytes.
       if bytes = [1] then Some (JObj (request_fields sample_removal))
       else if bytes = [2] then Some (JObj (request_fields sample_admission @
         [(js ''appliedSeqNo'', JNum (Num (of_int (appliedSeqNo sample_admission)))),
          (js ''commitPoint'', JNum (Num (of_int (requestCommitPoint sample_admission))))]))
       else None),
     encodeValue = (\<lambda>v. [])\<rparr>"

text \<open>The name of every version: the tables that the examples store.\<close>

definition sample_versions :: "int \<Rightarrow> allocation_table" where
  "sample_versions v = sample_before\<lparr>tableVersion := v\<rparr>"

lemma sample_stored: "storedTables sample_state [105] = Some sample_before"
  by (simp add: storedTables_def sample_state_def createInMemoryCoordinator_def)

lemma sample_named: "versions_name sample_versions (storedTables sample_state [105])"
  by (simp add: sample_stored versions_name_def sample_versions_def)

lemma idle_stable: "stable stored (\<lambda>n s. s) H name"
  by (simp add: stable_def)

lemma sample_removal_decoded:
  "Option.bind (decodeValue sample_codec [1]) validateInsyncRemovePayload = Some sample_removal"
  by code_simp

lemma sample_admission_decoded:
  "Option.bind (decodeValue sample_codec [2]) validateInsyncAddPayload = Some sample_admission"
  by code_simp

lemma sample_removal_run:
  "handleInsyncRemoveMessage inMemoryCoordinator sample_codec (\<lambda>n s. s) (\<lambda>n. True) [97] [1] [120] (0, sample_state)
   = (Inr (confirmFor sample_removal True), 4,
      snd (snd (handleInsyncRemoveMessage inMemoryCoordinator sample_codec (\<lambda>n s. s) (\<lambda>n. True) [97] [1] [120]
        (0, sample_state))))"
  by code_simp

end
