(* ===== verification/Allocator_Properties.thy ===== *)
theory Allocator_Properties
  imports Sample_Cluster
begin

text \<open>
  The properties of shard allocation, each with a concrete instance, and of the order and the
  repair of strings that it shares with the rest of the program.
\<close>

section \<open>Rebalancing\<close>

text \<open>
  C9: reallocation never gives up an acknowledged write of a partition it keeps serving. The
  nodes that lead or are in sync afterwards led or were in sync before and are registered, the
  commit point stays, the term never falls, and it rises with every change of the primary.
\<close>

theorem allocation_loses_no_acknowledged_write:
  assumes "allocate fl nodes (Some table) name n factor constraints retainedIds = Inr (new, warnings)"
    and "table_ok (tableAssignments table)" and "mapGet (tableAssignments table) k = Some a"
    and "\<not> neverReachedActive a"
  shows "\<exists>b. mapGet (tableAssignments new) k = Some b \<and>
    caught_up b \<subseteq> caught_up a \<inter> nodeId ` dataNodesOf nodes \<and>
    commitPoint b = commitPoint a \<and> assignedTerm a \<le> assignedTerm b \<and>
    (primary b \<noteq> primary a \<and> primary b \<noteq> None \<longrightarrow> assignedTerm a < assignedTerm b)"
proof -
  have ok: "distinct (mapKeys (tableAssignments table))" "assignment_ok a"
    using assms(2,3) by (auto simp: table_ok_def)
  obtain m b F where b: "mapGet (tableAssignments new) k = Some b" and moved: "moved F m b"
    and lost: "lost (nodeId ` dataNodesOf nodes) (nodeId ` {r \<in> dataNodesOf nodes. draining r}) (set retainedIds) a m"
    by (rule allocate_assignment [OF assms(1) ok(1) assms(3)])
  note m = lost [unfolded lost_def, rule_format, OF ok(2)]
  note step = moved [unfolded moved_def, rule_format, OF conjunct1 [OF m]]
  have "primary b \<noteq> primary a \<and> primary b \<noteq> None \<longrightarrow> assignedTerm a < assignedTerm b"
    using m step by (metis less_le_trans le_less_trans)
  moreover have "caught_up b \<subseteq> caught_up a \<inter> nodeId ` dataNodesOf nodes"
    using m step assms(4) by (metis subset_trans)
  ultimately show ?thesis using b m step by auto
qed

theorem allocation_loses_no_acknowledged_write_witness:
  "\<exists>b. mapGet (tableAssignments sample_after) 0 = Some b \<and> primary b = Some [98] \<and>
    caught_up b \<subseteq> {[97], [98]} \<and> commitPoint b = 9 \<and> 3 < assignedTerm b"
  using allocation_loses_no_acknowledged_write
    [OF sample_rebalance sample_before_ok sample_before_get(1) sample_reached_active(1)]
  by (auto simp: sample_after_def sample_table_def sample_assignment_def caught_up_def)

text \<open>
  C30: reallocation keeps the table healthy. The partitions are the same, every assignment stays
  well-formed, the version rises by one, the warnings name exactly the partitions that are short
  of replicas.
\<close>

theorem allocation_keeps_the_table_healthy:
  assumes "allocate fl nodes (Some table) name n factor constraints retainedIds = Inr (new, warnings)"
    and "table_ok (tableAssignments table)"
  shows "table_ok (tableAssignments new) \<and> mapKeys (tableAssignments new) = mapKeys (tableAssignments table) \<and>
    tableVersion new = tableVersion table + 1 \<and> replicationFactor new = factor \<and>
    set warnings = {(k, count). \<exists>a. mapGet (tableAssignments new) k = Some a \<and>
                      count = length (replicasOutsideMove a) \<and> int count < factor}"
proof -
  have keys: "distinct (mapKeys (tableAssignments table))" using assms(2) by (simp add: table_ok_def)
  note same = allocate_keys [OF assms(1) keys]
  have "assignment_ok b" if b: "mapGet (tableAssignments new) k = Some b" for k b
  proof -
    obtain a where a: "mapGet (tableAssignments table) k = Some a"
      using mapGet_key [OF b] same by (metis list.set_map map_of_eq_None_iff not_None_eq)
    then have "assignment_ok a" using assms(2) by (simp add: table_ok_def)
    then show ?thesis
      using b assms(1) keys a
      by (elim allocate_assignment [where thesis = "assignment_ok b"]) (auto simp: lost_def moved_def)
  qed
  moreover have "set warnings = {(k, count). \<exists>a. mapGet (tableAssignments new) k = Some a \<and>
                      count = length (replicasOutsideMove a) \<and> int count < factor}"
    using keys unfolding allocate_existing(6) [OF assms(1)] same [symmetric]
    by (auto simp: collectReplicationWarnings_def map_filter_def Let_def split: if_splits intro: rev_image_eqI)
  ultimately show ?thesis
    using same keys allocate_existing(4,5) [OF assms(1)] by (simp add: table_ok_def)
qed

theorem allocation_keeps_the_table_healthy_witness:
  "table_ok (tableAssignments sample_after) \<and>
    mapKeys (tableAssignments sample_after) = mapKeys (tableAssignments sample_before) \<and>
    tableVersion sample_after = tableVersion sample_before + 1 \<and> replicationFactor sample_after = 1 \<and>
    set [(1, 0)] = {(k, count). \<exists>a. mapGet (tableAssignments sample_after) k = Some a \<and>
                      count = length (replicasOutsideMove a) \<and> int count < 1}"
  by (rule allocation_keeps_the_table_healthy [OF sample_rebalance sample_before_ok])

text \<open>
  C19: a partition loses its primary only when no node that held every acknowledged write is
  registered, and then the table remembers all of those nodes as its last holders. As long as the
  primary or one in-sync replica is registered, the partition is served by such a node.
\<close>

theorem served_while_a_holder_is_registered:
  assumes "allocate fl nodes (Some table) name n factor constraints retainedIds = Inr (new, warnings)"
    and "table_ok (tableAssignments table)" and "mapGet (tableAssignments table) k = Some a"
    and "primary a \<noteq> None" and "\<not> neverReachedActive a"
  shows "\<exists>b. mapGet (tableAssignments new) k = Some b \<and>
    (if caught_up a \<inter> nodeId ` dataNodesOf nodes = {}
     then primary b = None \<and> partitionState b = UNASSIGNED \<and>
          set (lastHoldersOf b) = caught_up a \<union> set (lastHoldersOf a)
     else \<exists>leader \<in> caught_up a \<inter> nodeId ` dataNodesOf nodes.
            primary b = Some leader \<and> partitionState b = partitionState a)"
proof -
  have ok: "distinct (mapKeys (tableAssignments table))" "assignment_ok a"
    using assms(2,3) by (auto simp: table_ok_def)
  obtain m b F where b: "mapGet (tableAssignments new) k = Some b" and moved: "moved F m b"
    and lost: "lost (nodeId ` dataNodesOf nodes) (nodeId ` {r \<in> dataNodesOf nodes. draining r}) (set retainedIds) a m"
    by (rule allocate_assignment [OF assms(1) ok(1) assms(3)])
  note m = lost [unfolded lost_def, rule_format, OF ok(2)]
  note step = moved [unfolded moved_def, rule_format, OF conjunct1 [OF m]]
  have caught: "caught_up m \<subseteq> caught_up a \<inter> nodeId ` dataNodesOf nodes" "caught_up b \<subseteq> caught_up m"
    using m step assms(5) by (simp_all add: if_not_P)
  have states: "partitionState m = UNASSIGNED \<longleftrightarrow> primary m = None" "partitionState b = partitionState m"
    "primary b = None \<longleftrightarrow> primary m = None"
    using conjunct1 [OF m] step by (simp_all add: assignment_ok_def) auto
  show ?thesis
  proof (cases "primary m")
    case None
    then have "lastHoldersOf b = lastHoldersOf m" using step states by auto
    then show ?thesis using None m states assms(4) b by auto
  next
    case (Some leader)
    then obtain l where l: "primary b = Some l" using states(3) by (cases "primary b") auto
    then have "l \<in> caught_up b" by (simp add: caught_up_def)
    then have "l \<in> caught_up a \<inter> nodeId ` dataNodesOf nodes" using caught by blast
    moreover have "partitionState b = partitionState a" using m states Some by (metis option.discI)
    ultimately show ?thesis using b l by (intro exI [of _ b]) auto
  qed
qed

theorem served_while_a_holder_is_registered_witness:
  "\<exists>b. mapGet (tableAssignments sample_after) 1 = Some b \<and>
    (if caught_up (sample_assignment 97 [[98]] [] 3) \<inter>
        nodeId ` dataNodesOf [sample_node 98 False, sample_node 99 False] = {}
     then primary b = None \<and> partitionState b = UNASSIGNED \<and> set (lastHoldersOf b) =
          caught_up (sample_assignment 97 [[98]] [] 3) \<union> set (lastHoldersOf (sample_assignment 97 [[98]] [] 3))
     else \<exists>leader \<in> caught_up (sample_assignment 97 [[98]] [] 3) \<inter>
              nodeId ` dataNodesOf [sample_node 98 False, sample_node 99 False].
            primary b = Some leader \<and> partitionState b = partitionState (sample_assignment 97 [[98]] [] 3))"
  by (rule served_while_a_holder_is_registered [OF sample_rebalance sample_before_ok sample_before_get(2)])
    (simp_all add: neverReachedActive_def sample_assignment_def)



section \<open>The first table\<close>

text \<open>
  The first table has exactly the partitions from 0, each with a well-formed assignment of
  term 1 that is being initialised, at most as many replicas as asked for, and all its copies on
  registered data nodes that are willing to take them.
\<close>

theorem first_table_is_fresh:
  assumes "allocate fl nodes None name n factor constraints retainedIds = Inr (new, warnings)"
  shows "mapKeys (tableAssignments new) = [0..n - 1] \<and> table_ok (tableAssignments new) \<and> tableVersion new = 1 \<and>
    (\<forall>(k, a)\<in>set (tableAssignments new).
       partitionState a = INITIALISING \<and> assignedTerm a = 1 \<and> inSyncSet a = [] \<and> commitPoint a = 0 \<and>
       int (length (replicas a)) \<le> factor \<and>
       (\<forall>node\<in>copies a. \<exists>r\<in>dataNodesOf nodes. nodeId r = node \<and> willing r))"
proof -
  obtain P where P: "nodeMap P = nodesById (sortNodes (filter (\<lambda>n. Data_Role \<in> set (roles n)) nodes))"
    and as: "initialPartitions fl P factor [0..n - 1] [] = Inr (tableAssignments new)"
    and new: "tableVersion new = 1" "0 \<le> factor"
    by (rule allocate_first [OF assms])
  note built = initialPartitions_fresh [OF as]
  have keys: "mapKeys (tableAssignments new) = [0..n - 1]"
    and fresh: "\<forall>(k, a)\<in>set (tableAssignments new). fresh_assignment (placeable P) factor a"
    using built by (simp_all add: within_limit_def countNodeAssignments_node)
  have willing: "\<exists>r\<in>dataNodesOf nodes. nodeId r = node \<and> willing r" if "node \<in> placeable P" for node
    using fresh_nodesById that unfolding P by (fastforce simp: dataNodesOf_def sortNodes_def)
  have "table_ok (tableAssignments new)"
    using fresh keys by (auto simp: table_ok_def fresh_assignment_def dest!: map_of_SomeD)
  then show ?thesis
    using keys fresh willing new by (fastforce simp: fresh_assignment_def)
qed

theorem first_table_is_fresh_witness:
  "\<exists>new. allocate exact [sample_node 98 False, sample_node 99 False, sample_node 97 True] None [105] 2 1
       sample_constraints [] = Inr (new, []) \<and> mapKeys (tableAssignments new) = [0, 1] \<and> table_ok (tableAssignments new)"
  using first_table_is_fresh [OF sample_initial] sample_initial by (intro exI conjI) (auto simp: upto.simps)

text \<open>
  C32: no node carries more copies in the first table than the limit of shards per node allows.
\<close>

theorem first_table_respects_the_shard_limit:
  assumes "allocate fl nodes None name n factor constraints retainedIds = Inr (new, warnings)"
    and "maxShardsPerNode constraints = Some limit"
  shows "(\<Sum>(k, a)\<leftarrow>tableAssignments new. if node \<in> copies a then 1 else 0) \<le> max 0 limit"
proof -
  obtain P where P: "placeConstraints P = constraints"
    and as: "initialPartitions fl P factor [0..n - 1] [] = Inr (tableAssignments new)"
    by (rule allocate_first [OF assms(1)])
  note built = initialPartitions_fresh [OF as]
  have "within_limit (Some limit) (tableAssignments new)"
    and fresh: "\<forall>(k, a)\<in>set (tableAssignments new). fresh_assignment (placeable P) factor a"
    using built assms(2) P by (simp_all add: within_limit_def countNodeAssignments_node)
  then have "(\<Sum>(k, a)\<leftarrow>tableAssignments new. countIn node a) \<le> max 0 limit"
    by (simp add: within_limit_def countNodeAssignments_node)
  moreover have "(if node \<in> copies a then 1 else 0) \<le> countIn node a" if "(k, a) \<in> set (tableAssignments new)" for k a
    using fresh that by (auto simp: countIn_def copies_def fresh_assignment_def removingIncludes_def
        filter_empty_conv Suc_le_eq)
  then have "(\<Sum>(k, a)\<leftarrow>tableAssignments new. if node \<in> copies a then 1 else 0)
      \<le> (\<Sum>(k, a)\<leftarrow>tableAssignments new. countIn node a)"
    by (intro sum_list_mono) auto
  ultimately show ?thesis by linarith
qed

theorem first_table_respects_the_shard_limit_witness:
  "\<exists>new. allocate exact [sample_node 98 False, sample_node 99 False, sample_node 97 True] None [105] 2 1
       sample_constraints [] = Inr (new, []) \<and>
     (\<Sum>(k, a)\<leftarrow>tableAssignments new. if [98] \<in> copies a then 1 else 0) \<le> max 0 (3 :: int)"
  using first_table_respects_the_shard_limit [OF sample_initial, of 3 "[98]"] sample_initial
  by (auto simp: sample_constraints_def)



section \<open>Choosing a node\<close>

text \<open>
  A node is found exactly where some candidate is refused by no decider. The node found is
  such a candidate, and if any candidate passes every decider outright, so does the node found.
\<close>

theorem best_node_is_admitted:
  "(findBestNode fl candidates weights ds c = None \<longleftrightarrow>
      (\<forall>node\<in>set candidates. \<exists>d\<in>set ds. d (c\<lparr>candidateNodeId := node\<rparr>) = NO)) \<and>
   (findBestNode fl candidates weights ds c = Some best \<longrightarrow>
      best \<in> set candidates \<and> (\<forall>d\<in>set ds. d (c\<lparr>candidateNodeId := best\<rparr>) \<noteq> NO) \<and>
      ((\<exists>node\<in>set candidates. \<forall>d\<in>set ds. d (c\<lparr>candidateNodeId := node\<rparr>) = YES) \<longrightarrow>
       (\<forall>d\<in>set ds. d (c\<lparr>candidateNodeId := best\<rparr>) = YES)))"
proof (intro conjI impI)
  show "findBestNode fl candidates weights ds c = None \<longleftrightarrow>
      (\<forall>node\<in>set candidates. \<exists>d\<in>set ds. d (c\<lparr>candidateNodeId := node\<rparr>) = NO)"
    by (rule findBestNode_None)
  assume best: "findBestNode fl candidates weights ds c = Some best"
  show "best \<in> set candidates" "\<forall>d\<in>set ds. d (c\<lparr>candidateNodeId := best\<rparr>) \<noteq> NO"
    using findBestNode_admitted [OF best] by blast+
  assume "\<exists>node\<in>set candidates. \<forall>d\<in>set ds. d (c\<lparr>candidateNodeId := node\<rparr>) = YES"
  then obtain node where "node \<in> set candidates" "runAllDeciders ds (c\<lparr>candidateNodeId := node\<rparr>) = YES"
    by (auto simp: runAllDeciders_def runDecidersFrom_YES)
  then have "runAllDeciders ds (c\<lparr>candidateNodeId := best\<rparr>) = YES"
    using best pickNode_YES [of node "jsSort (lighter fl (foldl (\<lambda>m w. mapSet (weightNodeId w) w m) [] weights)
        (ctxRole c)) candidates" ds c None]
    unfolding findBestNode_def Let_def by auto
  then show "\<forall>d\<in>set ds. d (c\<lparr>candidateNodeId := best\<rparr>) = YES"
    by (simp add: runAllDeciders_def runDecidersFrom_YES)
qed

theorem best_node_is_admitted_witness:
  "\<exists>best. findBestNode exact [[97], [98]] [] [\<lambda>c. if candidateNodeId c = [97] then THROTTLE else YES]
      (primaryContext [] 0 []) = Some best \<and> best = [98]"
proof -
  let ?ds = "[\<lambda>c. if candidateNodeId c = [97] then THROTTLE else YES]" and ?c = "primaryContext [] 0 []"
  note facts = best_node_is_admitted [of exact "[[97], [98]]" "[]" ?ds ?c]
  obtain best where best: "findBestNode exact [[97], [98]] [] ?ds ?c = Some best"
    using facts by (cases "findBestNode exact [[97], [98]] [] ?ds ?c") auto
  then show ?thesis using facts [of best] by (auto split: if_splits)
qed

section \<open>Shares of capacity\<close>

text \<open>
  The share of a node that reports no memory is 0 as soon as another node reports some; only
  the functions that divide by a share count it as 1.
\<close>

theorem share_of_a_node_without_memory:
  assumes "0 < averageCapacity fl nodes" and "fl 0 = 0" and "r \<in> set nodes" and "memoryBytes r = 0"
    and "distinct (map nodeId nodes)"
  shows "mapGet (capacityShares fl nodes) (nodeId r) = Some 0 \<and>
    loadOf fl (nodeId r) counts (capacityShares fl nodes) = fl (of_int (mapGetOr 0 counts (nodeId r)))"
proof -
  let ?share = "\<lambda>node. if 0 < averageCapacity fl nodes then fl (memoryBytes node / averageCapacity fl nodes) else 1"
  have "distinct (map nodeId ns) \<Longrightarrow> r \<in> set ns \<Longrightarrow>
      mapGet (foldl (\<lambda>shares node. mapSet (nodeId node) (?share node) shares) m ns) (nodeId r) = Some (?share r)"
    for m and ns :: "node_registration list"
  proof (induction ns rule: rev_induct)
    case (snoc x xs)
    then show ?case by (cases "r = x") (auto simp: mapGet_set rev_image_eqI)
  qed simp
  then have "mapGet (capacityShares fl nodes) (nodeId r) = Some (?share r)"
    using assms(3,5) by (simp add: capacityShares_def Let_def)
  then show ?thesis using assms by (simp add: loadOf_def)
qed

theorem share_of_a_node_without_memory_witness:
  "mapGet (capacityShares exact [sample_node 97 False, (sample_node 98 False)\<lparr>memoryBytes := 0\<rparr>]) [98] = Some 0 \<and>
   loadOf exact [98] [([98], 4)] (capacityShares exact [sample_node 97 False, (sample_node 98 False)\<lparr>memoryBytes := 0\<rparr>]) = 4"
  using share_of_a_node_without_memory [of exact "[sample_node 97 False, (sample_node 98 False)\<lparr>memoryBytes := 0\<rparr>]"
      "(sample_node 98 False)\<lparr>memoryBytes := 0\<rparr>" "[([98], 4)]"]
  by (simp add: sample_node_def averageCapacity_def totalCapacity_def exact_def mapGetOr_def)

section \<open>Strings\<close>

text \<open>
  The comparison of strings is the lexicographic order of their code points, which the order
  of the code units is not.
\<close>

theorem compare_is_code_point_order:
  assumes "list_all scalar cs" and "list_all scalar ds"
  shows "(compareCodePoints (encode cs) (encode ds) < 0 \<longleftrightarrow> (cs, ds) \<in> lexord {(c, d). c < d}) \<and>
    (compareCodePoints (encode cs) (encode ds) = 0 \<longleftrightarrow> cs = ds)"
  using assms by (rule compareCodePoints_lexord)

theorem compare_is_code_point_order_witness:
  "compareCodePoints (encode [0xff5e]) (encode [0x1f600]) < 0 \<and> stringLess (encode [0x1f600]) (encode [0xff5e])"
  using compare_is_code_point_order [of "[0xff5e]" "[0x1f600]"]
  by (simp add: scalar_def encode_def fromCodePoint_def BASIC_PLANE_LAST_def)

text \<open>
  A repaired string has no unpaired surrogate, a string without one is left as it is, so
  repairing twice is repairing once.
\<close>

theorem repaired_strings_are_well_formed:
  "\<not> holdsUnpairedSurrogate (withUnpairedSurrogatesReplaced us) \<and>
   withUnpairedSurrogatesReplaced (withUnpairedSurrogatesReplaced us) = withUnpairedSurrogatesReplaced us \<and>
   (withUnpairedSurrogatesReplaced us = us \<or> holdsUnpairedSurrogate us)"
  using repaired_paired [of 0 us] repairFrom_paired [of 0 us]
    repairFrom_paired [OF repaired_paired, of us] firstUnpairedFrom_surrogate [of 0 us]
  by (auto simp: repaired_eq holdsUnpairedSurrogate_def firstUnpairedSurrogate_def)

text \<open>The test of the number of code points against a bound is exact, although it stops early.\<close>

theorem code_point_bound_is_exact:
  "exceedsCodePoints us maximum \<longleftrightarrow> maximum < codePointCount us"
  by (rule exceeds_count)

end
