(* ===== verification/Coordinator_Leases.thy ===== *)
theory Coordinator_Leases
  imports Coordinator
begin

text \<open>
  The leases of the in-memory coordinator as a state machine: the operations on leases, timers that
  run out, and time that passes on both clocks alike. The invariant ties every pending timer to the
  one lease it is to end. A renewal that comes too late breaks it, because it forgets the lease but
  not its timer; \<open>lease_step\<close> leaves such renewals out.
\<close>

inductive lease_step :: "('x, 'schema) coordinator_state \<Rightarrow> ('x, 'schema) coordinator_state \<Rightarrow> bool" where
  acquire: "acquireLease key node ttlMs S = (answer, S') \<Longrightarrow> lease_step S S'"
| renew: "isLeaseValid key S \<or> map_option leaseNodeId (mapGet (leases S) key) \<noteq> Some node \<Longrightarrow>
    renewLease key node ttlMs S = (answer, S') \<Longrightarrow> lease_step S S'"
| release: "releaseLease key S = (finished, S') \<Longrightarrow> lease_step S S'"
| holder: "getLeaseHolder key S = (found, S') \<Longrightarrow> lease_step S S'"
| register: "registerNode registration S = (finished, S') \<Longrightarrow> lease_step S S'"
| deregister: "deregisterNode node S = (finished, S') \<Longrightarrow> lease_step S S'"
| timeout: "lease_step S (fireTimer t S)"
| elapse: "0 \<le> d \<Longrightarrow> lease_step S (S\<lparr>dateNow := dateNow S + d, performanceNow := performanceNow S + d\<rparr>)"

inductive lease_reachable :: "('x, 'schema) coordinator_state \<Rightarrow> bool" where
  created: "lease_reachable (createInMemoryCoordinator date perf)"
| step: "lease_reachable S \<Longrightarrow> lease_step S S' \<Longrightarrow> lease_reachable S'"

text \<open>The timers and the leases, without the rest of the state.\<close>

definition timers_match :: "(nat, js_string \<times> int) js_map \<Rightarrow> (js_string, lease_entry) js_map \<Rightarrow> nat \<Rightarrow> int \<Rightarrow> int \<Rightarrow> bool" where
  "timers_match ts ls n date perf \<longleftrightarrow>
     (\<forall>t key due. mapGet ts t = Some (key, due) \<longrightarrow> t < n \<and>
        (\<exists>e. mapGet ls key = Some e \<and> leaseTimer e = t \<and> expiresAt e - date = due - perf))"

definition lease_inv :: "('x, 'schema) coordinator_state \<Rightarrow> bool" where
  "lease_inv S \<longleftrightarrow> timers_match (timers S) (leases S) (nextTimer S) (dateNow S) (performanceNow S)"

lemma timers_match_cleared:
  assumes "timers_match ts ls n date perf" and "mapGet ls key = Some e"
  shows "timers_match (AList.delete (leaseTimer e) ts) (AList.delete key ls) n date perf"
    and "\<And>t due. mapGet (AList.delete (leaseTimer e) ts) t \<noteq> Some (key, due)"
  using assms unfolding timers_match_def
  by (auto simp: AList.delete_conv' split: if_splits) (metis option.inject)+

lemma timers_match_unheld:
  assumes "timers_match ts ls n date perf" and "mapGet ls key = None"
  shows "mapGet ts t \<noteq> Some (key, due)"
  using assms unfolding timers_match_def by force

lemma timers_match_set:
  assumes "timers_match ts ls n date perf" and "\<And>t due. mapGet ts t \<noteq> Some (key, due)"
  shows "timers_match (ts @ [(n, key, perf + ttl)])
    (mapSet key \<lparr>leaseNodeId = node, expiresAt = date + ttl, leaseTimer = n\<rparr> ls) (n + 1) date perf"
  unfolding timers_match_def
proof (intro allI impI)
  fix t k due
  assume t: "mapGet (ts @ [(n, key, perf + ttl)]) t = Some (k, due)"
  show "t < n + 1 \<and> (\<exists>e. mapGet (mapSet key \<lparr>leaseNodeId = node, expiresAt = date + ttl, leaseTimer = n\<rparr> ls) k
      = Some e \<and> leaseTimer e = t \<and> expiresAt e - date = due - perf)"
  proof (cases "mapGet ts t")
    case None
    then have "t = n" "k = key" "due = perf + ttl" using t by (auto simp: map_add_def split: if_splits)
    then show ?thesis by (simp add: mapGet_set)
  next
    case (Some entry)
    then have "mapGet ts t = Some (k, due)" using t by (simp add: map_add_def)
    moreover from this have "k \<noteq> key" using assms(2) by blast
    ultimately show ?thesis using assms(1) unfolding timers_match_def by (fastforce simp: mapGet_set)
  qed
qed

section \<open>The operations keep the invariant\<close>

lemma clearLeaseEntry_inv:
  assumes "lease_inv S"
  shows "lease_inv (clearLeaseEntry key S)" and "mapGet (timers (clearLeaseEntry key S)) t \<noteq> Some (key, due)"
    and "nextTimer (clearLeaseEntry key S) = nextTimer S"
  using assms timers_match_cleared timers_match_unheld
  by (auto simp: lease_inv_def clearLeaseEntry_def clearTimer_def split: option.splits)

lemma setLease_inv:
  assumes "lease_inv S" and "\<And>t due. mapGet (timers S) t \<noteq> Some (key, due)"
  shows "lease_inv (setLease key node ttlMs S)"
  using timers_match_set [of "timers S" "leases S" "nextTimer S" "dateNow S" "performanceNow S" key ttlMs node] assms
  by (simp add: lease_inv_def setLease_def createLeaseTimer_def)

lemma clearTimer_inv:
  assumes "lease_inv S" and "mapGet (leases S) key = Some e"
  shows "lease_inv (clearTimer (leaseTimer e) S)" and "mapGet (timers (clearTimer (leaseTimer e) S)) t \<noteq> Some (key, due)"
  using assms timers_match_cleared(2) [of "timers S" "leases S" "nextTimer S" "dateNow S" "performanceNow S" key e t due]
  by (auto simp: lease_inv_def clearTimer_def timers_match_def AList.delete_conv' split: if_splits)

lemma lease_inv_cong:
  "timers S' = timers S \<Longrightarrow> leases S' = leases S \<Longrightarrow> nextTimer S' = nextTimer S \<Longrightarrow> dateNow S' = dateNow S \<Longrightarrow>
   performanceNow S' = performanceNow S \<Longrightarrow> lease_inv S' = lease_inv S"
  by (simp add: lease_inv_def)

lemma emit_inv [simp]: "lease_inv (emit e S) = lease_inv S"
  by (rule lease_inv_cong) (simp_all add: emit_def)

lemma relet_inv:
  assumes "lease_inv S"
  shows "lease_inv (setLease key node ttlMs (clearLeaseEntry key S))"
    and "mapGet (leases S) key = Some e \<Longrightarrow> lease_inv (setLease key node ttlMs (clearTimer (leaseTimer e) S))"
  by (rule setLease_inv, rule clearLeaseEntry_inv [OF assms], rule clearLeaseEntry_inv(2) [OF assms])
    (rule setLease_inv, rule clearTimer_inv [OF assms], assumption, rule clearTimer_inv(2) [OF assms])

lemma acquireLease_inv:
  assumes "lease_inv S" and "acquireLease key node ttlMs S = (answer, S')"
  shows "lease_inv S'"
  using assms relet_inv [OF assms(1)]
  by (auto simp: acquireLease_def whenUp_def split: if_splits option.splits)

lemma renewLease_inv:
  assumes "lease_inv S" and "renewLease key node ttlMs S = (answer, S')"
    and "isLeaseValid key S \<or> map_option leaseNodeId (mapGet (leases S) key) \<noteq> Some node"
  shows "lease_inv S'"
  using assms relet_inv [OF assms(1)]
  by (auto simp: renewLease_def whenUp_def split: if_splits option.splits)

lemma expire_fields:
  "timers (expire key S) = timers S" "leases (expire key S) = AList.delete key (leases S)"
  "nextTimer (expire key S) = nextTimer S" "dateNow (expire key S) = dateNow S"
  "performanceNow (expire key S) = performanceNow S"
  by (simp_all add: expire_def Let_def emit_def)

lemma fireTimer_inv:
  assumes "lease_inv S"
  shows "lease_inv (fireTimer t S)"
proof (cases "mapGet (timers S) t")
  case (Some entry)
  obtain key due where entry: "entry = (key, due)" by fastforce
  obtain e where e: "mapGet (leases S) key = Some e" "leaseTimer e = t"
    using assms Some unfolding entry lease_inv_def timers_match_def by blast
  have "lease_inv (expire key (clearTimer t S))"
    using assms timers_match_cleared(1) [of "timers S" "leases S" _ _ _ key e] e
    by (simp add: lease_inv_def expire_fields clearTimer_def)
  then show ?thesis using assms Some entry by (simp add: fireTimer_def)
qed (simp add: fireTimer_def assms)

lemma lease_step_inv:
  assumes "lease_step S S'" and inv: "lease_inv S"
  shows "lease_inv S'"
  using assms(1)
proof cases
  case (register registration finished)
  let ?key = "heartbeatKey (nodeId registration)"
  obtain m h where S': "isShutdown S \<and> S' = S \<or> lease_inv S' =
      lease_inv (setLease ?key (nodeId registration) NODE_HEARTBEAT_TTL_MS
        (clearLeaseEntry ?key (S\<lparr>knownNodes := m, registrationsHeldUntil := h\<rparr>)))"
    using register by (auto simp: registerNode_def whenUp_def Let_def split: if_splits option.splits)
  have "lease_inv (S\<lparr>knownNodes := m, registrationsHeldUntil := h\<rparr>)"
    using inv by (simp add: lease_inv_def)
  then show ?thesis using S' inv relet_inv(1) by blast
next
  case (deregister node finished)
  obtain m h where S': "isShutdown S \<and> S' = S \<or> lease_inv S' =
      lease_inv (clearLeaseEntry (heartbeatKey node) (S\<lparr>knownNodes := m, registrationsHeldUntil := h\<rparr>))"
    using deregister by (auto simp: deregisterNode_def whenUp_def Let_def split: if_splits)
  have "lease_inv (S\<lparr>knownNodes := m, registrationsHeldUntil := h\<rparr>)"
    using inv by (simp add: lease_inv_def)
  then show ?thesis using S' inv clearLeaseEntry_inv by blast
next
  case (release key finished)
  then show ?thesis using inv clearLeaseEntry_inv(1) by (auto simp: releaseLease_def whenUp_def split: if_splits)
next
  case (holder key found)
  then show ?thesis using inv clearLeaseEntry_inv(1) by (auto simp: getLeaseHolder_def whenUp_def split: if_splits)
next
  case (elapse d)
  have "timers_match (timers S) (leases S) (nextTimer S) (dateNow S + d) (performanceNow S + d)"
    using inv unfolding lease_inv_def timers_match_def by fastforce
  then show ?thesis unfolding elapse by (simp add: lease_inv_def)
qed (use inv acquireLease_inv renewLease_inv fireTimer_inv in blast)+

lemma lease_reachable_inv: "lease_reachable S \<Longrightarrow> lease_inv S"
proof (induction rule: lease_reachable.induct)
  case (created date perf)
  show ?case by (simp add: lease_inv_def timers_match_def createInMemoryCoordinator_def)
qed (rule lease_step_inv)

text \<open>A timer ends no lease that is still valid.\<close>

lemma fireTimer_valid:
  assumes "lease_inv S" and "isLeaseValid key S"
  shows "mapGet (leases (fireTimer t S)) key = mapGet (leases S) key"
proof (cases "mapGet (timers S) t")
  case (Some entry)
  obtain k due where entry: "entry = (k, due)" by fastforce
  obtain e where e: "mapGet (leases S) k = Some e" "expiresAt e - dateNow S = due - performanceNow S"
    using assms(1) Some unfolding entry lease_inv_def timers_match_def by blast
  have "k \<noteq> key" if "due \<le> performanceNow S"
    using assms(2) e that by (auto simp: isLeaseValid_def)
  then show ?thesis
    using Some entry by (auto simp: fireTimer_def expire_fields clearTimer_def AList.delete_conv')
qed (simp add: fireTimer_def)

end
