(* ===== verification/Recovery_Departures.thy ===== *)
theory Recovery_Departures
  imports Controller_Runs
begin

text \<open>
  What the recovery of a partition concludes from the answers of its last holders, and which absent
  nodes a departure run retains.
\<close>

section \<open>Answers of holders\<close>

text \<open>A response in which a node reports the partition for the index with this identity.\<close>

definition reports :: "codec \<Rightarrow> index_name \<Rightarrow> js_string \<Rightarrow> partition_id \<Rightarrow> bytes option \<Rightarrow> bool" where
  "reports D name uuid pid response \<longleftrightarrow>
     (\<exists>decoded answer. Option.bind response (decodeValue D) = Some decoded \<and>
        validatePartitionStoresResultPayload decoded = Some answer \<and> storesIndex answer = name \<and>
        storesUuid answer = Some uuid \<and> pid \<in> set (storesPartitions answer))"

lemma storesAnswer_held:
  "(\<exists>pids. storesAnswer D name uuid response = Held pids \<and> pid \<in> set pids) \<longleftrightarrow> reports D name uuid pid response"
  by (auto simp: storesAnswer_def reports_def split: option.splits)

definition answersOf :: "codec \<Rightarrow> index_name \<Rightarrow> js_string \<Rightarrow> (node_id \<Rightarrow> bytes option) \<Rightarrow> node_id list
    \<Rightarrow> (node_id, stores_answer) js_map" where
  "answersOf D name uuid response candidates = map (\<lambda>n. (n, storesAnswer D name uuid (response n))) candidates"

lemma mapGet_answersOf:
  "mapGet (answersOf D name uuid response candidates) n =
   (if n \<in> set candidates then Some (storesAnswer D name uuid (response n)) else None)"
  by (induction candidates) (auto simp: answersOf_def)

lemma holderThatAnswered_Some:
  "holderThatAnswered a pid answers = Some n \<Longrightarrow>
   n \<in> set (lastHoldersOf a) \<and> (\<exists>pids. mapGet answers n = Some (Held pids) \<and> pid \<in> set pids)"
proof -
  let ?holders = "jsSort (\<lambda>x y. compareCodePoints x y < 0) (lastHoldersOf a)"
  assume "holderThatAnswered a pid answers = Some n"
  then have "n \<in> set ?holders"
    "case mapGet answers n of Some (Held pids) \<Rightarrow> pid \<in> set pids | _ \<Rightarrow> False"
    unfolding holderThatAnswered_def find_Some_iff by (metis nth_mem, blast)
  then show ?thesis by (auto split: option.splits stores_answer.splits)
qed

lemma holderThatAnswered_None:
  "holderThatAnswered a pid answers = None \<longleftrightarrow>
   \<not> (\<exists>n\<in>set (lastHoldersOf a). \<exists>pids. mapGet answers n = Some (Held pids) \<and> pid \<in> set pids)"
  by (auto simp: holderThatAnswered_def find_None_iff split: option.splits stores_answer.splits)

section \<open>Departures\<close>

definition leftAt :: "(node_id, int) js_map \<Rightarrow> departure_run \<Rightarrow> node_id \<Rightarrow> int" where
  "leftAt departedAt run n = (case mapGet departedAt n of Some t \<Rightarrow> t | None \<Rightarrow> runNow run)"

text \<open>Noting a departure changes no time of departure.\<close>

lemma leftAt_noted:
  "runNow run' = runNow run \<Longrightarrow>
   leftAt (if mapGet departedAt m = None then mapSet m (leftAt departedAt run m) departedAt else departedAt) run' n
   = leftAt departedAt run n"
  by (auto simp: leftAt_def mapGet_set split: option.split)

lemma retainLoop_Cons:
  "retainLoop delayMs (m # ns) retained departedAt run =
     (if m \<in> set (registeredNodeIds run) then retainLoop delayMs ns retained departedAt run
      else let noted = (if mapGet departedAt m = None then mapSet m (leftAt departedAt run m) departedAt else departedAt);
               seen = run\<lparr>referencedNodes := setAdd (referencedNodes run) m\<rparr>
           in if runNow run - leftAt departedAt run m < delayMs
              then retainLoop delayMs ns (setAdd retained m) noted
                     (seen\<lparr>retainedNodes := setAdd (retainedNodes run) m\<rparr>)
              else retainLoop delayMs ns retained noted seen)"
  by (cases "mapGet departedAt m") (simp_all add: Let_def leftAt_def)

lemma retainLoop_result:
  assumes "retainLoop delayMs ns retained departedAt run = (kept, departed, run')"
  shows "set kept = set retained \<union> {n \<in> set ns. n \<notin> set (registeredNodeIds run) \<and>
      runNow run - leftAt departedAt run n < delayMs} \<and>
    (\<forall>n. mapGet departed n = (if n \<in> set ns \<and> n \<notin> set (registeredNodeIds run)
      then Some (leftAt departedAt run n) else mapGet departedAt n))"
  using assms
proof (induction ns arbitrary: retained departedAt run)
  case (Cons m ns)
  show ?case
  proof (cases "m \<in> set (registeredNodeIds run)")
    case True
    then have "retainLoop delayMs ns retained departedAt run = (kept, departed, run')"
      using Cons.prems by simp
    from Cons.IH [OF this] show ?thesis using True by auto
  next
    case False
    let ?noted = "if mapGet departedAt m = None then mapSet m (leftAt departedAt run m) departedAt else departedAt"
    obtain retained' seen where next_run: "retainLoop delayMs ns retained' ?noted seen = (kept, departed, run')"
      and same: "runNow seen = runNow run" "registeredNodeIds seen = registeredNodeIds run"
      and retained': "set retained' = set retained \<union> {n. n = m \<and> runNow run - leftAt departedAt run m < delayMs}"
    proof (cases "runNow run - leftAt departedAt run m < delayMs")
      case late: True
      show thesis
        by (rule that [of "setAdd retained m" "run\<lparr>referencedNodes := setAdd (referencedNodes run) m,
              retainedNodes := setAdd (retainedNodes run) m\<rparr>"])
          (use Cons.prems False late in \<open>simp_all add: retainLoop_Cons setAdd_def insert_absorb del: retainLoop.simps\<close>)
    next
      case gone: False
      show thesis
        by (rule that [of retained "run\<lparr>referencedNodes := setAdd (referencedNodes run) m\<rparr>"])
          (use Cons.prems False gone in \<open>simp_all add: retainLoop_Cons del: retainLoop.simps\<close>)
    qed
    have noted: "mapGet ?noted n = (if n = m then Some (leftAt departedAt run m) else mapGet departedAt n)" for n
      by (auto simp: mapGet_set leftAt_def)
    note IH = Cons.IH [OF next_run, unfolded same leftAt_noted [OF same(1)] noted]
    show ?thesis
      using IH False unfolding retained' by auto
  qed
qed simp

definition copyHolders :: "allocation_table \<Rightarrow> node_id set" where
  "copyHolders table = (\<Union>(pid, a) \<in> set (tableAssignments table). copies a)"

lemma set_copyHoldersOf: "set (copyHoldersOf table) = copyHolders table"
proof -
  let ?f = "\<lambda>holders (pid, a).
         foldl setAdd (case primary a of Some p \<Rightarrow> setAdd holders p | None \<Rightarrow> holders) (replicas a)"
  have adds: "set (foldl setAdd ys xs) = set ys \<union> set xs" for xs ys :: "node_id list"
    by (induction xs arbitrary: ys) (auto simp: setAdd_def)
  have "set (foldl ?f ys xs) = set ys \<union> (\<Union>(pid, a) \<in> set xs. copies a)" for ys and xs :: assignments
  proof (induction xs arbitrary: ys)
    case (Cons x xs)
    have "set (?f ys x) = set ys \<union> (case x of (pid, a) \<Rightarrow> copies a)"
      by (cases x; cases "primary (snd x)") (simp_all add: adds copies_def, simp add: setAdd_def insert_absorb)
    then show ?case using Cons.IH by (simp add: Un_assoc)
  qed simp
  from this [of "[]"] show ?thesis by (simp add: copyHoldersOf_def copyHolders_def)
qed

end
