(* ===== verification/Metadata_Roundtrip.thy ===== *)
theory Metadata_Roundtrip
  imports Index_Metadata
begin

text \<open>What is written as the metadata of an index is what is read back.\<close>

definition metadata_ok :: "index_metadata \<Rightarrow> bool" where
  "metadata_ok m \<longleftrightarrow> indexUuidOf m \<noteq> [] \<and> length (indexUuidOf m) \<le> 128 \<and>
     0 < partitionCountOf m \<and> partitionCountOf m \<le> MAX_PARTITION_COUNT \<and>
     0 \<le> factorOf m \<and> factorOf m \<le> MAX_REPLICATION_FACTOR"

lemma metadata_fields:
  "field (metadataValue m settings) ''indexUuid'' = Some (JStr (indexUuidOf m))"
  "field (metadataValue m settings) ''indexName'' = Some (JStr (metadataIndex m))"
  "field (metadataValue m settings) ''partitionCount'' = Some (JNum (Num (of_int (partitionCountOf m))))"
  "field (metadataValue m settings) ''replicationFactor'' = Some (JNum (Num (of_int (factorOf m))))"
  "field (metadataValue m settings) ''constraints'' = Some (constraintsValue (constraintsOf m))"
  "isRecord (metadataValue m settings)"
  by (simp_all add: metadataValue_def field_def js_def)

lemma constraints_fields:
  "field (constraintsValue c) ''zoneAwareness'' = Some (JBool (zoneAwareness c))"
  "field (constraintsValue c) ''zoneAttribute'' = Some (JStr (zoneAttribute c))"
  "field (constraintsValue c) ''maxShardsPerNode'' = Some (case maxShardsPerNode c of None \<Rightarrow> JNull
     | Some n \<Rightarrow> JNum (Num (of_int n)))"
  "isRecord (constraintsValue c)"
  by (simp_all add: constraintsValue_def field_def js_def)

lemma constraintsFrom_value: "constraintsFrom (constraintsValue c) = c"
  by (cases "maxShardsPerNode c") (simp_all add: constraintsFrom_def constraints_fields)

lemma validate_metadataValue:
  assumes "metadata_ok m"
  shows "validateDecodedMetadata (metadataValue m settings) = Inr m"
proof -
  have "isNumberOrAbsent (field (constraintsValue (constraintsOf m)) ''maxShardsPerNode'')"
    by (simp add: constraints_fields split: option.split)
  then show ?thesis
    using assms
    by (simp add: validateDecodedMetadata_def metadata_fields constraints_fields constraintsFrom_value
        metadata_ok_def asString_Some asInteger_Some integral_def)
qed

lemma put_then_get:
  assumes codec: "decodeValue D (encodeValue D (metadataValue m settings)) = Some (metadataValue m settings)"
      "encodeValue D (metadataValue m settings) \<noteq> []"
    and "metadata_ok m"
    and put: "putIndexMetadata inMemoryCoordinator D (\<lambda>n s. s) m settings (n, S) = (Inr True, n', S')"
  shows "getIndexMetadata inMemoryCoordinator D (\<lambda>n s. s) (metadataIndex m) (k, S') = (Inr (Some m), k + 1, S')"
proof -
  let ?key = "indexConfigKey (metadataIndex m)" and ?octets = "encodeValue D (metadataValue m settings)"
  have written: "isShutdown T' = False \<and> mapGet (kvStore T') key = Some v"
    if "compareAndSet inMemoryCoordinator key expected v T = (Inr True, T')" for T T' :: "('a, 'b) coordinator_state"
      and key expected v
    using that
    by (auto simp: inMemoryCoordinator_def memCompareAndSet_def whenUp_def emitMetadata_def emit_def mapGet_set
        split: if_splits option.splits)
  have valid: "validateIndexName (metadataIndex m) = Inr ()"
    using put by (cases "validateIndexName (metadataIndex m)") (auto simp: putIndexMetadata_def andThen_def fromResult_def)
  have "isShutdown S' = False \<and> mapGet (kvStore S') ?key = Some ?octets"
    using put written
    by (fastforce simp: putIndexMetadata_def valid andThen_def fromResult_def call_def return_def Let_def
        split: sum.splits prod.splits if_splits option.splits)
  then have get: "getKey inMemoryCoordinator ?key S' = (Inr (Some ?octets), S')"
    by (simp add: inMemoryCoordinator_def memGetKey_def whenUp_def)
  show ?thesis
    using codec validate_metadataValue [OF assms(3)]
    by (simp add: getIndexMetadata_def readStoredMetadata_def valid andThen_def fromResult_def call_def return_def get
        decodeMetadata_def)
qed

end
