(* ===== verification/Controller_Properties.thy ===== *)
theory Controller_Properties
  imports Sample_Cluster Coordinator_Leases Recovery_Departures Metadata_Roundtrip
begin

text \<open>
  The properties of the control plane, each with a concrete instance: the tasks of the controller
  over the in-memory coordinator, the histories of the allocation table, recovery and departures,
  and the coordinator itself.
\<close>

section \<open>Tasks\<close>


lemma sample_task:
  "controller_task inMemoryCoordinator sample_codec (\<lambda>n s. s) [105] [120] (0, sample_state)
     (4, snd (snd (handleInsyncRemoveMessage inMemoryCoordinator sample_codec (\<lambda>n s. s) (\<lambda>n. True) [97] [1] [120]
        (0, sample_state))))"
  by (rule controller_task.on_removal [OF sample_removal_decoded _ sample_removal_run])
    (simp add: sample_removal_def)


text \<open>C39: a task ends after at most 24 calls of the coordinator, whatever the others do in between.\<close>

theorem tasks_end:
  assumes "controller_task C D others name writer (n, s) (n', s')"
  shows "n \<le> n' \<and> n' \<le> n + 24"
  by (rule calls_task [OF assms])

theorem tasks_end_witness: "(0 :: nat) \<le> 4 \<and> (4 :: nat) \<le> 0 + 24"
  by (rule tasks_end [OF sample_task])

section \<open>Histories of a table\<close>

text \<open>
  C3: whatever steps the controller has written in between, no two different nodes lead a partition
  under the same term.
\<close>

theorem one_leader_per_term:
  assumes "table_run table admitted new" and "table_ok (tableAssignments table)"
    and "mapGet (tableAssignments table) k = Some a" and "mapGet (tableAssignments new) k = Some b"
    and "primary a = Some p" and "primary b = Some q" and "assignedTerm a = assignedTerm b"
  shows "p = q"
proof -
  obtain c where "mapGet (tableAssignments new) k = Some c" "assignment_ok a" "evolves {n. (k, n) \<in> admitted} a c"
    by (rule run_assignment [OF assms(1-3)])
  then show ?thesis using assms(4-7) by (auto simp: evolves_def)
qed

text \<open>Node 97 resigns partition 0 to node 98, which admits nobody; partition 1 admits node 98.\<close>

definition sample_resigned :: allocation_table where
  "sample_resigned = withAssignment sample_before 0 (failedOver exact [[97], [98]] [97] (sample_assignment 97 [[98]] [[98]] 3))"

definition sample_admitted :: allocation_table where
  "sample_admitted = withAssignment sample_resigned 1
     ((sample_assignment 97 [[98]] [[98]] 3)\<lparr>commitPoint := 11\<rparr>)"

lemma unstamped: "stampedWith table None = table"
  by (simp add: stampedWith_def)

lemma sample_resigned_step: "table_step sample_before {} sample_resigned"
proof (rule table_step.resignation)
  show "resigned exact \<lparr>resignIndex = [105], resignIndexUuid = [], resignPartition = 0, resignTerm = 3\<rparr> [97]
      (Some sample_before) sample_resigned"
    unfolding resigned_def
    by (intro exI [of _ sample_before] exI [of _ "sample_assignment 97 [[98]] [[98]] 3"]
        exI [of _ "[[97], [98]]"] exI [of _ None])
      (simp add: sample_before_get unstamped sample_resigned_def, simp add: sample_assignment_def)
qed

lemma sample_resigned_get:
  "mapGet (tableAssignments sample_resigned) 0 = Some ((sample_assignment 98 [[97]] [] 4))"
  "mapGet (tableAssignments sample_resigned) 1 = Some (sample_assignment 97 [[98]] [] 3)"
  by code_simp+

lemma sample_admitted_step: "table_step sample_resigned {(1, [98])} sample_admitted"
proof -
  have "decided 1 3 (decideAdmission sample_admission) (Some sample_resigned) sample_admitted"
    unfolding decided_def
    by (intro exI [of _ sample_resigned] exI [of _ "sample_assignment 97 [[98]] [] 3"] exI [of _ None]
        exI [of _ "(sample_assignment 97 [[98]] [[98]] 3)\<lparr>commitPoint := 11\<rparr>"])
      (simp add: sample_resigned_get unstamped sample_admitted_def,
       simp add: sample_assignment_def decideAdmission_def sample_admission_def)
  from table_step.admission [OF this] show ?thesis by (simp add: sample_admission_def)
qed

lemma sample_run: "table_run sample_before {(1, [98])} sample_admitted"
  using table_run.onward [OF table_run.onward [OF table_run.unchanged sample_resigned_step] sample_admitted_step]
  by simp

lemma sample_admitted_get:
  "mapGet (tableAssignments sample_admitted) 0 = Some (sample_assignment 98 [[97]] [] 4)"
  "mapGet (tableAssignments sample_admitted) 1 = Some ((sample_assignment 97 [[98]] [[98]] 3)\<lparr>commitPoint := 11\<rparr>)"
  using sample_resigned_get by (simp_all add: sample_admitted_def mapGet_set)

theorem one_leader_per_term_witness:
  "primary (sample_assignment 97 [[98]] [] 3)
   = primary ((sample_assignment 97 [[98]] [[98]] 3)\<lparr>commitPoint := 11\<rparr>) \<and>
   mapGet (tableAssignments sample_admitted) 0 = Some (sample_assignment 98 [[97]] [] 4)"
proof -
  have "([97] :: node_id) = [97]"
    by (rule one_leader_per_term [OF sample_run sample_before_ok sample_before_get(2) sample_admitted_get(2)])
      (simp_all add: sample_assignment_def)
  then show ?thesis using sample_admitted_get(1) by (simp add: sample_assignment_def)
qed

text \<open>
  C14: along every history a healthy table stays healthy and keeps its partitions, its version rises
  with every step, so that equal versions mean equal tables, and no term and no commit point falls.
\<close>

theorem histories_keep_tables_healthy:
  assumes "table_run table admitted new" and "table_ok (tableAssignments table)"
  shows "table_ok (tableAssignments new) \<and> mapKeys (tableAssignments new) = mapKeys (tableAssignments table) \<and>
    (new = table \<or> tableVersion table < tableVersion new) \<and>
    (\<forall>k a b. mapGet (tableAssignments table) k = Some a \<and> mapGet (tableAssignments new) k = Some b \<longrightarrow>
       assignedTerm a \<le> assignedTerm b \<and> commitPoint a \<le> commitPoint b)"
proof -
  note run = run_evolves [OF assms]
  have "assignedTerm a \<le> assignedTerm b \<and> commitPoint a \<le> commitPoint b"
    if a: "mapGet (tableAssignments table) k = Some a" and b: "mapGet (tableAssignments new) k = Some b" for k a b
  proof -
    obtain c where "mapGet (tableAssignments new) k = Some c" "assignment_ok a" "evolves {n. (k, n) \<in> admitted} a c"
      by (rule run_assignment [OF assms a])
    then show ?thesis using b by (simp add: evolves_def)
  qed
  then show ?thesis using run assms(2) table_evolves_ok by (auto simp: table_evolves_def)
qed

theorem histories_keep_tables_healthy_witness:
  "table_ok (tableAssignments sample_admitted) \<and> mapKeys (tableAssignments sample_admitted) = [0, 1] \<and>
   assignedTerm (sample_assignment 97 [[98]] [[98]] 3) \<le> assignedTerm (sample_assignment 98 [[97]] [] 4)"
proof -
  note facts = histories_keep_tables_healthy [OF sample_run sample_before_ok]
  have "mapKeys (tableAssignments sample_before) = [0, 1]" by (simp add: sample_before_def sample_table_def)
  then show ?thesis using facts sample_before_get(1) sample_admitted_get(1) by metis
qed

text \<open>
  C7: once a partition has been active, only nodes that were trusted with all its acknowledged
  writes, or that have been admitted since, are trusted with them, be it as primary, as in-sync
  replica or as last holder. No failure, hand-over, recovery or reallocation adds any other.
\<close>

theorem only_admitted_nodes_become_trusted:
  assumes "table_run table admitted new" and "table_ok (tableAssignments table)"
    and "mapGet (tableAssignments table) k = Some a" and "\<not> neverReachedActive a"
  shows "\<exists>b. mapGet (tableAssignments new) k = Some b \<and> \<not> neverReachedActive b \<and>
    set_option (primary b) \<union> set (inSyncSet b) \<union> set (lastHoldersOf b)
      \<subseteq> set_option (primary a) \<union> set (inSyncSet a) \<union> set (lastHoldersOf a) \<union> {node. (k, node) \<in> admitted}"
proof -
  obtain b where b: "mapGet (tableAssignments new) k = Some b" "assignment_ok a"
    "evolves {n. (k, n) \<in> admitted} a b"
    by (rule run_assignment [OF assms(1-3)])
  then have "\<not> neverReachedActive b" "trusted b \<subseteq> trusted a \<union> {n. (k, n) \<in> admitted}"
    using assms(4) by (simp_all add: evolves_def)
  then show ?thesis using b(1) by (simp add: trusted_def caught_up_def)
qed

theorem only_admitted_nodes_become_trusted_witness:
  "\<exists>b. mapGet (tableAssignments sample_admitted) 1 = Some b \<and> [98] \<in> set (inSyncSet b) \<and>
    set_option (primary b) \<union> set (inSyncSet b) \<union> set (lastHoldersOf b) \<subseteq> {[97]} \<union> {[98]}"
proof -
  have "\<not> neverReachedActive (sample_assignment 97 [[98]] [] 3)" by (rule sample_reached_active(2))
  from only_admitted_nodes_become_trusted [OF sample_run sample_before_ok sample_before_get(2) this]
  show ?thesis using sample_admitted_get(2) by (auto simp: sample_assignment_def lastHoldersOf_def)
qed

section \<open>The in-sync set\<close>

text \<open>
  C12: an admission to the in-sync set is confirmed only when, at that moment, the stored table has
  the replica in sync under the term of the request, a commit point no lower than the one of the
  request, and the replica has applied all writes up to that commit point; unconfirmed, nothing
  has been written.
\<close>

theorem confirmed_admission_holds:
  assumes "handleInsyncAdmission inMemoryCoordinator D others p writer (n, S) = (Inr answer, n', S')"
    and "stable storedTables others H (requestIndex p)" and "versions_name H (storedTables S (requestIndex p))"
  shows "if accepted answer
    then \<exists>table a. storedTables S' (requestIndex p) = Some table \<and>
       mapGet (tableAssignments table) (requestPartition p) = Some a \<and> assignedTerm a = requestTerm p \<and>
       replicaNodeId p \<in> set (inSyncSet a) \<and> replicaNodeId p \<in> set (replicas a) \<and>
       requestCommitPoint p \<le> commitPoint a \<and> commitPoint a \<le> appliedSeqNo p
    else reached others storedTables S S'"
proof -
  obtain ok where ok: "answer = confirmFor p ok" "if ok
      then settled storedTables leadsCluster others H (requestIndex p) S writer (requestPartition p) (requestTerm p)
             (decideAdmission p) S'
      else moment storedTables others H (requestIndex p) S S'"
    using hoareD [OF memory.insync_admission [OF assms(2)] memory.moment_start [OF assms(3)] assms(1)] by auto
  show ?thesis
  proof (cases ok)
    case True
    with ok have "settled storedTables leadsCluster others H (requestIndex p) S writer (requestPartition p)
        (requestTerm p) (decideAdmission p) S'" by simp
    then obtain table b a where b: "storedTables S' (requestIndex p) = Some table"
      "mapGet (tableAssignments table) (requestPartition p) = Some b" "assignedTerm a = requestTerm p"
      "decideAdmission p a = Accept \<and> b = a \<or> decideAdmission p a = Write b"
      by (rule settled_assignment)
    have "assignedTerm b = requestTerm p \<and> replicaNodeId p \<in> set (inSyncSet b) \<and>
        replicaNodeId p \<in> set (replicas b) \<and> requestCommitPoint p \<le> commitPoint b \<and> commitPoint b \<le> appliedSeqNo p"
      using b(4)
    proof
      assume "decideAdmission p a = Accept \<and> b = a"
      then show ?thesis using b(3) by (auto simp: decideAdmission_def Let_def max_def split: if_splits)
    next
      assume "decideAdmission p a = Write b"
      then show ?thesis using b(3) decideAdmission_evolves [of p a b] by auto
    qed
    then show ?thesis using b(1,2) True ok(1) by (simp add: confirmFor_def)
  next
    case False
    then show ?thesis using ok by (simp add: confirmFor_def moment_def)
  qed
qed

lemma sample_admission_run:
  "handleInsyncAdmission inMemoryCoordinator sample_codec (\<lambda>n s. s) sample_admission [120] (0, sample_state)
   = (Inr (confirmFor sample_admission True), 4,
      snd (snd (handleInsyncAdmission inMemoryCoordinator sample_codec (\<lambda>n s. s) sample_admission [120]
        (0, sample_state))))"
  by code_simp

theorem confirmed_admission_holds_witness:
  "\<exists>(S' :: (unit, unit) coordinator_state) table a. storedTables S' [105] = Some table \<and>
     mapGet (tableAssignments table) 1 = Some a \<and>
     assignedTerm a = 3 \<and> [98] \<in> set (inSyncSet a) \<and> 11 \<le> commitPoint a \<and> commitPoint a \<le> 12"
proof -
  have "versions_name sample_versions (storedTables sample_state (requestIndex sample_admission))"
    using sample_named by (simp add: sample_admission_def)
  from confirmed_admission_holds [OF sample_admission_run idle_stable this]
  show ?thesis
    by (intro exI [of _ "snd (snd (handleInsyncAdmission inMemoryCoordinator sample_codec (\<lambda>n s. s) sample_admission [120]
        (0, sample_state)))"]) (auto simp: confirmFor_def sample_admission_def)
qed

text \<open>
  C34: a removal from the in-sync set is confirmed only when, at that moment, the stored table has
  the replica out of sync under the term of the request; so no primary that was deposed meanwhile
  drops a write on the strength of a stale confirmation. Unconfirmed, nothing has been written.
\<close>

theorem confirmed_removal_holds:
  assumes "handleInsyncRemoval inMemoryCoordinator D others p writer (n, S) = (Inr answer, n', S')"
    and "stable storedTables others H (requestIndex p)" and "versions_name H (storedTables S (requestIndex p))"
  shows "if accepted answer
    then \<exists>table a. storedTables S' (requestIndex p) = Some table \<and>
       mapGet (tableAssignments table) (requestPartition p) = Some a \<and> assignedTerm a = requestTerm p \<and>
       partitionState a \<noteq> UNASSIGNED \<and> replicaNodeId p \<notin> set (inSyncSet a)
    else reached others storedTables S S'"
proof -
  obtain ok where ok: "answer = confirmFor p ok" "if ok
      then settled storedTables leadsCluster others H (requestIndex p) S writer (requestPartition p) (requestTerm p)
             (decideRemoval (replicaNodeId p)) S'
      else moment storedTables others H (requestIndex p) S S'"
    using hoareD [OF memory.insync_removal [OF assms(2)] memory.moment_start [OF assms(3)] assms(1)] by auto
  show ?thesis
  proof (cases ok)
    case True
    with ok have "settled storedTables leadsCluster others H (requestIndex p) S writer (requestPartition p)
        (requestTerm p) (decideRemoval (replicaNodeId p)) S'" by simp
    then obtain table b a where b: "storedTables S' (requestIndex p) = Some table"
      "mapGet (tableAssignments table) (requestPartition p) = Some b" "assignedTerm a = requestTerm p"
      "decideRemoval (replicaNodeId p) a = Accept \<and> b = a \<or> decideRemoval (replicaNodeId p) a = Write b"
      by (rule settled_assignment)
    then have "assignedTerm b = requestTerm p \<and> partitionState b \<noteq> UNASSIGNED \<and> replicaNodeId p \<notin> set (inSyncSet b)"
      by (auto simp: decideRemoval_def split: if_splits)
    then show ?thesis using b(1,2) True ok(1) by (simp add: confirmFor_def)
  next
    case False
    then show ?thesis using ok by (simp add: confirmFor_def moment_def)
  qed
qed

lemma sample_removal_handled:
  "handleInsyncRemoval inMemoryCoordinator sample_codec (\<lambda>n s. s) sample_removal [120] (0, sample_state)
   = (Inr (confirmFor sample_removal True), 3,
      snd (snd (handleInsyncRemoval inMemoryCoordinator sample_codec (\<lambda>n s. s) sample_removal [120]
        (0, sample_state))))"
  by code_simp

theorem confirmed_removal_holds_witness:
  "\<exists>(S' :: (unit, unit) coordinator_state) table a. storedTables S' [105] = Some table \<and>
     mapGet (tableAssignments table) 0 = Some a \<and> assignedTerm a = 3 \<and> [98] \<notin> set (inSyncSet a)"
proof -
  have "versions_name sample_versions (storedTables sample_state (requestIndex sample_removal))"
    using sample_named by (simp add: sample_removal_def)
  from confirmed_removal_holds [OF sample_removal_handled idle_stable this]
  show ?thesis
    by (intro exI [of _ "snd (snd (handleInsyncRemoval inMemoryCoordinator sample_codec (\<lambda>n s. s) sample_removal [120]
        (0, sample_state)))"]) (auto simp: confirmFor_def sample_removal_def)
qed

text \<open>
  C38: while nobody else acts, a removal that the node with the lease handles is written at the first
  attempt: it is confirmed, and the table differs in the in-sync set of that partition, in its
  version, and in the identity of the index if that was missing.
\<close>

theorem undisturbed_removal_is_written:
  assumes "\<not> isShutdown S" and "leadsCluster S writer"
    and "storedTables S (requestIndex p) = Some table" and "tableIndexName table = requestIndex p"
    and "mapGet (tableAssignments table) (requestPartition p) = Some a" and "assignedTerm a = requestTerm p"
    and "partitionState a \<noteq> UNASSIGNED" and "replicaNodeId p \<in> set (inSyncSet a)"
    and "getIndexMetadata inMemoryCoordinator D (\<lambda>n s. s) (requestIndex p) (1, S) = (Inr m, 2, S)"
    and "\<not> belongsToAnotherIndex table (map_option indexUuidOf m)"
  shows "\<exists>S'. handleInsyncRemoval inMemoryCoordinator D (\<lambda>n s. s) p writer (0, S) = (Inr (confirmFor p True), 3, S') \<and>
    storedTables S' = (storedTables S)(requestIndex p := Some (stampedWith (withAssignment table (requestPartition p)
      (a\<lparr>inSyncSet := filter (\<lambda>node. node \<noteq> replicaNodeId p) (inSyncSet a)\<rparr>)) (map_option indexUuidOf m)))"
proof -
  let ?b = "a\<lparr>inSyncSet := filter (\<lambda>node. node \<noteq> replicaNodeId p) (inSyncSet a)\<rparr>"
  have up: "coordinatorUp S" using assms(1) by (simp add: coordinatorUp_def)
  have b: "decideRemoval (replicaNodeId p) a = Write ?b" using assms(7,8) by (simp add: decideRemoval_def)
  note metadata = assms(9) [unfolded One_nat_def]
  obtain S' where S': "updateInsyncLoop inMemoryCoordinator D (\<lambda>n s. s) (requestIndex p) (requestPartition p)
        (requestTerm p) writer (decideRemoval (replicaNodeId p)) (Suc 4) (0, S) = (Inr True, Suc 2, S')"
    "storedTables S' = (storedTables S)(requestIndex p := Some (stampedWith (withAssignment table (requestPartition p)
      ?b) (map_option indexUuidOf m)))"
    using available_memory.undisturbed_update [where decide = "decideRemoval (replicaNodeId p)" and k = 4,
      OF up assms(2-6) b metadata assms(10)] by blast
  have "handleInsyncRemoval inMemoryCoordinator D (\<lambda>n s. s) p writer (0, S) = (Inr (confirmFor p True), 3, S')"
    unfolding handleInsyncRemoval_def updateInsyncSet_def INSYNC_CAS_ATTEMPTS_def andThen_def
    using S'(1) by (simp add: return_def del: updateInsyncLoop.simps)
  then show ?thesis using S'(2) by blast
qed

theorem undisturbed_removal_is_written_witness:
  "\<exists>S'. handleInsyncRemoval inMemoryCoordinator sample_codec (\<lambda>n s. s) sample_removal [120] (0, sample_state)
      = (Inr (confirmFor sample_removal True), 3, S') \<and>
    map_option tableVersion (storedTables S' [105]) = Some 5"
proof -
  have metadata: "getIndexMetadata inMemoryCoordinator sample_codec (\<lambda>n s. s) [105] (1, sample_state)
      = (Inr None, 2, sample_state)" by code_simp
  have "\<not> isShutdown sample_state" "leadsCluster sample_state [120]" by code_simp+
  moreover have "storedTables sample_state (requestIndex sample_removal) = Some sample_before"
    "tableIndexName sample_before = requestIndex sample_removal"
    "\<not> belongsToAnotherIndex sample_before (map_option indexUuidOf None)"
    using sample_stored by (simp_all add: sample_removal_def sample_before_def sample_table_def belongsToAnotherIndex_def)
  moreover have "getIndexMetadata inMemoryCoordinator sample_codec (\<lambda>n s. s) (requestIndex sample_removal)
      (1, sample_state) = (Inr None, 2, sample_state)"
    using metadata by (simp add: sample_removal_def)
  ultimately show ?thesis
    using undisturbed_removal_is_written [of sample_state "[120]" sample_removal sample_before
        "sample_assignment 97 [[98]] [[98]] 3" sample_codec None] sample_before_get(1)
    by (auto simp: sample_removal_def sample_assignment_def sample_before_def sample_table_def)
qed

section \<open>Recovery and departures\<close>





text \<open>A recovery that writes only the reason of a partition answers that nothing was recovered.\<close>

definition sample_lost :: "(unit, unit) coordinator_state" where
  "sample_lost = sample_state\<lparr>allocations := [([105], sample_after)]\<rparr>"

lemma a_reason_is_no_recovery:
  "\<exists>S'. recoverUnassignedPartitions inMemoryCoordinator sample_codec (\<lambda>n s. s) (\<lambda>n. True) (\<lambda>n node. None) [120] [105] []
      (0, sample_lost) = (Inr False, 4, S') \<and>
     map_option tableVersion (storedTables S' [105]) = Some (tableVersion sample_after + 1)"
proof -
  let ?run = "recoverUnassignedPartitions inMemoryCoordinator sample_codec (\<lambda>n s. s) (\<lambda>n. True) (\<lambda>n node. None) [120]
      [105] [] (0, sample_lost)"
  have "fst ?run = Inr False" "fst (snd ?run) = 4"
    "map_option tableVersion (storedTables (snd (snd ?run)) [105]) = Some (tableVersion sample_after + 1)"
    by code_simp+
  then show ?thesis by (intro exI [of _ "snd (snd ?run)"]) (simp add: prod_eq_iff)
qed

text \<open>
  A departure run retains exactly those absent nodes with a copy in the table whose absence is
  shorter than the delay; an absence that is first noticed counts from this run on, and one that was
  noticed keeps its time.
\<close>

theorem departures_retain_recent_absences:
  assumes "retainedNodesFor delayMs departedAt run table = (retained, departed, run')"
  shows "set retained = {node \<in> copyHolders table. node \<notin> set (registeredNodeIds run) \<and>
       runNow run - (case mapGet departedAt node of Some t \<Rightarrow> t | None \<Rightarrow> runNow run) < delayMs} \<and>
    (\<forall>node. mapGet departed node = (if node \<in> copyHolders table \<and> node \<notin> set (registeredNodeIds run)
       then Some (case mapGet departedAt node of Some t \<Rightarrow> t | None \<Rightarrow> runNow run) else mapGet departedAt node))"
  using retainLoop_result [OF assms [unfolded retainedNodesFor_def]] by (simp add: set_copyHoldersOf leftAt_def)

theorem departures_retain_recent_absences_witness:
  "\<exists>retained departed run'. retainedNodesFor 60 [([97], 10)] (startDepartureRun 100 [[99]]) sample_before
      = (retained, departed, run') \<and> [98] \<in> set retained \<and> [97] \<notin> set retained \<and> mapGet departed [98] = Some 100"
proof -
  let ?run = "retainedNodesFor 60 [([97], 10)] (startDepartureRun 100 [[99]]) sample_before"
  obtain retained departed run' where run: "?run = (retained, departed, run')" by (cases ?run)
  have "[98] \<in> copyHolders sample_before"
    by (auto simp: copyHolders_def sample_before_def sample_table_def sample_assignment_def copies_def)
  then show ?thesis
    using departures_retain_recent_absences [OF run] run by (auto simp: startDepartureRun_def)
qed

section \<open>The coordinator\<close>








text \<open>
  C40: metadata that is within the limits of the code and that the codec can decode again is read
  back as it was written.
\<close>

theorem metadata_round_trip:
  assumes "decodeValue D (encodeValue D (metadataValue m settings)) = Some (metadataValue m settings)"
    and "encodeValue D (metadataValue m settings) \<noteq> []" and "metadata_ok m"
    and "putIndexMetadata inMemoryCoordinator D (\<lambda>n s. s) m settings (n, S) = (Inr True, n', S')"
  shows "getIndexMetadata inMemoryCoordinator D (\<lambda>n s. s) (metadataIndex m) (k, S') = (Inr (Some m), k + 1, S')"
  by (rule put_then_get [OF assms])

definition sample_metadata :: index_metadata where
  "sample_metadata = \<lparr>indexUuidOf = [117], metadataIndex = [105], partitionCountOf = 2, factorOf = 1,
     constraintsOf = sample_constraints\<rparr>"

definition sample_storing :: codec where
  "sample_storing = \<lparr>decodeValue = (\<lambda>bytes. if bytes = [9] then Some (metadataValue sample_metadata None) else None),
     encodeValue = (\<lambda>v. [9])\<rparr>"

theorem metadata_round_trip_witness:
  "\<exists>S'. fst (getIndexMetadata inMemoryCoordinator sample_storing (\<lambda>n s. s) [105] (7, S' :: (unit, unit) coordinator_state))
      = Inr (Some sample_metadata)"
proof -
  let ?put = "putIndexMetadata inMemoryCoordinator sample_storing (\<lambda>n s. s) sample_metadata None (0, sample_state)"
  have "fst ?put = Inr True" by code_simp
  then obtain n' S' where put: "?put = (Inr True, n', S')" by (cases ?put) auto
  have "decodeValue sample_storing (encodeValue sample_storing (metadataValue sample_metadata None))
      = Some (metadataValue sample_metadata None)"
    "encodeValue sample_storing (metadataValue sample_metadata None) \<noteq> []" "metadata_ok sample_metadata"
    by (simp_all add: sample_storing_def metadata_ok_def sample_metadata_def MAX_PARTITION_COUNT_def
        MAX_REPLICATION_FACTOR_def)
  from metadata_round_trip [OF this put, of 7] show ?thesis
    by (intro exI [of _ S']) (simp add: sample_metadata_def)
qed

end
