(* ===== verification/Spec2Isabelle.thy ===== *)
theory Spec2Isabelle
  imports Search_Properties Replication_Properties Allocator_Properties Controller_Properties
begin

text \<open>
  Narsil is a search engine that runs in one process or as a cluster. This development models two
  parts of it: the engine that answers pattern filters (wildcards, regular expressions and literal
  tests over field values) and the cluster logic that replicates, places and recovers the
  partitions of an index. Paths below are relative to \<open>packages/ts/src\<close>. Definitions keep the
  names of the code; each theory opens with the files that it models.

  \<^bold>\<open>Shared ground.\<close> \<open>Prelude\<close>: typed arrays, 32-bit indices, folds. \<open>Bitset\<close> (\<open>core/bitset.ts\<close>): sets
  of documents on 32-bit words. \<open>Js_Values\<close>: numbers, strings in the order of \<open><\<close>, maps that iterate
  in insertion order, the stable sort. \<open>Code_Points\<close> (\<open>core/ordering/code-points.ts\<close>). \<open>Crc32\<close>
  (\<open>serialization/crc32.ts\<close>): the table-driven checksum and its bitwise definition.

  \<^bold>\<open>Patterns.\<close> A pattern is parsed into a syntax tree, lowered to a plan over code points,
  compiled to an automaton, and run over the text of each value:
    \<^item> \<open>Pattern_Host\<close> (\<open>core/ordering/fold-table.ts\<close>, \<open>pattern/fold-sources.ts\<close>): case folding.
      The packed tables are data, so the host is any pair of tables of the documented shape whose
      code points are no surrogates and at most \<open>0x10ffff\<close>, as are those of the code.
    \<^item> \<open>Pattern_Ast\<close>, \<open>Pattern_Tests\<close>, \<open>Pattern_Lower\<close> (\<open>pattern/expression/\<close>): syntax trees
      and their meaning as the spans of a value they describe, code point tests, and the lowering
      with the lemma that it keeps the spans.
    \<^item> \<open>Pattern_Automaton\<close>, \<open>Pattern_Paths\<close> (\<open>pattern/automaton.ts\<close>): programs, the walk
      \<open>closeOver\<close> over silent states with its stamped marks, and the paths of a program.
    \<^item> \<open>Pattern_Compile\<close>, \<open>Pattern_Compiled\<close>, \<open>Pattern_Program\<close> (\<open>pattern/expression/compile.ts\<close>):
      the compiler, and the proof that the paths of its program are the spans of the plan.
    \<^item> \<open>Pattern_Simulation\<close> (\<open>pattern/position-simulation.ts\<close>): the simulation of all positions at
      once, refined to reachability in the program.
    \<^item> \<open>Pattern_Text\<close> (\<open>pattern/text.ts\<close>): UTF-16 code units, code points and run keys.
    \<^item> \<open>Work_Meter\<close> (\<open>core/pattern-index/work-meter.ts\<close>, \<open>pattern/work-tally.ts\<close>): the budget.
    \<^item> \<open>Pattern_Matcher\<close> (\<open>pattern/evaluate.ts\<close>): the locale \<open>value_matcher\<close> of the matchers and
      \<open>matchesText\<close>, correct for every interpretation.
    \<^item> \<open>Literal_Matcher\<close> (\<open>pattern/literal-matcher.ts\<close>): the literal matcher, an interpretation.
    \<^item> \<open>Pattern_Classes\<close>: code points of one class of a program take the same edges, so an edge can be
      kept per class. \<open>Lazy_Dfa\<close> (\<open>pattern/lazy-dfa.ts\<close>): the automaton that determinises a program
      while it reads, with its cache and its byte counts. Its states are objects that are shared
      and change, so they live in a store. \<open>Lazy_Dfa_Cache\<close>: keys name their states uniquely.
      \<open>Lazy_Dfa_Matcher\<close>: everything in the cache is right, and the second interpretation of
      \<open>value_matcher\<close>; a state of the automaton stands for a set of positions of the simulation.
    \<^item> \<open>Pattern_Properties\<close>: the properties of one text. The main one composes them all: the program
      that the compiler makes of a pattern, run over a value, answers what the pattern means.

  \<^bold>\<open>Searching.\<close> An index of runs (three folded code points in a row) narrows a search down to the
  documents that can match; the matcher then reads their values:
    \<^item> \<open>Required_Runs\<close> (\<open>pattern/expression/required-runs.ts\<close>): the runs that every match must hold.
    \<^item> \<open>Pattern_Shortlist\<close> (\<open>pattern/shortlist.ts\<close>): the locale \<open>run_index\<close> of what a search relies on in
      an index, and the shortlist with its work.
    \<^item> \<open>Pattern_Search\<close> (\<open>pattern/evaluate.ts\<close>): \<open>matchPattern\<close>, in the locale \<open>pattern_search\<close> that joins an
      index and a matcher: it adds exactly the matching documents, and returns within a known budget.
    \<^item> \<open>Growing_Index\<close> (\<open>pattern/growing-index.ts\<close>): the index that changes, with its lists that are
      sorted and compacted when they are read, an interpretation of \<open>run_index\<close>.
    \<^item> \<open>Frozen_Index\<close> (\<open>pattern/runs-arrays.ts\<close>, \<open>pattern/frozen-index.ts\<close>): the index as four arrays, read
      by bisection, the other interpretation. \<open>Index_Arrays\<close>: from an index to arrays and back.
    \<^item> \<open>Search_Tests\<close>: the tests of a search satisfy what \<open>matchPattern\<close> needs of them.
      \<open>Index_History\<close>: every index that operations can make (\<open>grown\<close>) represents its documents;
      \<open>pattern_search\<close> is interpreted for both indices with both matchers.
    \<^item> \<open>Search_Properties\<close>: what a search promises as a whole.

  \<^bold>\<open>Replication.\<close> A primary appends entries to the log of its partition and sends them on; a
  replica that was away reads what it has missed or copies everything:
    \<^item> \<open>Replication_Log\<close> (\<open>distribution/replication/log.ts\<close>, \<open>distribution/cluster-node/replication-logs.ts\<close>):
      the log with its eviction by size, terms, reads and the checks of an append.
    \<^item> \<open>Replication_History\<close>: the log refines the history of all entries since its seed.
    \<^item> \<open>Replica_Apply\<close> (\<open>distribution/cluster-node/\<close>, \<open>distribution/replication/\<close>): how a replica checks and
      applies a batch. \<open>Replica_Matching\<close>: log matching between primary and replica.

  \<^bold>\<open>Allocation.\<close> \<open>Cluster_Types\<close>: nodes, assignments, tables. \<open>Allocator_Weights\<close>,
  \<open>Allocator_Moves\<close>, \<open>Allocator\<close> (\<open>distribution/cluster/allocator/\<close>): shares and weights of nodes,
  the chain of deciders, lost nodes, moves, leadership, and \<open>allocate\<close> itself. Floating-point
  division is rounding by an arbitrary function \<open>fl\<close>. \<open>Allocator_Safety\<close> and \<open>Allocator_Losses\<close>
  relate an assignment before and after a run (\<open>moved\<close>, \<open>lost\<close>); \<open>Allocator_Initial\<close> is the first table.

  \<^bold>\<open>Coordinator and controller.\<close> The shared state of the cluster and the process that rewrites it:
    \<^item> \<open>Coordinator\<close> (\<open>distribution/coordinator/in-memory.ts\<close>): all operations, both clocks, the pending
      timers and the events that watchers see. \<open>Coordinator_Leases\<close>: leases as a state machine.
    \<^item> \<open>Cluster_Process\<close>: a handler is a sequence of coordinator calls; before the \<open>n\<close>-th one the rest of
      the cluster changes the state by an arbitrary \<open>others n\<close>. Every theorem over handlers holds for
      all of them, with the stated limits only.
    \<^item> \<open>Cluster_Payloads\<close> (validators of messages, versions), \<open>Index_Metadata\<close> and \<open>Metadata_Roundtrip\<close>
      (\<open>distribution/cluster/index-metadata.ts\<close>; the codec is a parameter).
    \<^item> \<open>Table_Updates\<close>, \<open>Partition_Recovery\<close>, \<open>Controller_Runs\<close> (\<open>distribution/replication/insync.ts\<close>,
      \<open>distribution/cluster/controller/\<close>): the handlers of the controller, with their bounded loops of
      read, decide, write under the version read.
    \<^item> \<open>Table_Store\<close>: the locale of what a handler relies on in a coordinator, interpreted by the
      in-memory one. \<open>Table_Handlers\<close>: inside it, each handler takes effect at one moment or not at all.
    \<^item> \<open>Table_History\<close>: the step relation \<open>table_step\<close> of one table and its invariants;
      \<open>Controller_Tasks\<close>: every task refines it; \<open>Task_Bounds\<close>: every task ends after at most 24 calls;
      \<open>Table_Availability\<close>: an undisturbed update is written; \<open>Recovery_Departures\<close>: answers and absences.
    \<^item> \<open>Sample_Cluster\<close>: the concrete cluster of the witnesses.

  \<^bold>\<open>Assumptions.\<close> The theorems on handlers suppose that, during a task, a version of the table of one
  index names one table. A table that is deleted and created again under the same name restarts its
  versions, so a task that is suspended over such a deletion is outside these theorems. Sending a
  question to a node, the codec of metadata, the interleaving and the rounding are parameters.

  The numbers of documents are below \<open>2 ^ 32\<close>, as typed arrays require. The size of a program in bytes is
  a parameter of the lazy automaton.

  \<^bold>\<open>Bounds.\<close> The walk \<open>closeOver\<close> terminates because a state is marked when it is pushed; its measure
  counts unmarked states. The loops of the allocator shrink a list or a number of missing copies. The
  loops of the handlers make five attempts, as the code does. No definition takes fuel of its own.

  \<^bold>\<open>Not modelled.\<close> Of the patterns: the parsers, the cache of expressions, tests within an edit
  distance (every search has the tolerance 0), merging and storing run indices. Otherwise: clocks,
  byte estimates of programs, network and file I/O, the queue and timers of the event loop, the etcd
  coordinator, elections, the inverted index with its floating-point scores, vector search,
  tokenizers and stemmers, persistence, workers and the HTTP server.
\<close>

end
